(* ===== verification/Prelude.thy ===== *)
theory Prelude
  imports Main "HOL-Library.Word"
begin

text \<open>
  Vocabulary shared by the component theories: names for the machine integer types of the
  C sources, checked array accesses, and the fact collections the component proofs draw on.
  An out-of-range array access is the value None, so a theorem that a routine returns
  \<open>Some\<close> also says that the routine stays inside its arrays.
\<close>

unbundle bit_operations_syntax

section \<open>Fact collections\<close>

named_theorems frame_simps "updates outside the footprint of a heap predicate"
named_theorems shape_simps "unfolding of heap and container predicates on constructor patterns"

section \<open>Machine integers\<close>

type_synonym u8 = "8 word"
type_synonym u16 = "16 word"
type_synonym u32 = "32 word"
type_synonym u64 = "64 word"

text \<open>A C \<open>int\<close> is 32 bits wide; a value is in range when it is representable.\<close>

definition int32_ok :: "int \<Rightarrow> bool" where
  "int32_ok i \<longleftrightarrow> - (2 ^ 31) \<le> i \<and> i < 2 ^ 31"

text \<open>The implementation-defined conversion of an unsigned value to a C \<open>int\<close>.\<close>

definition to_int32 :: "nat \<Rightarrow> int" where
  "to_int32 n = sint (of_nat n :: 32 word)"

lemma to_int32_small [simp]: "n < 2 ^ 31 \<Longrightarrow> to_int32 n = int n"
proof -
  assume n: "n < 2 ^ 31"
  have "signed_take_bit 31 (int n) = int n"
    using n by (intro signed_take_bit_int_eq_self) auto
  then show ?thesis by (simp add: to_int32_def signed_of_nat)
qed

section \<open>Bytes in memory\<close>

text \<open>Memory is a function from addresses to bytes; integers are little-endian.\<close>

definition bytes_at :: "(nat \<Rightarrow> u8) \<Rightarrow> nat \<Rightarrow> nat \<Rightarrow> u8 list" where
  "bytes_at mem a n = map mem [a..<a + n]"

definition load_u32 :: "(nat \<Rightarrow> u8) \<Rightarrow> nat \<Rightarrow> u32" where
  "load_u32 mem a = word_rcat (rev (bytes_at mem a 4))"

lemma length_bytes_at [simp]: "length (bytes_at mem a n) = n"
  by (simp add: bytes_at_def)

text \<open>A machine word as bytes, least significant first, and back.\<close>

definition le_bytes :: "nat \<Rightarrow> 'a::len word \<Rightarrow> u8 list" where
  "le_bytes n w = map (\<lambda>k. ucast (drop_bit (8 * k) w)) [0..<n]"

definition from_le :: "u8 list \<Rightarrow> 'a::len word" where
  "from_le bs = foldr (\<lambda>b w. push_bit 8 w OR ucast b) bs 0"

lemma length_le_bytes [simp]: "length (le_bytes n w) = n"
  by (simp add: le_bytes_def)

lemma bit_from_le:
  "bit (from_le bs :: 'a::len word) n \<longleftrightarrow> n < LENGTH('a) \<and> n div 8 < length bs \<and> bit (bs ! (n div 8)) (n mod 8)"
proof (induction bs arbitrary: n)
  case Nil
  then show ?case by (simp add: from_le_def)
next
  case (Cons b bs)
  have c: "(from_le (b # bs) :: 'a word) = push_bit 8 (from_le bs) OR ucast b" by (simp add: from_le_def)
  show ?case
  proof (cases "n < 8")
    case True
    then show ?thesis unfolding c by (auto simp: bit_simps)
  next
    case False
    then have "n div 8 = Suc ((n - 8) div 8)" "(n - 8) mod 8 = n mod 8" "\<not> bit b n"
      by (simp_all add: le_div_geq le_mod_geq) (auto dest: bit_imp_le_length)
    with False show ?thesis unfolding c by (auto simp: bit_simps Cons)
  qed
qed

lemma le_bytes_from_le:
  assumes "length bs = n" and "8 * n \<le> LENGTH('a)"
  shows "le_bytes n (from_le bs :: 'a::len word) = bs"
proof (rule nth_equalityI)
  fix i assume "i < length (le_bytes n (from_le bs :: 'a word))"
  then have i: "i < n" by simp
  have "(ucast (drop_bit (8 * i) (from_le bs :: 'a word)) :: u8) = bs ! i"
  proof (rule bit_word_eqI)
    fix k assume "k < LENGTH(8)"
    then have "k < 8" "8 * i + k < LENGTH('a)" using i assms(2) by auto
    then show "bit (ucast (drop_bit (8 * i) (from_le bs :: 'a word)) :: u8) k = bit (bs ! i) k"
      using i assms(1) by (simp add: bit_simps bit_from_le)
  qed
  then show "le_bytes n (from_le bs :: 'a word) ! i = bs ! i" using i by (simp add: le_bytes_def)
qed (simp add: assms(1))

lemma from_le_bytes_word:
  assumes "8 * n = LENGTH('a)"
  shows "from_le (le_bytes n w) = (w :: 'a::len word)"
proof (rule bit_word_eqI)
  fix k assume k: "k < LENGTH('a)"
  then have "k div 8 < n" using assms by linarith
  with k show "bit (from_le (le_bytes n w) :: 'a word) k = bit w k"
    by (simp add: bit_from_le le_bytes_def bit_simps)
qed

lemma from_le_inject:
  assumes "length bs = n" "length cs = n" "8 * n \<le> LENGTH('a)"
  shows "(from_le bs :: 'a::len word) = from_le cs \<longleftrightarrow> bs = cs"
  using le_bytes_from_le [OF assms(1,3)] le_bytes_from_le [OF assms(2,3)] by metis

section \<open>Checked array accesses\<close>

definition arr_get :: "'a list \<Rightarrow> nat \<Rightarrow> 'a option" where
  "arr_get xs i = (if i < length xs then Some (xs ! i) else None)"

definition arr_set :: "'a list \<Rightarrow> nat \<Rightarrow> 'a \<Rightarrow> 'a list option" where
  "arr_set xs i v = (if i < length xs then Some (xs[i := v]) else None)"

lemma arr_get_ok [simp]: "i < length xs \<Longrightarrow> arr_get xs i = Some (xs ! i)"
  by (simp add: arr_get_def)

lemma arr_set_ok [simp]: "i < length xs \<Longrightarrow> arr_set xs i v = Some (xs[i := v])"
  by (simp add: arr_set_def)

lemma arr_get_Some_iff: "arr_get xs i = Some v \<longleftrightarrow> i < length xs \<and> v = xs ! i"
  by (auto simp: arr_get_def)

section \<open>Searching a list\<close>

lemma find_append: "find P (xs @ ys) = (case find P xs of None \<Rightarrow> find P ys | Some x \<Rightarrow> Some x)"
  by (induction xs) simp_all

lemma find_map: "find P (map f xs) = map_option f (find (\<lambda>x. P (f x)) xs)"
  by (induction xs) simp_all

lemma find_Some_in: "find P xs = Some x \<Longrightarrow> x \<in> set xs \<and> P x"
  by (induction xs) (auto split: if_splits)

end
