(* ===== verification/ErrorCodes.thy ===== *)
theory ErrorCodes
  imports Prelude
begin

text \<open>
  The error codes of \<open>sonic/std_error_codes.h\<close> and \<open>sonic/std_error_ids.h\<close>, built
  with the mask macros of \<open>sonic/std_bit_masks.h\<close>. A \<open>t_std_error\<close> is a C \<open>int\<close>,
  kept here as a 32-bit word: bit 31 is the error flag, bits 25..30 the subsystem, bits
  15..24 the error class, bits 0..14 the private part (an \<open>errno\<close>, say).
\<close>

section \<open>Identifiers\<close>

datatype e_std_error_subsystems =
    e_std_err_NULL | e_std_err_NPU | e_std_err_BOARD | e_std_err_TEST | e_std_err_INTERFACE
  | e_std_err_DIAG | e_std_err_COM | e_std_err_HALCOM | e_std_err_QOS | e_std_err_ROUTE
  | e_std_err_ACL | e_std_err_CPSNAS | e_std_err_MGMT | e_std_err_MAC | e_std_err_STG
  | e_std_err_MIRROR | e_std_err_SFLOW | e_std_err_CPSAPI | e_std_err_LACP | e_std_err_XSTP
  | e_std_err_LLDP | e_std_err_DOT1X | e_std_err_L2MAC | e_std_err_L2CMN | e_std_err_OSPFV2
  | e_std_err_OSPFV3 | e_std_err_BGP | e_std_err_RTM | e_std_err_POLICY | e_std_err_NAS_OS
  | e_std_err_PAS | e_std_err_ENV_TMPCTL | e_std_err_L3SERVICES | e_std_err_IPM
  | e_std_err_SWUPDATE | e_std_err_DATASTORE | e_std_err_PORT_SEC | e_std_err_MGMT_INTF
  | e_std_err_CHM | e_std_err_ETL | e_std_err_IFM | e_std_err_ISSU | e_std_err_NDM
  | e_std_err_PM | e_std_err_PPM | e_std_err_SA | e_std_err_SWITCH_RES_MGR
  | e_std_err_L3_DEBUG | e_std_err_OPENFLOW | e_std_err_AFS_UTILS | e_std_err_VRRP
  | e_std_err_INFRA_COMMON

text \<open>The enumerators in the header's order: an enumerator's value is its position.\<close>

definition std_err_subsystems :: "e_std_error_subsystems list" where
  "std_err_subsystems =
    [e_std_err_NULL, e_std_err_NPU, e_std_err_BOARD, e_std_err_TEST, e_std_err_INTERFACE,
     e_std_err_DIAG, e_std_err_COM, e_std_err_HALCOM, e_std_err_QOS, e_std_err_ROUTE,
     e_std_err_ACL, e_std_err_CPSNAS, e_std_err_MGMT, e_std_err_MAC, e_std_err_STG,
     e_std_err_MIRROR, e_std_err_SFLOW, e_std_err_CPSAPI, e_std_err_LACP, e_std_err_XSTP,
     e_std_err_LLDP, e_std_err_DOT1X, e_std_err_L2MAC, e_std_err_L2CMN, e_std_err_OSPFV2,
     e_std_err_OSPFV3, e_std_err_BGP, e_std_err_RTM, e_std_err_POLICY, e_std_err_NAS_OS,
     e_std_err_PAS, e_std_err_ENV_TMPCTL, e_std_err_L3SERVICES, e_std_err_IPM,
     e_std_err_SWUPDATE, e_std_err_DATASTORE, e_std_err_PORT_SEC, e_std_err_MGMT_INTF,
     e_std_err_CHM, e_std_err_ETL, e_std_err_IFM, e_std_err_ISSU, e_std_err_NDM,
     e_std_err_PM, e_std_err_PPM, e_std_err_SA, e_std_err_SWITCH_RES_MGR,
     e_std_err_L3_DEBUG, e_std_err_OPENFLOW, e_std_err_AFS_UTILS, e_std_err_VRRP,
     e_std_err_INFRA_COMMON]"

fun position :: "'a list \<Rightarrow> 'a \<Rightarrow> nat" where
  "position [] a = 0"
| "position (x # xs) a = (if x = a then 0 else Suc (position xs a))"

lemma position_nth: "a \<in> set xs \<Longrightarrow> position xs a < length xs \<and> xs ! position xs a = a"
  by (induction xs) auto

definition sub_code :: "e_std_error_subsystems \<Rightarrow> nat" where
  "sub_code s = position std_err_subsystems s"

lemma std_err_subsystems_all: "s \<in> set std_err_subsystems"
  by (cases s) (simp_all add: std_err_subsystems_def)

lemma sub_code_less: "sub_code s < 52"
  using position_nth [OF std_err_subsystems_all, of s]
  by (simp add: sub_code_def std_err_subsystems_def)

lemma sub_code_inject: "sub_code s = sub_code t \<longleftrightarrow> s = t"
  unfolding sub_code_def using position_nth [OF std_err_subsystems_all] by metis

instantiation e_std_error_subsystems :: linorder
begin

definition less_eq_e_std_error_subsystems :: "e_std_error_subsystems \<Rightarrow> e_std_error_subsystems \<Rightarrow> bool" where
  "less_eq_e_std_error_subsystems s t \<longleftrightarrow> sub_code s \<le> sub_code t"

definition less_e_std_error_subsystems :: "e_std_error_subsystems \<Rightarrow> e_std_error_subsystems \<Rightarrow> bool" where
  "less_e_std_error_subsystems s t \<longleftrightarrow> sub_code s < sub_code t"

instance
  by standard
    (auto simp: less_eq_e_std_error_subsystems_def less_e_std_error_subsystems_def sub_code_inject)

end

datatype e_std_error_codes =
    e_std_err_code_FAIL | e_std_err_code_CFG | e_std_err_code_PARAM | e_std_err_code_TOOBIG
  | e_std_err_code_CLOSED | e_std_err_code_NOMEM | e_std_err_code_NEXIST
  | e_std_err_code_NORESOURCE

fun err_code :: "e_std_error_codes \<Rightarrow> nat" where
  "err_code e_std_err_code_FAIL = 1"
| "err_code e_std_err_code_CFG = 2"
| "err_code e_std_err_code_PARAM = 3"
| "err_code e_std_err_code_TOOBIG = 4"
| "err_code e_std_err_code_CLOSED = 5"
| "err_code e_std_err_code_NOMEM = 6"
| "err_code e_std_err_code_NEXIST = 7"
| "err_code e_std_err_code_NORESOURCE = 8"

lemma err_code_less: "err_code c < 9"
  by (cases c) simp_all

lemma err_code_inject: "err_code c = err_code d \<longleftrightarrow> c = d"
  by (cases c; cases d) simp_all

section \<open>Masks and the layout of an error code\<close>

type_synonym t_std_error = u32

definition STD_BIT_MASK_MAKE :: "nat \<Rightarrow> 'a::len word" where
  "STD_BIT_MASK_MAKE bits = NOT (push_bit bits (NOT 0) AND NOT 0)"

definition STD_BIT_MASK :: "nat \<Rightarrow> nat \<Rightarrow> 'a::len word" where
  "STD_BIT_MASK bits bit_offset = push_bit bit_offset (STD_BIT_MASK_MAKE bits)"

definition STD_MK_ERR_FLAG_POS :: nat where "STD_MK_ERR_FLAG_POS = 31"
definition STD_MK_ERR_SUB_POS :: nat where "STD_MK_ERR_SUB_POS = 25"
definition STD_MK_ERR_ERRID_POS :: nat where "STD_MK_ERR_ERRID_POS = 15"
definition STD_MK_ERR_PRIV_POS :: nat where "STD_MK_ERR_PRIV_POS = 0"

lemmas err_pos_defs = STD_MK_ERR_FLAG_POS_def STD_MK_ERR_SUB_POS_def
  STD_MK_ERR_ERRID_POS_def STD_MK_ERR_PRIV_POS_def

definition STD_MK_ERR_FLAG :: u32 where
  "STD_MK_ERR_FLAG = push_bit STD_MK_ERR_FLAG_POS 1"

definition STD_MK_ERR_SUB_MASK :: u32 where
  "STD_MK_ERR_SUB_MASK = STD_BIT_MASK (STD_MK_ERR_FLAG_POS - STD_MK_ERR_SUB_POS) 0"

definition STD_MK_ERR_ERRID_MASK :: u32 where
  "STD_MK_ERR_ERRID_MASK = STD_BIT_MASK (STD_MK_ERR_SUB_POS - STD_MK_ERR_ERRID_POS) 0"

definition STD_MK_ERR_PRIV_MASK :: u32 where
  "STD_MK_ERR_PRIV_MASK = STD_BIT_MASK (STD_MK_ERR_ERRID_POS - STD_MK_ERR_PRIV_POS) 0"

definition STD_ERR_OK :: t_std_error where
  "STD_ERR_OK = 0"

definition STD_IS_ERR :: "t_std_error \<Rightarrow> bool" where
  "STD_IS_ERR x \<longleftrightarrow> x \<noteq> STD_ERR_OK"

definition STD_ERR_MK :: "u32 \<Rightarrow> u32 \<Rightarrow> u32 \<Rightarrow> t_std_error" where
  "STD_ERR_MK SUB ERRID PRIV =
     push_bit STD_MK_ERR_FLAG_POS 1 OR
     push_bit STD_MK_ERR_SUB_POS (SUB AND STD_MK_ERR_SUB_MASK) OR
     push_bit STD_MK_ERR_ERRID_POS (ERRID AND STD_MK_ERR_ERRID_MASK) OR
     push_bit STD_MK_ERR_PRIV_POS (PRIV AND STD_MK_ERR_PRIV_MASK)"

definition STD_ERR :: "e_std_error_subsystems \<Rightarrow> e_std_error_codes \<Rightarrow> u32 \<Rightarrow> t_std_error" where
  "STD_ERR SUB ERRID PRIV = STD_ERR_MK (of_nat (sub_code SUB)) (of_nat (err_code ERRID)) PRIV"

definition STD_ERR_RM_FLAG :: "t_std_error \<Rightarrow> u32" where
  "STD_ERR_RM_FLAG x = x AND NOT STD_MK_ERR_FLAG"

definition STD_ERR_EXT_SUB :: "t_std_error \<Rightarrow> u32" where
  "STD_ERR_EXT_SUB x = drop_bit STD_MK_ERR_SUB_POS (STD_ERR_RM_FLAG x) AND STD_MK_ERR_SUB_MASK"

definition STD_ERR_EXT_ERRID :: "t_std_error \<Rightarrow> u32" where
  "STD_ERR_EXT_ERRID x = drop_bit STD_MK_ERR_ERRID_POS (STD_ERR_RM_FLAG x) AND STD_MK_ERR_ERRID_MASK"

definition STD_ERR_EXT_PRIV :: "t_std_error \<Rightarrow> u32" where
  "STD_ERR_EXT_PRIV x = drop_bit STD_MK_ERR_PRIV_POS (STD_ERR_RM_FLAG x) AND STD_MK_ERR_PRIV_MASK"

text \<open>\<open>errno\<close>, the thread's last error number, is an argument.\<close>

definition STD_ERR_FROM_ERRNO :: "u32 \<Rightarrow> e_std_error_subsystems \<Rightarrow> e_std_error_codes \<Rightarrow> t_std_error" where
  "STD_ERR_FROM_ERRNO errno sub clas = STD_ERR_MK (of_nat (sub_code sub)) (of_nat (err_code clas)) errno"

definition STD_ERR_OK_IF_TRUE :: "bool \<Rightarrow> t_std_error \<Rightarrow> t_std_error" where
  "STD_ERR_OK_IF_TRUE test_condition if_condition_false =
     (if test_condition then STD_ERR_OK else if_condition_false)"

section \<open>What the layout guarantees\<close>

lemma std_bit_mask_make: "STD_BIT_MASK_MAKE n = (mask n :: 'a::len word)"
  by (rule bit_word_eqI) (simp add: STD_BIT_MASK_MAKE_def bit_simps)

lemma err_masks:
  "STD_MK_ERR_SUB_MASK = mask 6" "STD_MK_ERR_ERRID_MASK = mask 10" "STD_MK_ERR_PRIV_MASK = mask 15"
  by (simp_all add: STD_MK_ERR_SUB_MASK_def STD_MK_ERR_ERRID_MASK_def STD_MK_ERR_PRIV_MASK_def
      STD_BIT_MASK_def std_bit_mask_make err_pos_defs)

lemmas err_layout_defs = STD_ERR_MK_def STD_ERR_RM_FLAG_def STD_MK_ERR_FLAG_def
  STD_ERR_EXT_SUB_def STD_ERR_EXT_ERRID_def STD_ERR_EXT_PRIV_def err_pos_defs err_masks

lemma bit_field: "bit (push_bit k (x AND mask m) :: u32) n \<longleftrightarrow> k \<le> n \<and> n < 32 \<and> n - k < m \<and> bit x (n - k)"
  by (auto simp: bit_push_bit_iff bit_and_iff bit_mask_iff)

lemma bit_flag: "bit (push_bit 31 1 :: u32) n \<longleftrightarrow> n = 31"
  by (auto simp only: bit_push_bit_iff bit_1_iff) auto

lemma std_err_mk_bit:
  "bit (STD_ERR_MK s e p) n \<longleftrightarrow> n = 31 \<or> 25 \<le> n \<and> n < 31 \<and> bit s (n - 25)
     \<or> 15 \<le> n \<and> n < 25 \<and> bit e (n - 15) \<or> n < 15 \<and> bit p n"
  unfolding STD_ERR_MK_def err_pos_defs err_masks bit_or_iff bit_field bit_flag by auto

lemma std_err_rm_flag_bit: "bit (STD_ERR_RM_FLAG x) n \<longleftrightarrow> n < 31 \<and> bit x n"
proof -
  have "bit x n \<Longrightarrow> n < 32" by (auto dest: bit_imp_le_length)
  then show ?thesis
    unfolding STD_ERR_RM_FLAG_def STD_MK_ERR_FLAG_def err_pos_defs bit_and_iff bit_not_iff bit_flag
    by auto
qed

lemma std_err_ext_sub: "STD_ERR_EXT_SUB (STD_ERR_MK s e p) = s AND mask 6"
  by (rule bit_word_eqI)
    (auto simp: STD_ERR_EXT_SUB_def err_pos_defs err_masks bit_simps std_err_rm_flag_bit std_err_mk_bit)

lemma std_err_ext_errid: "STD_ERR_EXT_ERRID (STD_ERR_MK s e p) = e AND mask 10"
  by (rule bit_word_eqI)
    (auto simp: STD_ERR_EXT_ERRID_def err_pos_defs err_masks bit_simps std_err_rm_flag_bit std_err_mk_bit)

lemma std_err_ext_priv: "STD_ERR_EXT_PRIV (STD_ERR_MK s e p) = p AND mask 15"
  by (rule bit_word_eqI)
    (auto simp: STD_ERR_EXT_PRIV_def err_pos_defs err_masks bit_simps std_err_rm_flag_bit std_err_mk_bit)

lemma std_err_mk_flag: "bit (STD_ERR_MK s e p) 31"
  by (simp add: err_layout_defs bit_simps)

lemma std_err_mk_negative: "sint (STD_ERR_MK s e p) < 0"
  using std_err_mk_flag [of s e p] by (simp add: bit_last_iff [symmetric])

lemma std_err_mk_is_err: "STD_IS_ERR (STD_ERR_MK s e p)"
  using std_err_mk_flag [of s e p] by (auto simp: STD_IS_ERR_def STD_ERR_OK_def)

lemma std_err_not_ok:
  "STD_ERR sub code p \<noteq> STD_ERR_OK" "STD_ERR_FROM_ERRNO errno sub code \<noteq> STD_ERR_OK"
  using std_err_mk_is_err unfolding STD_ERR_def STD_ERR_FROM_ERRNO_def STD_IS_ERR_def by blast+

lemma and_mask_small:
  assumes "n < 2 ^ k"
  shows "(of_nat n :: 'a::len word) AND mask k = of_nat n"
proof -
  have "take_bit k (of_nat n :: 'a word) = of_nat (take_bit k n)"
    by (rule take_bit_of_nat)
  also have "take_bit k n = n" using assms by (rule take_bit_nat_eq_self)
  finally show ?thesis by (simp only: take_bit_eq_mask)
qed

end
