(* ===== verification/StringUtils.thy ===== *)
theory StringUtils
  imports Prelude
begin

text \<open>
  The string functions of \<open>src/std_string_utils.cpp\<close>. A string that is only read is a list of
  characters without the terminating null; a buffer that is edited in place is the list of its
  characters with the null. None is a failed assertion, an access outside an array, or (for
  \<open>std_parse_string\<close>) no return.
\<close>

section \<open>Enumerations and code tables\<close>

fun string_to_enum_loop :: "string list \<Rightarrow> nat \<Rightarrow> nat \<Rightarrow> string \<Rightarrow> int option" where
  "string_to_enum_loop keys enum_val 0 strval = Some (-1)"
| "string_to_enum_loop keys enum_val (Suc n) strval =
    (case arr_get keys enum_val of
       None \<Rightarrow> None
     | Some key \<Rightarrow> if key = strval then Some (to_int32 enum_val)
                  else string_to_enum_loop keys (Suc enum_val) n strval)"

definition dn_std_string_to_enum :: "string list option \<Rightarrow> u32 \<Rightarrow> string \<Rightarrow> int option" where
  "dn_std_string_to_enum keys sz strval =
    (case keys of None \<Rightarrow> Some (-1) | Some keys \<Rightarrow> string_to_enum_loop keys 0 (unat sz) strval)"

text \<open>The outer option is the access, the inner one the null pointer.\<close>

definition dn_std_enum_to_string :: "string list \<Rightarrow> u32 \<Rightarrow> u32 \<Rightarrow> string option option" where
  "dn_std_enum_to_string keys sz enumval =
    (if enumval < sz then map_option Some (arr_get keys (unat enumval)) else Some None)"

record std_code_text_t =
  code_of :: u32
  text_of :: string

text \<open>\<open>strncmp\<close> gives 0 when the first \<open>n\<close> characters agree.\<close>

fun text_to_code_loop :: "string \<Rightarrow> u32 \<Rightarrow> std_code_text_t list \<Rightarrow> nat \<Rightarrow> nat \<Rightarrow> int option" where
  "text_to_code_loop txt text_sz table idx 0 = Some (-1)"
| "text_to_code_loop txt text_sz table idx (Suc n) =
    (case arr_get table idx of
       None \<Rightarrow> None
     | Some entry \<Rightarrow>
         if (if text_sz \<noteq> 0 then take (unat text_sz) (text_of entry) = take (unat text_sz) txt
             else text_of entry = txt)
         then Some (sint (code_of entry))
         else text_to_code_loop txt text_sz table (Suc idx) n)"

definition std_text_to_code ::
    "string \<Rightarrow> u32 \<Rightarrow> std_code_text_t list option \<Rightarrow> u32 \<Rightarrow> int option" where
  "std_text_to_code txt text_sz table table_sz =
    (case table of None \<Rightarrow> Some (-1)
     | Some table \<Rightarrow> text_to_code_loop txt text_sz table 0 (unat table_sz))"

fun code_to_text_loop :: "u32 \<Rightarrow> std_code_text_t list \<Rightarrow> nat \<Rightarrow> nat \<Rightarrow> string option option" where
  "code_to_text_loop code table idx 0 = Some None"
| "code_to_text_loop code table idx (Suc n) =
    (case arr_get table idx of
       None \<Rightarrow> None
     | Some entry \<Rightarrow> if code_of entry = code then Some (Some (text_of entry))
                    else code_to_text_loop code table (Suc idx) n)"

definition std_code_to_text ::
    "u32 \<Rightarrow> std_code_text_t list option \<Rightarrow> u32 \<Rightarrow> string option option" where
  "std_code_to_text code table table_sz =
    (case table of None \<Rightarrow> Some None | Some table \<Rightarrow> code_to_text_loop code table 0 (unat table_sz))"

section \<open>Splitting a string\<close>

text \<open>\<open>std::string::find\<close>: the first position from \<open>ix\<close> on where \<open>delim\<close> occurs.\<close>

definition str_find :: "string \<Rightarrow> string \<Rightarrow> nat \<Rightarrow> nat option" where
  "str_find data delim ix =
     find (\<lambda>e. take (length delim) (drop e data) = delim) [ix..<Suc (length data - length delim)]"

partial_function (option) parse_loop :: "string \<Rightarrow> string \<Rightarrow> nat \<Rightarrow> string list \<Rightarrow> string list option" where
  "parse_loop data delim ix vect =
    (if ix < length data then
       (let e = (case str_find data delim ix of None \<Rightarrow> length data | Some e \<Rightarrow> e);
            found = take (e - ix) (drop ix data)
        in parse_loop data delim (e + length delim) (vect @ [found]))
     else Some vect)"

definition std_parse_string :: "string \<Rightarrow> string \<Rightarrow> string list option" where
  "std_parse_string data delim = parse_loop data delim 0 []"

definition std_parse_string_num_tokens :: "string list \<Rightarrow> nat" where
  "std_parse_string_num_tokens parsed = length parsed"

definition std_parse_string_at :: "string list \<Rightarrow> nat \<Rightarrow> string option" where
  "std_parse_string_at parsed index = (if index < length parsed then Some (parsed ! index) else None)"

definition std_parse_string_next :: "string list \<Rightarrow> nat \<Rightarrow> string option \<times> nat" where
  "std_parse_string_next parsed index =
    (let p = std_parse_string_at parsed index in (p, if p \<noteq> None then Suc index else index))"

section \<open>Trimming a buffer\<close>

definition NUL :: char where "NUL = CHR 0x00"

text \<open>The string in a buffer and its length; None when there is no terminating null.\<close>

definition cstr :: "string \<Rightarrow> string" where "cstr str = takeWhile (\<lambda>c. c \<noteq> NUL) str"

definition strlen :: "string \<Rightarrow> nat option" where
  "strlen str = (if NUL \<in> set str then Some (length (cstr str)) else None)"

text \<open>\<open>isspace\<close> in the C locale.\<close>

definition isspace :: "char \<Rightarrow> bool" where
  "isspace c \<longleftrightarrow> c \<in> {CHR '' '', CHR 0x09, CHR 0x0A, CHR 0x0B, CHR 0x0C, CHR 0x0D}"

definition is_space_wrapper :: "char \<Rightarrow> string option \<Rightarrow> bool option" where
  "is_space_wrapper c v = Some (isspace c)"

definition is_char_match_wrapper :: "char \<Rightarrow> string option \<Rightarrow> bool option" where
  "is_char_match_wrapper c v =
    (case v of
       None \<Rightarrow> None
     | Some fmt \<Rightarrow> if length fmt = 0 then None else Some (c \<in> set fmt))"

type_synonym check_fun = "char \<Rightarrow> string option \<Rightarrow> bool option"

fun ltrim_loop :: "string \<Rightarrow> check_fun \<Rightarrow> string option \<Rightarrow> nat \<Rightarrow> nat \<Rightarrow> nat option" where
  "ltrim_loop str fun ctx ix 0 = Some ix"
| "ltrim_loop str fun ctx ix (Suc n) =
    (case fun (str ! ix) ctx of
       None \<Rightarrow> None
     | Some b \<Rightarrow> if b then ltrim_loop str fun ctx (Suc ix) n else Some ix)"

text \<open>\<open>memmove\<close> of the rest of the string with its null to the front.\<close>

definition ltrim :: "string \<Rightarrow> check_fun \<Rightarrow> string option \<Rightarrow> string option" where
  "ltrim str fun ctx =
    (case strlen str of
       None \<Rightarrow> None
     | Some mx \<Rightarrow>
         (case ltrim_loop str fun ctx 0 mx of
            None \<Rightarrow> None
          | Some ix \<Rightarrow>
              Some (if ix \<noteq> 0 then take (mx - ix + 1) (drop ix str) @ drop (mx - ix + 1) str else str)))"

fun rtrim_loop :: "string \<Rightarrow> check_fun \<Rightarrow> string option \<Rightarrow> nat \<Rightarrow> string option" where
  "rtrim_loop str fun ctx 0 = Some str"
| "rtrim_loop str fun ctx (Suc mx) =
    (case fun (str ! Suc mx) ctx of
       None \<Rightarrow> None
     | Some b \<Rightarrow> if b then rtrim_loop str fun ctx mx else arr_set str (Suc mx + 1) NUL)"

definition rtrim :: "string \<Rightarrow> check_fun \<Rightarrow> string option \<Rightarrow> string option" where
  "rtrim str fun ctx =
    (case strlen str of
       None \<Rightarrow> None
     | Some mx \<Rightarrow> if mx = 0 then Some str else rtrim_loop str fun ctx (mx - 1))"

definition std_remove_trailing_whitespace :: "string \<Rightarrow> string option \<Rightarrow> string option" where
  "std_remove_trailing_whitespace str ws_delim =
     rtrim str (if ws_delim = None then is_space_wrapper else is_char_match_wrapper) ws_delim"

definition std_remove_leading_whitespace :: "string \<Rightarrow> string option \<Rightarrow> string option" where
  "std_remove_leading_whitespace str ws_delim =
     ltrim str (if ws_delim = None then is_space_wrapper else is_char_match_wrapper) ws_delim"

text \<open>\<open>strchr\<close> looks for the character up to the null.\<close>

definition std_remove_comment_and_trailing_whitespace :: "string \<Rightarrow> string option" where
  "std_remove_comment_and_trailing_whitespace str =
    (let str = (if CHR ''#'' \<in> set (cstr str)
                then str[length (takeWhile (\<lambda>c. c \<noteq> CHR ''#'') str) := NUL] else str)
     in std_remove_trailing_whitespace str None)"

section \<open>Splitting and joining\<close>

fun join :: "string \<Rightarrow> string list \<Rightarrow> string" where
  "join delim [] = []"
| "join delim [t] = t"
| "join delim (t # u # us) = t @ delim @ join delim (u # us)"

definition occurs :: "string \<Rightarrow> string \<Rightarrow> bool" where
  "occurs delim t \<longleftrightarrow> (\<exists>k. take (length delim) (drop k t) = delim)"

lemma str_find_None:
  assumes "str_find data delim ix = None" and "delim \<noteq> []"
  shows "\<not> occurs delim (drop ix data)"
proof
  assume "occurs delim (drop ix data)"
  then obtain k where k: "take (length delim) (drop (ix + k) data) = delim"
    by (auto simp: occurs_def add.commute)
  then have "length delim \<le> length data - (ix + k)" by (metis length_drop length_take min.cobounded1)
  moreover have "0 < length delim" using assms(2) by simp
  ultimately have "ix + k < Suc (length data - length delim)" by linarith
  then have "ix + k \<in> set [ix..<Suc (length data - length delim)]" by (simp del: upt_Suc)
  moreover have "\<forall>e\<in>set [ix..<Suc (length data - length delim)]. take (length delim) (drop e data) \<noteq> delim"
    using assms(1) by (simp add: str_find_def find_None_iff del: upt_Suc)
  ultimately show False using k by blast
qed

lemma str_find_Some:
  assumes "str_find data delim ix = Some e"
  shows "ix \<le> e" and "take (length delim) (drop e data) = delim"
    and "\<And>k. ix \<le> k \<Longrightarrow> k < e \<Longrightarrow> take (length delim) (drop k data) \<noteq> delim"
proof -
  obtain j where j: "j < length [ix..<Suc (length data - length delim)]" "e = ix + j"
    "take (length delim) (drop e data) = delim"
    "\<forall>i<j. take (length delim) (drop ([ix..<Suc (length data - length delim)] ! i) data) \<noteq> delim"
    using assms by (auto simp: str_find_def find_Some_iff simp del: upt_Suc)
  then show "ix \<le> e" "take (length delim) (drop e data) = delim" by simp_all
  fix k assume "ix \<le> k" "k < e"
  with j show "take (length delim) (drop k data) \<noteq> delim"
    by (auto dest!: spec [of _ "k - ix"] simp del: upt_Suc)
qed

lemma parse_loop_ok:
  assumes "delim \<noteq> []"
  shows "\<exists>ts. parse_loop data delim ix vect = Some (vect @ ts) \<and> (ts = [] \<longleftrightarrow> length data \<le> ix)
    \<and> (join delim ts = drop ix data \<or> ts \<noteq> [] \<and> join delim ts @ delim = drop ix data)
    \<and> (\<forall>t\<in>set ts. \<not> occurs delim t)"
proof (induction "length data - ix" arbitrary: ix vect rule: less_induct)
  case less
  show ?case
  proof (cases "ix < length data")
    case False
    then show ?thesis by (simp add: parse_loop.simps)
  next
    case True
    show ?thesis
    proof (cases "str_find data delim ix")
      case None
      let ?t = "drop ix data"
      have "parse_loop data delim ix vect = Some (vect @ [?t])"
        using True None assms by (simp add: parse_loop.simps [of _ _ ix] parse_loop.simps [of _ _ "length data + _"])
      then show ?thesis using True str_find_None [OF None assms] by (intro exI [of _ "[?t]"]) simp
    next
      case (Some e)
      note f = str_find_Some [OF Some]
      let ?t = "take (e - ix) (drop ix data)" and ?ix = "e + length delim"
      have d: "drop ix data = ?t @ delim @ drop ?ix data"
      proof -
        have "drop (e - ix) (drop ix data) = drop e data" using f(1) by simp
        then have "drop ix data = ?t @ drop e data" by (metis append_take_drop_id)
        moreover have "drop e data = delim @ drop (length delim) (drop e data)"
          using f(2) append_take_drop_id [of "length delim" "drop e data"] by simp
        ultimately show ?thesis by (simp add: add.commute)
      qed
      have no: "\<not> occurs delim ?t"
      proof
        assume "occurs delim ?t"
        then obtain k where k: "take (length delim) (drop k ?t) = delim" by (auto simp: occurs_def)
        then have "length (take (length delim) (drop k ?t)) = length delim" by simp
        then have "length delim \<le> length (drop k ?t)" unfolding length_take by (simp only: min_def split: if_splits)
        then have l: "length delim \<le> e - ix - k" by simp
        then have "take (length delim) (drop (ix + k) data) = delim"
          using k by (simp add: drop_take take_take min_def add.commute split: if_splits)
        moreover have "ix + k < e" using l assms by (cases delim) auto
        ultimately show False using f(3) [of "ix + k"] by simp
      qed
      have "length data - ?ix < length data - ix" using True f(1) assms by (cases delim) auto
      from less [OF this, of "vect @ [?t]"] obtain ts where ts:
        "parse_loop data delim ?ix (vect @ [?t]) = Some ((vect @ [?t]) @ ts)"
        "ts = [] \<longleftrightarrow> length data \<le> ?ix"
        "join delim ts = drop ?ix data \<or> ts \<noteq> [] \<and> join delim ts @ delim = drop ?ix data"
        "\<forall>t\<in>set ts. \<not> occurs delim t"
        by blast
      have "parse_loop data delim ix vect = Some (vect @ ?t # ts)"
        using True Some ts(1) by (simp add: parse_loop.simps [of _ _ ix])
      moreover have "join delim (?t # ts) = drop ix data \<or> join delim (?t # ts) @ delim = drop ix data"
        using d ts(2,3) by (cases ts) auto
      ultimately show ?thesis using ts(4) no True by (intro exI [of _ "?t # ts"]) simp
    qed
  qed
qed

text \<open>Splitting at one character.\<close>

lemma str_find_char:
  assumes "d \<notin> set xs"
  shows "str_find (pre @ xs @ d # ys) [d] (length pre) = Some (length pre + length xs)"
    and "str_find (pre @ xs) [d] (length pre) = None"
proof -
  have hit: "take (length [d]) (drop e zs) = [d] \<longleftrightarrow> e < length zs \<and> zs ! e = d" for e zs
    by (cases "e < length zs") (auto simp: Cons_nth_drop_Suc [symmetric])
  have xs: "xs ! i \<noteq> d" if "i < length xs" for i using assms that by (metis nth_mem)
  show "str_find (pre @ xs @ d # ys) [d] (length pre) = Some (length pre + length xs)"
    unfolding str_find_def hit find_Some_iff
    by (rule exI [of _ "length xs"]) (auto simp: nth_append xs simp del: upt_Suc)
  show "str_find (pre @ xs) [d] (length pre) = None"
    unfolding str_find_def hit find_None_iff by (auto simp: nth_append xs simp del: upt_Suc)
qed

lemma parse_two:
  assumes "d \<notin> set xs" and "d \<notin> set ys" and "ys \<noteq> []"
  shows "std_parse_string (xs @ d # ys) [d] = Some [xs, ys]"
proof -
  have "str_find (xs @ d # ys) [d] 0 = Some (length xs)" using str_find_char(1) [OF assms(1), of "[]"] by simp
  moreover have "str_find (xs @ d # ys) [d] (Suc (length xs)) = None"
    using str_find_char(2) [OF assms(2), of "xs @ [d]"] by simp
  ultimately show ?thesis
    using assms(3)
    by (simp add: std_parse_string_def parse_loop.simps [of _ _ 0] parse_loop.simps [of _ _ "Suc (length xs)"]
        parse_loop.simps [of _ _ "Suc (Suc (length xs + length ys))"])
qed

lemma parse_loop_empty_delim:
  assumes "parse_loop data [] ix vect = Some r"
  shows "length data \<le> ix"
proof -
  have "delim = [] \<longrightarrow> length data \<le> ix" if "parse_loop data delim ix vect = Some r" for delim
    using that
  proof (rule parse_loop.raw_induct [of "\<lambda>data delim ix vect r. delim = [] \<longrightarrow> length data \<le> ix", rotated])
    fix f :: "string \<Rightarrow> string \<Rightarrow> nat \<Rightarrow> string list \<Rightarrow> string list option" and data delim ix vect r
    assume IH: "\<And>data delim ix vect r. f data delim ix vect = Some r \<Longrightarrow> delim = [] \<longrightarrow> length data \<le> ix"
    have "str_find data [] ix = Some ix" if "ix < length data"
      using that by (simp add: str_find_def upt_conv_Cons)
    moreover assume "(if ix < length data then
         (let e = (case str_find data delim ix of None \<Rightarrow> length data | Some e \<Rightarrow> e);
              found = take (e - ix) (drop ix data)
          in f data delim (e + length delim) (vect @ [found])) else Some vect) = Some r"
    ultimately show "delim = [] \<longrightarrow> length data \<le> ix"
      using IH [of data "[]" ix] by (auto split: if_splits)
  qed
  then show ?thesis using assms by blast
qed

section \<open>Trimming\<close>

lemma cstr_split:
  assumes "NUL \<in> set buf"
  obtains rest where "buf = cstr buf @ NUL # rest" and "NUL \<notin> set (cstr buf)"
proof
  show "NUL \<notin> set (cstr buf)" by (auto simp: cstr_def dest: set_takeWhileD)
  have n: "dropWhile (\<lambda>c. c \<noteq> NUL) buf \<noteq> []" using assms by (simp add: dropWhile_eq_Nil_conv)
  then have "hd (dropWhile (\<lambda>c. c \<noteq> NUL) buf) = NUL" using hd_dropWhile [OF n] by simp
  with n have "dropWhile (\<lambda>c. c \<noteq> NUL) buf = NUL # tl (dropWhile (\<lambda>c. c \<noteq> NUL) buf)"
    by (metis hd_Cons_tl)
  then show "buf = cstr buf @ NUL # tl (dropWhile (\<lambda>c. c \<noteq> NUL) buf)"
    unfolding cstr_def by (metis takeWhile_dropWhile_id)
qed

lemma cstr_append [simp]: "NUL \<notin> set s \<Longrightarrow> cstr (s @ NUL # rest) = s"
proof -
  assume "NUL \<notin> set s"
  then have "\<And>c. c \<in> set s \<Longrightarrow> c \<noteq> NUL" by auto
  then show ?thesis unfolding cstr_def by (subst takeWhile_append2) auto
qed

lemma ltrim_loop_ok:
  assumes "\<And>c. f c ctx = Some (P c)" and "s = drop ix str" and "n \<le> length s"
  shows "ltrim_loop str f ctx ix n = Some (ix + length (takeWhile P (take n s)))"
  using assms(2,3)
proof (induction n arbitrary: ix s)
  case (Suc n)
  then have "s \<noteq> []" by auto
  then obtain c cs where s: "s = c # cs" by (meson list.exhaust)
  then have c: "str ! ix = c" "cs = drop (Suc ix) str"
    using Suc.prems(1) by (metis nth_via_drop, metis drop_Suc list.sel(3) tl_drop)
  have "takeWhile P (take (Suc n) s) = (if P c then c # takeWhile P (take n cs) else [])" by (simp add: s)
  with Suc.IH [OF c(2)] Suc.prems(2) s c(1) assms(1) show ?case by simp
qed simp

lemma rtrim_loop_ok:
  assumes f: "\<And>c. f c ctx = Some (P c)" and "str = c # s @ rest" and "length s = n" and "rest \<noteq> []"
  shows "rtrim_loop str f ctx n =
    Some (if \<forall>x\<in>set s. P x then str
          else str[Suc (length (rev (dropWhile P (rev s)))) := NUL])"
  using assms(2-4)
proof (induction s arbitrary: rest n rule: rev_induct)
  case (snoc x s)
  have x: "str ! n = x" using snoc.prems by (auto simp: nth_append nth_Cons')
  obtain n' where n: "n = Suc n'" "length s = n'" using snoc.prems by auto
  show ?case
  proof (cases "P x")
    case True
    have "rtrim_loop str f ctx n = rtrim_loop str f ctx n'" using True f n x by simp
    with snoc.IH [of "x # rest" n'] snoc.prems n True show ?thesis by simp
  next
    case False
    with f n x snoc.prems show ?thesis by (auto simp: Suc_le_eq)
  qed
qed simp

section \<open>Properties\<close>

text \<open>Splitting a string at a non-empty delimiter always returns, no token contains the
  delimiter, and joining the tokens with the delimiter gives the string back, up to one delimiter
  at its end (which produces no empty token). \<close>

theorem std_parse_string_join:
  assumes "delim \<noteq> []"
  shows "\<exists>ts. std_parse_string data delim = Some ts \<and> (\<forall>t\<in>set ts. \<not> occurs delim t)
    \<and> (data = join delim ts \<or> data = join delim ts @ delim) \<and> (ts = [] \<longleftrightarrow> data = [])"
  using parse_loop_ok [OF assms, of data 0 "[]"] by (auto simp: std_parse_string_def)

text \<open>Splitting a non-empty string at the empty delimiter does not return: every round finds the
  empty string where it is and appends another empty token. \<close>

theorem std_parse_string_empty_delim:
  assumes "data \<noteq> []"
  shows "std_parse_string data [] = None"
  using assms parse_loop_empty_delim [of data 0 "[]"] by (cases "std_parse_string data []") (auto simp: std_parse_string_def)

text \<open>The characters a trimming call removes.\<close>

definition trimmed :: "string option \<Rightarrow> char \<Rightarrow> bool" where
  "trimmed ws c = (case ws of None \<Rightarrow> isspace c | Some fmt \<Rightarrow> c \<in> set fmt)"

lemma check_trimmed:
  "ws \<noteq> Some [] \<Longrightarrow>
   (if ws = None then is_space_wrapper else is_char_match_wrapper) c ws = Some (trimmed ws c)"
  by (cases ws) (auto simp: is_space_wrapper_def is_char_match_wrapper_def trimmed_def)

lemma remove_whitespace_ok:
  assumes "NUL \<in> set buf" and "ws \<noteq> Some []"
  shows "\<exists>b1 b2. std_remove_leading_whitespace buf ws = Some b1 \<and> length b1 = length buf
    \<and> NUL \<in> set b1 \<and> cstr b1 = dropWhile (trimmed ws) (cstr buf)
    \<and> std_remove_trailing_whitespace buf ws = Some b2 \<and> length b2 = length buf \<and> NUL \<in> set b2
    \<and> cstr b2 = (case cstr buf of [] \<Rightarrow> []
        | c # s \<Rightarrow> if \<forall>x\<in>set s. trimmed ws x then c # s
                  else c # rev (dropWhile (trimmed ws) (rev s)))"
proof -
  obtain rest where b: "buf = cstr buf @ NUL # rest" and n: "NUL \<notin> set (cstr buf)"
    by (rule cstr_split [OF assms(1)])
  have len: "strlen buf = Some (length (cstr buf))" using assms(1) by (simp add: strlen_def)
  let ?f = "if ws = None then is_space_wrapper else is_char_match_wrapper" and ?P = "trimmed ws"
  have f: "\<And>c. ?f c ws = Some (?P c)" using check_trimmed [OF assms(2)] by blast
  define s where "s = cstr buf"
  have bs: "buf = s @ NUL # rest" using b s_def by simp
  define k where "k = length (takeWhile ?P s)"
  have k: "drop k s = dropWhile ?P s" "k \<le> length s"
    by (simp_all add: k_def dropWhile_eq_drop length_takeWhile_le)
  have loop: "ltrim_loop buf ?f ws 0 (length s) = Some k"
    using ltrim_loop_ok [of ?f ws ?P buf 0 buf "length s", OF f] by (simp add: bs k_def)
  have "\<exists>b1. std_remove_leading_whitespace buf ws = Some b1 \<and> length b1 = length buf
      \<and> NUL \<in> set b1 \<and> cstr b1 = dropWhile ?P s"
  proof -
    have "NUL \<notin> set (drop k s)" using n s_def by (meson in_set_dropD)
    moreover have "take (length s - k + 1) (drop k buf) @ drop (length s - k + 1) buf =
        drop k s @ NUL # drop (length s - k + 1) buf"
      using k(2) by (simp add: bs)
    moreover have "length (drop k s @ NUL # drop (length s - k + 1) buf) = length buf"
      using k(2) by (simp add: bs)
    ultimately show ?thesis
      using loop len k b n assms(1)
      by (cases "k = 0") (auto simp: std_remove_leading_whitespace_def ltrim_def simp flip: s_def)
  qed
  moreover have "\<exists>b2. std_remove_trailing_whitespace buf ws = Some b2 \<and> length b2 = length buf \<and> NUL \<in> set b2
    \<and> cstr b2 = (case s of [] \<Rightarrow> []
        | c # s \<Rightarrow> if \<forall>x\<in>set s. ?P x then c # s else c # rev (dropWhile ?P (rev s)))"
  proof (cases s)
    case Nil
    with len assms(1) show ?thesis by (simp add: std_remove_trailing_whitespace_def rtrim_def s_def)
  next
    case (Cons c t)
    have r: "std_remove_trailing_whitespace buf ws =
        Some (if \<forall>x\<in>set t. ?P x then buf else buf[Suc (length (rev (dropWhile ?P (rev t)))) := NUL])"
      using rtrim_loop_ok [of ?f ws ?P buf c t "NUL # rest" "length t", OF f] len bs Cons s_def
      by (simp add: std_remove_trailing_whitespace_def rtrim_def)
    show ?thesis
    proof (cases "\<forall>x\<in>set t. ?P x")
      case True
      then show ?thesis using r assms(1) Cons s_def by simp
    next
      case False
      define u where "u = rev (dropWhile ?P (rev t))"
      obtain v where v: "t = u @ v"
        unfolding u_def by (metis rev_append rev_rev_ident takeWhile_dropWhile_id)
      obtain y ys where y: "v @ NUL # rest = y # ys" by (cases v) auto
      have bu: "buf = (c # u) @ y # ys" using bs Cons v y by simp
      have "buf[Suc (length u) := NUL] = (c # u) @ NUL # ys"
        unfolding bu by (simp add: list_update_append)
      moreover have "NUL \<notin> set (c # u)" using n Cons v s_def by auto
      ultimately show ?thesis
        using r False Cons cstr_append [of "c # u" ys] bu by (auto simp: u_def)
    qed
  qed
  ultimately show ?thesis unfolding s_def by blast
qed

text \<open>Leading whitespace (or any characters of a given non-empty set) is removed exactly, in
  place: the buffer then holds the rest of the string, terminated, in the same space. Trailing
  whitespace is removed down to the last other character, but the first character of the string
  is never looked at: a string with nothing but whitespace behind its first character is left as
  it is. \<close>

theorem std_remove_whitespace:
  assumes "NUL \<in> set buf" and "ws \<noteq> Some []"
  shows "\<exists>b1 b2. std_remove_leading_whitespace buf ws = Some b1 \<and> length b1 = length buf
    \<and> NUL \<in> set b1 \<and> cstr b1 = dropWhile (trimmed ws) (cstr buf)
    \<and> std_remove_trailing_whitespace buf ws = Some b2 \<and> length b2 = length buf \<and> NUL \<in> set b2
    \<and> cstr b2 = (case cstr buf of [] \<Rightarrow> []
        | c # s \<Rightarrow> if \<forall>x\<in>set s. trimmed ws x then c # s
                  else c # rev (dropWhile (trimmed ws) (rev s)))"
  by (rule remove_whitespace_ok [OF assms])

text \<open>Removing a comment cuts the string at its first number sign and then trailing whitespace;
  the buffer stays terminated. \<close>

theorem std_remove_comment:
  assumes "NUL \<in> set buf"
  shows "\<exists>b. std_remove_comment_and_trailing_whitespace buf = Some b \<and> length b = length buf \<and> NUL \<in> set b
    \<and> cstr b = (case takeWhile (\<lambda>c. c \<noteq> CHR ''#'') (cstr buf) of [] \<Rightarrow> []
        | c # s \<Rightarrow> if \<forall>x\<in>set s. isspace x then c # s else c # rev (dropWhile isspace (rev s)))"
proof -
  obtain rest where b: "buf = cstr buf @ NUL # rest" and n: "NUL \<notin> set (cstr buf)"
    by (rule cstr_split [OF assms])
  let ?P = "\<lambda>c. c \<noteq> CHR ''#''"
  define buf' where "buf' = (if CHR ''#'' \<in> set (cstr buf) then buf[length (takeWhile ?P buf) := NUL] else buf)"
  have "NUL \<in> set buf' \<and> length buf' = length buf \<and> cstr buf' = takeWhile ?P (cstr buf)"
  proof (cases "CHR ''#'' \<in> set (cstr buf)")
    case True
    then obtain u v where u: "cstr buf = u @ CHR ''#'' # v" "CHR ''#'' \<notin> set u" by (meson split_list_first)
    have bu: "buf = u @ CHR ''#'' # v @ NUL # rest" using b u(1) by (metis append_Cons append_assoc)
    have "\<And>c. c \<in> set u \<Longrightarrow> ?P c" using u(2) by auto
    then have t: "takeWhile ?P (cstr buf) = u" "takeWhile ?P buf = u"
      by (subst u(1), simp add: takeWhile_append2, subst bu, simp add: takeWhile_append2)
    have "buf' = u @ NUL # (v @ NUL # rest)"
      using True t(2) bu by (simp add: buf'_def)
    moreover have "NUL \<notin> set u" using n u(1) by simp
    ultimately show ?thesis using t(1) arg_cong [OF bu, of length] by (simp add: buf'_def)
  next
    case False
    then have "takeWhile ?P (cstr buf) = cstr buf" by (auto simp: takeWhile_eq_all_conv)
    with False assms have "buf' = buf" "takeWhile ?P (cstr buf) = cstr buf" by (simp_all add: buf'_def)
    with assms show ?thesis by metis
  qed
  moreover have t: "trimmed None = isspace" by (intro ext) (simp add: trimmed_def)
  note remove_whitespace_ok [of buf' None, unfolded t]
  ultimately show ?thesis
    by (auto simp: std_remove_comment_and_trailing_whitespace_def Let_def simp flip: buf'_def)
qed

text \<open>The names of an enumeration convert back: the name of a value in a table without
  duplicates is found again at that value, and a string that is no name gives -1. \<close>

theorem dn_std_enum_roundtrip:
  assumes "distinct keys" and "length keys = unat sz" and "unat sz < 2 ^ 31" and "val < sz"
  shows "\<exists>key. dn_std_enum_to_string keys sz val = Some (Some key)
    \<and> dn_std_string_to_enum (Some keys) sz key = Some (uint val)
    \<and> (name \<notin> set keys \<longrightarrow> dn_std_string_to_enum (Some keys) sz name = Some (-1))"
proof -
  have loop: "string_to_enum_loop keys k n name =
      Some (case find (\<lambda>i. keys ! i = name) [k..<k + n] of None \<Rightarrow> -1 | Some i \<Rightarrow> int i)"
    if "k + n \<le> length keys" for k n name
    using that
  proof (induction n arbitrary: k)
    case (Suc n)
    then have "[k..<k + Suc n] = k # [Suc k..<Suc k + n]" by (simp add: upt_conv_Cons del: upt_Suc)
    with Suc assms(2,3) show ?case by (simp del: upt_Suc)
  qed simp
  have v: "unat val < length keys" using assms(2,4) by (simp add: word_less_nat_alt)
  have "find (\<lambda>i. keys ! i = keys ! unat val) [0..<length keys] = Some (unat val)"
    using v assms(1) by (auto simp: find_Some_iff nth_eq_iff_index_eq)
  moreover have "name \<notin> set keys \<Longrightarrow> find (\<lambda>i. keys ! i = name) [0..<length keys] = None"
    by (auto simp: find_None_iff)
  ultimately show ?thesis
    using loop [of 0 "length keys"] v assms(2,4)
    by (simp add: dn_std_enum_to_string_def dn_std_string_to_enum_def)
qed

lemma std_parse_string_join_witness:
  "\<exists>ts. std_parse_string ''10.0.0.1/24'' ''/'' = Some ts
    \<and> (''10.0.0.1/24'' = join ''/'' ts \<or> ''10.0.0.1/24'' = join ''/'' ts @ ''/'')"
  using std_parse_string_join [of "''/''" "''10.0.0.1/24''"] by auto

lemma std_parse_string_empty_delim_witness: "std_parse_string ''ab'' [] = None"
  using std_parse_string_empty_delim [of "''ab''"] by simp

text \<open>The buffer holds a letter between spaces.\<close>

definition demo_buf :: string where
  "demo_buf = [CHR '' '', CHR ''a'', CHR '' '', CHR '' '', NUL]"

lemma std_remove_whitespace_witness:
  "\<exists>b1 b2. std_remove_leading_whitespace demo_buf None = Some b1 \<and> cstr b1 = ''a  ''
    \<and> std_remove_trailing_whitespace demo_buf None = Some b2 \<and> cstr b2 = '' a''"
  using std_remove_whitespace [of demo_buf None]
  by (auto simp: demo_buf_def cstr_def NUL_def trimmed_def isspace_def)

lemma std_remove_comment_witness:
  "\<exists>b. std_remove_comment_and_trailing_whitespace (''key # note'' @ [NUL]) = Some b \<and> cstr b = ''key''"
  using std_remove_comment [of "''key # note'' @ [NUL]"]
  by (auto simp: cstr_def NUL_def isspace_def)

lemma dn_std_enum_roundtrip_witness:
  "\<exists>key. dn_std_enum_to_string [''up'', ''down''] 2 1 = Some (Some key)
    \<and> dn_std_string_to_enum (Some [''up'', ''down'']) 2 key = Some 1"
  using dn_std_enum_roundtrip [of "[''up'', ''down'']" 2 1] by auto

end
