(* ===== verification/ConfigFile.thy ===== *)
theory ConfigFile
  imports ErrorCodes StringUtils "HOL-Library.List_Lexorder" "HOL-Library.Char_ord"
begin

text \<open>
  Configuration files, \<open>src/std_config_file.cpp\<close>. A \<open>std::map\<close> is the list of its entries in the
  order of the keys, so iterating over it is walking the list; strings are ordered by their
  characters' codes, as \<open>std::string\<close> does. A file is the string of its characters. Allocation
  succeeds.
\<close>

section \<open>Ordered maps\<close>

fun map_put :: "'k::linorder \<Rightarrow> 'v \<Rightarrow> ('k \<times> 'v) list \<Rightarrow> ('k \<times> 'v) list" where
  "map_put k v [] = [(k, v)]"
| "map_put k v ((k', v') # m) =
    (if k < k' then (k, v) # (k', v') # m
     else if k = k' then (k, v) # m
     else (k', v') # map_put k v m)"

abbreviation keys_sorted :: "('k::linorder \<times> 'v) list \<Rightarrow> bool" where
  "keys_sorted m \<equiv> sorted_wrt (<) (map fst m)"

lemma map_of_put [simp]: "keys_sorted m \<Longrightarrow> map_of (map_put k v m) = (map_of m)(k \<mapsto> v)"
  by (induction m) auto

lemma fst_set_put [simp]: "fst ` set (map_put k v m) = insert k (fst ` set m)"
  by (induction k v m rule: map_put.induct) auto

lemma keys_sorted_put [simp]: "keys_sorted m \<Longrightarrow> keys_sorted (map_put k v m)"
proof (induction m)
  case (Cons kv m)
  obtain k' v' where kv: "kv = (k', v')" by (cases kv)
  have k': "\<forall>x \<in> fst ` set m. k' < x" using Cons.prems by (auto simp: kv)
  consider "k < k'" | "k = k'" | "k' < k" by (rule linorder_cases)
  then show ?case
  proof cases
    case 1
    with k' have "\<forall>x \<in> fst ` set m. k < x" by (meson order.strict_trans)
    with 1 Cons.prems show ?thesis by (simp add: kv)
  next
    case 3
    with k' Cons show ?thesis by (auto simp: kv)
  qed (use Cons.prems in \<open>simp add: kv\<close>)
qed simp

lemma set_put_subset: "set (map_put k v m) \<subseteq> insert (k, v) (set m)"
  by (induction k v m rule: map_put.induct) auto



section \<open>The data\<close>

type_synonym map_of_strings_t = "(string \<times> string) list"
type_synonym config_file_t = "(string \<times> map_of_strings_t) list"

text \<open>\<open>map[grp]\<close> on a reference: the entry is created empty when it is not there.\<close>

definition map_at :: "string \<Rightarrow> config_file_t \<Rightarrow> map_of_strings_t" where
  "map_at grp d = (case map_of d grp of None \<Rightarrow> [] | Some m \<Rightarrow> m)"

definition put_key :: "config_file_t \<Rightarrow> string \<Rightarrow> string \<Rightarrow> string \<Rightarrow> config_file_t" where
  "put_key d grp key str = map_put grp (map_put key str (map_at grp d)) d"


definition std_config_file_set :: "config_file_t \<Rightarrow> string \<Rightarrow> string \<Rightarrow> string \<Rightarrow> t_std_error \<times> config_file_t" where
  "std_config_file_set d grp key str = (STD_ERR_OK, put_key d grp key str)"

definition std_config_file_get :: "config_file_t \<Rightarrow> string \<Rightarrow> string \<Rightarrow> string option" where
  "std_config_file_get d grp key = (case map_of d grp of None \<Rightarrow> None | Some m \<Rightarrow> map_of m key)"

definition std_config_file_get_num_keys :: "config_file_t \<Rightarrow> string \<Rightarrow> nat" where
  "std_config_file_get_num_keys d grp = (case map_of d grp of None \<Rightarrow> 0 | Some m \<Rightarrow> length m)"

text \<open>The array is what the caller's \<open>key_list\<close> holds before, \<open>len\<close> its stated length.\<close>

definition std_config_file_get_keys ::
    "config_file_t \<Rightarrow> string \<Rightarrow> string list \<Rightarrow> nat \<Rightarrow> t_std_error \<times> string list \<times> nat" where
  "std_config_file_get_keys d grp key_list len =
    (case map_of d grp of
       None \<Rightarrow> (STD_ERR e_std_err_COM e_std_err_code_PARAM 0, key_list, len)
     | Some m \<Rightarrow>
         if length m > len then (STD_ERR e_std_err_COM e_std_err_code_TOOBIG 0, key_list, len)
         else (STD_ERR_OK, map fst m @ drop (length m) key_list, length m))"

section \<open>Reading a file\<close>

definition cfg_ltrim :: "string \<Rightarrow> string" where
  "cfg_ltrim s = dropWhile isspace s"

definition cfg_rtrim :: "string \<Rightarrow> string" where
  "cfg_rtrim s = rev (dropWhile isspace (rev s))"

definition cfg_trim :: "string \<Rightarrow> string" where
  "cfg_trim s = cfg_ltrim (cfg_rtrim s)"

text \<open>\<open>s.find(c)\<close>; None is \<open>npos\<close>.\<close>

fun find_char :: "char \<Rightarrow> string \<Rightarrow> nat option" where
  "find_char c [] = None"
| "find_char c (x # xs) = (if x = c then Some 0 else map_option Suc (find_char c xs))"

text \<open>\<open>npos + 1\<close> is 0, and a length that wrapped around takes the rest of the string.\<close>

definition handle_section :: "string \<Rightarrow> string" where
  "handle_section section =
    (let p1 = (case find_char (CHR ''['') section of None \<Rightarrow> 0 | Some p \<Rightarrow> Suc p)
     in case find_char (CHR '']'') section of
          None \<Rightarrow> drop p1 section
        | Some p2 \<Rightarrow> if p2 < p1 then drop p1 section else take (p2 - p1) (drop p1 section))"

definition handle_keyfield :: "string \<Rightarrow> string \<Rightarrow> config_file_t \<Rightarrow> config_file_t" where
  "handle_keyfield line section d =
    (case find_char (CHR ''='') line of
       None \<Rightarrow> put_key d section (cfg_trim line) (cfg_trim line)
     | Some len \<Rightarrow> put_key d section (cfg_trim (take len line)) (cfg_trim (drop (Suc len) line)))"

definition BUFF_LEN :: nat where "BUFF_LEN = 1024"

abbreviation newline :: char where "newline \<equiv> CHR 0x0A"

text \<open>
  \<open>fgets\<close> with room for \<open>n\<close> characters before the null: what it stores and what is left of the file.
  The line as a \<open>std::string\<close> ends at the first null character (\<open>cstr\<close>).
\<close>

fun fgets :: "nat \<Rightarrow> string \<Rightarrow> string \<times> string" where
  "fgets 0 cs = ([], cs)"
| "fgets (Suc n) [] = ([], [])"
| "fgets (Suc n) (c # cs) =
    (if c = newline then ([c], cs) else (case fgets n cs of (l, r) \<Rightarrow> (c # l, r)))"

definition load_line :: "string \<Rightarrow> string \<times> config_file_t \<Rightarrow> string \<times> config_file_t" where
  "load_line line st =
    (case st of (section, d) \<Rightarrow>
      if find_char (CHR ''['') line = Some 0 \<and> find_char (CHR '']'') line \<noteq> None then (handle_section line, d)
      else if find_char (CHR ''='') line = None then (section, d)
      else (section, handle_keyfield line section d))"

lemma fgets_shorter: "cs \<noteq> [] \<Longrightarrow> 0 < n \<Longrightarrow> length (snd (fgets n cs)) < length cs"
proof (induction n cs rule: fgets.induct)
  case (3 n c cs)
  show ?case
  proof (cases "c = newline \<or> n = 0 \<or> cs = []")
    case True
    then show ?thesis by (cases n) (auto split: prod.splits)
  next
    case False
    with 3 show ?thesis by (auto split: prod.splits)
  qed
qed auto

function load_loop :: "string \<Rightarrow> string \<times> config_file_t \<Rightarrow> string \<times> config_file_t" where
  "load_loop file st =
    (if file = [] then st
     else load_loop (snd (fgets (BUFF_LEN - 1) file)) (load_line (cstr (fst (fgets (BUFF_LEN - 1) file))) st))"
  by pat_completeness auto
termination
  by (relation "measure (\<lambda>(file, _). length file)") (auto simp: fgets_shorter BUFF_LEN_def)

declare load_loop.simps [simp del]

section \<open>The file system\<close>













section \<open>Setting and getting\<close>

definition config_ok :: "config_file_t \<Rightarrow> bool" where
  "config_ok d \<longleftrightarrow> keys_sorted d \<and> (\<forall>(grp, m) \<in> set d. m \<noteq> [] \<and> keys_sorted m)"

lemma map_at_sorted: "config_ok d \<Longrightarrow> keys_sorted (map_at grp d)"
  by (auto simp: map_at_def config_ok_def dest: map_of_SomeD split: option.split)

lemma map_put_not_Nil [simp]: "map_put k v m \<noteq> []"
  using fst_set_put [of k v m] by (metis empty_iff image_empty insertI1 list.set(1))

lemma config_ok_put: "config_ok d \<Longrightarrow> config_ok (put_key d grp key str)"
proof -
  assume d: "config_ok d"
  have "m \<noteq> [] \<and> keys_sorted m" if "(g, m) \<in> set (put_key d grp key str)" for g m
  proof -
    from that have "(g, m) = (grp, map_put key str (map_at grp d)) \<or> (g, m) \<in> set d"
      using set_put_subset [of grp "map_put key str (map_at grp d)" d] unfolding put_key_def by blast
    with d map_at_sorted [OF d, of grp] show ?thesis by (auto simp: config_ok_def)
  qed
  moreover have "keys_sorted (put_key d grp key str)" using d by (simp add: config_ok_def put_key_def)
  ultimately show ?thesis unfolding config_ok_def by blast
qed

lemma config_get_put:
  "config_ok d \<Longrightarrow> std_config_file_get (put_key d grp key str) g k =
    (if g = grp \<and> k = key then Some str else std_config_file_get d g k)"
  using map_at_sorted [of d grp]
  by (auto simp: std_config_file_get_def put_key_def config_ok_def map_at_def split: option.split)

lemma config_get_set:
  assumes "config_ok d"
  shows "fst (std_config_file_set d grp key str) = STD_ERR_OK"
    and "config_ok (snd (std_config_file_set d grp key str))"
    and "std_config_file_get (snd (std_config_file_set d grp key str)) g k =
      (if g = grp \<and> k = key then Some str else std_config_file_get d g k)"
  using config_get_put [OF assms] config_ok_put [OF assms] by (simp_all add: std_config_file_set_def)

lemma config_get_keys:
  assumes "config_ok d" and "std_config_file_get_keys d grp key_list len = (STD_ERR_OK, ks, n)"
  shows "n = std_config_file_get_num_keys d grp" "n \<le> len" "sorted_wrt (<) (take n ks)"
    "set (take n ks) = {k. std_config_file_get d grp k \<noteq> None}"
proof -
  obtain m where m: "map_of d grp = Some m"
    using assms(2) std_err_not_ok by (cases "map_of d grp") (simp_all add: std_config_file_get_keys_def)
  moreover from this have "length m \<le> len"
    using assms(2) std_err_not_ok by (cases "length m > len") (simp_all add: std_config_file_get_keys_def)
  ultimately have m: "map_of d grp = Some m" "length m \<le> len" "ks = map fst m @ drop (length m) key_list" "n = length m"
    using assms(2) by (auto simp: std_config_file_get_keys_def)
  from m(1) map_at_sorted [OF assms(1), of grp] have "keys_sorted m" by (simp add: map_at_def)
  moreover have "fst ` set m = {k. std_config_file_get d grp k \<noteq> None}"
    unfolding dom_map_of_conv_image_fst [symmetric] using m(1) by (simp add: std_config_file_get_def dom_def)
  ultimately show "n = std_config_file_get_num_keys d grp" "n \<le> len" "sorted_wrt (<) (take n ks)"
    "set (take n ks) = {k. std_config_file_get d grp k \<noteq> None}"
    using m by (simp_all add: std_config_file_get_num_keys_def)
qed

lemma config_ok_load: "config_ok (snd st) \<Longrightarrow> config_ok (snd (load_loop f st))"
proof (induction f st rule: load_loop.induct)
  case (1 f st)
  have "config_ok (snd (load_line line st))" for line
    using 1(2) by (auto simp: load_line_def handle_keyfield_def config_ok_put split: prod.splits option.splits)
  with 1 show ?case by (subst load_loop.simps) simp
qed

section \<open>What a file keeps\<close>

































section \<open>The properties\<close>



end
