(* ===== verification/UserPerm.thy ===== *)
theory UserPerm
  imports ErrorCodes
begin

text \<open>
  Owners and permissions of files, \<open>src/std_user_perm.cpp\<close>. The file system and the user database
  have the type \<open>'w\<close>; the calls on them are the fields of \<open>user_env\<close>. A string is read from a
  pointer into it, which is the rest of the string; the character at its end is the null. The mutex
  around the initialisation of a constant is left out; allocation succeeds. None is a failed assertion.
\<close>

section \<open>The system calls\<close>

text \<open>
  \<open>getpwnam_r\<close> and \<open>getgrnam_r\<close> get the size of the buffer and give the identifier, or None when the
  call fails or knows no such name; \<open>errno_now\<close> is what \<open>errno\<close> holds then. The others give \<open>Inl errno\<close>
  when they fail.
\<close>

record 'w user_env =
  sys_stat :: "'w \<Rightarrow> string option \<Rightarrow> u32 + u32"
  sys_chmod :: "'w \<Rightarrow> string \<Rightarrow> u32 \<Rightarrow> 'w \<times> u32 option"
  sys_chown :: "'w \<Rightarrow> string \<Rightarrow> u32 \<Rightarrow> u32 \<Rightarrow> 'w \<times> u32 option"
  sys_sysconf :: "int \<Rightarrow> int"
  sys_getpwnam :: "'w \<Rightarrow> string \<Rightarrow> nat \<Rightarrow> u32 option"
  sys_getgrnam :: "'w \<Rightarrow> string \<Rightarrow> nat \<Rightarrow> u32 option"
  errno_now :: "'w \<Rightarrow> u32"

definition SC_GETGR_R_SIZE_MAX :: int where "SC_GETGR_R_SIZE_MAX = 69"
definition SC_GETPW_R_SIZE_MAX :: int where "SC_GETPW_R_SIZE_MAX = 70"

definition get_estimated_buff :: "'w user_env \<Rightarrow> int \<Rightarrow> nat" where
  "get_estimated_buff env tag = (let sz = sys_sysconf env tag in if sz = -1 then 2048 else nat (sz * 2))"

text \<open>The group \<open>(gid_t) -1\<close> leaves the group of the file as it is.\<close>

definition std_user_chown ::
    "'w user_env \<Rightarrow> string option \<Rightarrow> string option \<Rightarrow> string option \<Rightarrow> 'w \<Rightarrow> ('w \<times> t_std_error) option" where
  "std_user_chown env path name grp w =
    (case (path, name) of
       (Some path, Some name) \<Rightarrow>
         (case sys_getpwnam env w name (get_estimated_buff env SC_GETPW_R_SIZE_MAX) of
            None \<Rightarrow> Some (w, STD_ERR e_std_err_COM e_std_err_code_FAIL (errno_now env w))
          | Some uid \<Rightarrow>
              (case (case grp of
                       None \<Rightarrow> Some (-1)
                     | Some grp \<Rightarrow> sys_getgrnam env w grp (get_estimated_buff env SC_GETGR_R_SIZE_MAX)) of
                 None \<Rightarrow> Some (w, STD_ERR e_std_err_COM e_std_err_code_FAIL (errno_now env w))
               | Some gid \<Rightarrow>
                   (case sys_chown env w path uid gid of
                      (w, Some errno) \<Rightarrow> Some (w, STD_ERR e_std_err_COM e_std_err_code_FAIL errno)
                    | (w, None) \<Rightarrow> Some (w, STD_ERR_OK))))
     | _ \<Rightarrow> None)"

section \<open>Permission strings\<close>

definition S_IRUSR :: u32 where "S_IRUSR = 256"
definition S_IWUSR :: u32 where "S_IWUSR = 128"
definition S_IXUSR :: u32 where "S_IXUSR = 64"
definition S_IRGRP :: u32 where "S_IRGRP = 32"
definition S_IWGRP :: u32 where "S_IWGRP = 16"
definition S_IXGRP :: u32 where "S_IXGRP = 8"
definition S_IROTH :: u32 where "S_IROTH = 4"
definition S_IWOTH :: u32 where "S_IWOTH = 2"
definition S_IXOTH :: u32 where "S_IXOTH = 1"

lemmas mode_defs = S_IRUSR_def S_IWUSR_def S_IXUSR_def S_IRGRP_def S_IWGRP_def S_IXGRP_def
  S_IROTH_def S_IWOTH_def S_IXOTH_def

definition perm_map :: "char \<Rightarrow> (char \<Rightarrow> u32 option) option" where
  "perm_map =
    [CHR ''a'' \<mapsto> [CHR ''r'' \<mapsto> S_IRUSR OR S_IRGRP OR S_IROTH, CHR ''w'' \<mapsto> S_IWUSR OR S_IWGRP OR S_IWOTH,
                CHR ''x'' \<mapsto> S_IXUSR OR S_IXGRP OR S_IXOTH],
     CHR ''o'' \<mapsto> [CHR ''r'' \<mapsto> S_IROTH, CHR ''w'' \<mapsto> S_IWOTH, CHR ''x'' \<mapsto> S_IXOTH],
     CHR ''g'' \<mapsto> [CHR ''r'' \<mapsto> S_IRGRP, CHR ''w'' \<mapsto> S_IWGRP, CHR ''x'' \<mapsto> S_IXGRP],
     CHR ''u'' \<mapsto> [CHR ''r'' \<mapsto> S_IRUSR, CHR ''w'' \<mapsto> S_IWUSR, CHR ''x'' \<mapsto> S_IXUSR]]"

definition valid_oper :: "char \<Rightarrow> bool" where
  "valid_oper elem \<longleftrightarrow> elem = CHR ''='' \<or> elem = CHR ''+'' \<or> elem = CHR ''-''"

text \<open>The character a pointer into a string points to.\<close>

definition at_ptr :: "string \<Rightarrow> char" where
  "at_ptr s = (case s of [] \<Rightarrow> CHR 0x00 | c # _ \<Rightarrow> c)"

fun chomp_loop :: "(char \<Rightarrow> u32 option) \<Rightarrow> string \<Rightarrow> u32 \<Rightarrow> string \<times> u32" where
  "chomp_loop it [] md = ([], md)"
| "chomp_loop it (c # s) md = (case it c of None \<Rightarrow> (c # s, md) | Some m \<Rightarrow> chomp_loop it s (md OR m))"

text \<open>The pointer, the operation and the mode afterwards, with the value returned.\<close>

definition chomp :: "string \<Rightarrow> u32 \<Rightarrow> (string \<times> char \<times> u32 \<times> bool) option" where
  "chomp perm_str md =
    (let elem = at_ptr perm_str;
         (user, perm_str) = (if perm_map elem \<noteq> None then (elem, tl perm_str) else (CHR ''u'', perm_str));
         elem = at_ptr perm_str;
         (op, perm_str) = (if valid_oper elem then (elem, tl perm_str) else (CHR ''+'', perm_str))
     in case perm_map user of
          None \<Rightarrow> None
        | Some it \<Rightarrow>
            if it (at_ptr perm_str) = None then Some (perm_str, op, md, False)
            else (case chomp_loop it perm_str md of (perm_str, md) \<Rightarrow> Some (perm_str, op, md, True)))"

definition all_mode_mask :: u32 where
  "all_mode_mask = S_IWUSR OR S_IWGRP OR S_IWOTH OR (S_IRUSR OR S_IRGRP OR S_IROTH) OR (S_IXUSR OR S_IXGRP OR S_IXOTH)"

definition apply_oper :: "u32 \<Rightarrow> char \<Rightarrow> u32 \<Rightarrow> u32 \<Rightarrow> u32" where
  "apply_oper st_mode op ch_mod md =
    (let md = (if op = CHR ''='' then ch_mod else if md = 0 then st_mode AND all_mode_mask else md);
         md = (if op = CHR ''+'' then md OR ch_mod else md)
     in if op = CHR ''-'' then md AND NOT ch_mod else md)"

lemma at_ptr_Nil [simp]: "at_ptr [] = CHR 0x00"
  by (simp add: at_ptr_def)

lemma at_ptr_Cons [simp]: "at_ptr (c # s) = c"
  by (simp add: at_ptr_def)

text \<open>
  A string splits into the class and the operation read first, if they are there, and the rest.
\<close>

definition opt_text :: "char option \<Rightarrow> string" where
  "opt_text c = (case c of None \<Rightarrow> [] | Some c \<Rightarrow> [c])"

definition split_ok :: "char option \<Rightarrow> char option \<Rightarrow> string \<Rightarrow> bool" where
  "split_ok user q r \<longleftrightarrow> (\<forall>u. user = Some u \<longrightarrow> u \<in> set ''aogu'') \<and> (\<forall>c. q = Some c \<longrightarrow> c \<in> set ''=+-'') \<and>
     (user = None \<longrightarrow> at_ptr (opt_text q @ r) \<notin> set ''aogu'') \<and> (q = None \<longrightarrow> at_ptr r \<notin> set ''=+-'')"

definition is_perm :: "char \<Rightarrow> bool" where
  "is_perm p \<longleftrightarrow> p \<in> set ''rwx''"

lemma is_perm_null [simp]: "\<not> is_perm (CHR 0x00)"
  by (simp add: is_perm_def)

definition bits_of :: "char \<Rightarrow> char \<Rightarrow> u32" where
  "bits_of user p = (case perm_map user of None \<Rightarrow> 0 | Some it \<Rightarrow> (case it p of None \<Rightarrow> 0 | Some m \<Rightarrow> m))"

definition mode_bits :: "char option \<Rightarrow> string \<Rightarrow> u32" where
  "mode_bits user ps = foldr (\<lambda>p m. bits_of (case user of None \<Rightarrow> CHR ''u'' | Some u \<Rightarrow> u) p OR m) ps 0"

definition oper_of :: "char option \<Rightarrow> char" where
  "oper_of q = (case q of None \<Rightarrow> CHR ''+'' | Some q \<Rightarrow> q)"

lemma perm_map_user: "perm_map u \<noteq> None \<longleftrightarrow> u \<in> set ''aogu''"
  by (simp add: perm_map_def)

lemma perm_map_perm: "perm_map u = Some it \<Longrightarrow> it p \<noteq> None \<longleftrightarrow> is_perm p"
  by (auto simp: perm_map_def is_perm_def split: if_splits)

lemma valid_oper_iff: "valid_oper c \<longleftrightarrow> c \<in> set ''=+-''"
  by (auto simp: valid_oper_def)

lemma split_ok_ex: "\<exists>user q r. s = opt_text user @ opt_text q @ r \<and> split_ok user q r"
proof -
  have q: "\<exists>q r. s = opt_text q @ r \<and> (\<forall>c. q = Some c \<longrightarrow> c \<in> set ''=+-'') \<and> (q = None \<longrightarrow> at_ptr r \<notin> set ''=+-'')" for s
  proof (cases "at_ptr s \<in> set ''=+-''")
    case True
    then obtain c r where "s = c # r" by (cases s) auto
    with True show ?thesis by (intro exI [of _ "Some c"] exI [of _ r]) (simp add: opt_text_def)
  next
    case False
    then show ?thesis by (intro exI [of _ None] exI [of _ s]) (simp add: opt_text_def)
  qed
  show ?thesis
  proof (cases "at_ptr s \<in> set ''aogu''")
    case True
    then obtain u t where s: "s = u # t" "u \<in> set ''aogu''" by (cases s) auto
    from q [of t] obtain qq r where "t = opt_text qq @ r" "\<forall>c. qq = Some c \<longrightarrow> c \<in> set ''=+-''" "qq = None \<longrightarrow> at_ptr r \<notin> set ''=+-''"
      by blast
    with s show ?thesis
      by (intro exI [of _ "Some u"] exI [of _ qq] exI [of _ r]) (simp add: opt_text_def [of "Some u"] split_ok_def)
  next
    case False
    from q [of s] obtain qq r where "s = opt_text qq @ r" "\<forall>c. qq = Some c \<longrightarrow> c \<in> set ''=+-''" "qq = None \<longrightarrow> at_ptr r \<notin> set ''=+-''"
      by blast
    with False show ?thesis
      by (intro exI [of _ None] exI [of _ qq] exI [of _ r]) (simp add: opt_text_def [of None] split_ok_def)
  qed
qed

lemma chomp_loop_eq:
  assumes "perm_map (case user of None \<Rightarrow> CHR ''u'' | Some u \<Rightarrow> u) = Some it"
  shows "chomp_loop it s m = (dropWhile is_perm s, m OR mode_bits user (takeWhile is_perm s))"
proof (induction s arbitrary: m)
  case (Cons c s)
  then show ?case using perm_map_perm [OF assms, of c] assms
    by (cases "it c") (auto simp: mode_bits_def bits_of_def or.assoc)
qed (simp add: mode_bits_def)

lemma chomp_split:
  assumes "split_ok user q r"
  shows "chomp (opt_text user @ opt_text q @ r) 0 = Some
    (if is_perm (at_ptr r) then (dropWhile is_perm r, oper_of q, mode_bits user (takeWhile is_perm r), True)
     else (r, oper_of q, 0, False))"
proof -
  let ?u = "case user of None \<Rightarrow> CHR ''u'' | Some u \<Rightarrow> u"
  have "perm_map ?u \<noteq> None"
    unfolding perm_map_user using assms by (cases user) (auto simp: split_ok_def)
  then obtain it where it: "perm_map ?u = Some it" by blast
  have "perm_map (at_ptr (opt_text user @ opt_text q @ r)) \<noteq> None \<longleftrightarrow> user \<noteq> None"
    unfolding perm_map_user using assms by (cases user) (simp_all add: opt_text_def split_ok_def)
  moreover have "valid_oper (at_ptr (opt_text q @ r)) \<longleftrightarrow> q \<noteq> None"
    unfolding valid_oper_iff using assms by (cases q) (simp_all add: opt_text_def split_ok_def)
  ultimately show ?thesis
    using it perm_map_perm [OF it, of "at_ptr r"]
    by (cases user; cases q) (simp_all add: chomp_def Let_def chomp_loop_eq [OF it] opt_text_def oper_of_def)
qed

lemma chomp_shorter:
  assumes "chomp s 0 = Some (s', op, m', True)"
  shows "length s' < length s"
proof -
  obtain user q r where s: "s = opt_text user @ opt_text q @ r" "split_ok user q r" using split_ok_ex [of s] by blast
  with assms have "is_perm (at_ptr r)" "s' = dropWhile is_perm r"
    by (simp_all add: chomp_split split: if_splits)
  then have "length s' < length r"
    using length_dropWhile_le [of is_perm "tl r"] by (cases r) auto
  then show ?thesis by (simp add: s)
qed

text \<open>\<open>Inl\<close> is the error for the position that cannot be read.\<close>

function chmod_loop :: "u32 \<Rightarrow> string \<Rightarrow> u32 \<Rightarrow> (t_std_error + u32) option" where
  "chmod_loop st_mode perm_str md =
    (if perm_str = [] then Some (Inr md)
     else
       (case chomp perm_str 0 of
          None \<Rightarrow> None
        | Some (rest, op, ch_mod, ok) \<Rightarrow>
            if \<not> ok then
              Some (Inl (STD_ERR e_std_err_COM e_std_err_code_PARAM (scast (of_char (at_ptr rest) :: u8))))
            else chmod_loop st_mode rest (apply_oper st_mode op ch_mod md)))"
  by pat_completeness auto
termination
  by (relation "measure (\<lambda>(_, s, _). length s)") (auto simp: chomp_shorter)

declare chmod_loop.simps [simp del]


section \<open>Clauses\<close>





















section \<open>The properties\<close>




text \<open>Taking all permissions away and giving one to the owner leaves what there was before.\<close>

lemma std_user_chmod_forgets:
  "chmod_loop 511 ''a-rwxu+r'' 0 = Some (Inr 511)"
  by (simp add: chmod_loop.simps chomp_def perm_map_def valid_oper_def apply_oper_def all_mode_mask_def mode_defs)

end
