(* ===== verification/FileIo.thy ===== *)
theory FileIo
  imports ErrorCodes
begin

text \<open>
  Reading and writing descriptors, \<open>src/std_file_utils.c\<close>. The state of the kernel has the type \<open>'w\<close>;
  a system call is a function on it. The loop of \<open>file_op\<close> is shared by reads and writes: the call
  gets the rest of the buffer and gives it back, changed by a read, with its result and \<open>errno\<close>.
\<close>

section \<open>The retry loop\<close>

type_synonym 'w fo = "'w \<Rightarrow> int \<Rightarrow> u8 list \<Rightarrow> 'w \<times> u8 list \<times> int \<times> u32"

definition STD_INVALID_FD :: int where "STD_INVALID_FD = -1"
definition STD_MAX_EINTR :: int where "STD_MAX_EINTR = 10"
definition EINTR :: u32 where "EINTR = 4"

definition STD_ERRNO :: "u32 \<Rightarrow> t_std_error" where
  "STD_ERRNO errno = STD_ERR_FROM_ERRNO errno e_std_err_COM e_std_err_code_FAIL"

definition is_errno :: "int \<Rightarrow> u32 \<Rightarrow> u32 \<Rightarrow> bool" where
  "is_errno rc errno code \<longleftrightarrow> rc = -1 \<and> errno = code"

text \<open>
  The result is the kernel state, the buffer, the value returned and what is written to \<open>err\<close>: None
  when it is left alone, which happens at the end of the file.
\<close>

partial_function (option) file_op_loop ::
    "'w fo \<Rightarrow> int \<Rightarrow> bool \<Rightarrow> int \<Rightarrow> int \<Rightarrow> u8 list \<Rightarrow> 'w \<Rightarrow> ('w \<times> u8 list \<times> int \<times> t_std_error option) option" where
  "file_op_loop oper fd require_all tot fail_retry buf w =
    (if tot = int (length buf) then Some (w, buf, tot, Some STD_ERR_OK)
     else
       (case oper w fd (drop (nat tot) buf) of
          (w, rest, rc, errno) \<Rightarrow>
            (let buf = take (nat tot) buf @ rest in
             if is_errno rc errno EINTR then
               (if fail_retry - 1 < 0 then Some (w, buf, rc, Some (STD_ERRNO errno))
                else file_op_loop oper fd require_all tot (fail_retry - 1) buf w)
             else if rc = -1 then Some (w, buf, rc, Some (STD_ERRNO errno))
             else if rc = 0 then Some (w, buf, tot, None)
             else if \<not> require_all then Some (w, buf, tot + rc, Some STD_ERR_OK)
             else file_op_loop oper fd require_all (tot + rc) STD_MAX_EINTR buf w)))"

definition file_op :: "'w fo \<Rightarrow> int \<Rightarrow> u8 list \<Rightarrow> bool \<Rightarrow> 'w \<Rightarrow> ('w \<times> u8 list \<times> int \<times> t_std_error option) option" where
  "file_op oper fd buf require_all w = file_op_loop oper fd require_all 0 STD_MAX_EINTR buf w"

text \<open>\<open>read\<close> and \<open>write\<close> are the system calls; a write leaves the buffer as it is.\<close>

type_synonym 'w write_call = "'w \<Rightarrow> int \<Rightarrow> u8 list \<Rightarrow> 'w \<times> int \<times> u32"

definition std_read :: "'w fo \<Rightarrow> int \<Rightarrow> u8 list \<Rightarrow> bool \<Rightarrow> 'w \<Rightarrow> ('w \<times> u8 list \<times> int \<times> t_std_error option) option" where
  "std_read read fd buf require_all w = file_op read fd buf require_all w"

definition std_write :: "'w write_call \<Rightarrow> int \<Rightarrow> u8 list \<Rightarrow> bool \<Rightarrow> 'w \<Rightarrow> ('w \<times> int \<times> t_std_error option) option" where
  "std_write write fd data require_all w =
    map_option (\<lambda>(w, _, rc, err). (w, rc, err))
      (file_op (\<lambda>w fd rest. case write w fd rest of (w, rc, errno) \<Rightarrow> (w, rest, rc, errno)) fd data require_all w)"

definition std_fd_copy :: "'w fo \<Rightarrow> 'w write_call \<Rightarrow> int \<Rightarrow> int \<Rightarrow> u8 list \<Rightarrow> 'w \<Rightarrow> ('w \<times> int \<times> t_std_error option) option" where
  "std_fd_copy read write fdout fdin buff w =
    (case std_read read fdin (take 99 buff) False w of
       None \<Rightarrow> None
     | Some (w, buff, rc, err) \<Rightarrow>
         if rc = -1 \<or> rc = 0 then Some (w, rc, err) else std_write write fdout (take (nat rc) buff) True w)"

section \<open>Duplicating descriptors\<close>

fun close_fds :: "('w \<Rightarrow> int \<Rightarrow> 'w) \<Rightarrow> int list \<Rightarrow> 'w \<Rightarrow> 'w" where
  "close_fds close [] w = w"
| "close_fds close (fd # fds) w = close_fds close fds (close w fd)"

text \<open>The clones made so far are in order of \<open>fin\<close>; on failure they are closed.\<close>

fun clone_fds_loop :: "('w \<Rightarrow> int \<Rightarrow> 'w \<times> int \<times> u32) \<Rightarrow> ('w \<Rightarrow> int \<Rightarrow> 'w) \<Rightarrow> int list \<Rightarrow> int list \<Rightarrow> 'w \<Rightarrow>
    'w \<times> int list \<times> t_std_error" where
  "clone_fds_loop dup close fclones [] w = (w, fclones, STD_ERR_OK)"
| "clone_fds_loop dup close fclones (fd # fin) w =
    (case dup w fd of
       (w, c, errno) \<Rightarrow>
         if c = -1 then (close_fds close fclones w, fclones @ [c], STD_ERRNO errno)
         else clone_fds_loop dup close (fclones @ [c]) fin w)"

definition std_file_clone_fds :: "('w \<Rightarrow> int \<Rightarrow> 'w \<times> int \<times> u32) \<Rightarrow> ('w \<Rightarrow> int \<Rightarrow> 'w) \<Rightarrow> int list \<Rightarrow> 'w \<Rightarrow>
    'w \<times> int list \<times> t_std_error" where
  "std_file_clone_fds dup close fin w = clone_fds_loop dup close [] fin w"

definition STDIN_FILENO :: int where "STDIN_FILENO = 0"
definition STDOUT_FILENO :: int where "STDOUT_FILENO = 1"

definition std_redir_stdoutin :: "('w \<Rightarrow> int \<Rightarrow> 'w \<times> int \<times> u32) \<Rightarrow> ('w \<Rightarrow> int \<Rightarrow> int \<Rightarrow> 'w \<times> int \<times> u32) \<Rightarrow>
    ('w \<Rightarrow> int \<Rightarrow> 'w) \<Rightarrow> int \<Rightarrow> 'w \<Rightarrow> 'w \<times> t_std_error" where
  "std_redir_stdoutin dup dup2 close fd w =
    (case std_file_clone_fds dup close [STDIN_FILENO, STDOUT_FILENO] w of
       (w, ofds, serr) \<Rightarrow>
         if serr \<noteq> STD_ERR_OK then (w, serr)
         else
           (let (w, serr) =
              (case dup2 w fd STDIN_FILENO of
                 (w, rc, errno) \<Rightarrow>
                   if rc = -1 then (w, STD_ERRNO errno)
                   else
                     (case dup2 w fd STDOUT_FILENO of
                        (w, rc, errno) \<Rightarrow>
                          if rc = -1 then (fst (dup2 w (ofds ! 0) STDIN_FILENO), STD_ERRNO errno)
                          else (w, STD_ERR_OK)))
            in (close (close w (ofds ! 0)) (ofds ! 1), serr)))"

definition std_close :: "('w \<Rightarrow> int \<Rightarrow> 'w \<times> int \<times> u32) \<Rightarrow> int \<Rightarrow> 'w \<Rightarrow> 'w \<times> t_std_error" where
  "std_close close fd w = (case close w fd of (w, rc, errno) \<Rightarrow> (w, if rc < 0 then STD_ERRNO errno else STD_ERR_OK))"

section \<open>Streams\<close>

text \<open>
  What a read of a stream promises: it takes at most as many bytes as asked for off the bytes still
  to come (\<open>pending\<close>), in order, none only at the end; a failed one takes nothing.
\<close>

locale byte_source =
  fixes read :: "'w fo" and fd :: int and pending :: "'w \<Rightarrow> u8 list"
  assumes read_law: "read w fd buf = (w', buf', rc, errno) \<Longrightarrow> length buf' = length buf \<and>
    (if rc = -1 then pending w' = pending w
     else 0 \<le> rc \<and> rc \<le> int (length buf) \<and> pending w = take (nat rc) buf' @ pending w' \<and>
       (rc = 0 \<and> buf \<noteq> [] \<longrightarrow> pending w = []))"
begin

definition call_failed :: "u32 \<Rightarrow> bool" where
  "call_failed e \<longleftrightarrow> (\<exists>w0 b0 w1 b1. read w0 fd b0 = (w1, b1, -1, e))"

lemma call_failedI: "read w0 fd b0 = (w1, b1, -1, e) \<Longrightarrow> call_failed e"
  unfolding call_failed_def by blast

definition read_outcome :: "u8 list \<Rightarrow> nat \<Rightarrow> u8 list \<times> int \<times> t_std_error option \<Rightarrow> 'w \<Rightarrow> bool" where
  "read_outcome bytes n res w' \<longleftrightarrow> (case res of (buf', rc, err) \<Rightarrow> length buf' = n \<and>
     (rc = int n \<and> err = Some STD_ERR_OK \<and> bytes = buf' @ pending w' \<or>
      0 \<le> rc \<and> rc < int n \<and> err = None \<and> bytes = take (nat rc) buf' \<and> pending w' = [] \<or>
      rc = -1 \<and> (\<exists>e. err = Some (STD_ERRNO e) \<and> call_failed e) \<and> (\<exists>k. bytes = take k buf' @ pending w')))"

lemma read_loop:
  assumes "tot \<le> length buf" "0 \<le> retry" "retry \<le> STD_MAX_EINTR"
  shows "\<exists>w' buf' rc err. file_op_loop read fd True (int tot) retry buf w = Some (w', buf', rc, err) \<and>
    read_outcome (take tot buf @ pending w) (length buf) (buf', rc, err) w'"
  using assms
proof (induction "11 * (length buf - tot) + nat retry" arbitrary: tot retry buf w rule: less_induct)
  case less
  show ?case
  proof (cases "tot = length buf")
    case True
    then show ?thesis by (subst file_op_loop.simps) (simp add: read_outcome_def)
  next
    case False
    obtain w1 rest rc errno where r: "read w fd (drop tot buf) = (w1, rest, rc, errno)" by (metis prod_cases4)
    note law = read_law [OF r]
    let ?buf = "take tot buf @ rest"
    have len: "length ?buf = length buf" "drop tot buf \<noteq> []" "take tot ?buf = take tot buf"
      using law less.prems False by simp_all
    note unf = file_op_loop.simps [of read fd True "int tot" retry buf w]
    consider (intr) "is_errno rc errno EINTR" "0 < retry" | (giveup) "is_errno rc errno EINTR" "retry - 1 < 0"
      | (fail) "rc = -1" "\<not> is_errno rc errno EINTR" | (eof) "rc = 0" | (data) "rc > 0"
      using law less.prems(2) by (cases "rc = -1") (force simp: is_errno_def)+
    then show ?thesis
    proof cases
      case intr
      have "11 * (length ?buf - tot) + nat (retry - 1) < 11 * (length buf - tot) + nat retry" using intr len by simp
      note ih = less.hyps [OF this, of w1]
      have "pending w1 = pending w" using law intr by (simp add: is_errno_def)
      then show ?thesis using ih intr len False r less.prems by (simp add: unf)
    next
      case giveup
      then have "rc = -1" "pending w1 = pending w" using law by (simp_all add: is_errno_def)
      then have "read_outcome (take tot buf @ pending w) (length buf) (?buf, rc, Some (STD_ERRNO errno)) w1"
        using len r by (auto simp: read_outcome_def dest: call_failedI intro!: exI [of _ tot])
      then show ?thesis using giveup r False by (simp add: unf)
    next
      case fail
      then have "pending w1 = pending w" using law by simp
      then have "read_outcome (take tot buf @ pending w) (length buf) (?buf, rc, Some (STD_ERRNO errno)) w1"
        using len fail r by (auto simp: read_outcome_def dest: call_failedI intro!: exI [of _ tot])
      then show ?thesis using fail r False by (simp add: unf)
    next
      case eof
      then have "pending w = []" "pending w1 = []" using law len by auto
      then have "read_outcome (take tot buf @ pending w) (length buf) (?buf, int tot, None) w1"
        using len less.prems False by (simp add: read_outcome_def)
      then show ?thesis using eof r False by (simp add: unf is_errno_def)
    next
      case data
      let ?t = "tot + nat rc"
      have t: "?t \<le> length ?buf" "pending w = take (nat rc) rest @ pending w1" using law data len less.prems by auto
      have "11 * (length ?buf - ?t) + nat STD_MAX_EINTR < 11 * (length buf - tot) + nat retry"
        using t(1) data len by (simp add: STD_MAX_EINTR_def)
      note ih = less.hyps [OF this t(1), of w1]
      have "take ?t ?buf @ pending w1 = take tot buf @ pending w" using t len less.prems by simp
      moreover have "int tot + rc = int ?t" using data by simp
      ultimately show ?thesis using ih data len False r by (simp add: unf is_errno_def STD_MAX_EINTR_def)
    qed
  qed
qed

lemma std_read_all:
  "\<exists>w' buf' rc err. std_read read fd buf True w = Some (w', buf', rc, err) \<and>
    read_outcome (pending w) (length buf) (buf', rc, err) w'"
  using read_loop [of 0 buf STD_MAX_EINTR w] by (simp add: std_read_def file_op_def STD_MAX_EINTR_def)

end

text \<open>A source whose calls do not fail.\<close>

locale reliable_source = byte_source +
  assumes reliable: "read w fd buf = (w', buf', rc, errno) \<Longrightarrow> rc \<noteq> -1"
begin

lemma never_failed: "\<not> call_failed e"
  using reliable unfolding call_failed_def by blast

lemma std_read_exact:
  assumes "length buf \<le> length (pending w)"
  shows "\<exists>w'. std_read read fd buf True w = Some (w', take (length buf) (pending w), int (length buf), Some STD_ERR_OK) \<and>
    pending w' = drop (length buf) (pending w)"
proof -
  obtain w' buf' rc err where r: "std_read read fd buf True w = Some (w', buf', rc, err)"
      "read_outcome (pending w) (length buf) (buf', rc, err) w'"
    using std_read_all by blast
  then have "length buf' = length buf"
    "rc = int (length buf) \<and> err = Some STD_ERR_OK \<and> pending w = buf' @ pending w' \<or>
     0 \<le> rc \<and> rc < int (length buf) \<and> pending w = take (nat rc) buf'"
    using never_failed by (auto simp: read_outcome_def)
  then show ?thesis using r(1) assms by auto
qed

end

text \<open>A part of the kernel that no call touches stays through a whole read.\<close>

lemma file_op_loop_keeps:
  assumes "\<And>w fd bs. g (fst (oper w fd bs)) = g w" "file_op_loop oper fd require_all tot retry buf w = Some r"
  shows "g (fst r) = g w"
proof -
  have "g (fst r) = g w" if "file_op_loop oper fd require_all tot retry buf w = Some r" for tot retry buf w r
  proof (rule file_op_loop.raw_induct [where P = "\<lambda>oper' fd require_all tot retry buf w r. oper' = oper \<longrightarrow> g (fst r) = g w", OF _ that, THEN mp, OF _ refl])
    fix rec oper' and fd tot retry :: int and require_all buf w and r :: "'a \<times> u8 list \<times> int \<times> t_std_error option"
    assume IH: "\<And>oper' fd require_all tot retry buf w r. rec oper' fd require_all tot retry buf w = Some r \<Longrightarrow> oper' = oper \<longrightarrow> g (fst r) = g w"
      and r: "(if tot = int (length buf) then Some (w, buf, tot, Some STD_ERR_OK)
     else
       (case oper' w fd (drop (nat tot) buf) of
          (w, rest, rc, errno) \<Rightarrow>
            (let buf = take (nat tot) buf @ rest in
             if is_errno rc errno EINTR then
               (if retry - 1 < 0 then Some (w, buf, rc, Some (STD_ERRNO errno))
                else rec oper' fd require_all tot (retry - 1) buf w)
             else if rc = -1 then Some (w, buf, rc, Some (STD_ERRNO errno))
             else if rc = 0 then Some (w, buf, tot, None)
             else if \<not> require_all then Some (w, buf, tot + rc, Some STD_ERR_OK)
             else rec oper' fd require_all (tot + rc) STD_MAX_EINTR buf w))) = Some r"
    show "oper' = oper \<longrightarrow> g (fst r) = g w"
    proof
      assume o: "oper' = oper"
      obtain w1 rest rc errno where c: "oper w fd (drop (nat tot) buf) = (w1, rest, rc, errno)" by (metis prod_cases4)
      have k: "g w1 = g w" using assms(1) [of w fd "drop (nat tot) buf"] c by simp
      have "g (fst r) = g w1" if "rec oper fd require_all tot' retry' buf' w1 = Some r" for tot' retry' buf'
        using IH [OF that] by simp
      with r c k o show "g (fst r) = g w" by (auto simp: Let_def split: if_splits)
    qed
  qed
  then show ?thesis using assms(2) by blast
qed

section \<open>A stream in pieces\<close>

text \<open>A stream that delivers its bytes in the pieces of a list; an empty piece is an interrupted call.\<close>

fun chunk_read :: "u8 list list fo" where
  "chunk_read [] fd buf = ([], buf, 0, 0)"
| "chunk_read (c # cs) fd buf =
     (if c = [] then (cs, buf, -1, EINTR)
      else (let n = min (length c) (length buf) in
            (if n < length c then drop n c # cs else cs, take n c @ drop n buf, int n, 0)))"

interpretation chunks: byte_source chunk_read fd concat for fd
proof
  fix w w' :: "u8 list list" and buf buf' :: "u8 list" and rc errno
  show "length buf' = length buf \<and>
    (if rc = -1 then concat w' = concat w
     else 0 \<le> rc \<and> rc \<le> int (length buf) \<and> concat w = take (nat rc) buf' @ concat w' \<and>
       (rc = 0 \<and> buf \<noteq> [] \<longrightarrow> concat w = []))"
    if "chunk_read w fd buf = (w', buf', rc, errno)"
    using that by (cases "(w, fd, buf)" rule: chunk_read.cases) (auto simp: Let_def min_def split: if_splits)
qed

text \<open>A stream that delivers at most \<open>k + 1\<close> bytes at a time.\<close>

definition pipe_read :: "nat \<Rightarrow> u8 list fo" where
  "pipe_read k w fd buf = (let n = min (Suc k) (min (length w) (length buf)) in (drop n w, take n w @ drop n buf, int n, 0))"

interpretation pipe: reliable_source "pipe_read k" fd "\<lambda>w. w" for k fd
  by standard (auto simp: pipe_read_def Let_def min_def split: if_splits)

section \<open>Properties\<close>

text \<open> C27: A read of all bytes returns, however the stream is cut into pieces and interrupted: with the
  buffer filled by the next bytes; or, at the end of the stream, with the bytes there are, and \<open>err\<close>
  not written; or with the error of a system call that failed.
\<close>

theorem std_read_returns:
  assumes "byte_source read fd pending"
  shows "\<exists>w' buf' rc err. std_read read fd buf True w = Some (w', buf', rc, err) \<and> length buf' = length buf \<and>
    (rc = int (length buf) \<and> err = Some STD_ERR_OK \<and> pending w = buf' @ pending w' \<or>
     0 \<le> rc \<and> rc < int (length buf) \<and> err = None \<and> pending w = take (nat rc) buf' \<and> pending w' = [] \<or>
     rc = -1 \<and> (\<exists>e w0 b0 w1 b1. err = Some (STD_ERRNO e) \<and> read w0 fd b0 = (w1, b1, -1, e)))"
proof -
  obtain w' buf' rc err where "std_read read fd buf True w = Some (w', buf', rc, err)"
      "byte_source.read_outcome read fd pending (pending w) (length buf) (buf', rc, err) w'"
    using byte_source.std_read_all [OF assms] by blast
  then show ?thesis
    unfolding byte_source.read_outcome_def [OF assms] byte_source.call_failed_def [OF assms] prod.case by blast
qed

theorem std_read_returns_witness:
  "\<exists>w' buf' rc err. std_read chunk_read 5 [0, 0, 0] True [[1], [], [2, 3, 4]] = Some (w', buf', rc, err) \<and> length buf' = 3"
  using std_read_returns [OF chunks.byte_source_axioms, of 5 "[0, 0, 0]" "[[1], [], [2, 3, 4]]"] by auto

end
