(* ===== verification/SocketOp.thy ===== *)
theory SocketOp
  imports FileIo
begin

text \<open>
  Sending and receiving on a socket, \<open>src/std_socket_tools.cpp\<close> (\<open>std_socket_op\<close>), and waiting for
  one, \<open>src/std_select.c\<close>. A vector of buffers is a list of byte lists. The system calls \<open>select\<close>,
  \<open>sendmsg\<close> and \<open>recvmsg\<close> are arguments, functions on the kernel state of type \<open>'w\<close>.
\<close>

section \<open>Waiting\<close>

text \<open>The three descriptor sets of \<open>select\<close>, None for a null pointer, and the timeout.\<close>

type_synonym fd_sets = "int set option \<times> int set option \<times> int set option"
type_synonym timeval = "int \<times> int"
type_synonym 'w select_call = "'w \<Rightarrow> int \<Rightarrow> fd_sets \<Rightarrow> timeval \<Rightarrow> 'w \<times> int \<times> fd_sets \<times> timeval \<times> u32"

text \<open>\<open>errno\<close> after the last call is the last component of the result.\<close>

fun select_loop :: "'w select_call \<Rightarrow> int \<Rightarrow> nat \<Rightarrow> 'w \<Rightarrow> fd_sets \<Rightarrow> timeval \<Rightarrow>
    'w \<times> int \<times> fd_sets \<times> timeval \<times> t_std_error \<times> u32" where
  "select_loop select fd 0 w sets tv =
     (w, -1, sets, tv, STD_ERR e_std_err_COM e_std_err_code_FAIL EINTR, EINTR)"
| "select_loop select fd (Suc retries) w sets tv =
     (case select w fd sets tv of
        (w, rc, sets, tv, errno) \<Rightarrow>
          if rc \<ge> 0 then (w, rc, sets, tv, STD_ERR_OK, errno)
          else if rc = -1 \<and> errno \<noteq> EINTR then (w, rc, sets, tv, STD_ERRNO errno, errno)
          else select_loop select fd retries w sets tv)"

definition std_select_ignore_intr :: "'w select_call \<Rightarrow> int \<Rightarrow> 'w \<Rightarrow> fd_sets \<Rightarrow> timeval \<Rightarrow>
    'w \<times> int \<times> fd_sets \<times> timeval \<times> t_std_error \<times> u32" where
  "std_select_ignore_intr select fd w sets tv = select_loop select fd 100 w sets tv"

fun std_sel_adds_set :: "int list \<Rightarrow> int set \<Rightarrow> int \<Rightarrow> bool \<Rightarrow> int set \<times> int" where
  "std_sel_adds_set [] fdset max_fds init = (if init then {} else fdset, max_fds)"
| "std_sel_adds_set (fd # fds) fdset max_fds init =
     std_sel_adds_set fds (insert fd (if init then {} else fdset)) (if fd > max_fds then fd else max_fds) False"

section \<open>The transfer loop\<close>

datatype std_socket_transit_op_t = std_socket_transit_o_READ | std_socket_transit_o_WRITE

definition std_socket_transit_f_NONE :: nat where "std_socket_transit_f_NONE = 0"
definition std_socket_transit_f_NONBLOCK :: nat where "std_socket_transit_f_NONBLOCK = 1"
definition std_socket_transit_f_ALL :: nat where "std_socket_transit_f_ALL = 2"

definition MSG_DONTWAIT :: nat where "MSG_DONTWAIT = 0x40"
definition EAGAIN :: u32 where "EAGAIN = 11"
definition EWOULDBLOCK :: u32 where "EWOULDBLOCK = EAGAIN"

type_synonym iovec = "u8 list list"

definition total_len :: "iovec \<Rightarrow> int" where
  "total_len iov = int (sum_list (map length iov))"

fun fix_offset :: "iovec \<Rightarrow> int \<Rightarrow> iovec" where
  "fix_offset [] offset = []"
| "fix_offset (v # iov) offset =
     (if offset > 0 then
        (let offset = offset - int (length v) in
         if offset < 0 then drop (nat (offset + int (length v))) v # iov else fix_offset iov offset)
      else v # iov)"

text \<open>
  The handler gets what is left of the buffers and gives it back, filled when it receives; \<open>fill\<close>
  puts the bytes back where they belong. The retry counter is a \<open>size_t\<close>.
\<close>

type_synonym 'w msg_call = "'w \<Rightarrow> int \<Rightarrow> iovec \<Rightarrow> nat \<Rightarrow> 'w \<times> iovec \<times> int \<times> u32"

fun fill :: "iovec \<Rightarrow> u8 list \<Rightarrow> iovec" where
  "fill [] bs = []"
| "fill (v # iov) bs = take (length v) bs # fill iov (drop (length v) bs)"

definition sock_fail :: "u32 \<Rightarrow> t_std_error" where
  "sock_fail errno = STD_ERR e_std_err_COM e_std_err_code_FAIL errno"

definition SOCK_MAX_EINTR :: u64 where "SOCK_MAX_EINTR = 10"

text \<open>
  One turn of the loop: the result with which it is left, or the next state: bytes moved, retries
  left, buffers, timeout.
\<close>

definition process_op_turn :: "'w msg_call \<Rightarrow> 'w select_call \<Rightarrow> bool \<Rightarrow> int \<Rightarrow> nat \<Rightarrow> bool \<Rightarrow>
    int \<times> u64 \<times> iovec \<times> timeval \<times> 'w \<Rightarrow> ('w \<times> iovec \<times> int \<times> t_std_error) + (int \<times> u64 \<times> iovec \<times> timeval \<times> 'w)" where
  "process_op_turn handler select send fd flags send_all = (\<lambda>(tot, fail_retry, iov, tv, w).
    if tot = total_len iov then Inl (w, iov, tot, STD_ERR_OK)
    else
      (case handler w fd (fix_offset iov tot) flags of
         (w, rest, rc, errno) \<Rightarrow>
           (let iov = fill iov (take (nat tot) (concat iov) @ concat rest) in
            if is_errno rc errno EINTR then
              (let fail_retry = fail_retry - 1 in
               if fail_retry < 0 then Inl (w, iov, rc, sock_fail errno) else Inr (tot, fail_retry, iov, tv, w))
            else if is_errno rc errno EWOULDBLOCK \<or> is_errno rc errno EAGAIN then
              (case std_select_ignore_intr select (fd + 1) w
                      (if send then None else Some {fd}, if send then Some {fd} else None, None) tv of
                 (w, res, _, tv, err, errno) \<Rightarrow>
                   if res \<le> 0 then Inl (w, iov, -1, sock_fail errno) else Inr (tot, fail_retry, iov, tv, w))
            else if rc = -1 then Inl (w, iov, rc, sock_fail errno)
            else if rc = 0 then
              (if \<not> send_all \<or> tot = total_len iov then Inl (w, iov, tot, STD_ERR_OK)
               else Inl (w, iov, rc, sock_fail errno))
            else if \<not> send_all then Inl (w, iov, tot + rc, STD_ERR_OK)
            else Inr (tot + rc, SOCK_MAX_EINTR, iov, tv, w))))"

partial_function (option) run_turns :: "('s \<Rightarrow> 'r + 's) \<Rightarrow> 's \<Rightarrow> 'r option" where
  "run_turns turn s = (case turn s of Inl r \<Rightarrow> Some r | Inr s \<Rightarrow> run_turns turn s)"

definition process_op :: "'w msg_call \<Rightarrow> 'w select_call \<Rightarrow> bool \<Rightarrow> int \<Rightarrow> iovec \<Rightarrow> nat \<Rightarrow> nat \<Rightarrow> 'w \<Rightarrow>
    ('w \<times> iovec \<times> int \<times> t_std_error) option" where
  "process_op handler select send fd iov flags time_wait w =
    run_turns
      (process_op_turn handler select send fd (if flags AND std_socket_transit_f_NONBLOCK \<noteq> 0 then MSG_DONTWAIT else 0)
        (flags AND std_socket_transit_f_ALL \<noteq> 0))
      (0, SOCK_MAX_EINTR, iov, (int (time_wait div 1000), int (time_wait mod 1000) * 1000), w)"

definition std_socket_op :: "'w msg_call \<Rightarrow> 'w msg_call \<Rightarrow> 'w select_call \<Rightarrow> std_socket_transit_op_t \<Rightarrow> int \<Rightarrow>
    iovec \<Rightarrow> nat \<Rightarrow> nat \<Rightarrow> 'w \<Rightarrow> ('w \<times> iovec \<times> int \<times> t_std_error) option" where
  "std_socket_op recvmsg sendmsg select op fd iov flags time_wait w =
    (case op of
       std_socket_transit_o_READ \<Rightarrow> process_op recvmsg select False fd iov flags time_wait w
     | std_socket_transit_o_WRITE \<Rightarrow> process_op sendmsg select True fd iov flags time_wait w)"

section \<open>Offsets into a vector\<close>

lemma total_len_concat: "total_len iov = int (length (concat iov))"
  by (simp add: total_len_def length_concat)

lemma fix_offset_drops: "0 \<le> offset \<Longrightarrow> concat (fix_offset iov offset) = drop (nat offset) (concat iov)"
proof (induction iov offset rule: fix_offset.induct)
  case (1 offset)
  then show ?case by simp
next
  case (2 v iov offset)
  show ?case
  proof (cases "offset < int (length v)")
    case True
    then show ?thesis using 2(2) by (auto simp: Let_def)
  next
    case False
    then have "nat (offset - int (length v)) = nat offset - length v" by simp
    moreover have "offset \<le> 0 \<Longrightarrow> v = []" using False 2(2) by simp
    ultimately show ?thesis using 2 False by (auto simp: Let_def not_less)
  qed
qed

lemma concat_fill: "length bs = length (concat iov) \<Longrightarrow> concat (fill iov bs) = bs"
  by (induction iov bs rule: fill.induct) auto

lemma length_fill: "length bs = length (concat iov) \<Longrightarrow> map length (fill iov bs) = map length iov"
  by (induction iov bs rule: fill.induct) auto

lemma fill_concat: "fill iov (concat iov) = iov"
  by (induction iov) simp_all

lemma sock_fail_not_ok: "sock_fail errno \<noteq> STD_ERR_OK"
proof
  assume "sock_fail errno = STD_ERR_OK"
  then have "bit (sock_fail errno) 31 = bit STD_ERR_OK 31" by simp
  then show False by (simp add: sock_fail_def STD_ERR_def std_err_mk_bit STD_ERR_OK_def)
qed

section \<open>Sending\<close>

text \<open>
  What sending on a stream promises: it takes at most the bytes given, in order; a failed call takes
  none; interruptions and a full buffer do not go on forever (\<open>hiccups\<close> bounds how many are to come).
\<close>

locale byte_sink =
  fixes sendmsg :: "'w msg_call" and select :: "'w select_call" and accepted :: "'w \<Rightarrow> int \<Rightarrow> u8 list" and hiccups :: "'w \<Rightarrow> nat"
  assumes send_law: "sendmsg w fd iov flags = (w', iov', rc, errno) \<Longrightarrow> iov' = iov \<and>
      (if rc = -1 then accepted w' = accepted w \<and> (errno \<in> {EINTR, EAGAIN} \<longrightarrow> hiccups w' < hiccups w)
       else 0 \<le> rc \<and> rc \<le> total_len iov \<and> hiccups w' \<le> hiccups w \<and>
         accepted w' = (accepted w)(fd := accepted w fd @ take (nat rc) (concat iov)))"
    and select_law: "select w n sets tv = (w', rc, sets', tv', errno) \<Longrightarrow> accepted w' = accepted w \<and> hiccups w' \<le> hiccups w"
begin

lemma ignore_intr_law:
  "select_loop select n k w sets tv = (w', rc, sets', tv', err, errno) \<Longrightarrow> accepted w' = accepted w \<and> hiccups w' \<le> hiccups w"
proof (induction k arbitrary: w sets tv)
  case 0
  then show ?case by simp
next
  case (Suc k)
  obtain w1 rc1 sets1 tv1 e1 where s: "select w n sets tv = (w1, rc1, sets1, tv1, e1)" by (metis prod_cases5)
  from select_law [OF s] Suc.prems s Suc.IH [of w1 sets1 tv1] show ?case by (auto split: if_splits)
qed

definition sent :: "(int \<Rightarrow> u8 list) \<Rightarrow> int \<Rightarrow> iovec \<Rightarrow> ('w \<times> iovec \<times> int \<times> t_std_error) option \<Rightarrow> bool" where
  "sent before fd iov res \<longleftrightarrow> (\<exists>w' rc err k. res = Some (w', iov, rc, err) \<and>
     accepted w' = before(fd := before fd @ take k (concat iov)) \<and> k \<le> length (concat iov) \<and>
     (if err = STD_ERR_OK then k = length (concat iov) \<and> rc = total_len iov else k < length (concat iov)))"

lemma sentI:
  "res = Some (w', iov, rc, err) \<Longrightarrow> accepted w' = before(fd := before fd @ take k (concat iov)) \<Longrightarrow>
   if err = STD_ERR_OK then k = length (concat iov) \<and> rc = total_len iov else k < length (concat iov) \<Longrightarrow> sent before fd iov res"
  unfolding sent_def by (metis less_imp_le order_refl)

lemma send_loop:
  assumes "t \<le> length (concat iov)" "accepted w = before(fd := before fd @ take t (concat iov))"
  shows "sent before fd iov (run_turns (process_op_turn sendmsg select True fd flags True) (int t, retry, iov, tv, w))"
  using assms
proof (induction "hiccups w + (length (concat iov) - t)" arbitrary: t retry tv w rule: less_induct)
  case less
  let ?turn = "process_op_turn sendmsg select True fd flags True"
  let ?st = "(int t, retry, iov, tv, w)"
  note unf = run_turns.simps [of ?turn ?st]
  show ?case
  proof (cases "t = length (concat iov)")
    case True
    then have "?turn ?st = Inl (w, iov, int t, STD_ERR_OK)" by (simp add: process_op_turn_def total_len_concat)
    then have "run_turns ?turn ?st = Some (w, iov, int t, STD_ERR_OK)" by (simp add: unf)
    then show ?thesis by (rule sentI) (use less.prems True in \<open>simp_all add: total_len_concat\<close>)
  next
    case False
    then have t: "t < length (concat iov)" "int t \<noteq> total_len iov" using less.prems(1) by (simp_all add: total_len_concat)
    obtain w1 rest rc errno where r: "sendmsg w fd (fix_offset iov (int t)) flags = (w1, rest, rc, errno)" by (metis prod_cases4)
    note law = send_law [OF r]
    have iov: "fill iov (take t (concat iov) @ concat rest) = iov"
      using law fix_offset_drops [of "int t" iov] fill_concat [of iov] by simp
    have left: "concat (fix_offset iov (int t)) = drop t (concat iov)" using fix_offset_drops [of "int t" iov] by simp
    have turn: "?turn ?st =
      (if is_errno rc errno EINTR then Inr (int t, retry - 1, iov, tv, w1)
       else if is_errno rc errno EAGAIN then
         (case std_select_ignore_intr select (fd + 1) w1 (None, Some {fd}, None) tv of
            (w, res, _, tv, err, errno) \<Rightarrow> if res \<le> 0 then Inl (w, iov, -1, sock_fail errno) else Inr (int t, retry, iov, tv, w))
       else if rc = -1 then Inl (w1, iov, rc, sock_fail errno)
       else if rc = 0 then Inl (w1, iov, rc, sock_fail errno)
       else Inr (int t + rc, SOCK_MAX_EINTR, iov, tv, w1))"
      using t r iov by (simp add: process_op_turn_def EWOULDBLOCK_def word_less_nat_alt)
    have failed: "sent before fd iov (Some (w', iov, rc', sock_fail e))" if "accepted w' = accepted w" for w' rc' e
      by (rule sentI [OF refl, of _ _ _ t]) (use that less.prems t sock_fail_not_ok in simp_all)
    consider (intr) "is_errno rc errno EINTR" | (again) "\<not> is_errno rc errno EINTR" "is_errno rc errno EAGAIN"
      | (fail) "rc = -1" "\<not> is_errno rc errno EINTR" "\<not> is_errno rc errno EAGAIN" | (eof) "rc = 0" | (data) "rc > 0"
      using law by (cases "rc = -1") force+
    then show ?thesis
    proof cases
      case intr
      then have h: "hiccups w1 < hiccups w" "accepted w1 = accepted w" using law by (simp_all add: is_errno_def)
      have "sent before fd iov (run_turns ?turn (int t, retry - 1, iov, tv, w1))"
        by (rule less.hyps) (use h less.prems in simp_all)
      then show ?thesis using intr turn by (simp add: unf)
    next
      case again
      then have h: "hiccups w1 < hiccups w" "accepted w1 = accepted w" using law by (simp_all add: is_errno_def)
      obtain w2 res sets tv2 err e where sel: "std_select_ignore_intr select (fd + 1) w1 (None, Some {fd}, None) tv = (w2, res, sets, tv2, err, e)"
        by (metis prod_cases6)
      have h2: "accepted w2 = accepted w" "hiccups w2 < hiccups w"
        using ignore_intr_law [OF sel [unfolded std_select_ignore_intr_def]] h by auto
      have "sent before fd iov (run_turns ?turn (int t, retry, iov, tv2, w2))"
        by (rule less.hyps) (use h2 less.prems in simp_all)
      then show ?thesis using again turn sel failed [OF h2(1)] by (cases "res \<le> 0") (simp_all add: unf)
    next
      case fail
      then show ?thesis using law turn failed [of w1] by (simp add: unf)
    next
      case eof
      have "accepted w1 = accepted w" using law eof by (simp add: fun_upd_idem)
      then show ?thesis using eof turn failed [of w1] by (simp add: unf is_errno_def)
    next
      case data
      let ?t = "t + nat rc"
      have b: "nat rc \<le> length (concat iov) - t" "hiccups w1 \<le> hiccups w"
        using law data left by (auto simp: total_len_concat nat_le_iff)
      have "accepted w1 = (accepted w)(fd := accepted w fd @ take (nat rc) (drop t (concat iov)))" using law data left by simp
      then have a: "accepted w1 = before(fd := before fd @ take ?t (concat iov))"
        using less.prems(2) by (simp add: take_add)
      have "sent before fd iov (run_turns ?turn (int ?t, SOCK_MAX_EINTR, iov, tv, w1))"
        by (rule less.hyps) (use a b data t in simp_all)
      moreover have "int ?t = int t + rc" using data by simp
      ultimately show ?thesis using data turn by (simp add: unf is_errno_def)
    qed
  qed
qed

text \<open>A kernel whose calls always accept something: the whole of the buffers is sent.\<close>

lemma send_loop_willing:
  assumes w: "\<And>w iov flags. concat iov \<noteq> [] \<Longrightarrow> 0 < fst (snd (snd (sendmsg w fd iov flags)))"
  shows "t \<le> length (concat iov) \<Longrightarrow>
    \<exists>w'. run_turns (process_op_turn sendmsg select True fd flags True) (int t, retry, iov, tv, w) = Some (w', iov, total_len iov, STD_ERR_OK)"
proof (induction "length (concat iov) - t" arbitrary: t retry tv w rule: less_induct)
  case less
  let ?turn = "process_op_turn sendmsg select True fd flags True"
  let ?st = "(int t, retry, iov, tv, w)"
  note unf = run_turns.simps [of ?turn ?st]
  show ?case
  proof (cases "t = length (concat iov)")
    case True
    then have "?turn ?st = Inl (w, iov, int t, STD_ERR_OK)" by (simp add: process_op_turn_def total_len_concat)
    then have "run_turns ?turn ?st = Some (w, iov, int t, STD_ERR_OK)" by (simp add: unf)
    then show ?thesis using True by (auto simp: total_len_concat)
  next
    case False
    then have t: "t < length (concat iov)" "int t \<noteq> total_len iov" using less.prems(1) by (simp_all add: total_len_concat)
    obtain w1 rest rc errno where r: "sendmsg w fd (fix_offset iov (int t)) flags = (w1, rest, rc, errno)" by (metis prod_cases4)
    note law = send_law [OF r]
    have left: "concat (fix_offset iov (int t)) = drop t (concat iov)" using fix_offset_drops [of "int t" iov] by simp
    have iov: "fill iov (take t (concat iov) @ concat rest) = iov" using law left fill_concat [of iov] by simp
    have "0 < rc" using w [of "fix_offset iov (int t)" w flags] r left t(1) by simp
    then have turn: "?turn ?st = Inr (int t + rc, SOCK_MAX_EINTR, iov, tv, w1)"
      using t r iov by (simp add: process_op_turn_def is_errno_def)
    have "nat rc \<le> length (concat iov) - t" using law \<open>0 < rc\<close> left by (auto simp: total_len_concat nat_le_iff)
    moreover have "int t + rc = int (t + nat rc)" "0 < nat rc" using \<open>0 < rc\<close> by simp_all
    ultimately show ?thesis using less.hyps [of "t + nat rc"] turn t by (simp add: unf)
  qed
qed

lemma std_socket_op_willing:
  assumes "\<And>w iov flags. concat iov \<noteq> [] \<Longrightarrow> 0 < fst (snd (snd (sendmsg w fd iov flags)))"
    and "flags AND std_socket_transit_f_ALL \<noteq> 0"
  shows "\<exists>w'. std_socket_op recvmsg sendmsg select std_socket_transit_o_WRITE fd iov flags time_wait w = Some (w', iov, total_len iov, STD_ERR_OK)"
  using send_loop_willing [OF assms(1), of 0 iov] assms(2) by (simp add: std_socket_op_def process_op_def)

lemma std_socket_op_sends:
  assumes "flags AND std_socket_transit_f_ALL \<noteq> 0"
  shows "sent (accepted w) fd iov (std_socket_op recvmsg sendmsg select std_socket_transit_o_WRITE fd iov flags time_wait w)"
  using send_loop [of 0 iov w "accepted w" fd] assms by (simp add: std_socket_op_def process_op_def)

end

section \<open>A stream to write to\<close>

text \<open>A kernel that accepts at most \<open>k + 1\<close> bytes at a time and never blocks.\<close>

definition pipe_send :: "nat \<Rightarrow> (int \<Rightarrow> u8 list) msg_call" where
  "pipe_send k w fd iov flags =
    (let n = min (Suc k) (length (concat iov)) in (w(fd := w fd @ take n (concat iov)), iov, int n, 0))"

definition ready_select :: "'w select_call" where
  "ready_select w n sets tv = (w, 1, sets, tv, 0)"

interpretation pipe_sink: byte_sink "pipe_send k" ready_select "\<lambda>w. w" "\<lambda>_. 0" for k
  by standard (auto simp: pipe_send_def ready_select_def total_len_concat Let_def)

section \<open>No limit on the retries\<close>

lemma run_turns_forever:
  assumes step: "\<And>s. I s \<Longrightarrow> \<exists>s'. turn s = Inr s' \<and> I s'" and start: "I s"
  shows "run_turns turn s = None"
proof (cases "run_turns turn s")
  case (Some r)
  have "turn = turn \<longrightarrow> \<not> I s"
  proof (rule run_turns.raw_induct [where P = "\<lambda>t s r. t = turn \<longrightarrow> \<not> I s", OF _ Some])
    fix f and t :: "'a \<Rightarrow> 'b + 'a" and s r
    assume IH: "\<And>t s r. f t s = Some r \<Longrightarrow> t = turn \<longrightarrow> \<not> I s"
      and eq: "(case t s of Inl r \<Rightarrow> Some r | Inr s \<Rightarrow> f t s) = Some r"
    show "t = turn \<longrightarrow> \<not> I s"
    proof (intro impI notI)
      assume t: "t = turn" and "I s"
      from step [OF this(2)] obtain s' where "turn s = Inr s'" "I s'" by blast
      with eq t IH [of t s' r] show False by simp
    qed
  qed
  with start show ?thesis by simp
qed simp

text \<open>
  The counter of the retries is unsigned and never below 0: a call that is interrupted every time is
  repeated for ever, where the limit of ten was meant to end it.
\<close>

lemma interrupted_forever:
  assumes "total_len iov \<noteq> 0"
  shows "std_socket_op recvmsg (\<lambda>w fd iov flags. (w, iov, -1, EINTR)) select std_socket_transit_o_WRITE fd iov flags time_wait w = None"
proof -
  let ?send = "\<lambda>w fd iov flags. (w, iov, -1, EINTR)"
  have iov: "fill iov (concat (fix_offset iov 0)) = iov" using fix_offset_drops [of 0 iov] by (simp add: fill_concat)
  show ?thesis unfolding std_socket_op_def process_op_def std_socket_transit_op_t.case
    by (rule run_turns_forever [where I = "\<lambda>(t, r, iv, tv, u). t = 0 \<and> iv = iov"])
      (use assms iov in \<open>auto simp: process_op_turn_def is_errno_def word_less_nat_alt\<close>)
qed

end
