(* ===== verification/SocketTools.thy ===== *)
theory SocketTools
  imports SocketOp
begin

text \<open>
  Making, binding and connecting sockets, \<open>src/std_socket_tools.cpp\<close>. The union of address forms is its
  bytes, so the two forms overlap as in memory: a path is the bytes up to the first null, an internet
  address the sixteen bytes of \<open>sockaddr_in\<close>. The system calls are the fields of \<open>sock_env\<close>; they give
  the kernel state, the result and \<open>errno\<close>, which \<open>close\<close> leaves alone.
\<close>

section \<open>Addresses\<close>

datatype e_std_socket_domain_t = e_std_sock_UNIX | e_std_sock_INET4
datatype e_std_sock_type_t = e_std_sock_type_STREAM | e_std_sock_type_DGRAM | e_std_sock_type_RAW
datatype e_std_socket_addr_type_t = e_std_socket_a_t_STRING | e_std_socket_a_t_INET

record std_socket_address_t =
  sock_domain :: e_std_socket_domain_t
  addr_type :: e_std_socket_addr_type_t
  sock_address :: "u8 list"

record std_server_socket_desc_t =
  server_socket :: int
  listeners :: u32
  server_address :: std_socket_address_t

definition STD_SOCK_MAX_LISTENERS :: u32 where "STD_SOCK_MAX_LISTENERS = 100"
definition STD_SERVER_SOCK_ADDR_PATH_LEN_UNIX :: nat where "STD_SERVER_SOCK_ADDR_PATH_LEN_UNIX = 108"
definition SOCK_CONNECT_TIMEOUT_DEFAULT_MS :: nat where "SOCK_CONNECT_TIMEOUT_DEFAULT_MS = 30 * 1000"

definition AF_UNIX :: u16 where "AF_UNIX = 1"
definition SOCK_AF_INET :: u16 where "SOCK_AF_INET = 2"
definition SOCK_STREAM :: int where "SOCK_STREAM = 1"
definition SOCK_DGRAM :: int where "SOCK_DGRAM = 2"
definition EINPROGRESS :: u32 where "EINPROGRESS = 115"

definition GENERIC_FAIL :: t_std_error where
  "GENERIC_FAIL = STD_ERR e_std_err_COM e_std_err_code_PARAM 0"

definition RET_ERRNO :: "u32 \<Rightarrow> t_std_error" where
  "RET_ERRNO errno = STD_ERR_FROM_ERRNO errno e_std_err_COM e_std_err_code_PARAM"

text \<open>The bytes up to the first null, and the bytes of the address with its length for the kernel.\<close>

definition c_bytes :: "u8 list \<Rightarrow> u8 list" where
  "c_bytes bs = takeWhile (\<lambda>b. b \<noteq> 0) bs"

definition sun_path :: "std_socket_address_t \<Rightarrow> u8 list" where
  "sun_path a = take (STD_SERVER_SOCK_ADDR_PATH_LEN_UNIX - 1) (c_bytes (sock_address a))"

definition fill_unix_addr :: "std_socket_address_t \<Rightarrow> u8 list \<times> nat" where
  "fill_unix_addr a =
    (le_bytes 2 AF_UNIX @ sun_path a @ replicate (STD_SERVER_SOCK_ADDR_PATH_LEN_UNIX - length (sun_path a)) 0,
     2 + length (sun_path a))"

definition fill_inet4_addr :: "std_socket_address_t \<Rightarrow> u8 list \<times> nat" where
  "fill_inet4_addr a = (le_bytes 2 SOCK_AF_INET @ take 14 (drop 2 (sock_address a)), 16)"

definition create_s_sock_addr :: "std_socket_address_t \<Rightarrow> u8 list \<times> nat" where
  "create_s_sock_addr a =
    (case sock_domain a of e_std_sock_UNIX \<Rightarrow> fill_unix_addr a | e_std_sock_INET4 \<Rightarrow> fill_inet4_addr a)"

definition sock_domain_map :: "e_std_socket_domain_t \<Rightarrow> int" where
  "sock_domain_map d = (case d of e_std_sock_INET4 \<Rightarrow> uint SOCK_AF_INET | e_std_sock_UNIX \<Rightarrow> uint AF_UNIX)"

definition sock_type_map :: "e_std_sock_type_t \<Rightarrow> int" where
  "sock_type_map t = (case t of e_std_sock_type_STREAM \<Rightarrow> SOCK_STREAM | e_std_sock_type_DGRAM \<Rightarrow> SOCK_DGRAM | _ \<Rightarrow> -1)"

text \<open>
  \<open>inet_aton\<close> gives the four bytes of an address. The family is written before the string is read;
  the port is a \<open>uint16_t\<close> in network order.
\<close>

definition std_sock_addr_from_ip_str ::
    "(string \<Rightarrow> u8 list option) \<Rightarrow> e_std_socket_domain_t \<Rightarrow> string \<Rightarrow> int \<Rightarrow> std_socket_address_t \<Rightarrow>
     t_std_error \<times> std_socket_address_t" where
  "std_sock_addr_from_ip_str inet_aton domain ipstr port out =
    (case domain of
       e_std_sock_INET4 \<Rightarrow>
         (let out = out\<lparr>sock_address := le_bytes 2 SOCK_AF_INET @ drop 2 (sock_address out)\<rparr>
          in case inet_aton ipstr of
               None \<Rightarrow> (GENERIC_FAIL, out)
             | Some a \<Rightarrow>
                 (STD_ERR_OK,
                  out\<lparr>sock_domain := domain, addr_type := e_std_socket_a_t_INET,
                    sock_address := take 2 (sock_address out) @ rev (le_bytes 2 (word_of_int port :: u16)) @ a @
                      drop 8 (sock_address out)\<rparr>))
     | _ \<Rightarrow> (GENERIC_FAIL, out))"

section \<open>The system calls\<close>

record 'w sock_env =
  sys_socket :: "'w \<Rightarrow> int \<Rightarrow> int \<Rightarrow> int \<Rightarrow> 'w \<times> int \<times> u32"
  sys_socketpair :: "'w \<Rightarrow> int \<Rightarrow> int \<Rightarrow> 'w \<times> int \<times> (int \<times> int) \<times> u32"
  sys_close :: "'w \<Rightarrow> int \<Rightarrow> 'w"
  sys_unlink :: "'w \<Rightarrow> u8 list \<Rightarrow> 'w"
  sys_bind :: "'w \<Rightarrow> int \<Rightarrow> u8 list \<Rightarrow> 'w \<times> int \<times> u32"
  sys_listen :: "'w \<Rightarrow> int \<Rightarrow> u32 \<Rightarrow> 'w \<times> int"
  sys_connect :: "'w \<Rightarrow> int \<Rightarrow> u8 list \<Rightarrow> 'w \<times> int \<times> u32"
  sys_fionbio :: "'w \<Rightarrow> int \<Rightarrow> int \<Rightarrow> 'w \<times> int \<times> u32"
  sys_setsockopt :: "'w \<Rightarrow> int \<Rightarrow> int \<Rightarrow> int \<Rightarrow> 'w \<times> int \<times> u32"
  sys_select :: "'w select_call"

abbreviation sockaddr_bytes :: "std_socket_address_t \<Rightarrow> u8 list" where
  "sockaddr_bytes a \<equiv> (case create_s_sock_addr a of (bs, len) \<Rightarrow> take len bs)"

definition std_server_socket_create ::
    "'w sock_env \<Rightarrow> std_server_socket_desc_t option \<Rightarrow> 'w \<Rightarrow> 'w \<times> std_server_socket_desc_t option \<times> t_std_error" where
  "std_server_socket_create env desc w =
    (case desc of
       None \<Rightarrow> (w, None, GENERIC_FAIL)
     | Some d \<Rightarrow>
         if listeners d \<ge> STD_SOCK_MAX_LISTENERS \<or> sock_domain (server_address d) \<noteq> e_std_sock_UNIX
         then (w, Some d, GENERIC_FAIL)
         else
           (case sys_socket env w (uint AF_UNIX) SOCK_STREAM 0 of
              (w, s, errno) \<Rightarrow>
                if s = -1 then (w, Some d, RET_ERRNO errno)
                else
                  (let w = sys_unlink env w (sun_path (server_address d))
                   in case sys_bind env w s (sockaddr_bytes (server_address d)) of
                        (w, rc, errno) \<Rightarrow>
                          if rc < 0 then (sys_close env w s, Some d, RET_ERRNO errno)
                          else
                            (case sys_listen env w s (listeners d) of
                               (w, rc) \<Rightarrow> (w, Some (d\<lparr>server_socket := s\<rparr>), STD_ERR_OK)))))"

definition std_sock_set_nonblock :: "'w sock_env \<Rightarrow> int \<Rightarrow> bool \<Rightarrow> 'w \<Rightarrow> 'w \<times> t_std_error" where
  "std_sock_set_nonblock env fd nonblock w =
    (case sys_fionbio env w fd (if nonblock then 1 else 0) of
       (w, rc, errno) \<Rightarrow> if rc = -1 then (w, STD_ERRNO errno) else (w, STD_ERR_OK))"

text \<open>
  The body of the \<open>do ... while (0)\<close>: what is stored in \<open>sock\<close>, if anything, and the error with which
  the loop is left, or \<open>STD_ERR_OK\<close> when the function returns from inside it. The \<open>continue\<close> after an
  interruption leaves the loop.
\<close>

definition connect_body ::
    "'w sock_env \<Rightarrow> std_socket_address_t \<Rightarrow> nat \<Rightarrow> int \<Rightarrow> 'w \<Rightarrow> 'w \<times> int option \<times> t_std_error" where
  "connect_body env addr ms_wait s w =
    (case std_sock_set_nonblock env s True w of
       (w, rc) \<Rightarrow>
         if rc \<noteq> STD_ERR_OK then (w, None, rc)
         else
           (case sys_connect env w s (sockaddr_bytes addr) of
              (w, trc, errno) \<Rightarrow>
                if trc = -1 \<and> errno = EINTR then (w, None, GENERIC_FAIL)
                else if trc = -1 \<and> errno \<noteq> EINPROGRESS then (w, None, GENERIC_FAIL)
                else
                  (let tv = (int (ms_wait div 1000), int (ms_wait mod 1000) * 1000);
                       (fds, max_fd) = std_sel_adds_set [s] {} (-1) True
                   in case std_select_ignore_intr (sys_select env) (max_fd + 1) w (None, Some fds, None) tv of
                        (w, res, sets, tv, rc, errno) \<Rightarrow>
                          if res < 1 \<or> rc \<noteq> STD_ERR_OK
                          then (w, None, if rc = STD_ERR_OK then STD_ERR e_std_err_COM e_std_err_code_FAIL 0 else rc)
                          else (case std_sock_set_nonblock env s False w of (w, rc) \<Rightarrow> (w, Some s, rc)))))"

definition std_sock_connect_with_timeout ::
    "'w sock_env \<Rightarrow> std_socket_address_t \<Rightarrow> int option \<Rightarrow> nat \<Rightarrow> 'w \<Rightarrow> 'w \<times> int option \<times> t_std_error" where
  "std_sock_connect_with_timeout env addr sock ms_wait w =
    (if sock = None \<or> sock_domain addr \<noteq> e_std_sock_UNIX then (w, sock, GENERIC_FAIL)
     else
       (case sys_socket env w (uint AF_UNIX) SOCK_STREAM 0 of
          (w, s, errno) \<Rightarrow>
            if s = -1 then (w, sock, RET_ERRNO errno)
            else
              (case connect_body env addr ms_wait s w of
                 (w, stored, rc) \<Rightarrow>
                   (if rc = STD_ERR_OK then w else sys_close env w s,
                    case stored of None \<Rightarrow> sock | Some s \<Rightarrow> Some s, rc))))"

definition std_sock_connect ::
    "'w sock_env \<Rightarrow> std_socket_address_t \<Rightarrow> int option \<Rightarrow> 'w \<Rightarrow> 'w \<times> int option \<times> t_std_error" where
  "std_sock_connect env addr sock w = std_sock_connect_with_timeout env addr sock SOCK_CONNECT_TIMEOUT_DEFAULT_MS w"

definition SO_SNDBUFFORCE :: int where "SO_SNDBUFFORCE = 32"
definition SO_RCVBUFFORCE :: int where "SO_RCVBUFFORCE = 33"

definition std_sock_set_sndbuf :: "'w sock_env \<Rightarrow> int \<Rightarrow> int \<Rightarrow> 'w \<Rightarrow> 'w \<times> t_std_error" where
  "std_sock_set_sndbuf env fd len w =
    (case sys_setsockopt env w fd SO_SNDBUFFORCE len of
       (w, rc, errno) \<Rightarrow> (w, if rc \<noteq> 0 then RET_ERRNO errno else STD_ERR_OK))"

definition std_sock_set_rcvbuf :: "'w sock_env \<Rightarrow> int \<Rightarrow> int \<Rightarrow> 'w \<Rightarrow> 'w \<times> t_std_error" where
  "std_sock_set_rcvbuf env fd len w =
    (case sys_setsockopt env w fd SO_RCVBUFFORCE len of
       (w, rc, errno) \<Rightarrow> (w, if rc \<noteq> 0 then RET_ERRNO errno else STD_ERR_OK))"

definition std_sock_create_pair ::
    "'w sock_env \<Rightarrow> e_std_socket_domain_t \<Rightarrow> bool \<Rightarrow> int \<times> int \<Rightarrow> 'w \<Rightarrow> 'w \<times> (int \<times> int) \<times> t_std_error" where
  "std_sock_create_pair env domain stream fd w =
    (if domain \<noteq> e_std_sock_UNIX then (w, fd, GENERIC_FAIL)
     else
       (case sys_socketpair env w (uint AF_UNIX) (if stream then SOCK_STREAM else SOCK_DGRAM) of
          (w, rc, pair, errno) \<Rightarrow> if rc \<noteq> 0 then (w, fd, RET_ERRNO errno) else (w, pair, STD_ERR_OK)))"

definition std_socket_bind :: "'w sock_env \<Rightarrow> int \<Rightarrow> std_socket_address_t \<Rightarrow> 'w \<Rightarrow> 'w \<times> t_std_error" where
  "std_socket_bind env fd bind_addr w =
    (case sys_bind env w fd (sockaddr_bytes bind_addr) of
       (w, n, errno) \<Rightarrow> (w, if n < 0 then RET_ERRNO errno else STD_ERR_OK))"

definition std_socket_create ::
    "'w sock_env \<Rightarrow> e_std_socket_domain_t \<Rightarrow> e_std_sock_type_t \<Rightarrow> int \<Rightarrow> std_socket_address_t option \<Rightarrow> int \<Rightarrow> 'w \<Rightarrow>
     'w \<times> int \<times> t_std_error" where
  "std_socket_create env std_domain std_type protocol bind fd w =
    (case sys_socket env w (sock_domain_map std_domain) (sock_type_map std_type) protocol of
       (w, s, errno) \<Rightarrow>
         if s = -1 then (w, fd, RET_ERRNO errno)
         else
           (case bind of
              None \<Rightarrow> (w, s, STD_ERR_OK)
            | Some a \<Rightarrow> (case std_socket_bind env s a w of (w, rc) \<Rightarrow> (w, s, rc))))"

section \<open>Descriptors\<close>

text \<open>A kernel in which a connection goes well up to its last step, which makes the socket blocking again.\<close>

definition only_last_step_fails :: "'w sock_env \<Rightarrow> bool" where
  "only_last_step_fails env \<longleftrightarrow>
     (\<forall>w s. fst (snd (sys_fionbio env w s 1)) \<noteq> -1 \<and> fst (snd (sys_fionbio env w s 0)) = -1) \<and>
     (\<forall>w s a. fst (snd (sys_connect env w s a)) \<noteq> -1) \<and> (\<forall>w n sets tv. 1 \<le> fst (snd (sys_select env w n sets tv)))"

text \<open>What the kernel promises about the open descriptors of the process.\<close>

locale descriptor_table =
  fixes env :: "'w sock_env" and fds :: "'w \<Rightarrow> int set"
  assumes socket_fails: "sys_socket env w d t p = (w', -1, e) \<Longrightarrow> fds w' = fds w"
    and socket_opens: "sys_socket env w d t p = (w', s, e) \<Longrightarrow> s \<noteq> -1 \<Longrightarrow> s \<notin> fds w \<and> fds w' = insert s (fds w)"
    and close_closes: "fds (sys_close env w s) = fds w - {s}"
    and unlink_keeps: "fds (sys_unlink env w path) = fds w"
    and bind_keeps: "sys_bind env w s a = (w', r, e) \<Longrightarrow> fds w' = fds w"
    and listen_keeps: "sys_listen env w s backlog = (w', r) \<Longrightarrow> fds w' = fds w"
    and connect_keeps: "sys_connect env w s a = (w', r, e) \<Longrightarrow> fds w' = fds w"
    and fionbio_keeps: "sys_fionbio env w s on = (w', r, e) \<Longrightarrow> fds w' = fds w"
    and select_keeps: "sys_select env w n sets tv = (w', r, sets', tv', e) \<Longrightarrow> fds w' = fds w"
begin

lemma select_loop_keeps: "fds (fst (select_loop (sys_select env) n k w sets tv)) = fds w"
  by (induction k arbitrary: w sets tv) (auto dest: select_keeps split: prod.split)

lemma set_nonblock_keeps: "fds (fst (std_sock_set_nonblock env s on w)) = fds w"
  by (auto simp: std_sock_set_nonblock_def dest: fionbio_keeps split: prod.split)

lemma connect_body_keeps:
  assumes "connect_body env addr ms s w = (w', stored, rc)"
  shows "fds w' = fds w" and "stored = None \<or> stored = Some s" and "rc = STD_ERR_OK \<Longrightarrow> stored = Some s"
proof -
  obtain w1 rc1 where w1: "std_sock_set_nonblock env s True w = (w1, rc1)" by fastforce
  then have k1: "fds w1 = fds w" using set_nonblock_keeps [of s True w] by simp
  obtain w2 trc errno where w2: "sys_connect env w1 s (sockaddr_bytes addr) = (w2, trc, errno)"
    by (metis prod_cases3)
  then have k2: "fds w2 = fds w" using k1 by (simp add: connect_keeps)
  obtain set max_fd where sel: "std_sel_adds_set [s] {} (-1) True = (set, max_fd)" by fastforce
  obtain w3 res sets tv rc3 errno3 where w3: "std_select_ignore_intr (sys_select env) (max_fd + 1) w2 (None, Some set, None)
      (int (ms div 1000), int (ms mod 1000) * 1000) = (w3, res, sets, tv, rc3, errno3)"
    by (metis prod_cases6)
  then have k3: "fds w3 = fds w"
    using k2 select_loop_keeps [of "max_fd + 1" 100 w2 "(None, Some set, None)" "(int (ms div 1000), int (ms mod 1000) * 1000)"]
    by (simp add: std_select_ignore_intr_def)
  obtain w4 rc4 where w4: "std_sock_set_nonblock env s False w3 = (w4, rc4)" by fastforce
  then have k4: "fds w4 = fds w" using k3 set_nonblock_keeps [of s False w3] by simp
  note step = assms [unfolded connect_body_def w1 prod.case w2 sel Let_def w3 w4]
  show "fds w' = fds w" using step k1 k2 k3 k4 by (simp split: if_splits)
  show "stored = None \<or> stored = Some s" using step by (simp split: if_splits)
  show "stored = Some s" if "rc = STD_ERR_OK"
    using step that std_err_not_ok by (simp add: GENERIC_FAIL_def split: if_splits)
qed

lemma connect_last_step:
  assumes "only_last_step_fails env" "sock_domain addr = e_std_sock_UNIX"
    and "sys_socket env w (uint AF_UNIX) SOCK_STREAM 0 = (w0, s, e)" "s \<noteq> -1"
    and "std_sock_connect_with_timeout env addr (Some old) ms w = (w', sock, rc)"
  shows "rc \<noteq> STD_ERR_OK \<and> sock = Some s \<and> s \<notin> fds w \<and> s \<notin> fds w'"
proof -
  note k = assms(1) [unfolded only_last_step_fails_def]
  have n1: "snd (std_sock_set_nonblock env s True v) = STD_ERR_OK" for v
    using k by (auto simp: std_sock_set_nonblock_def split: prod.split) (metis fst_conv snd_conv)
  have n2: "snd (std_sock_set_nonblock env s False v) \<noteq> STD_ERR_OK" for v
    using k by (auto simp: std_sock_set_nonblock_def STD_ERRNO_def std_err_not_ok split: prod.split) (metis fst_conv snd_conv)
  have sel: "\<exists>v' res sets' tv' e. std_select_ignore_intr (sys_select env) n v sets tv = (v', res, sets', tv', STD_ERR_OK, e) \<and> 1 \<le> res" for n v sets tv
  proof -
    obtain v' res sets' tv' e where c: "sys_select env v n sets tv = (v', res, sets', tv', e)" by (metis prod_cases5)
    then have "1 \<le> res" using k by (metis fst_conv snd_conv)
    then show ?thesis using c by (cases sets'; cases tv') (simp add: std_select_ignore_intr_def eval_nat_numeral)
  qed
  obtain v1 where v1: "std_sock_set_nonblock env s True w0 = (v1, STD_ERR_OK)" using n1 [of w0] by (metis prod.collapse)
  obtain v2 trc errno where v2: "sys_connect env v1 s (sockaddr_bytes addr) = (v2, trc, errno)" by (metis prod_cases3)
  then have trc: "trc \<noteq> -1" using k by (metis fst_conv snd_conv)
  obtain set max_fd where add: "std_sel_adds_set [s] {} (-1) True = (set, max_fd)" by fastforce
  obtain v3 res sets' tv' e' where v3: "std_select_ignore_intr (sys_select env) (max_fd + 1) v2 (None, Some set, None)
      (int (ms div 1000), int (ms mod 1000) * 1000) = (v3, res, sets', tv', STD_ERR_OK, e')" "1 \<le> res"
    using sel by blast
  obtain v4 rc4 where v4: "std_sock_set_nonblock env s False v3 = (v4, rc4)" "rc4 \<noteq> STD_ERR_OK" using n2 [of v3] by (metis prod.collapse)
  have "connect_body env addr ms s w0 = (v4, Some s, rc4)"
    using v1 v2 trc add v3 v4(1) by (simp add: connect_body_def)
  then show ?thesis using assms(2-5) v4(2) socket_opens [OF assms(3,4)]
    by (auto simp: std_sock_connect_with_timeout_def close_closes)
qed

lemma connect_owns:
  assumes "std_sock_connect_with_timeout env addr (Some old) ms w = (w', sock, rc)"
  shows "\<exists>s. sock = Some s \<and> (rc = STD_ERR_OK \<longrightarrow> s \<notin> fds w \<and> fds w' = insert s (fds w)) \<and>
    (rc \<noteq> STD_ERR_OK \<longrightarrow> fds w' = fds w \<and> (s = old \<or> s \<notin> fds w))"
proof (cases "sock_domain addr = e_std_sock_UNIX")
  case False
  with assms show ?thesis by (auto simp: std_sock_connect_with_timeout_def GENERIC_FAIL_def std_err_not_ok)
next
  case True
  obtain w1 s errno where w1: "sys_socket env w (uint AF_UNIX) SOCK_STREAM 0 = (w1, s, errno)" by (metis prod_cases3)
  show ?thesis
  proof (cases "s = -1")
    case True
    with assms w1 \<open>sock_domain addr = _\<close> show ?thesis
      by (auto simp: std_sock_connect_with_timeout_def RET_ERRNO_def std_err_not_ok dest: socket_fails)
  next
    case s: False
    obtain w2 stored rc2 where w2: "connect_body env addr ms s w1 = (w2, stored, rc2)" by (metis prod_cases3)
    have "w' = (if rc2 = STD_ERR_OK then w2 else sys_close env w2 s)" "rc = rc2"
      "sock = (case stored of None \<Rightarrow> Some old | Some s \<Rightarrow> Some s)"
      using assms w1 w2 s True by (auto simp: std_sock_connect_with_timeout_def)
    with connect_body_keeps [OF w2] socket_opens [OF w1 s] show ?thesis
      by (cases "rc = STD_ERR_OK"; cases stored) (auto simp: close_closes)
  qed
qed

lemma server_create_owns:
  assumes "std_server_socket_create env (Some d) w = (w', d', rc)"
  shows "(rc = STD_ERR_OK \<longrightarrow> (\<exists>s. d' = Some (d\<lparr>server_socket := s\<rparr>) \<and> s \<notin> fds w \<and> fds w' = insert s (fds w))) \<and>
    (rc \<noteq> STD_ERR_OK \<longrightarrow> fds w' = fds w \<and> d' = Some d)"
proof (cases "listeners d \<ge> STD_SOCK_MAX_LISTENERS \<or> sock_domain (server_address d) \<noteq> e_std_sock_UNIX")
  case True
  with assms show ?thesis by (auto simp: std_server_socket_create_def GENERIC_FAIL_def std_err_not_ok)
next
  case False
  obtain w1 s errno where w1: "sys_socket env w (uint AF_UNIX) SOCK_STREAM 0 = (w1, s, errno)" by (metis prod_cases3)
  show ?thesis
  proof (cases "s = -1")
    case True
    with assms w1 False show ?thesis
      by (auto simp: std_server_socket_create_def RET_ERRNO_def std_err_not_ok dest: socket_fails)
  next
    case s: False
    let ?w2 = "sys_unlink env w1 (sun_path (server_address d))"
    obtain w3 r errno3 where w3: "sys_bind env ?w2 s (sockaddr_bytes (server_address d)) = (w3, r, errno3)"
      by (metis prod_cases3)
    obtain w4 r4 where w4: "sys_listen env w3 s (listeners d) = (w4, r4)" by fastforce
    have k: "s \<notin> fds w" "fds w3 = insert s (fds w)" "fds w4 = insert s (fds w)"
      using socket_opens [OF w1 s] bind_keeps [OF w3] listen_keeps [OF w4] by (simp_all add: unlink_keeps)
    show ?thesis
      using assms [unfolded std_server_socket_create_def option.case if_not_P [OF False] w1 prod.case if_not_P [OF s] Let_def w3 w4] k
      by (cases "r < 0") (auto simp: RET_ERRNO_def std_err_not_ok close_closes)
  qed
qed

end

text \<open>
  A kernel with eight descriptors, of which the lowest free one is given out; nobody listens on the
  empty path, and a descriptor is always ready.
\<close>

definition small_numbers :: "int list" where "small_numbers = [0, 1, 2, 3, 4, 5, 6, 7]"

definition small_kernel :: "int list sock_env" where
  "small_kernel =
    \<lparr>sys_socket = (\<lambda>w d t p. case find (\<lambda>i. i \<notin> set w) small_numbers of None \<Rightarrow> (w, -1, 24) | Some s \<Rightarrow> (s # w, s, 0)),
     sys_socketpair = (\<lambda>w d t. (w, -1, (-1, -1), 24)), sys_close = (\<lambda>w s. filter (\<lambda>i. i \<noteq> s) w), sys_unlink = (\<lambda>w path. w),
     sys_bind = (\<lambda>w s a. (w, 0, 0)), sys_listen = (\<lambda>w s n. (w, 0)),
     sys_connect = (\<lambda>w s a. if length a = 2 then (w, -1, 111) else (w, -1, EINPROGRESS)),
     sys_fionbio = (\<lambda>w s on. (w, 0, 0)), sys_setsockopt = (\<lambda>w s opt len. (w, 0, 0)),
     sys_select = (\<lambda>w n sets tv. (w, 1, sets, tv, 0))\<rparr>"

interpretation small: descriptor_table small_kernel set
proof
  fix w w' :: "int list" and d t p s :: int and e
  assume w: "sys_socket small_kernel w d t p = (w', s, e)"
  show "s \<noteq> -1 \<Longrightarrow> s \<notin> set w \<and> set w' = insert s (set w)"
    using w find_Some_in [of "\<lambda>i. i \<notin> set w" "small_numbers"]
    by (auto simp: small_kernel_def split: option.splits)
next
  fix w w' :: "int list" and d t p :: int and e
  assume w: "sys_socket small_kernel w d t p = (w', -1, e)"
  moreover have "-1 \<notin> set small_numbers" by (simp add: small_numbers_def)
  ultimately show "set w' = set w"
    using find_Some_in [of "\<lambda>i. i \<notin> set w" "small_numbers"] by (auto simp: small_kernel_def split: option.splits)
qed (auto simp: small_kernel_def split: if_splits)

section \<open>The properties\<close>

text \<open> C26: Connecting a socket and creating a server socket leak no descriptor: when they succeed, exactly one
  new descriptor is open, the one that is handed to the caller; when they fail, in whatever step, the
  same descriptors are open as before. A connection whose last step fails reports the failure and leaves the
  caller with the number of the descriptor it opened, which it has closed.
\<close>

theorem socket_descriptors:
  assumes "descriptor_table env fds"
  shows "(std_sock_connect_with_timeout env addr (Some old) ms w = (w1, sock, rc) \<longrightarrow>
      (\<exists>s. sock = Some s \<and> (rc = STD_ERR_OK \<longrightarrow> s \<notin> fds w \<and> fds w1 = insert s (fds w)) \<and>
        (rc \<noteq> STD_ERR_OK \<longrightarrow> fds w1 = fds w \<and> (s = old \<or> s \<notin> fds w))) \<and>
      (only_last_step_fails env \<and> sock_domain addr = e_std_sock_UNIX \<and>
        sys_socket env w (uint AF_UNIX) SOCK_STREAM 0 = (w0, opened, e) \<and> opened \<noteq> -1 \<longrightarrow>
        rc \<noteq> STD_ERR_OK \<and> sock = Some opened \<and> opened \<notin> fds w1)) \<and>
    (std_server_socket_create env (Some d) w = (w2, d2, rc2) \<longrightarrow>
      (rc2 = STD_ERR_OK \<longrightarrow> (\<exists>s. d2 = Some (d\<lparr>server_socket := s\<rparr>) \<and> s \<notin> fds w \<and> fds w2 = insert s (fds w))) \<and>
      (rc2 \<noteq> STD_ERR_OK \<longrightarrow> fds w2 = fds w \<and> d2 = Some d))"
proof (intro conjI impI)
  show "\<exists>s. sock = Some s \<and> (rc = STD_ERR_OK \<longrightarrow> s \<notin> fds w \<and> fds w1 = insert s (fds w)) \<and>
      (rc \<noteq> STD_ERR_OK \<longrightarrow> fds w1 = fds w \<and> (s = old \<or> s \<notin> fds w))"
    if "std_sock_connect_with_timeout env addr (Some old) ms w = (w1, sock, rc)"
    by (rule descriptor_table.connect_owns [OF assms that])
  show "rc \<noteq> STD_ERR_OK" "sock = Some opened" "opened \<notin> fds w1"
    if c: "std_sock_connect_with_timeout env addr (Some old) ms w = (w1, sock, rc)"
      and l: "only_last_step_fails env \<and> sock_domain addr = e_std_sock_UNIX \<and>
        sys_socket env w (uint AF_UNIX) SOCK_STREAM 0 = (w0, opened, e) \<and> opened \<noteq> -1"
    using descriptor_table.connect_last_step [OF assms _ _ _ _ c] l by blast+
qed (use descriptor_table.server_create_owns [OF assms] in blast)+

text \<open>The same small kernel with a last step that fails, and nobody to refuse a connection.\<close>

definition stuck_kernel :: "int list sock_env" where
  "stuck_kernel = small_kernel\<lparr>sys_connect := (\<lambda>w s a. (w, 0, 0)), sys_fionbio := (\<lambda>w s on. (w, if on = 0 then -1 else 0, 5))\<rparr>"

interpretation stuck: descriptor_table stuck_kernel set
proof -
  have same: "sys_socket stuck_kernel = sys_socket small_kernel" "sys_close stuck_kernel = sys_close small_kernel"
    "sys_unlink stuck_kernel = sys_unlink small_kernel" "sys_bind stuck_kernel = sys_bind small_kernel"
    "sys_listen stuck_kernel = sys_listen small_kernel" "sys_select stuck_kernel = sys_select small_kernel"
    by (simp_all add: stuck_kernel_def)
  have quiet: "sys_connect stuck_kernel = (\<lambda>w s a. (w, 0, 0))" "sys_fionbio stuck_kernel = (\<lambda>w s on. (w, if on = 0 then -1 else 0, 5))"
    by (simp_all add: stuck_kernel_def)
  show "descriptor_table stuck_kernel set"
    by (rule descriptor_table.intro; (unfold same)?)
      (fact small.socket_fails small.socket_opens small.close_closes small.unlink_keeps small.bind_keeps
        small.listen_keeps small.select_keeps | simp add: quiet)+
qed

text \<open>A connection that is refused, and one whose last step fails: descriptor 2 is handed out, and not open.\<close>

theorem socket_descriptors_witness:
  "(\<exists>rc. std_sock_connect small_kernel \<lparr>sock_domain = e_std_sock_UNIX, addr_type = e_std_socket_a_t_STRING,
      sock_address = replicate 109 0\<rparr> (Some 7) [1, 0] = ([1, 0], Some 7, rc) \<and> rc \<noteq> STD_ERR_OK) \<and>
   (\<exists>w rc. std_sock_connect stuck_kernel \<lparr>sock_domain = e_std_sock_UNIX, addr_type = e_std_socket_a_t_STRING,
      sock_address = replicate 109 0\<rparr> (Some 7) [1, 0] = (w, Some 2, rc) \<and> rc \<noteq> STD_ERR_OK \<and> 2 \<notin> set w)"
proof
  let ?a = "\<lparr>sock_domain = e_std_sock_UNIX, addr_type = e_std_socket_a_t_STRING, sock_address = replicate 109 0\<rparr>"
  have "sun_path ?a = []" by (simp add: sun_path_def c_bytes_def)
  then have c: "std_sock_connect small_kernel ?a (Some 7) [1, 0] = ([1, 0], Some 7, GENERIC_FAIL)"
    by (simp add: std_sock_connect_def std_sock_connect_with_timeout_def connect_body_def small_kernel_def
        std_sock_set_nonblock_def create_s_sock_addr_def fill_unix_addr_def EINTR_def EINPROGRESS_def small_numbers_def
        GENERIC_FAIL_def std_err_not_ok)
  from socket_descriptors [OF small.descriptor_table_axioms] c [unfolded std_sock_connect_def]
  have "set [1, 0 :: int] = set [1, 0]" by blast
  with c show "\<exists>rc. std_sock_connect small_kernel ?a (Some 7) [1, 0] = ([1, 0], Some 7, rc) \<and> rc \<noteq> STD_ERR_OK"
    by (simp add: GENERIC_FAIL_def std_err_not_ok)
  obtain w sock rc where r: "std_sock_connect_with_timeout stuck_kernel ?a (Some 7) SOCK_CONNECT_TIMEOUT_DEFAULT_MS [1, 0] = (w, sock, rc)"
    by (metis prod_cases3)
  have "only_last_step_fails stuck_kernel" by (simp add: only_last_step_fails_def stuck_kernel_def small_kernel_def)
  moreover have "sys_socket stuck_kernel [1, 0] (uint AF_UNIX) SOCK_STREAM 0 = ([2, 1, 0], 2, 0)"
    by (simp add: stuck_kernel_def small_kernel_def small_numbers_def)
  ultimately have "rc \<noteq> STD_ERR_OK \<and> sock = Some 2 \<and> 2 \<notin> set w"
    using socket_descriptors [OF stuck.descriptor_table_axioms] r by fastforce
  then show "\<exists>w rc. std_sock_connect stuck_kernel ?a (Some 7) [1, 0] = (w, Some 2, rc) \<and> rc \<noteq> STD_ERR_OK \<and> 2 \<notin> set w"
    using r by (simp add: std_sock_connect_def)
qed

end
