(* ===== verification/Directory.thy ===== *)
theory Directory
  imports ErrorCodes
begin

text \<open>
  Walking a directory, \<open>src/std_directory.cpp\<close>. A directory stream is the list of entries it gives;
  \<open>opendir\<close>, an argument, gives the stream of a path or \<open>errno\<close>. An error of \<open>readdir_r\<close> ends the
  stream like its end. The callback has the type \<open>'c\<close> of its context; it does not change the file
  system. Allocation succeeds. None means that the walk does not end.
\<close>

section \<open>The walk\<close>

datatype std_dir_file_TYPE_t = std_dir_file_T_DIR | std_dir_file_T_FILE | std_dir_file_T_LINK | std_dir_file_T_OTHER

record dirent =
  d_type :: u8
  d_name :: string

definition DT_FIFO :: u8 where "DT_FIFO = 1"
definition DT_CHR :: u8 where "DT_CHR = 2"
definition DT_DIR :: u8 where "DT_DIR = 4"
definition DT_BLK :: u8 where "DT_BLK = 6"
definition DT_REG :: u8 where "DT_REG = 8"
definition DT_LNK :: u8 where "DT_LNK = 10"
definition DT_SOCK :: u8 where "DT_SOCK = 12"
definition dir_ENOENT :: u32 where "dir_ENOENT = 2"

type_synonym opendir_call = "string \<Rightarrow> u32 + dirent list"
type_synonym 'c dir_callback = "string \<Rightarrow> std_dir_file_TYPE_t \<Rightarrow> 'c \<Rightarrow> 'c \<times> bool"

definition std_dir_init :: "opendir_call \<Rightarrow> string \<Rightarrow> t_std_error \<times> dirent list option" where
  "std_dir_init opendir ent_name =
    (case opendir ent_name of
       Inl errno \<Rightarrow>
         (if errno = dir_ENOENT then (STD_ERR e_std_err_COM e_std_err_code_NEXIST 0, None)
          else (STD_ERR e_std_err_COM e_std_err_code_FAIL errno, None))
     | Inr d \<Rightarrow> (STD_ERR_OK, Some d))"

text \<open>The type of an entry; a later test overrides an earlier one.\<close>

definition entry_type :: "u8 \<Rightarrow> std_dir_file_TYPE_t" where
  "entry_type d =
    (let t = std_dir_file_T_OTHER;
         t = (if d AND DT_LNK \<noteq> 0 then std_dir_file_T_LINK else t);
         t = (if d AND DT_REG \<noteq> 0 then std_dir_file_T_FILE else t)
     in if d AND DT_DIR \<noteq> 0 then std_dir_file_T_DIR else t)"

text \<open>
  The loop over the entries of a directory. The inner call of \<open>std_dir_iterate\<close> is written out: its
  result is not looked at, so a directory that cannot be opened is passed over.
\<close>

partial_function (option) iterate_loop ::
    "opendir_call \<Rightarrow> 'c dir_callback \<Rightarrow> bool \<Rightarrow> string \<Rightarrow> dirent list \<Rightarrow> 'c \<Rightarrow> 'c option" where
  "iterate_loop opendir cb recurse ent_name entries context =
    (case entries of
       [] \<Rightarrow> Some context
     | e # entries \<Rightarrow>
         (let t = entry_type (d_type e); pathname = ent_name @ ''/'' @ d_name e in
          if t = std_dir_file_T_DIR \<and> (d_name e = ''.'' \<or> d_name e = ''..'')
          then iterate_loop opendir cb recurse ent_name entries context
          else
            Option.bind
              (if t = std_dir_file_T_DIR \<and> recurse
               then (case snd (std_dir_init opendir pathname) of
                       None \<Rightarrow> Some context
                     | Some h \<Rightarrow> iterate_loop opendir cb recurse pathname h context)
               else Some context)
              (\<lambda>context. case cb pathname t context of
                 (context, go_on) \<Rightarrow>
                   if go_on then iterate_loop opendir cb recurse ent_name entries context else Some context)))"

definition std_dir_iterate ::
    "opendir_call \<Rightarrow> string \<Rightarrow> 'c dir_callback \<Rightarrow> 'c \<Rightarrow> bool \<Rightarrow> ('c \<times> t_std_error) option" where
  "std_dir_iterate opendir ent_name cb context recurse =
    (case std_dir_init opendir ent_name of
       (rc, None) \<Rightarrow> Some (context, rc)
     | (rc, Some h) \<Rightarrow> map_option (\<lambda>context. (context, STD_ERR_OK)) (iterate_loop opendir cb recurse ent_name h context))"

lemmas dt_defs = DT_FIFO_def DT_CHR_def DT_DIR_def DT_BLK_def DT_REG_def DT_LNK_def DT_SOCK_def

text \<open>The types are numbers, not bits: a link is reported as a file, a socket or a block device as a directory.\<close>

lemma entry_types:
  "entry_type DT_DIR = std_dir_file_T_DIR" "entry_type DT_REG = std_dir_file_T_FILE" "entry_type DT_FIFO = std_dir_file_T_OTHER"
  "entry_type DT_LNK = std_dir_file_T_FILE" "entry_type DT_CHR = std_dir_file_T_LINK"
  "entry_type DT_BLK = std_dir_file_T_DIR" "entry_type DT_SOCK = std_dir_file_T_DIR"
  by (simp_all add: entry_type_def dt_defs)

section \<open>What is visited\<close>

text \<open>A finite tree of entries, and when the file system shows it under a path.\<close>

datatype dir_tree = Entry (tree_type: u8) (tree_name: string) (tree_entries: "dir_tree list")

definition tree_dirent :: "dir_tree \<Rightarrow> dirent" where
  "tree_dirent t = \<lparr>d_type = tree_type t, d_name = tree_name t\<rparr>"

definition dot_entry :: "dirent \<Rightarrow> bool" where
  "dot_entry e \<longleftrightarrow> entry_type (d_type e) = std_dir_file_T_DIR \<and> (d_name e = ''.'' \<or> d_name e = ''..'')"

definition shows_dir :: "opendir_call \<Rightarrow> string \<Rightarrow> dir_tree list \<Rightarrow> bool" where
  "shows_dir opendir path ts \<longleftrightarrow>
    (case opendir path of Inl e \<Rightarrow> ts = [] | Inr es \<Rightarrow> filter (\<lambda>e. \<not> dot_entry e) es = map tree_dirent ts)"

fun shows_tree :: "opendir_call \<Rightarrow> string \<Rightarrow> dir_tree \<Rightarrow> bool" where
  "shows_tree opendir path (Entry d n ts) \<longleftrightarrow>
    (entry_type d = std_dir_file_T_DIR \<longrightarrow> shows_dir opendir (path @ ''/'' @ n) ts) \<and>
    (entry_type d \<noteq> std_dir_file_T_DIR \<longrightarrow> ts = []) \<and>
    list_all (shows_tree opendir (path @ ''/'' @ n)) ts"

text \<open>The calls of the callback: the contents of a directory come before the directory.\<close>

fun dir_visits :: "bool \<Rightarrow> string \<Rightarrow> dir_tree \<Rightarrow> (string \<times> std_dir_file_TYPE_t) list" where
  "dir_visits recurse path (Entry d n ts) =
    (if recurse then concat (map (dir_visits recurse (path @ ''/'' @ n)) ts) else []) @ [(path @ ''/'' @ n, entry_type d)]"

definition run_callback :: "'c dir_callback \<Rightarrow> (string \<times> std_dir_file_TYPE_t) list \<Rightarrow> 'c \<Rightarrow> 'c" where
  "run_callback cb vs c = foldl (\<lambda>c (p, t). fst (cb p t c)) c vs"

lemma iterate_dots:
  assumes "filter (\<lambda>e. \<not> dot_entry e) es = rest"
  shows "iterate_loop opendir cb r path es c = iterate_loop opendir cb r path rest c"
  using assms
proof (induction es arbitrary: c rest)
  case (Cons e es)
  show ?case
  proof (cases "dot_entry e")
    case True
    then have "iterate_loop opendir cb r path (e # es) c = iterate_loop opendir cb r path es c"
      by (subst iterate_loop.simps) (simp add: dot_entry_def)
    with True Cons.IH [OF refl] Cons.prems show ?thesis by simp
  next
    case False
    with Cons.prems have "rest = e # filter (\<lambda>e. \<not> dot_entry e) es" by simp
    then show ?thesis
      by (simp only:) (subst (1 2) iterate_loop.simps, simp only: list.case Cons.IH [OF refl])
  qed
qed simp

lemma shows_dir_no_dots:
  assumes "shows_dir opendir path ts" "t \<in> set ts"
  shows "\<not> dot_entry (tree_dirent t)"
proof (cases "opendir path")
  case (Inr es)
  with assms have "tree_dirent t \<in> set (filter (\<lambda>e. \<not> dot_entry e) es)" by (simp add: shows_dir_def)
  then show ?thesis by simp
qed (use assms in \<open>simp add: shows_dir_def\<close>)

definition walks :: "opendir_call \<Rightarrow> 'c dir_callback \<Rightarrow> bool \<Rightarrow> string \<Rightarrow> dir_tree \<Rightarrow> bool" where
  "walks opendir cb r path t \<longleftrightarrow> (\<forall>es c. iterate_loop opendir cb r path (tree_dirent t # es) c =
     iterate_loop opendir cb r path es (run_callback cb (dir_visits r path t) c))"

lemma run_callback_append: "run_callback cb (xs @ ys) c = run_callback cb ys (run_callback cb xs c)"
  by (simp add: run_callback_def)

lemma walks_list:
  assumes "\<And>t. t \<in> set ts \<Longrightarrow> walks opendir cb r path t"
  shows "iterate_loop opendir cb r path (map tree_dirent ts) c = Some (run_callback cb (concat (map (dir_visits r path) ts)) c)"
  using assms
proof (induction ts arbitrary: c)
  case Nil
  then show ?case by (simp add: iterate_loop.simps run_callback_def)
next
  case (Cons t ts)
  then show ?case by (simp add: walks_def run_callback_append)
qed

lemma walks_dir:
  assumes "shows_dir opendir path ts" "\<And>t. t \<in> set ts \<Longrightarrow> walks opendir cb r path t"
  shows "(case snd (std_dir_init opendir path) of None \<Rightarrow> Some c | Some h \<Rightarrow> iterate_loop opendir cb r path h c) =
    Some (run_callback cb (concat (map (dir_visits r path) ts)) c)"
proof (cases "opendir path")
  case (Inl e)
  then show ?thesis using assms(1) by (simp add: std_dir_init_def shows_dir_def run_callback_def)
next
  case (Inr es)
  with assms(1) have "filter (\<lambda>e. \<not> dot_entry e) es = map tree_dirent ts" by (simp add: shows_dir_def)
  from iterate_dots [OF this, of opendir cb r path c] walks_list [of ts opendir cb r path c, OF assms(2)] Inr
  show ?thesis by (simp add: std_dir_init_def)
qed

lemma walks_tree:
  assumes cont: "\<And>p t c. snd (cb p t c)"
  shows "shows_tree opendir path t \<Longrightarrow> \<not> dot_entry (tree_dirent t) \<Longrightarrow> walks opendir cb r path t"
proof (induction t arbitrary: path)
  case (Entry d n ts)
  let ?p = "path @ ''/'' @ n"
  have sub: "walks opendir cb r ?p t" if t: "t \<in> set ts" for t
  proof (rule Entry.IH [OF t])
    show "shows_tree opendir ?p t" using Entry.prems(1) t by (simp add: list_all_iff)
    have "shows_dir opendir ?p ts" using Entry.prems(1) t by (cases "entry_type d = std_dir_file_T_DIR") auto
    then show "\<not> dot_entry (tree_dirent t)" using t by (rule shows_dir_no_dots)
  qed
  have "(if entry_type d = std_dir_file_T_DIR \<and> r
        then (case snd (std_dir_init opendir ?p) of None \<Rightarrow> Some c | Some h \<Rightarrow> iterate_loop opendir cb r ?p h c)
        else Some c) = Some (run_callback cb (if r then concat (map (dir_visits r ?p) ts) else []) c)" for c
  proof (cases "entry_type d = std_dir_file_T_DIR \<and> r")
    case True
    with Entry.prems(1) walks_dir [OF _ sub, of ts c] show ?thesis by auto
  next
    case False
    with Entry.prems(1) have "\<not> r \<or> ts = []" by auto
    with False show ?thesis by (auto simp: run_callback_def)
  qed
  note inner = this
  show ?case unfolding walks_def
  proof (intro allI)
    fix es c
    have "\<not> (entry_type d = std_dir_file_T_DIR \<and> (n = ''.'' \<or> n = ''..''))"
      using Entry.prems(2) by (simp add: dot_entry_def tree_dirent_def)
    then have "iterate_loop opendir cb r path (tree_dirent (Entry d n ts) # es) c =
      Option.bind
        (if entry_type d = std_dir_file_T_DIR \<and> r
         then (case snd (std_dir_init opendir ?p) of None \<Rightarrow> Some c | Some h \<Rightarrow> iterate_loop opendir cb r ?p h c)
         else Some c)
        (\<lambda>c. case cb ?p (entry_type d) c of
           (c, go_on) \<Rightarrow> if go_on then iterate_loop opendir cb r path es c else Some c)"
      by (subst iterate_loop.simps) (simp only: tree_dirent_def dir_tree.sel list.case dirent.simps Let_def if_False)
    also have "\<dots> = iterate_loop opendir cb r path es
        (fst (cb ?p (entry_type d) (run_callback cb (if r then concat (map (dir_visits r ?p) ts) else []) c)))"
      unfolding inner using cont by (simp add: split_beta)
    finally show "iterate_loop opendir cb r path (tree_dirent (Entry d n ts) # es) c =
        iterate_loop opendir cb r path es (run_callback cb (dir_visits r path (Entry d n ts)) c)"
      by (simp add: run_callback_def)
  qed
qed

text \<open> C34: A callback that never stops the walk is called once for every entry below the directory, or, without
  recursion, for every entry of it, except the entries for the directory itself and its parent; what
  is in a directory comes before it, and the walk ends. The paths lead from the directory. A directory
  that cannot be opened further down does not stop the walk and is not reported.
\<close>

theorem std_dir_iterate_visits:
  assumes "\<And>p t c. snd (cb p t c)" and "opendir path = Inr es"
    and "shows_dir opendir path ts" "list_all (shows_tree opendir path) ts"
  shows "std_dir_iterate opendir path cb context recurse =
    Some (run_callback cb (concat (map (dir_visits recurse path) ts)) context, STD_ERR_OK)"
proof -
  have "walks opendir cb recurse path t" if "t \<in> set ts" for t
    using walks_tree [OF assms(1)] assms(4) shows_dir_no_dots [OF assms(3) that] that by (simp add: list_all_iff)
  from walks_dir [OF assms(3) this, of "context"] assms(2) show ?thesis
    by (simp add: std_dir_iterate_def std_dir_init_def)
qed

theorem std_dir_iterate_visits_witness:
  "std_dir_iterate (\<lambda>p. if p = ''d'' then Inr [\<lparr>d_type = DT_DIR, d_name = ''.''\<rparr>, \<lparr>d_type = DT_DIR, d_name = ''e''\<rparr>]
      else if p = ''d/e'' then Inr [\<lparr>d_type = DT_LNK, d_name = ''l''\<rparr>] else Inl 2) ''d'' (\<lambda>p t c. (c @ [(p, t)], True)) [] True =
    Some ([(''d/e/l'', std_dir_file_T_FILE), (''d/e'', std_dir_file_T_DIR)], STD_ERR_OK)"
proof -
  let ?fs = "\<lambda>p. if p = ''d'' then Inr [\<lparr>d_type = DT_DIR, d_name = ''.''\<rparr>, \<lparr>d_type = DT_DIR, d_name = ''e''\<rparr>]
      else if p = ''d/e'' then Inr [\<lparr>d_type = DT_LNK, d_name = ''l''\<rparr>] else Inl (2 :: u32)"
  let ?ts = "[Entry DT_DIR ''e'' [Entry DT_LNK ''l'' []]]"
  have "shows_dir ?fs ''d'' ?ts" "list_all (shows_tree ?fs ''d'') ?ts"
    by (simp_all add: shows_dir_def dot_entry_def entry_types tree_dirent_def)
  from std_dir_iterate_visits [OF _ _ this, of "\<lambda>p t c. (c @ [(p, t)], True)" _ "[]" True]
  show ?thesis by (simp add: run_callback_def entry_types)
qed

end
