(* ===== verification/ShLib.thy ===== *)
theory ShLib
  imports ErrorCodes
begin

text \<open>
  Loading shared libraries, \<open>src/std_shlib.c\<close>. The dynamic loader is an argument: its state has the type
  \<open>'w\<close>, a handle is a number, 0 the null pointer. The function pointers that are set are a memory from
  addresses to addresses.
\<close>

section \<open>The functions\<close>

definition STD_SHLIB_INVALID_HNDL :: nat where "STD_SHLIB_INVALID_HNDL = 0"

record std_shlib_func_map_t =
  func_name :: "string option"
  pp_func :: nat

text \<open>\<open>dlsym\<close> gives None when \<open>dlerror\<close> then reports an error.\<close>

record 'w dl_env =
  dlopen :: "'w \<Rightarrow> string \<Rightarrow> nat \<Rightarrow> 'w \<times> nat"
  dlclose :: "'w \<Rightarrow> nat \<Rightarrow> 'w \<times> int"
  dlsym :: "'w \<Rightarrow> nat \<Rightarrow> string \<Rightarrow> nat option"

definition RTLD_NOW :: nat where "RTLD_NOW = 2"
definition RTLD_LOCAL :: nat where "RTLD_LOCAL = 0"
definition RTLD_NOLOAD :: nat where "RTLD_NOLOAD = 4"
definition lib_EINVAL :: u32 where "lib_EINVAL = 22"
definition lib_EEXIST :: u32 where "lib_EEXIST = 17"
definition lib_ENOENT :: u32 where "lib_ENOENT = 2"
definition lib_EFAULT :: u32 where "lib_EFAULT = 14"

definition lib_err :: "u32 \<Rightarrow> t_std_error" where
  "lib_err e = STD_ERR e_std_err_COM e_std_err_code_FAIL e"

definition std_shlib_is_loaded :: "'w dl_env \<Rightarrow> string \<Rightarrow> 'w \<Rightarrow> 'w \<times> bool" where
  "std_shlib_is_loaded env shlib_name w =
    (case dlopen env w shlib_name (RTLD_NOW OR RTLD_NOLOAD) of
       (w, hndl) \<Rightarrow> if hndl \<noteq> 0 then (fst (dlclose env w hndl), True) else (w, False))"

text \<open>The loop over the table of functions; None is an access behind the table.\<close>

fun map_loop :: "'w dl_env \<Rightarrow> 'w \<Rightarrow> nat \<Rightarrow> std_shlib_func_map_t list \<Rightarrow> nat \<Rightarrow> nat \<Rightarrow> (nat \<Rightarrow> nat) \<Rightarrow> t_std_error \<Rightarrow>
    ((nat \<Rightarrow> nat) \<times> t_std_error) option" where
  "map_loop env w hndl func_map iter 0 mem rc = Some (mem, rc)"
| "map_loop env w hndl func_map iter (Suc n) mem rc =
    (case arr_get func_map iter of
       None \<Rightarrow> None
     | Some f \<Rightarrow>
         (case func_name f of
            None \<Rightarrow> map_loop env w hndl func_map (Suc iter) n (mem(pp_func f := 0)) rc
          | Some nm \<Rightarrow>
              (case dlsym env w hndl nm of
                 Some addr \<Rightarrow> map_loop env w hndl func_map (Suc iter) n (mem(pp_func f := addr)) rc
               | None \<Rightarrow> map_loop env w hndl func_map (Suc iter) n (mem(pp_func f := 0)) (lib_err lib_EFAULT))))"

text \<open>The result: the state of the loader, \<open>*hndl\<close> unless \<open>hndl\<close> is null, the memory and the error.\<close>

definition std_shlib_load ::
    "'w dl_env \<Rightarrow> string option \<Rightarrow> nat option \<Rightarrow> std_shlib_func_map_t list \<Rightarrow> nat \<Rightarrow> (nat \<Rightarrow> nat) \<Rightarrow> 'w \<Rightarrow>
     ('w \<times> nat option \<times> (nat \<Rightarrow> nat) \<times> t_std_error) option" where
  "std_shlib_load env shlib_name hndl func_map func_map_sz mem w =
    (case (hndl, shlib_name) of
       (Some _, Some nm) \<Rightarrow>
         (case std_shlib_is_loaded env nm w of
            (w, loaded) \<Rightarrow>
              if loaded then Some (w, Some STD_SHLIB_INVALID_HNDL, mem, lib_err lib_EEXIST)
              else
                (case dlopen env w nm (RTLD_NOW OR RTLD_LOCAL) of
                   (w, h) \<Rightarrow>
                     if h = 0 then Some (w, Some STD_SHLIB_INVALID_HNDL, mem, lib_err lib_ENOENT)
                     else
                       (case map_loop env w h func_map 0 func_map_sz mem STD_ERR_OK of
                          None \<Rightarrow> None
                        | Some (mem, rc) \<Rightarrow>
                            if rc \<noteq> STD_ERR_OK
                            then Some (fst (dlclose env w h), Some STD_SHLIB_INVALID_HNDL, mem, rc)
                            else Some (w, Some h, mem, rc))))
     | _ \<Rightarrow> Some (w, hndl, mem, lib_err lib_EINVAL))"

definition std_shlib_unload :: "'w dl_env \<Rightarrow> nat \<Rightarrow> 'w \<Rightarrow> 'w \<times> t_std_error" where
  "std_shlib_unload env hndl w =
    (if hndl = STD_SHLIB_INVALID_HNDL then (w, lib_err lib_EINVAL)
     else (case dlclose env w hndl of (w, r) \<Rightarrow> (w, if r = 0 then STD_ERR_OK else lib_err lib_ENOENT)))"

section \<open>Reference counts\<close>

text \<open>What the loader promises: it counts how often a library was opened and not closed again.\<close>

locale dynamic_loader =
  fixes env :: "'w dl_env" and refs :: "'w \<Rightarrow> nat \<Rightarrow> nat"
  assumes open_fails: "dlopen env w nm flags = (w', 0) \<Longrightarrow> refs w' = refs w"
    and open_counts: "dlopen env w nm flags = (w', h) \<Longrightarrow> h \<noteq> 0 \<Longrightarrow> refs w' = (refs w)(h := Suc (refs w h))"
    and close_counts: "refs w h > 0 \<Longrightarrow> dlclose env w h = (w', r) \<Longrightarrow> r = 0 \<and> refs w' = (refs w)(h := refs w h - 1)"
begin

lemma open_close:
  assumes "dlopen env w nm flags = (w1, h)" "h \<noteq> 0"
  shows "refs (fst (dlclose env w1 h)) = refs w"
proof -
  have w1: "refs w1 = (refs w)(h := Suc (refs w h))" using assms by (rule open_counts)
  obtain w2 r where "dlclose env w1 h = (w2, r)" by fastforce
  with close_counts [OF _ this] w1 show ?thesis by simp
qed

lemma is_loaded_keeps: "refs (fst (std_shlib_is_loaded env nm w)) = refs w"
proof -
  obtain w1 h where o: "dlopen env w nm (RTLD_NOW OR RTLD_NOLOAD) = (w1, h)" by fastforce
  then show ?thesis
    using open_fails [of w nm "RTLD_NOW OR RTLD_NOLOAD" w1] open_close [OF o] by (cases "h = 0") (simp_all add: std_shlib_is_loaded_def)
qed

lemma unload_counts:
  "h \<noteq> 0 \<Longrightarrow> refs w h > 0 \<Longrightarrow>
    \<exists>w'. std_shlib_unload env h w = (w', STD_ERR_OK) \<and> refs w' = (refs w)(h := refs w h - 1)"
  using close_counts [of w h] by (cases "dlclose env w h") (simp add: std_shlib_unload_def STD_SHLIB_INVALID_HNDL_def)

end

text \<open>The value a table entry gets.\<close>

definition symbol_of :: "'w dl_env \<Rightarrow> 'w \<Rightarrow> nat \<Rightarrow> string option \<Rightarrow> nat" where
  "symbol_of env w h nm =
    (case nm of None \<Rightarrow> 0 | Some nm \<Rightarrow> (case dlsym env w h nm of None \<Rightarrow> 0 | Some addr \<Rightarrow> addr))"

definition missing :: "'w dl_env \<Rightarrow> 'w \<Rightarrow> nat \<Rightarrow> std_shlib_func_map_t \<Rightarrow> bool" where
  "missing env w h f \<longleftrightarrow> (case func_name f of None \<Rightarrow> False | Some nm \<Rightarrow> dlsym env w h nm = None)"

lemma map_loop_eq:
  assumes "iter + n = length fm"
  shows "map_loop env w h fm iter n mem rc =
    Some (foldl (\<lambda>mem f. mem(pp_func f := symbol_of env w h (func_name f))) mem (drop iter fm),
      if \<exists>f \<in> set (drop iter fm). missing env w h f then lib_err lib_EFAULT else rc)"
  using assms
proof (induction n arbitrary: iter mem rc)
  case (Suc n)
  then have d: "drop iter fm = fm ! iter # drop (Suc iter) fm" "iter < length fm"
    by (simp_all add: Cons_nth_drop_Suc)
  with Suc show ?case
    by (auto simp: symbol_of_def missing_def split: option.split)
qed simp

lemma foldl_update_notin:
  "p \<notin> pp_func ` set fm \<Longrightarrow> foldl (\<lambda>mem f. mem(pp_func f := v f)) mem fm p = mem p"
  by (induction fm arbitrary: mem) auto

lemma foldl_update_in:
  "distinct (map pp_func fm) \<Longrightarrow> f \<in> set fm \<Longrightarrow> foldl (\<lambda>mem f. mem(pp_func f := v f)) mem fm (pp_func f) = v f"
proof (induction fm arbitrary: mem)
  case (Cons g fm)
  show ?case
  proof (cases "f \<in> set fm")
    case False
    with Cons.prems have "f = g" "pp_func g \<notin> pp_func ` set fm" by auto
    then show ?thesis using foldl_update_notin [of "pp_func g" fm v] by (simp del: fun_upd_apply add: fun_upd_same)
  qed (use Cons in auto)
qed simp

text \<open> C21: Loading a library is all or nothing: when it succeeds the library is opened once more than before,
  every function of the table is set to its symbol and the ones without a name to null; when it fails
  every library is opened as often as before, and the handle is the invalid one. If the failure is
  a missing function, the table is filled all the same, with null for the functions that are missing.
\<close>

theorem std_shlib_load_all_or_nothing:
  assumes "dynamic_loader env refs" and "distinct (map pp_func fm)"
  shows "\<exists>w1 h mem1 rc. std_shlib_load env (Some nm) (Some old) fm (length fm) mem w = Some (w1, Some h, mem1, rc) \<and>
    (rc = STD_ERR_OK \<longrightarrow> h \<noteq> STD_SHLIB_INVALID_HNDL \<and> refs w1 = (refs w)(h := Suc (refs w h)) \<and>
      (\<forall>f \<in> set fm. \<not> missing env w1 h f \<and> mem1 (pp_func f) = symbol_of env w1 h (func_name f))) \<and>
    (rc \<noteq> STD_ERR_OK \<longrightarrow> h = STD_SHLIB_INVALID_HNDL \<and> refs w1 = refs w) \<and>
    (rc = lib_err lib_EFAULT \<longrightarrow> (\<exists>w2 h2. \<forall>f \<in> set fm. mem1 (pp_func f) = symbol_of env w2 h2 (func_name f)))"
proof -
  have errs: "lib_err e \<noteq> STD_ERR_OK" for e unfolding lib_err_def by (rule std_err_not_ok)
  have priv: "STD_ERR_EXT_PRIV (lib_err e) = e AND mask 15" for e by (simp add: lib_err_def STD_ERR_def std_err_ext_priv)
  have diff: "lib_err lib_EEXIST \<noteq> lib_err lib_EFAULT" "lib_err lib_ENOENT \<noteq> lib_err lib_EFAULT"
    using priv [of lib_EEXIST] priv [of lib_ENOENT] priv [of lib_EFAULT]
    by (auto simp: lib_EEXIST_def lib_ENOENT_def lib_EFAULT_def mask_numeral)
  obtain w1 loaded where w1: "std_shlib_is_loaded env nm w = (w1, loaded)" by fastforce
  then have r1: "refs w1 = refs w" using dynamic_loader.is_loaded_keeps [OF assms(1), of nm w] by simp
  obtain w2 h where w2: "dlopen env w1 nm (RTLD_NOW OR RTLD_LOCAL) = (w2, h)" by fastforce
  let ?mem = "foldl (\<lambda>mem f. mem(pp_func f := symbol_of env w2 h (func_name f))) mem fm"
  have table: "\<forall>f \<in> set fm. ?mem (pp_func f) = symbol_of env w2 h (func_name f)"
    using foldl_update_in [OF assms(2), where v = "\<lambda>f. symbol_of env w2 h (func_name f)"] by simp
  note load = std_shlib_load_def w1 w2 map_loop_eq [of 0 "length fm" fm, simplified]
  consider "loaded" | "\<not> loaded" "h = 0" | "\<not> loaded" "h \<noteq> 0" "\<exists>f \<in> set fm. missing env w2 h f"
    | "\<not> loaded" "h \<noteq> 0" "\<forall>f \<in> set fm. \<not> missing env w2 h f" by blast
  then show ?thesis
  proof cases
    case 1
    then show ?thesis using r1 diff errs by (simp add: load)
  next
    case 2
    then show ?thesis using r1 diff errs dynamic_loader.open_fails [OF assms(1), of w1 nm "RTLD_NOW OR RTLD_LOCAL" w2] w2
      by (simp add: load STD_SHLIB_INVALID_HNDL_def)
  next
    case 3
    have "refs (fst (dlclose env w2 h)) = refs w"
      using dynamic_loader.open_close [OF assms(1) w2] 3(2) r1 by simp
    with 3 table errs show ?thesis
      by (intro exI [of _ "fst (dlclose env w2 h)"] exI [of _ STD_SHLIB_INVALID_HNDL] exI [of _ ?mem] exI [of _ "lib_err lib_EFAULT"])
        (auto simp: load)
  next
    case 4
    have "refs w2 = (refs w)(h := Suc (refs w h))"
      using dynamic_loader.open_counts [OF assms(1) w2] 4(2) r1 by simp
    with 4 table errs show ?thesis
      by (intro exI [of _ w2] exI [of _ h] exI [of _ ?mem] exI [of _ STD_ERR_OK])
        (auto simp: load STD_SHLIB_INVALID_HNDL_def)
  qed
qed

text \<open>A loader that knows one library, with one function; its state is the number of references.\<close>

definition one_library :: "nat dl_env" where
  "one_library =
    \<lparr>dlopen = (\<lambda>w nm flags. if nm = ''libm'' \<and> (flags AND RTLD_NOLOAD = 0 \<or> w > 0) then (Suc w, 5) else (w, 0)),
     dlclose = (\<lambda>w h. if h = 5 \<and> w > 0 then (w - 1, 0) else (w, -1)),
     dlsym = (\<lambda>w h nm. if nm = ''cos'' then Some 99 else None)\<rparr>"

definition one_refs :: "nat \<Rightarrow> nat \<Rightarrow> nat" where
  "one_refs w h = (if h = 5 then w else 0)"

interpretation one: dynamic_loader one_library one_refs
  by unfold_locales (auto simp: one_library_def one_refs_def fun_eq_iff split: if_splits)

theorem std_shlib_load_all_or_nothing_witness:
  "\<exists>w1 h mem1 rc. std_shlib_load one_library (Some ''libm'') (Some 0)
      [\<lparr>func_name = Some ''cos'', pp_func = 1\<rparr>, \<lparr>func_name = Some ''sin'', pp_func = 2\<rparr>] (Suc (Suc 0)) (\<lambda>_. 7) 0 = Some (w1, Some h, mem1, rc) \<and>
    one_refs w1 = one_refs 0"
proof -
  let ?fm = "[\<lparr>func_name = Some ''cos'', pp_func = 1\<rparr>, \<lparr>func_name = Some ''sin'', pp_func = 2\<rparr>]"
  have "std_shlib_load one_library (Some ''libm'') (Some 0) ?fm (Suc (Suc 0)) (\<lambda>_. 7) 0 =
      Some (0, Some STD_SHLIB_INVALID_HNDL, (\<lambda>_. 7)(1 := 99, 2 := 0), lib_err lib_EFAULT)"
    by (simp add: std_shlib_load_def std_shlib_is_loaded_def one_library_def RTLD_NOW_def RTLD_LOCAL_def
        RTLD_NOLOAD_def lib_err_def std_err_not_ok)
  with std_shlib_load_all_or_nothing [OF one.dynamic_loader_axioms, of ?fm "''libm''" 0 "\<lambda>_. 7" 0]
  show ?thesis by (auto simp: lib_err_def std_err_not_ok)
qed

end
