(* ===== verification/SysTools.thy ===== *)
theory SysTools
  imports ConfigFile FileIo
begin

text \<open>
  Small tools: \<open>src/std_time_tools.c\<close>, \<open>src/std_thread_tools.c\<close>, \<open>src/std_mac_utils.c\<close>,
  \<open>src/std_int_mapping_util.c\<close> and \<open>src/std_system.c\<close>. System calls are arguments, functions on a state
  of type \<open>'w\<close> that give the result and \<open>errno\<close>; logging is left out and allocation succeeds.
\<close>

section \<open>Time\<close>

text \<open>\<open>last_call\<close> is the result of the last call with its \<open>errno\<close>.\<close>

fun usleep_loop :: "('w \<Rightarrow> u32 \<Rightarrow> 'w \<times> int \<times> u32) \<Rightarrow> u32 \<Rightarrow> nat \<Rightarrow> int \<times> u32 \<Rightarrow> 'w \<Rightarrow> 'w \<times> t_std_error" where
  "usleep_loop usleep usecs 0 last_call w = (w, if fst last_call = 0 then STD_ERR_OK else STD_ERRNO (snd last_call))"
| "usleep_loop usleep usecs (Suc fail_cnt) last_call w =
    (case usleep w usecs of
       (w, rc, errno) \<Rightarrow>
         if rc = -1 \<and> errno \<noteq> EINTR then (w, STD_ERRNO errno)
         else if rc = 0 then (w, STD_ERR_OK)
         else usleep_loop usleep usecs fail_cnt (rc, errno) w)"

definition std_usleep :: "('w \<Rightarrow> u32 \<Rightarrow> 'w \<times> int \<times> u32) \<Rightarrow> u32 \<Rightarrow> 'w \<Rightarrow> 'w \<times> t_std_error" where
  "std_usleep usleep usecs w = usleep_loop usleep usecs 5 (0, 0) w"

text \<open>\<open>clock_gettime\<close> gives its result, the seconds and nanoseconds, and \<open>errno\<close>.\<close>

definition std_get_uptime :: "int \<times> int \<times> int \<times> u32 \<Rightarrow> u64 \<times> t_std_error" where
  "std_get_uptime clock =
    (case clock of (rc, tv_sec, tv_nsec, errno) \<Rightarrow>
       (if rc = 0 then word_of_int (tv_nsec div 1000) + word_of_int tv_sec * 1000000 else 0,
        if rc = 0 then STD_ERR_OK else STD_ERRNO errno))"

definition std_time_is_expired :: "int \<times> int \<times> int \<times> u32 \<Rightarrow> u64 \<Rightarrow> u64 \<Rightarrow> bool" where
  "std_time_is_expired clock before time_in_ms \<longleftrightarrow> fst (std_get_uptime clock) - before \<ge> time_in_ms"

text \<open>A sleep that is interrupted five times is an error; before that it starts again from the full time.\<close>

lemma usleep_loop_interrupted:
  assumes "\<And>w. \<exists>w'. usleep w usecs = (w', -1, EINTR)" "n > 0"
  shows "snd (usleep_loop usleep usecs n r w) = STD_ERRNO EINTR"
  using assms(2)
proof (induction n arbitrary: r w)
  case (Suc n)
  obtain w' where "usleep w usecs = (w', -1, EINTR)" using assms(1) by blast
  with Suc show ?case by (cases n) simp_all
qed simp

lemma std_time_is_expired_iff:
  assumes "rc = 0" "0 \<le> tv_sec" "tv_sec * 1000000 + tv_nsec div 1000 = int start + int d" "0 \<le> tv_nsec"
    and "d < 2 ^ 64" "t < 2 ^ 64"
  shows "std_time_is_expired (rc, tv_sec, tv_nsec, e) (of_nat start) (of_nat t) \<longleftrightarrow> t \<le> d"
proof -
  have "word_of_int (tv_nsec div 1000) + word_of_int tv_sec * 1000000 = (word_of_int (int start + int d) :: u64)"
    unfolding assms(3) [symmetric] by simp
  then have "fst (std_get_uptime (rc, tv_sec, tv_nsec, e)) - of_nat start = (of_nat d :: u64)"
    by (simp add: std_get_uptime_def assms(1))
  moreover have "(of_nat t :: u64) \<le> of_nat d \<longleftrightarrow> t \<le> d"
    using assms(5,6) by (simp add: word_le_nat_alt unat_of_nat)
  ultimately show ?thesis by (simp add: std_time_is_expired_def)
qed

section \<open>Threads\<close>

text \<open>The thread function and its parameter have the types \<open>'f\<close> and \<open>'p\<close>, a thread the type \<open>'t\<close>.\<close>

record ('f, 'p, 't) std_thread_create_param_t =
  thread_name :: "string option"
  stack_size :: u32
  prio :: u32
  sched_type :: int
  thread_id :: "'t option"
  thread_function :: "'f option"
  thread_param :: "'p option"

definition STD_THREAD_DEF_STACK :: u32 where "STD_THREAD_DEF_STACK = 8192"
definition SCHED_OTHER :: int where "SCHED_OTHER = 0"
definition SCHED_FIFO :: int where "SCHED_FIFO = 1"
definition SCHED_RR :: int where "SCHED_RR = 2"
definition SCHED_IDLE :: int where "SCHED_IDLE = 5"

text \<open>The comparison converts the largest priority, an \<open>int\<close>, to the unsigned type of \<open>prio\<close>.\<close>

definition std_thread_valid_params :: "(int \<Rightarrow> int) \<Rightarrow> ('f, 'p, 't) std_thread_create_param_t \<Rightarrow> t_std_error" where
  "std_thread_valid_params sched_get_priority_max p =
    (let rc = STD_ERR e_std_err_COM e_std_err_code_PARAM 0 in
     if thread_name p = None then rc
     else if prio p = 0 \<and> sched_type p \<noteq> SCHED_OTHER \<and> sched_type p \<noteq> SCHED_IDLE then rc
     else if prio p \<noteq> 0 \<and> (sched_type p = SCHED_FIFO \<or> sched_type p = SCHED_RR) \<and>
       prio p > word_of_int (sched_get_priority_max (sched_type p)) then rc
     else if thread_function p = None then rc
     else STD_ERR_OK)"

definition std_thread_init_struct :: "('f, 'p, 't) std_thread_create_param_t" where
  "std_thread_init_struct = \<lparr>thread_name = None, stack_size = STD_THREAD_DEF_STACK, prio = 0, sched_type = SCHED_OTHER,
     thread_id = None, thread_function = None, thread_param = None\<rparr>"

definition std_thread_destroy_struct ::
    "('f, 'p, 't) std_thread_create_param_t \<Rightarrow> ('f, 'p, 't) std_thread_create_param_t" where
  "std_thread_destroy_struct p = std_thread_init_struct"

text \<open>
  \<open>pthread_create\<close> gets the scheduling policy and priority of the attributes, the function and its
  parameter; it gives \<open>Inl\<close> the error or \<open>Inr\<close> the thread. The name is set last.
\<close>

definition std_thread_create ::
    "(int \<Rightarrow> int) \<Rightarrow> ('w \<Rightarrow> int \<times> u32 \<Rightarrow> 'f option \<Rightarrow> 'p option \<Rightarrow> 'w \<times> (u32 + 't)) \<Rightarrow> ('w \<Rightarrow> 't \<Rightarrow> string \<Rightarrow> 'w) \<Rightarrow>
     ('f, 'p, 't) std_thread_create_param_t \<Rightarrow> 'w \<Rightarrow> 'w \<times> ('f, 'p, 't) std_thread_create_param_t \<times> t_std_error" where
  "std_thread_create sched_get_priority_max pthread_create pthread_setname params w =
    (let rc = std_thread_valid_params sched_get_priority_max params in
     if rc \<noteq> STD_ERR_OK then (w, params, rc)
     else
       (case pthread_create w (sched_type params, prio params) (thread_function params) (thread_param params) of
          (w, Inl l_errno) \<Rightarrow>
            (w, params\<lparr>thread_id := None\<rparr>, STD_ERR_MK (of_nat (sub_code e_std_err_COM)) (of_nat (err_code e_std_err_code_FAIL)) l_errno)
        | (w, Inr t) \<Rightarrow>
            (case thread_name params of
               None \<Rightarrow> (w, params\<lparr>thread_id := Some t\<rparr>, STD_ERR_OK)
             | Some nm \<Rightarrow> (pthread_setname w t nm, params\<lparr>thread_id := Some t\<rparr>, STD_ERR_OK))))"

lemma std_thread_create_ok:
  assumes "std_thread_create smax create setname p w = (w', p', rc)" and "thread_id p = None"
  shows "rc = STD_ERR_OK \<longleftrightarrow> thread_id p' \<noteq> None" and "p' = p\<lparr>thread_id := thread_id p'\<rparr>"
    and "rc = STD_ERR_OK \<Longrightarrow> thread_name p \<noteq> None \<and> thread_function p \<noteq> None"
proof -
  have mk: "STD_ERR_MK s e d \<noteq> STD_ERR_OK" for s e d using std_err_mk_is_err by (simp add: STD_IS_ERR_def)
  have valid: "thread_name p \<noteq> None \<and> thread_function p \<noteq> None" if "std_thread_valid_params smax p = STD_ERR_OK"
    using that std_err_not_ok(1) by (auto simp: std_thread_valid_params_def Let_def split: if_splits)
  show "rc = STD_ERR_OK \<longleftrightarrow> thread_id p' \<noteq> None" "p' = p\<lparr>thread_id := thread_id p'\<rparr>"
    "rc = STD_ERR_OK \<Longrightarrow> thread_name p \<noteq> None \<and> thread_function p \<noteq> None"
    using assms valid mk
    by (auto simp: std_thread_create_def Let_def split: if_splits prod.splits sum.splits option.splits)
qed

section \<open>Translating a number by a table\<close>

text \<open>As in the code, \<open>from\<close> is not used and the column is compared with its own number.\<close>

fun translate_loop :: "int list list \<Rightarrow> nat \<Rightarrow> nat \<Rightarrow> nat \<Rightarrow> nat \<Rightarrow> int option" where
  "translate_loop array_map field returned_field ix 0 = Some (-1)"
| "translate_loop array_map field returned_field ix (Suc n) =
    Option.bind (arr_get array_map ix) (\<lambda>row. Option.bind (arr_get row field) (\<lambda>v.
      if v = int field then arr_get row returned_field
      else translate_loop array_map field returned_field (Suc ix) n))"

definition std_int_translate :: "int \<Rightarrow> nat \<Rightarrow> nat \<Rightarrow> int list list \<Rightarrow> nat \<Rightarrow> int option" where
  "std_int_translate val field returned_field array_map int_array_map_len =
    translate_loop array_map field returned_field 0 int_array_map_len"

text \<open>The documented example: the row with 20 in column 0 is not found, the one with 1 in column 1 always is.\<close>

lemma std_int_translate_ignores_value:
  "std_int_translate 20 0 1 [[10, 1], [20, 2]] 2 = Some (-1)"
  "std_int_translate x 1 0 [[10, 1], [20, 2]] 2 = Some 10"
  by (simp_all add: std_int_translate_def numeral_2_eq_2)

section \<open>The place of sysfs\<close>

definition FS_MOUNT_FIELD_LOC :: nat where "FS_MOUNT_FIELD_LOC = 1"
definition FS_TYPE_FIELD_LOC :: nat where "FS_TYPE_FIELD_LOC = 2"

definition ascii_lower :: "char \<Rightarrow> char" where
  "ascii_lower c = (if 65 \<le> (of_char c :: nat) \<and> (of_char c :: nat) \<le> 90 then char_of ((of_char c :: nat) + 32) else c)"

definition strcasecmp_eq :: "string \<Rightarrow> string \<Rightarrow> bool" where
  "strcasecmp_eq a b \<longleftrightarrow> map ascii_lower a = map ascii_lower b"

text \<open>\<open>strncpy\<close> with padding, then the null at the end; None when the buffer is shorter than \<open>n\<close> or \<open>n\<close> is 0.\<close>

definition safestrncpy :: "string \<Rightarrow> string \<Rightarrow> nat \<Rightarrow> string option" where
  "safestrncpy dest src n =
    (if n = 0 \<or> n > length dest then None
     else Some (take (n - 1) (src @ replicate n NUL) @ [NUL] @ drop n dest))"

text \<open>The result is what is written to the buffer, or the second None when no line has the type sysfs.\<close>

function mounts_loop :: "string \<Rightarrow> string \<Rightarrow> nat \<Rightarrow> string option option" where
  "mounts_loop f dest len =
    (if f = [] then Some None
     else
       (case std_parse_string (cstr (fst (fgets 255 f))) '' '' of
          None \<Rightarrow> None
        | Some tokens \<Rightarrow>
            (case (std_parse_string_at tokens FS_MOUNT_FIELD_LOC, std_parse_string_at tokens FS_TYPE_FIELD_LOC) of
               (Some fsloc, Some fstype) \<Rightarrow>
                 if strcasecmp_eq fstype ''sysfs'' then map_option Some (safestrncpy dest fsloc len)
                 else mounts_loop (snd (fgets 255 f)) dest len
             | _ \<Rightarrow> mounts_loop (snd (fgets 255 f)) dest len)))"
  by pat_completeness auto
termination
  by (relation "measure (\<lambda>(f, _). length f)") (auto simp: fgets_shorter)

declare mounts_loop.simps [simp del]

definition std_sys_sysfs_path_get :: "string option \<Rightarrow> string \<Rightarrow> nat \<Rightarrow> (string \<times> t_std_error) option" where
  "std_sys_sysfs_path_get mounts dest len =
    (case mounts of
       None \<Rightarrow> Some (dest, STD_ERR e_std_err_COM e_std_err_code_FAIL 0)
     | Some f \<Rightarrow>
         (case mounts_loop f dest len of
            None \<Rightarrow> None
          | Some None \<Rightarrow> Some (dest, STD_ERR e_std_err_COM e_std_err_code_FAIL 0)
          | Some (Some dest) \<Rightarrow> Some (dest, STD_ERR_OK)))"

section \<open>MAC addresses\<close>

definition hex_digit :: "nat \<Rightarrow> char" where
  "hex_digit n = ''0123456789abcdef'' ! n"

definition hex_byte :: "u8 \<Rightarrow> string" where
  "hex_byte b = [hex_digit (unat b div 16), hex_digit (unat b mod 16)]"

text \<open>The six bytes with colons between them, and what \<open>snprintf\<close> leaves of it in a buffer of \<open>len\<close> bytes.\<close>

fun mac_text :: "u8 list \<Rightarrow> string" where
  "mac_text [] = []"
| "mac_text [b] = hex_byte b"
| "mac_text (b # bs) = hex_byte b @ '':'' @ mac_text bs"

definition std_mac_to_string :: "u8 list \<Rightarrow> string \<Rightarrow> nat \<Rightarrow> string option" where
  "std_mac_to_string mac buff len =
    (if len = 0 then Some buff
     else (let out = take (len - 1) (mac_text mac) @ [NUL]
           in if length out > length buff then None else Some (out @ drop (length out) buff)))"

text \<open>
  The conversion \<open>%x\<close>: white space is skipped, a sign and \<open>0x\<close> may come first; the digits are read as
  an \<open>unsigned long\<close>, which saturates, and stored in 32 bits. None when there is no digit.
\<close>

definition hex_value :: "char \<Rightarrow> nat option" where
  "hex_value c = find_char (ascii_lower c) ''0123456789abcdef''"

definition is_hex :: "char \<Rightarrow> bool" where
  "is_hex c \<longleftrightarrow> hex_value c \<noteq> None"

definition hex_number :: "string \<Rightarrow> nat" where
  "hex_number ds = foldl (\<lambda>v c. v * 16 + the (hex_value c)) 0 ds"

definition skip_0x :: "string \<Rightarrow> string" where
  "skip_0x s = (if map ascii_lower (take 2 s) = ''0x'' then drop 2 s else s)"

definition scan_hex :: "string \<Rightarrow> (u32 \<times> string) option" where
  "scan_hex s =
    (let s = dropWhile isspace s;
         neg = (take 1 s = ''-'');
         s = skip_0x (if take 1 s = ''-'' \<or> take 1 s = ''+'' then tl s else s);
         ds = takeWhile is_hex s;
         v = min (hex_number ds) (2 ^ 64 - 1)
     in if ds = [] then None else Some (if neg then - of_nat v else of_nat v, dropWhile is_hex s))"

text \<open>
  \<open>sscanf\<close> with \<open>n\<close> conversions and colons between them. When one fails the code goes on with what is
  in the uninitialised array: None.
\<close>

fun scan_mac :: "nat \<Rightarrow> string \<Rightarrow> u32 list option" where
  "scan_mac 0 s = Some []"
| "scan_mac (Suc n) s =
    (case scan_hex s of
       None \<Rightarrow> None
     | Some (v, s) \<Rightarrow>
         if n = 0 then Some [v]
         else if take 1 s = '':'' then map_option (Cons v) (scan_mac n (tl s)) else None)"

definition std_string_to_mac :: "string \<Rightarrow> (u8 list \<times> bool) option" where
  "std_string_to_mac buff = map_option (\<lambda>tmp. (map ucast tmp, True)) (scan_mac 6 buff)"

lemma less_16: "n < 16 \<Longrightarrow> n \<in> {0, 1, 2, 3, 4, 5, 6, 7, 8, 9, 10, 11, 12, 13, 14, 15 :: nat}"
  by simp presburger

lemma hex_value_digit: "n < 16 \<Longrightarrow> hex_value (hex_digit n) = Some n"
  by (drule less_16, elim insertE emptyE; hypsubst) (simp_all add: hex_value_def hex_digit_def ascii_lower_def)

lemma hex_digit_plain:
  "n < 16 \<Longrightarrow> \<not> isspace (hex_digit n) \<and> hex_digit n \<noteq> CHR ''-'' \<and> hex_digit n \<noteq> CHR ''+'' \<and> ascii_lower (hex_digit n) \<noteq> CHR ''x'' \<and>
    hex_digit n \<noteq> NUL"
  by (drule less_16, elim insertE emptyE; hypsubst) (simp_all add: isspace_def hex_digit_def ascii_lower_def NUL_def)

lemma scan_hex_byte:
  assumes "rest = [] \<or> take 1 rest = '':''"
  shows "scan_hex (hex_byte b @ rest) = Some (ucast b, rest)"
proof -
  let ?h = "unat b div 16" and ?l = "unat b mod 16"
  have "unat b < 256" using unsigned_less [of b] by simp
  then have n: "?h < 16" "?l < 16" by auto
  have r: "takeWhile is_hex rest = []" "dropWhile is_hex rest = rest"
    using assms by (cases rest; auto simp: is_hex_def hex_value_def ascii_lower_def)+
  note d = hex_digit_plain [OF n(1)] hex_digit_plain [OF n(2)] hex_value_digit [OF n(1)] hex_value_digit [OF n(2)]
  have "dropWhile isspace (hex_byte b @ rest) = hex_byte b @ rest" using d by (simp add: hex_byte_def)
  moreover have "take 1 (hex_byte b @ rest) \<noteq> ''-''" "take 1 (hex_byte b @ rest) \<noteq> ''+''" "skip_0x (hex_byte b @ rest) = hex_byte b @ rest"
    using d by (simp_all add: hex_byte_def skip_0x_def)
  moreover have "takeWhile is_hex (hex_byte b @ rest) = hex_byte b" "dropWhile is_hex (hex_byte b @ rest) = rest"
    using d r by (simp_all add: hex_byte_def is_hex_def)
  moreover have "hex_number (hex_byte b) = unat b" using d by (simp add: hex_byte_def hex_number_def)
  moreover have "min (unat b) (2 ^ 64 - 1) = unat b" using \<open>unat b < 256\<close> by simp
  moreover have "hex_byte b \<noteq> []" by (simp add: hex_byte_def)
  ultimately show ?thesis by (simp add: scan_hex_def Let_def)
qed

lemma scan_mac_text: "length mac = n \<Longrightarrow> scan_mac n (mac_text mac) = Some (map ucast mac)"
proof (induction mac arbitrary: n rule: mac_text.induct)
  case (2 b)
  then show ?case using scan_hex_byte [of "[]" b] by auto
next
  case (3 b c bs)
  then show ?case using scan_hex_byte [of "'':'' @ mac_text (c # bs)" b] by auto
qed simp

text \<open>Printing an address into a buffer that is long enough and reading it gives the address back.\<close>

theorem std_mac_roundtrip:
  assumes "length mac = 6" "std_mac_to_string mac buff len = Some out" "18 \<le> len"
  shows "std_string_to_mac (cstr out) = Some (mac, True)"
proof -
  have l: "length (mac_text mac) = 17"
  proof -
    have "length (mac_text m) = 3 * length m - 1" for m by (induction m rule: mac_text.induct) (auto simp: hex_byte_def)
    with assms(1) show ?thesis by simp
  qed
  have "NUL \<notin> set (hex_byte b)" for b
  proof -
    have "unat b < 256" using unsigned_less [of b] by simp
    then have "unat b div 16 < 16" "unat b mod 16 < 16" by auto
    then show ?thesis
      using hex_digit_plain [of "unat b div 16"] hex_digit_plain [of "unat b mod 16"] by (auto simp: hex_byte_def)
  qed
  then have nul: "NUL \<notin> set (mac_text m)" for m
    by (induction m rule: mac_text.induct) (simp_all, simp add: NUL_def)
  have "take (len - 1) (mac_text mac) = mac_text mac" using l assms(3) by simp
  then obtain rest where "out = mac_text mac @ NUL # rest"
    using assms(2,3) by (auto simp: std_mac_to_string_def Let_def split: if_splits)
  moreover have "takeWhile (\<lambda>c. c \<noteq> NUL) (mac_text mac) = mac_text mac" "\<forall>c \<in> set (mac_text mac). c \<noteq> NUL"
    using nul [of mac] by (auto simp: takeWhile_eq_all_conv)
  ultimately have "cstr out = mac_text mac" by (simp add: cstr_def)
  moreover have "(ucast (ucast b :: u32) :: u8) = b" for b by (rule bit_word_eqI) (simp add: bit_simps)
  then have "map ucast (map ucast mac :: u32 list) = mac" by (simp add: map_idI)
  ultimately show ?thesis using scan_mac_text [OF assms(1)] by (simp add: std_string_to_mac_def del: map_map)
qed

theorem std_mac_roundtrip_witness:
  "\<exists>out. std_mac_to_string [0, 1, 0x2A, 0xFF, 16, 9] (replicate 20 NUL) 20 = Some out \<and>
    std_string_to_mac (cstr out) = Some ([0, 1, 0x2A, 0xFF, 16, 9], True)"
proof -
  obtain out where "std_mac_to_string [0, 1, 0x2A, 0xFF, 16, 9] (replicate 20 NUL) 20 = Some out"
    by (simp add: std_mac_to_string_def hex_byte_def)
  with std_mac_roundtrip [OF _ this] show ?thesis by simp
qed

end
