(* ===== verification/CmdRedir.thy ===== *)
theory CmdRedir
  imports SocketTools SysTools
begin

text \<open>
  Redirecting the terminal of a command shell to a socket, \<open>src/std_cmd_redir.c\<close>. The calls of the
  kernel that the socket tools do not use are the further fields of \<open>redir_env\<close>. The flag with which
  another thread ends a connection is looked up in the state of the kernel (\<open>term_requested\<close>). Logging
  is left out and allocation succeeds. None means that the thread does not end, or that a buffer is
  read behind its end.
\<close>

section \<open>Copying between two descriptors\<close>

text \<open>The two threads: the one of the library and the shell, whose function is the client's.\<close>

datatype redir_thread = Console_reader | Shell

record 'w redir_env = "'w sock_env" +
  sys_read :: "'w fo"
  sys_write :: "'w write_call"
  sys_accept :: "'w \<Rightarrow> int \<Rightarrow> 'w \<times> int \<times> u32"
  sys_dup2 :: "'w \<Rightarrow> int \<Rightarrow> int \<Rightarrow> 'w \<times> int \<times> u32"
  term_requested :: "'w \<Rightarrow> bool"
  sys_pthread_create :: "'w \<Rightarrow> int \<times> u32 \<Rightarrow> redir_thread option \<Rightarrow> unit option \<Rightarrow> 'w \<times> (u32 + nat)"
  sys_pthread_setname :: "'w \<Rightarrow> nat \<Rightarrow> string \<Rightarrow> 'w"
  sched_priority_max :: "int \<Rightarrow> int"

definition DEF_BUF_LEN :: nat where "DEF_BUF_LEN = 128"

record redir_data_t =
  console :: int
  client_socket :: int
  client_flag_for_close :: int
  srv :: std_server_socket_desc_t
  param_path :: "u8 list"
  m_buff :: "u8 list"

text \<open>The time of a \<open>select\<close> without a limit, a null pointer in the code.\<close>

definition no_timeout :: timeval where "no_timeout = (-1, 0)"

definition redirect_io_to_sock :: "'w redir_env \<Rightarrow> int \<Rightarrow> 'w \<Rightarrow> 'w \<times> t_std_error" where
  "redirect_io_to_sock env fd w =
    (case sys_dup2 env w fd STDIN_FILENO of
       (w, r, errno) \<Rightarrow>
         if r < 0 then (w, STD_ERRNO errno)
         else (case sys_dup2 env w fd STDOUT_FILENO of
                 (w, r, errno) \<Rightarrow> (w, if r < 0 then STD_ERRNO errno else STD_ERR_OK)))"

text \<open>The kernel, the buffer \<open>b\<close> and the result. With \<open>wsock = -1\<close> what was read is dropped.\<close>

definition copy_to_fd :: "'w redir_env \<Rightarrow> int \<Rightarrow> int \<Rightarrow> u8 list \<Rightarrow> 'w \<Rightarrow> ('w \<times> u8 list \<times> bool) option" where
  "copy_to_fd env rsock wsock b w =
    (case std_read (sys_read env) rsock (take (length b - 1) b) False w of
       None \<Rightarrow> None
     | Some (w, got, rc, _) \<Rightarrow>
         (let b = got @ drop (length b - 1) b in
          if rc > 0 then
            (let b = b[nat rc := 0];
                 (w, trc) = (if wsock = -1 then (w, rc)
                             else (case sys_write env w wsock (take (nat rc) b) of (w, trc, errno) \<Rightarrow> (w, trc)))
             in Some (w, b, trc = rc))
          else Some (w, b, False)))"

definition flush_console_fd :: "'w redir_env \<Rightarrow> int \<Rightarrow> int set \<Rightarrow> u8 list \<Rightarrow> 'w \<Rightarrow> ('w \<times> u8 list) option" where
  "flush_console_fd env sock rset b w =
    (if sock \<notin> rset then Some (w, b) else map_option (\<lambda>(w, b, _). (w, b)) (copy_to_fd env sock (-1) b w))"

text \<open>The client, or None, and the error.\<close>

definition handle_server_socket :: "'w redir_env \<Rightarrow> int \<Rightarrow> int set \<Rightarrow> 'w \<Rightarrow> 'w \<times> int option \<times> t_std_error" where
  "handle_server_socket env ssock s w =
    (if ssock \<in> s then
       (case sys_accept env w ssock of
          (w, client_fd, errno) \<Rightarrow>
            if client_fd \<ge> 0 then (w, Some client_fd, STD_ERR_OK)
            else (w, None,
              if client_fd = -1 \<and> errno \<noteq> EINTR \<and> errno \<noteq> EWOULDBLOCK \<and> errno \<noteq> EAGAIN
              then STD_ERRNO errno else STD_ERR_OK))
     else (w, None, STD_ERR_OK))"

section \<open>The console thread\<close>

text \<open>The client or -1, with the error; the buffer is sent to a new client as it is.\<close>

partial_function (option) wait_for_connection ::
    "'w redir_env \<Rightarrow> int \<Rightarrow> int \<Rightarrow> u8 list \<Rightarrow> 'w \<Rightarrow> ('w \<times> u8 list \<times> int \<times> t_std_error) option" where
  "wait_for_connection env ssock con_fd buff w =
    (let (rset, max_fd) = std_sel_adds_set [ssock] {} (-1) True;
         (rset, max_fd) = std_sel_adds_set [con_fd] rset max_fd False
     in case std_select_ignore_intr (sys_select env) (max_fd + 1) w (Some rset, None, None) (1, 0) of
          (w, rc, (rd, _, _), _, err, _) \<Rightarrow>
            if rc = 0 then wait_for_connection env ssock con_fd buff w
            else if rc > 0 then
              Option.bind (flush_console_fd env con_fd (case rd of None \<Rightarrow> {} | Some s \<Rightarrow> s) buff w) (\<lambda>(w, buff).
                (case handle_server_socket env ssock (case rd of None \<Rightarrow> {} | Some s \<Rightarrow> s) w of
                   (w, Some client_fd, err) \<Rightarrow>
                     if 0 \<notin> set buff then None
                     else
                       Option.bind (std_write (sys_write env) client_fd (c_bytes buff) True w) (\<lambda>(w, n, _).
                         if n = -1 then wait_for_connection env ssock con_fd buff (sys_close env w client_fd)
                         else Some (w, buff, client_fd, err))
                 | (w, None, err) \<Rightarrow>
                     if err \<noteq> STD_ERR_OK then Some (w, buff, -1, err)
                     else wait_for_connection env ssock con_fd buff w))
            else if rc = -1 \<and> STD_ERR_EXT_PRIV err = EINTR then wait_for_connection env ssock con_fd buff w
            else if rc = -1 \<and> STD_ERR_EXT_PRIV err \<noteq> EINTR then Some (w, buff, -1, err)
            else wait_for_connection env ssock con_fd buff w)"

definition close_client :: "'w redir_env \<Rightarrow> redir_data_t \<Rightarrow> 'w \<Rightarrow> 'w \<times> redir_data_t" where
  "close_client env data w = (sys_close env w (client_socket data), data\<lparr>client_socket := -1\<rparr>)"

definition std_cmd_redir_term_conn :: "redir_data_t \<Rightarrow> redir_data_t \<times> t_std_error" where
  "std_cmd_redir_term_conn data = (data\<lparr>client_flag_for_close := 1\<rparr>, STD_ERR_OK)"

text \<open>
  The inner loop of \<open>console_reader\<close>: one connection, until it is closed. A turn gives \<open>Inl\<close> the result
  when it leaves the loop. First the console is copied to the client, then the client to the console.
\<close>

type_synonym 'w redir_state = "'w \<times> redir_data_t"

definition relay_copy :: "'w redir_env \<Rightarrow> int set \<Rightarrow> int \<Rightarrow> int \<Rightarrow> 'w redir_state \<Rightarrow> ('w redir_state + 'w redir_state) option" where
  "relay_copy env rset rsock wsock st =
    (case st of (w, data) \<Rightarrow>
      if rsock \<in> rset then
        map_option (\<lambda>(w, b, ok).
            if ok then Inr (w, data\<lparr>m_buff := b\<rparr>) else Inl (close_client env (data\<lparr>m_buff := b\<rparr>) w))
          (copy_to_fd env rsock wsock (m_buff data) w)
      else Some (Inr (w, data)))"

definition relay_turn :: "'w redir_env \<Rightarrow> 'w redir_state \<Rightarrow> ('w redir_state + 'w redir_state) option" where
  "relay_turn env st =
    (case st of (w, data) \<Rightarrow>
      if client_socket data = -1 then Some (Inl (w, data))
      else
        (let data = (if term_requested env w then fst (std_cmd_redir_term_conn data) else data) in
         if client_flag_for_close data \<noteq> 0 then Some (Inl (close_client env data w))
         else
           (let (rset, max_fd) = std_sel_adds_set [client_socket data, console data] {} (-1) True
            in case std_select_ignore_intr (sys_select env) (max_fd + 1) w (Some rset, None, None) no_timeout of
                 (w, rc, (rd, _, _), _, _, _) \<Rightarrow>
                   if rc < 0 then Some (Inl (close_client env data w))
                   else if rc > 0 then
                     (let rset = (case rd of None \<Rightarrow> {} | Some s \<Rightarrow> s) in
                      case relay_copy env rset (console data) (client_socket data) (w, data) of
                        Some (Inr st) \<Rightarrow> relay_copy env rset (client_socket data) (console data) st
                      | done \<Rightarrow> done)
                   else Some (Inr (w, data)))))"

partial_function (option) relay_loop :: "'w redir_env \<Rightarrow> 'w redir_state \<Rightarrow> 'w redir_state option" where
  "relay_loop env st =
    (case relay_turn env st of
       None \<Rightarrow> None
     | Some (Inl r) \<Rightarrow> Some r
     | Some (Inr st) \<Rightarrow> relay_loop env st)"

text \<open>The outer loop, which ends after a critical failure with the descriptors closed.\<close>

partial_function (option) console_loop :: "'w redir_env \<Rightarrow> redir_data_t \<Rightarrow> 'w \<Rightarrow> 'w option" where
  "console_loop env data w =
    Option.bind (wait_for_connection env (server_socket (srv data)) (console data) (m_buff data) w) (\<lambda>(w, buff, client, err).
      (let data = data\<lparr>m_buff := buff, client_socket := client\<rparr> in
       if client < 0 then
         (if err \<noteq> STD_ERR_OK then Some (sys_close env (sys_close env w (server_socket (srv data))) (console data))
          else console_loop env data w)
       else
         Option.bind (relay_loop env (w, data\<lparr>client_flag_for_close := 0\<rparr>)) (\<lambda>(w, data). console_loop env data w)))"

definition path_bytes :: "u8 list \<Rightarrow> u8 list" where
  "path_bytes path = take 108 (c_bytes path) @ replicate (109 - length (take 108 (c_bytes path))) 0"

definition console_reader :: "'w redir_env \<Rightarrow> redir_data_t \<Rightarrow> 'w \<Rightarrow> 'w option" where
  "console_reader env data w =
    (let desc = \<lparr>server_socket = 0, listeners = 10, server_address =
           \<lparr>sock_domain = e_std_sock_UNIX, addr_type = e_std_socket_a_t_STRING, sock_address = path_bytes (param_path data)\<rparr>\<rparr>
     in case std_server_socket_create (sock_env.truncate env) (Some desc) w of
          (w, d, serr) \<Rightarrow>
            if serr \<noteq> STD_ERR_OK then Some w
            else
              (let desc = (case d of None \<Rightarrow> desc | Some d \<Rightarrow> d) in
               case std_sock_set_nonblock (sock_env.truncate env) (server_socket desc) True w of
                 (w, serr) \<Rightarrow> if serr \<noteq> STD_ERR_OK then Some w else console_loop env (data\<lparr>srv := desc\<rparr>) w))"

section \<open>Starting and connecting\<close>

text \<open>
  \<open>has_func\<close> says whether the client gave a function for the shell. The two sockets are \<open>s0\<close> and \<open>s1\<close>;
  the variable \<open>data\<close> that is freed at the end is not the one that was allocated. When a thread cannot
  be started \<open>s0\<close> has been closed already. The result is the data, when both threads run.
\<close>

definition close_pair :: "'w redir_env \<Rightarrow> int \<times> int \<Rightarrow> 'w \<Rightarrow> 'w" where
  "close_pair env pair w =
    (let w = (if fst pair \<noteq> -1 then sys_close env w (fst pair) else w)
     in if snd pair \<noteq> -1 then sys_close env w (snd pair) else w)"

definition redir_thread_create :: "'w redir_env \<Rightarrow> redir_thread option \<Rightarrow> string \<Rightarrow> 'w \<Rightarrow> 'w \<times> t_std_error" where
  "redir_thread_create env f nm w =
    (case std_thread_create (sched_priority_max env) (sys_pthread_create env) (sys_pthread_setname env)
            (std_thread_init_struct\<lparr>thread_function := f, thread_name := Some nm, thread_param := Some ()\<rparr>) w of
       (w, _, serr) \<Rightarrow> (w, serr))"

definition std_cmd_redir_init ::
    "'w redir_env \<Rightarrow> bool \<Rightarrow> u8 list \<Rightarrow> 'w \<Rightarrow> 'w \<times> redir_data_t option \<times> t_std_error" where
  "std_cmd_redir_init env has_func path w =
    (case sys_socketpair env w (uint AF_UNIX) SOCK_STREAM of
       (w, rc, sockets, errno) \<Rightarrow>
         if rc < 0 then (close_pair env (-1, -1) w, None, STD_ERRNO errno)
         else
           (let w = fst (std_sock_set_sndbuf (sock_env.truncate env) (fst sockets) (int DEF_BUF_LEN) w);
                data = \<lparr>console = snd sockets, client_socket = 0, client_flag_for_close = 0,
                  srv = \<lparr>server_socket = 0, listeners = 0, server_address = \<lparr>sock_domain = e_std_sock_UNIX,
                    addr_type = e_std_socket_a_t_STRING, sock_address = replicate 109 0\<rparr>\<rparr>,
                  param_path = path, m_buff = replicate DEF_BUF_LEN 0\<rparr>
            in case redirect_io_to_sock env (fst sockets) w of
                 (w, serr) \<Rightarrow>
                   if serr \<noteq> STD_ERR_OK then (close_pair env sockets w, None, serr)
                   else
                     (let w = sys_close env w (fst sockets) in
                      case redir_thread_create env (Some Console_reader) ''Console reader thread'' w of
                        (w, serr) \<Rightarrow>
                          if serr \<noteq> STD_ERR_OK then (close_pair env sockets w, None, serr)
                          else
                            (case redir_thread_create env (if has_func then Some Shell else None) ''Shell thread'' w of
                               (w, serr) \<Rightarrow>
                                 if serr \<noteq> STD_ERR_OK then (close_pair env sockets w, None, serr)
                                 else (w, Some data, serr)))))"

text \<open>\<open>junk\<close> is what the last byte of the address on the stack holds.\<close>

definition std_cmd_redir_connect ::
    "'w redir_env \<Rightarrow> u8 list \<Rightarrow> u8 \<Rightarrow> int option \<Rightarrow> 'w \<Rightarrow> 'w \<times> int option \<times> t_std_error" where
  "std_cmd_redir_connect env path junk outfd w =
    (if outfd = None then (w, outfd, STD_ERR e_std_err_COM e_std_err_code_PARAM 0)
     else
       (case std_sock_connect (sock_env.truncate env)
               \<lparr>sock_domain = e_std_sock_UNIX, addr_type = e_std_socket_a_t_STRING,
                 sock_address = take 108 (path_bytes path) @ [junk]\<rparr> (Some (-1)) w of
          (w, sock, serr) \<Rightarrow> if serr \<noteq> STD_ERR_OK then (w, outfd, serr) else (w, sock, STD_ERR_OK)))"

section \<open>What is copied\<close>

context byte_source
begin

text \<open>A read of what there is returns, and takes its bytes from the front of the stream.\<close>

lemma read_some_loop:
  assumes "retry \<le> STD_MAX_EINTR"
  shows "\<exists>w' buf' rc err. file_op_loop read fd False 0 retry buf w = Some (w', buf', rc, err) \<and> length buf' = length buf \<and>
    rc \<le> int (length buf) \<and> (rc \<le> 0 \<or> pending w = take (nat rc) buf' @ pending w')"
  using assms
proof (induction "nat (retry + 1)" arbitrary: retry buf w rule: less_induct)
  case less
  note unf = file_op_loop.simps [of read fd False 0 retry buf w]
  obtain w1 rest rc errno where r: "read w fd (drop (nat 0) buf) = (w1, rest, rc, errno)" by (metis prod_cases4)
  note law = read_law [OF r]
  show ?case
  proof (cases "buf \<noteq> [] \<and> is_errno rc errno EINTR \<and> 0 \<le> retry - 1")
    case True
    then have "nat (retry - 1 + 1) < nat (retry + 1)" "retry - 1 \<le> STD_MAX_EINTR" "pending w1 = pending w" "rc = -1"
      using law less.prems by (simp_all add: is_errno_def)
    with less.hyps [of "retry - 1" rest w1] True r law show ?thesis by (auto simp: unf)
  next
    case False
    note stop = this
    show ?thesis
    proof (cases "buf = []")
      case True
      then show ?thesis by (simp add: file_op_loop.simps [of read fd False 0 retry "[]" w])
    next
      case ne: False
      then have "0 \<noteq> int (length buf)" by simp
      consider "is_errno rc errno EINTR" "retry - 1 < 0" | "\<not> is_errno rc errno EINTR" "rc = -1"
        | "\<not> is_errno rc errno EINTR" "rc \<noteq> -1" using stop ne by linarith
      then show ?thesis
      proof cases
        case 3
        with law r ne show ?thesis by (cases "rc = 0") (simp_all add: unf)
      qed (use law r ne in \<open>simp_all add: unf is_errno_def\<close>)
    qed
  qed
qed

lemma std_read_some:
  "\<exists>w' buf' rc err. std_read read fd buf False w = Some (w', buf', rc, err) \<and> length buf' = length buf \<and>
    rc \<le> int (length buf) \<and> (rc \<le> 0 \<or> pending w = take (nat rc) buf' @ pending w')"
  unfolding std_read_def file_op_def by (rule read_some_loop) simp

end

text \<open>
  One copy returns. When it reports success the bytes that were written are those that were taken
  from the source, in their order, at least one and all of them.
\<close>

lemma copy_to_fd_forwards:
  assumes "byte_source (sys_read env) rsock pend" and "b \<noteq> []"
  shows "\<exists>w' b' ok. copy_to_fd env rsock wsock b w = Some (w', b', ok) \<and> length b' = length b \<and>
    (ok \<and> wsock \<noteq> -1 \<longrightarrow> (\<exists>w1 bs e. bs \<noteq> [] \<and> pend w = bs @ pend w1 \<and> sys_write env w1 wsock bs = (w', int (length bs), e)))"
proof -
  obtain w1 got rc err where r: "std_read (sys_read env) rsock (take (length b - 1) b) False w = Some (w1, got, rc, err)"
      "length got = length b - 1" "rc \<le> int (length b - 1)" "rc \<le> 0 \<or> pend w = take (nat rc) got @ pend w1"
    using byte_source.std_read_some [OF assms(1), of "take (length b - 1) b" w] by auto
  have len: "length got < length b" using r(2) assms(2) by (cases b) auto
  show ?thesis
  proof (cases "rc > 0 \<and> wsock \<noteq> -1")
    case True
    then have n: "nat rc \<le> length got" "pend w = take (nat rc) got @ pend w1" "take (nat rc) got \<noteq> []" using r by auto
    obtain w2 trc e where s: "sys_write env w1 wsock (take (nat rc) got) = (w2, trc, e)" by (metis prod_cases3)
    have "nat rc - length got = 0" using n(1) by simp
    with r(1) s True have c: "copy_to_fd env rsock wsock b w = Some (w2, (got @ drop (length b - 1) b)[nat rc := 0], trc = rc)"
      by (simp add: copy_to_fd_def)
    show ?thesis
      using c n s len r(2) True
      by (intro exI [of _ w2] exI [of _ "(got @ drop (length b - 1) b)[nat rc := 0]"] exI [of _ "trc = rc"])
        (auto intro!: exI [of _ w1] exI [of _ "take (nat rc) got"])
  next
    case False
    show ?thesis
    proof (cases "rc > 0")
      case True
      moreover have "Suc (length b - 1) = length b" using len by simp
      ultimately show ?thesis using False r(1,2) by (auto simp: copy_to_fd_def Let_def)
    next
      case neg: False
      moreover have "Suc (length b - 1) = length b" using len by simp
      ultimately show ?thesis using r(1,2) by (auto simp: copy_to_fd_def Let_def)
    qed
  qed
qed

text \<open>A thread that cannot be started makes the library close its end of the socket pair twice.\<close>

lemma std_cmd_redir_init_closes_twice:
  assumes "sys_socketpair env w (uint AF_UNIX) SOCK_STREAM = (w1, 0, (s0, s1), e)" "s0 \<noteq> -1" "s1 \<noteq> -1"
    and "redirect_io_to_sock env s0 (fst (std_sock_set_sndbuf (sock_env.truncate env) s0 (int DEF_BUF_LEN) w1)) = (w2, STD_ERR_OK)"
    and "redir_thread_create env (Some Console_reader) ''Console reader thread'' (sys_close env w2 s0) = (w3, serr)"
    and "serr \<noteq> STD_ERR_OK"
  shows "std_cmd_redir_init env f path w = (sys_close env (sys_close env w3 s0) s1, None, serr)"
  using assms by (simp add: std_cmd_redir_init_def close_pair_def Let_def)

text \<open>
  A connection ends with its client closed and forgotten; the console and the server socket are kept
  for the next one. A request to end it is granted before anything more is copied.
\<close>

definition same_ends :: "redir_data_t \<Rightarrow> redir_data_t \<Rightarrow> bool" where
  "same_ends d d' \<longleftrightarrow> console d' = console d \<and> srv d' = srv d \<and> param_path d' = param_path d"

lemma relay_copy_result:
  assumes "relay_copy env rset a b st = Some res"
  shows "case res of Inl r \<Rightarrow> client_socket (snd r) = -1 \<and> same_ends (snd st) (snd r)
    | Inr r \<Rightarrow> same_ends (snd st) (snd r)"
  using assms by (auto simp: relay_copy_def close_client_def same_ends_def split: if_splits prod.splits)

lemma relay_turn_result:
  assumes "relay_turn env st = Some res"
  shows "case res of Inl r \<Rightarrow> client_socket (snd r) = -1 \<and> same_ends (snd st) (snd r)
    | Inr r \<Rightarrow> same_ends (snd st) (snd r)"
proof -
  obtain w d where st: "st = (w, d)" by (cases st)
  define d' where "d' = (if term_requested env w then fst (std_cmd_redir_term_conn d) else d)"
  have d': "same_ends d d'" by (simp add: d'_def same_ends_def std_cmd_redir_term_conn_def)
  obtain fds mx where sel: "std_sel_adds_set [client_socket d', console d'] {} (-1) True = (fds, mx)" by fastforce
  obtain w1 rc rd s2 s3 tv e1 e2 where w1:
      "std_select_ignore_intr (sys_select env) (mx + 1) w (Some fds, None, None) no_timeout = (w1, rc, (rd, s2, s3), tv, e1, e2)"
    by (metis prod_cases3 prod_cases6)
  let ?rset = "case rd of None \<Rightarrow> {} | Some s \<Rightarrow> s"
  let ?first = "relay_copy env ?rset (console d') (client_socket d') (w1, d')"
  note turn = assms [unfolded relay_turn_def st prod.case d'_def [symmetric] Let_def, folded d'_def, unfolded sel w1 prod.case]
  show ?thesis
  proof (cases "client_socket d = -1 \<or> client_flag_for_close d' \<noteq> 0 \<or> rc \<le> 0")
    case True
    with turn d' show ?thesis
      by (auto simp: st same_ends_def close_client_def split: if_splits)
  next
    case False
    then have turn: "(case ?first of Some (Inr st) \<Rightarrow> relay_copy env ?rset (client_socket d') (console d') st | done \<Rightarrow> done) = Some res"
      using turn by simp
    then obtain first where f: "?first = Some first" by (cases ?first) auto
    note keep = relay_copy_result [OF f]
    show ?thesis
    proof (cases first)
      case (Inl r)
      with turn f keep d' show ?thesis by (auto simp: st same_ends_def)
    next
      case (Inr st1)
      with turn f have "relay_copy env ?rset (client_socket d') (console d') st1 = Some res" by simp
      from relay_copy_result [OF this] keep Inr d' show ?thesis by (auto simp: st same_ends_def split: sum.splits)
    qed
  qed
qed

lemma relay_loop_ends:
  assumes "relay_loop env st = Some r"
  shows "client_socket (snd r) = -1 \<and> same_ends (snd st) (snd r)"
proof (rule relay_loop.raw_induct [where P = "\<lambda>env st r. client_socket (snd r) = -1 \<and> same_ends (snd st) (snd r)", OF _ assms])
  fix loop and env :: "'a redir_env" and st r :: "'a redir_state"
  assume ih: "\<And>env st r. loop env st = Some r \<Longrightarrow> client_socket (snd r) = -1 \<and> same_ends (snd st) (snd r)"
    and run: "(case relay_turn env st of None \<Rightarrow> None | Some (Inl r) \<Rightarrow> Some r | Some (Inr st) \<Rightarrow> loop env st) = Some r"
  then obtain res where turn: "relay_turn env st = Some res" by (cases "relay_turn env st") auto
  note keep = relay_turn_result [OF turn]
  show "client_socket (snd r) = -1 \<and> same_ends (snd st) (snd r)"
  proof (cases res)
    case (Inl r')
    with run turn keep show ?thesis by simp
  next
    case (Inr st')
    with run turn have "loop env st' = Some r" by simp
    from ih [OF this] keep Inr show ?thesis by (simp add: same_ends_def)
  qed
qed

lemma relay_loop_terminated:
  "client_socket data \<noteq> -1 \<Longrightarrow> term_requested env w \<Longrightarrow>
    relay_loop env (w, data) =
      Some (sys_close env w (client_socket data), data\<lparr>client_flag_for_close := 1, client_socket := -1\<rparr>)"
  by (subst relay_loop.simps) (simp add: relay_turn_def std_cmd_redir_term_conn_def close_client_def Let_def)

end
