(* ===== verification/EventUtils.thy ===== *)
theory EventUtils
  imports SocketOp
begin

text \<open>
  The framing of messages between clients and the event service, \<open>src/std_event_utils.cpp\<close>: a
  header that carries the size, an operation code and the payload. The layout is that of the structs:
  \<open>event_serv_msg_t\<close> has 4 bytes, \<open>std_event_key_t\<close> 68, \<open>std_event_msg_t\<close> 72, the header 16.
\<close>

section \<open>Messages\<close>

datatype event_serv_msg_types_t =
    event_serv_msg_t_ADD_REG | event_serv_msg_t_DEL_REG | event_serv_msg_t_PUBLISH | event_serv_msg_t_BUFFER

fun op_code :: "event_serv_msg_types_t \<Rightarrow> u32" where
  "op_code event_serv_msg_t_ADD_REG = 0"
| "op_code event_serv_msg_t_DEL_REG = 1"
| "op_code event_serv_msg_t_PUBLISH = 2"
| "op_code event_serv_msg_t_BUFFER = 3"

definition STD_EVENT_KEY_MAX :: nat where "STD_EVENT_KEY_MAX = 16"
definition sizeof_event_serv_msg_t :: nat where "sizeof_event_serv_msg_t = 4"
definition sizeof_std_event_key_t :: nat where "sizeof_std_event_key_t = 68"
definition sizeof_std_event_msg_t :: nat where "sizeof_std_event_msg_t = 72"

text \<open>An integer at an offset of a buffer.\<close>

definition u32_at :: "u8 list \<Rightarrow> nat \<Rightarrow> u32" where
  "u32_at bs i = from_le (take 4 (drop i bs))"

text \<open>The frame header: \<open>hdr.size\<close>, \<open>hdr.version\<close>, \<open>version\<close> and \<open>size\<close>.\<close>

record std_event_ipc_data_t =
  ipc_hdr_size :: u32
  ipc_hdr_version :: u32
  ipc_version :: u32
  ipc_size :: u32

definition STD_CMN_IPC_VER :: u32 where "STD_CMN_IPC_VER = 1"
definition sizeof_ipc_hdr :: nat where "sizeof_ipc_hdr = 8"
definition sizeof_ipc_data :: nat where "sizeof_ipc_data = 16"

definition ipc_bytes :: "std_event_ipc_data_t \<Rightarrow> u8 list" where
  "ipc_bytes h = le_bytes 4 (ipc_hdr_size h) @ le_bytes 4 (ipc_hdr_version h) @
     le_bytes 4 (ipc_version h) @ le_bytes 4 (ipc_size h)"

definition ipc_of_bytes :: "u8 list \<Rightarrow> std_event_ipc_data_t" where
  "ipc_of_bytes bs = \<lparr>ipc_hdr_size = u32_at bs 0, ipc_hdr_version = u32_at bs 4, ipc_version = u32_at bs 8, ipc_size = u32_at bs 12\<rparr>"

section \<open>Sending\<close>

definition STD_ERR_RC :: "e_std_error_codes \<Rightarrow> int \<Rightarrow> t_std_error" where
  "STD_ERR_RC code x = STD_ERR e_std_err_COM code (of_int x)"

definition std_event_util_event_send :: "'w msg_call \<Rightarrow> 'w msg_call \<Rightarrow> 'w select_call \<Rightarrow> int \<Rightarrow> u32 \<Rightarrow> u8 list list \<Rightarrow>
    nat \<Rightarrow> 'w \<Rightarrow> ('w \<times> t_std_error) option" where
  "std_event_util_event_send recvmsg sendmsg select handle op data timeout w =
    (let size = fold (\<lambda>d size. size + of_nat (length d)) data (0 :: u32) + of_nat sizeof_event_serv_msg_t;
         hdr = \<lparr>ipc_hdr_size = of_nat (sizeof_ipc_data - sizeof_ipc_hdr), ipc_hdr_version = STD_CMN_IPC_VER,
                ipc_version = 0, ipc_size = size\<rparr>;
         iov = ipc_bytes hdr # le_bytes 4 op # data
     in map_option (\<lambda>(w, _, _, rc). (w, rc))
          (std_socket_op recvmsg sendmsg select std_socket_transit_o_WRITE handle iov
             (std_socket_transit_f_NONBLOCK OR std_socket_transit_f_ALL) timeout w))"

section \<open>Receiving\<close>

text \<open>
  The header is on the stack and not initialised: its 16 bytes are the argument \<open>junk\<close>. A size that
  does not fit the \<open>int\<close> of \<open>std_read\<close> is outside the model (None).
\<close>

definition read_bytes :: "'w fo \<Rightarrow> int \<Rightarrow> u8 list \<Rightarrow> nat \<Rightarrow> nat \<Rightarrow> 'w \<Rightarrow> ('w \<times> u8 list \<times> int) option" where
  "read_bytes read fd buf start n w =
    (if length buf < start + n \<or> n \<ge> 2 ^ 31 then None
     else map_option (\<lambda>(w, bs, by, _). (w, take start buf @ bs @ drop (start + n) buf, by))
       (std_read read fd (take n (drop start buf)) True w))"

definition read_header :: "'w fo \<Rightarrow> int \<Rightarrow> u8 list \<Rightarrow> 'w \<Rightarrow> ('w \<times> u8 list \<times> bool) option" where
  "read_header read handle junk w =
    (case read_bytes read handle junk 0 sizeof_ipc_hdr w of
       None \<Rightarrow> None
     | Some (w, hdr, by) \<Rightarrow>
         if by \<noteq> int sizeof_ipc_hdr then Some (w, hdr, False)
         else if unat (ipc_hdr_size (ipc_of_bytes hdr)) > sizeof_ipc_data - sizeof_ipc_hdr then Some (w, hdr, False)
         else
           (let size = unat (ipc_hdr_size (ipc_of_bytes hdr)) in
            case read_bytes read handle hdr sizeof_ipc_hdr size w of
              None \<Rightarrow> None
            | Some (w, hdr, by) \<Rightarrow> Some (w, hdr, by = int size)))"

text \<open>The buffer is a vector; a resize appends zero bytes.\<close>

definition std_event_util_event_recv :: "'w fo \<Rightarrow> u8 list \<Rightarrow> int \<Rightarrow> u8 list \<Rightarrow> bool \<Rightarrow> 'w \<Rightarrow>
    ('w \<times> u8 list \<times> t_std_error) option" where
  "std_event_util_event_recv read junk handle buff allow_resize w =
    (case read_header read handle junk w of
       None \<Rightarrow> None
     | Some (w, hdr, ok) \<Rightarrow>
         if \<not> ok then Some (w, buff, STD_ERR e_std_err_COM e_std_err_code_FAIL 0)
         else
           (let size = unat (ipc_size (ipc_of_bytes hdr)) in
            if size > length buff \<and> \<not> allow_resize
            then Some (w, buff, STD_ERR e_std_err_COM e_std_err_code_TOOBIG 0)
            else
              (let buff = buff @ replicate (size - length buff) 0 in
               case read_bytes read handle buff 0 size w of
                 None \<Rightarrow> None
               | Some (w, buff, by) \<Rightarrow>
                   Some (w, buff, if by = int size then STD_ERR_OK else STD_ERR_RC e_std_err_code_FAIL by))))"

text \<open>
  Receiving into a message and a data area of the caller: their bytes are arguments and results;
  \<open>len\<close> is what the caller says about the data area. Sizes are unsigned and wrap.
\<close>

definition std_event_util_event_recv_msg :: "'w fo \<Rightarrow> u8 list \<Rightarrow> int \<Rightarrow> u8 list \<Rightarrow> u8 list \<Rightarrow> nat \<Rightarrow> 'w \<Rightarrow>
    ('w \<times> u8 list \<times> u8 list \<times> t_std_error) option" where
  "std_event_util_event_recv_msg read junk handle msg data len w =
    (let fail = STD_ERR e_std_err_COM e_std_err_code_FAIL 0 in
     case read_header read handle junk w of
       None \<Rightarrow> None
     | Some (w, hdr, ok) \<Rightarrow>
         if \<not> ok then Some (w, msg, data, fail)
         else
           (let size = unat (ipc_size (ipc_of_bytes hdr)) in
            if size < sizeof_event_serv_msg_t + sizeof_std_event_msg_t then Some (w, msg, data, fail)
            else
              (case read_bytes read handle (replicate sizeof_event_serv_msg_t 0) 0 sizeof_event_serv_msg_t w of
                 None \<Rightarrow> None
               | Some (w, mtype, by) \<Rightarrow>
                   if by \<noteq> int sizeof_event_serv_msg_t then Some (w, msg, data, STD_ERR_RC e_std_err_code_CLOSED handle)
                   else if u32_at mtype 0 \<noteq> op_code event_serv_msg_t_PUBLISH then Some (w, msg, data, fail)
                   else if size - sizeof_event_serv_msg_t > len
                   then Some (w, msg, data, STD_ERR e_std_err_COM e_std_err_code_TOOBIG 0)
                   else
                     (case read_bytes read handle msg 0 sizeof_std_event_msg_t w of
                        None \<Rightarrow> None
                      | Some (w, msg, by) \<Rightarrow>
                          if by \<noteq> int sizeof_std_event_msg_t then Some (w, msg, data, fail)
                          else
                            (let size = size - sizeof_event_serv_msg_t - sizeof_std_event_msg_t in
                             if size \<noteq> unat (u32_at msg 68) then Some (w, msg, data, fail)
                             else
                               (case read_bytes read handle data 0 size w of
                                  None \<Rightarrow> None
                                | Some (w, data, by) \<Rightarrow>
                                    Some (w, msg, data, if by \<noteq> int size then fail else STD_ERR_OK)))))))"

section \<open>Frames\<close>

definition frame :: "u32 \<Rightarrow> u8 list \<Rightarrow> u8 list" where
  "frame op payload =
     ipc_bytes \<lparr>ipc_hdr_size = 8, ipc_hdr_version = STD_CMN_IPC_VER, ipc_version = 0, ipc_size = of_nat (4 + length payload)\<rparr> @
     le_bytes 4 op @ payload"

lemma fold_sizes: "fold (\<lambda>d size. size + of_nat (length d)) data z = z + (of_nat (length (concat data)) :: u32)"
  by (induction data arbitrary: z) simp_all

lemma length_ipc_bytes [simp]: "length (ipc_bytes h) = 16"
  by (simp add: ipc_bytes_def)

lemma u32_at_le_bytes: "u32_at (xs @ le_bytes 4 v @ ys) (length xs) = v"
  by (simp add: u32_at_def from_le_bytes_word)

lemma ipc_of_bytes: "ipc_of_bytes (ipc_bytes h) = h"
proof -
  let ?a = "le_bytes 4 (ipc_hdr_size h)" and ?b = "le_bytes 4 (ipc_hdr_version h)"
    and ?c = "le_bytes 4 (ipc_version h)" and ?d = "le_bytes 4 (ipc_size h)"
  show ?thesis
    using u32_at_le_bytes [of "[]" "ipc_hdr_size h" "?b @ ?c @ ?d"] u32_at_le_bytes [of ?a "ipc_hdr_version h" "?c @ ?d"]
      u32_at_le_bytes [of "?a @ ?b" "ipc_version h" ?d] u32_at_le_bytes [of "?a @ ?b @ ?c" "ipc_size h" "[]"]
    by (simp add: ipc_of_bytes_def ipc_bytes_def)
qed

text \<open>The first part of the header carries its own size.\<close>

lemma ipc_hdr_prefix: "8 \<le> length bs \<Longrightarrow> ipc_hdr_size (ipc_of_bytes (take 8 bs @ xs)) = ipc_hdr_size (ipc_of_bytes bs)"
  by (simp add: ipc_of_bytes_def u32_at_def)

context reliable_source
begin

lemma read_bytes_exact:
  assumes "pending w = take start buf' @ bs @ rest" "start + length bs \<le> length buf" "length bs < 2 ^ 31" "take start buf' = []"
  shows "\<exists>w'. read_bytes read fd buf start (length bs) w = Some (w', take start buf @ bs @ drop (start + length bs) buf, int (length bs)) \<and>
    pending w' = rest"
proof -
  let ?b = "take (length bs) (drop start buf)"
  have l: "length ?b = length bs" using assms(2) by simp
  have "length ?b \<le> length (pending w)" using l assms by simp
  from std_read_exact [OF this] l assms show ?thesis by (auto simp: read_bytes_def)
qed

lemma read_header_exact:
  assumes "length junk = 16" "pending w = ipc_bytes h @ rest" "ipc_hdr_size h = 8"
  shows "\<exists>w'. read_header read fd junk w = Some (w', ipc_bytes h, True) \<and> pending w' = rest"
proof -
  let ?b1 = "take 8 (ipc_bytes h)" and ?b2 = "drop 8 (ipc_bytes h)"
  have len: "length ?b1 = 8" "length ?b2 = 8" by simp_all
  have "pending w = take 0 ?b1 @ ?b1 @ ?b2 @ rest" using assms(2) by simp
  from read_bytes_exact [OF this, of junk] assms(1) len obtain w1 where
    w1: "read_bytes read fd junk 0 8 w = Some (w1, ?b1 @ drop 8 junk, 8)" "pending w1 = ?b2 @ rest" by auto
  have size: "ipc_hdr_size (ipc_of_bytes (?b1 @ drop 8 junk)) = 8"
    using ipc_hdr_prefix [of "ipc_bytes h"] by (simp add: ipc_of_bytes assms(3))
  have "pending w1 = take 0 ?b1 @ ?b2 @ rest" using w1(2) by simp
  from read_bytes_exact [of w1 8 "[]" ?b2 rest "?b1 @ drop 8 junk"] w1(2) assms(1) len obtain w2 where
    "read_bytes read fd (?b1 @ drop 8 junk) 8 8 w1 = Some (w2, ipc_bytes h, 8)" "pending w2 = rest" by auto
  with w1 size show ?thesis by (simp add: read_header_def sizeof_ipc_hdr_def sizeof_ipc_data_def)
qed

lemma event_recv_frame:
  assumes "length junk = 16" "pending w = frame op payload @ rest" "4 + length payload < 2 ^ 31"
  shows "\<exists>w'. std_event_util_event_recv read junk fd buff True w =
      Some (w', le_bytes 4 op @ payload @ drop (4 + length payload) buff, STD_ERR_OK) \<and> pending w' = rest"
proof -
  let ?h = "\<lparr>ipc_hdr_size = 8, ipc_hdr_version = STD_CMN_IPC_VER, ipc_version = 0, ipc_size = of_nat (4 + length payload)\<rparr>"
  let ?bs = "le_bytes 4 op @ payload"
  have p: "pending w = ipc_bytes ?h @ ?bs @ rest" using assms(2) by (simp add: frame_def)
  obtain w1 where w1: "read_header read fd junk w = Some (w1, ipc_bytes ?h, True)" "pending w1 = ?bs @ rest"
    using read_header_exact [OF assms(1) p] by auto
  have size: "unat (ipc_size ?h) = length ?bs" using assms(3) by (simp add: unat_of_nat take_bit_nat_eq_self del: of_nat_add)
  let ?buff = "buff @ replicate (length ?bs - length buff) 0"
  have n: "length ?bs = 4 + length payload" by simp
  have "drop (length ?bs) ?buff = drop (length ?bs) buff" by simp
  moreover have "0 + length ?bs \<le> length ?buff" by simp
  from read_bytes_exact [of w1 0 "[]" ?bs rest ?buff] w1(2) this assms(3) obtain w2 where
    "read_bytes read fd ?buff 0 (length ?bs) w1 = Some (w2, ?bs @ drop (length ?bs) ?buff, int (length ?bs))" "pending w2 = rest"
    by auto
  ultimately show ?thesis using w1(1) size
    by (simp add: std_event_util_event_recv_def ipc_of_bytes n [symmetric] del: length_append replicate_add)
qed

end

text \<open>A send hands the frame over, all of it when it reports success.\<close>

context byte_sink
begin

lemma event_send_frame_exact:
  assumes "length (concat data) + 4 < 2 ^ 31"
  shows "\<exists>w' rc k. std_event_util_event_send recvmsg sendmsg select fd op data timeout w = Some (w', rc) \<and>
    accepted w' = (accepted w)(fd := accepted w fd @ take k (frame op (concat data))) \<and>
    k \<le> length (frame op (concat data)) \<and> (rc = STD_ERR_OK \<longleftrightarrow> k = length (frame op (concat data)))"
proof -
  let ?h = "\<lparr>ipc_hdr_size = 8, ipc_hdr_version = STD_CMN_IPC_VER, ipc_version = 0, ipc_size = of_nat (4 + length (concat data))\<rparr>"
  let ?iov = "ipc_bytes ?h # le_bytes 4 op # data"
  have flags: "(std_socket_transit_f_NONBLOCK OR std_socket_transit_f_ALL) AND std_socket_transit_f_ALL \<noteq> 0"
    by (simp add: std_socket_transit_f_NONBLOCK_def std_socket_transit_f_ALL_def)
  have e: "std_event_util_event_send recvmsg sendmsg select fd op data timeout w =
      map_option (\<lambda>(w, _, _, rc). (w, rc))
        (std_socket_op recvmsg sendmsg select std_socket_transit_o_WRITE fd ?iov
          (std_socket_transit_f_NONBLOCK OR std_socket_transit_f_ALL) timeout w)"
    by (simp add: std_event_util_event_send_def fold_sizes sizeof_ipc_data_def sizeof_ipc_hdr_def
        sizeof_event_serv_msg_t_def add.commute)
  have c: "concat ?iov = frame op (concat data)" by (simp add: frame_def)
  obtain w' rc err k where "std_socket_op recvmsg sendmsg select std_socket_transit_o_WRITE fd ?iov
        (std_socket_transit_f_NONBLOCK OR std_socket_transit_f_ALL) timeout w = Some (w', ?iov, rc, err)"
      "accepted w' = (accepted w)(fd := accepted w fd @ take k (frame op (concat data)))"
      "k \<le> length (frame op (concat data))" "err = STD_ERR_OK \<longleftrightarrow> k = length (frame op (concat data))"
    using std_socket_op_sends [OF flags, of w fd ?iov recvmsg timeout] unfolding sent_def c by (metis less_irrefl)
  moreover from this(1) e have "std_event_util_event_send recvmsg sendmsg select fd op data timeout w = Some (w', err)"
    by simp
  ultimately show ?thesis by blast
qed

lemma event_send_frame:
  assumes "length (concat data) + 4 < 2 ^ 31"
  shows "\<exists>w' rc k. std_event_util_event_send recvmsg sendmsg select fd op data timeout w = Some (w', rc) \<and>
    accepted w' = (accepted w)(fd := accepted w fd @ take k (frame op (concat data))) \<and>
    (rc = STD_ERR_OK \<longrightarrow> k = length (frame op (concat data)))"
  using event_send_frame_exact [OF assms] by blast

lemma event_send_willing:
  assumes "\<And>w iov flags. concat iov \<noteq> [] \<Longrightarrow> 0 < fst (snd (snd (sendmsg w fd iov flags)))"
  shows "\<exists>w'. std_event_util_event_send recvmsg sendmsg select fd op data timeout w = Some (w', STD_ERR_OK)"
proof -
  have flags: "(std_socket_transit_f_NONBLOCK OR std_socket_transit_f_ALL) AND std_socket_transit_f_ALL \<noteq> 0"
    by (simp add: std_socket_transit_f_NONBLOCK_def std_socket_transit_f_ALL_def)
  from std_socket_op_willing [OF assms this] show ?thesis by (fastforce simp: std_event_util_event_send_def Let_def)
qed

end

text \<open>What the calls of \<open>read\<close> leave alone, receiving a message leaves alone.\<close>

lemma read_bytes_keeps:
  assumes "\<And>w fd bs. g (fst (read w fd bs)) = g w" "read_bytes read fd buf start n w = Some (w', bs, by)"
  shows "g w' = g w"
  using assms(2) file_op_loop_keeps [of g read, OF assms(1)]
  by (auto simp: read_bytes_def std_read_def file_op_def split: if_splits)

lemma event_recv_keeps:
  assumes "\<And>w fd bs. g (fst (read w fd bs)) = g w"
    and "std_event_util_event_recv read junk fd buff resize w = Some (w', b, rc)"
  shows "g w' = g w"
proof -
  note keeps = read_bytes_keeps [of g read, OF assms(1)]
  have header: "g w1 = g w" if "read_header read fd junk w = Some (w1, hdr, ok)" for w1 hdr ok
    using that keeps by (auto simp: read_header_def Let_def split: option.splits if_splits)
  then show ?thesis using assms(2) keeps
    by (auto simp: std_event_util_event_recv_def Let_def split: option.splits if_splits)
qed


section \<open>Properties\<close>

text \<open> C25: What a client or the service sends arrives: a send of a message that reports success has put one
  frame on the stream, and a receive on a stream that starts with this frame returns success and the
  operation code and the payload at the front of the buffer, and leaves what follows the frame. Bytes
  of the buffer behind the message are kept: a buffer that is longer than the message ends in stale
  bytes. Assumed are reads that do not fail, a buffer that may grow (\<open>allow_resize\<close>), and memory for it: the
  \<open>TOOBIG\<close> answer to a failed \<open>resize\<close> is not modelled.
\<close>

theorem event_message_roundtrip:
  assumes "byte_sink sendmsg select accepted hiccups" and "reliable_source read fd' pending"
    and "length junk = 16" and "length (concat data) + 4 < 2 ^ 31"
  shows "\<exists>w' rc. std_event_util_event_send recvmsg sendmsg select fd op data timeout w = Some (w', rc) \<and>
    (rc = STD_ERR_OK \<longrightarrow>
      (\<exists>msg. accepted w' = (accepted w)(fd := accepted w fd @ msg) \<and>
        (\<forall>r rest buff. pending r = msg @ rest \<longrightarrow>
          (\<exists>r'. std_event_util_event_recv read junk fd' buff True r =
              Some (r', le_bytes 4 op @ concat data @ drop (4 + length (concat data)) buff, STD_ERR_OK) \<and>
            pending r' = rest))))"
proof -
  obtain w' rc k where s: "std_event_util_event_send recvmsg sendmsg select fd op data timeout w = Some (w', rc)"
      "accepted w' = (accepted w)(fd := accepted w fd @ take k (frame op (concat data)))"
      "rc = STD_ERR_OK \<longrightarrow> k = length (frame op (concat data))"
    using byte_sink.event_send_frame [OF assms(1,4)] by blast
  have n: "4 + length (concat data) < 2 ^ 31" using assms(4) by simp
  have "rc = STD_ERR_OK \<longrightarrow> accepted w' = (accepted w)(fd := accepted w fd @ frame op (concat data))" using s by simp
  with s(1) reliable_source.event_recv_frame [OF assms(2,3) _ n] show ?thesis by blast
qed

text \<open>One message of three bytes, through streams that take five and two bytes at a time.\<close>

theorem event_message_roundtrip_witness:
  "\<exists>w'. std_event_util_event_send undefined (pipe_send 4) ready_select 7 2 [[1], [2, 3]] 100 (\<lambda>_. []) = Some (w', STD_ERR_OK) \<and>
    (\<exists>r'. std_event_util_event_recv (pipe_read 1) (replicate 16 0) 7 [9, 9, 9, 9, 9, 9, 9, 9] True (w' 7 @ [5]) =
       Some (r', [2, 0, 0, 0, 1, 2, 3, 9], STD_ERR_OK) \<and> r' = [5])"
proof -
  have sent: "std_event_util_event_send undefined (pipe_send 4) ready_select 7 2 [[1], [2, 3]] 100 (\<lambda>_. []) =
      Some (w', rc) \<Longrightarrow> rc = STD_ERR_OK" for w' rc
    by (simp add: std_event_util_event_send_def std_socket_op_def process_op_def run_turns.simps process_op_turn_def
        pipe_send_def is_errno_def total_len_def le_bytes_def ipc_bytes_def std_socket_transit_f_NONBLOCK_def
        std_socket_transit_f_ALL_def Let_def)
  let ?recv = "\<lambda>r. std_event_util_event_recv (pipe_read 1) (replicate 16 0) 7 [9, 9, 9, 9, 9, 9, 9, 9] True r"
  have len: "length (replicate 16 (0 :: u8)) = 16" "length (concat [[1], [2, 3 :: u8]]) + 4 < 2 ^ 31" by simp_all
  obtain w' rc where w': "std_event_util_event_send undefined (pipe_send 4) ready_select 7 2 [[1], [2, 3]] 100 (\<lambda>_. []) = Some (w', rc)"
    and r: "rc = STD_ERR_OK \<longrightarrow> (\<exists>msg. w' = (\<lambda>_. [])(7 := [] @ msg) \<and> (\<forall>r rest buff. r = msg @ rest \<longrightarrow>
       (\<exists>r'. std_event_util_event_recv (pipe_read 1) (replicate 16 0) 7 buff True r =
          Some (r', le_bytes 4 (2 :: u32) @ concat [[1], [2, 3]] @ drop (4 + length (concat [[1], [2, 3 :: u8]])) buff, STD_ERR_OK) \<and> r' = rest)))"
    using event_message_roundtrip [OF pipe_sink.byte_sink_axioms pipe.reliable_source_axioms len, of undefined 4 7 2 100 "\<lambda>_. []" 1 7]
    by (elim exE conjE) (rule that)
  from sent [OF w'] r obtain msg where m: "w' = (\<lambda>_. [])(7 := [] @ msg)" "\<And>buff. \<exists>r'. std_event_util_event_recv (pipe_read 1)
      (replicate 16 0) 7 buff True (msg @ [5]) = Some (r', le_bytes 4 (2 :: u32) @ concat [[1], [2, 3]] @
        drop (4 + length (concat [[1], [2, 3 :: u8]])) buff, STD_ERR_OK) \<and> r' = [5]" by blast
  have a: "w' 7 = msg" unfolding m(1) by simp
  have op: "le_bytes 4 (2 :: u32) = [2, 0, 0, 0]" by (simp add: le_bytes_def upt_rec)
  from m(2) [of "[9, 9, 9, 9, 9, 9, 9, 9]"] have "\<exists>r'. ?recv (w' 7 @ [5]) = Some (r', [2, 0, 0, 0, 1, 2, 3, 9], STD_ERR_OK) \<and> r' = [5]"
    unfolding a op by simp
  with w' sent [OF w'] show ?thesis by blast
qed

end
