(* ===== verification/EventTree.thy ===== *)
theory EventTree
  imports EventUtils "HOL-Library.Sublist"
begin

text \<open>
  The tree of registrations of the event service, \<open>std_node_t\<close> and \<open>std_client_tree\<close> of
  \<open>src/std_event_service.cpp\<close>. A client registers for a key, a sequence of numbers; an event is
  delivered to the clients registered for a prefix of its key. \<open>std::map\<close> is a list of pairs in the
  order of the keys, \<open>std::set\<close> a sorted list. A pointer to a node is its path from the head of the
  tree. Whether an insertion into a container finds memory is an argument.
\<close>

section \<open>Nodes\<close>

datatype std_node_t = Std_node (node_clients: "int list") (node_nodes: "(u32 \<times> std_node_t) list")

definition new_node :: std_node_t where "new_node = Std_node [] []"

fun map_insert :: "u32 \<Rightarrow> 'a \<Rightarrow> (u32 \<times> 'a) list \<Rightarrow> (u32 \<times> 'a) list" where
  "map_insert k v [] = [(k, v)]"
| "map_insert k v ((i, x) # m) =
     (if k < i then (k, v) # (i, x) # m else if k = i then (k, v) # m else (i, x) # map_insert k v m)"

definition node_find :: "std_node_t \<Rightarrow> u32 \<Rightarrow> std_node_t option" where
  "node_find n i = map_of (node_nodes n) i"

definition create_node :: "bool \<Rightarrow> u32 \<Rightarrow> std_node_t \<Rightarrow> std_node_t" where
  "create_node mem_ok node n =
    (if mem_ok then Std_node (node_clients n) (map_insert node new_node (node_nodes n)) else n)"

definition node_insert :: "bool \<Rightarrow> int \<Rightarrow> std_node_t \<Rightarrow> std_node_t \<times> bool" where
  "node_insert mem_ok fd n =
    (if mem_ok then (Std_node (insort_insert fd (node_clients n)) (node_nodes n), True) else (n, False))"

definition node_remove :: "int \<Rightarrow> std_node_t \<Rightarrow> std_node_t" where
  "node_remove fd n = Std_node (removeAll fd (node_clients n)) (node_nodes n)"

fun node_remove_from_tree :: "int \<Rightarrow> std_node_t \<Rightarrow> std_node_t" where
  "node_remove_from_tree fd (Std_node cs ms) =
     node_remove fd (Std_node cs (map (\<lambda>(i, n). (i, node_remove_from_tree fd n)) ms))"

definition node_empty :: "std_node_t \<Rightarrow> bool" where
  "node_empty n \<longleftrightarrow> length (node_nodes n) = 0 \<and> length (node_clients n) = 0"

text \<open>The node at a path, and a change of it.\<close>

fun node_at :: "std_node_t \<Rightarrow> u32 list \<Rightarrow> std_node_t option" where
  "node_at n [] = Some n"
| "node_at n (i # p) = (case node_find n i of None \<Rightarrow> None | Some c \<Rightarrow> node_at c p)"

fun change_at :: "(std_node_t \<Rightarrow> std_node_t) \<Rightarrow> std_node_t \<Rightarrow> u32 list \<Rightarrow> std_node_t" where
  "change_at f n [] = f n"
| "change_at f n (i # p) =
     (case node_find n i of
        None \<Rightarrow> n
      | Some c \<Rightarrow> Std_node (node_clients n) (map_insert i (change_at f c p) (node_nodes n)))"

section \<open>The tree\<close>

text \<open>
  A key is its length field and the array of numbers behind it, with whatever follows in memory;
  reading beyond it is None. \<open>find\<close> creates the nodes that are missing when asked to; its result is
  the tree and the path of the node, or no node.
\<close>

record std_event_key_t =
  key_len :: u32
  event_key :: "u32 list"

fun find_loop :: "(nat \<Rightarrow> bool) \<Rightarrow> bool \<Rightarrow> u32 list \<Rightarrow> nat \<Rightarrow> nat \<Rightarrow> u32 list \<Rightarrow> std_node_t \<Rightarrow>
    (std_node_t \<times> u32 list option) option" where
  "find_loop mem_ok create ks ix 0 cur head = Some (head, Some cur)"
| "find_loop mem_ok create ks ix (Suc left) cur head =
     (case arr_get ks ix of
        None \<Rightarrow> None
      | Some k \<Rightarrow>
          if node_at head (cur @ [k]) \<noteq> None then find_loop mem_ok create ks (Suc ix) left (cur @ [k]) head
          else if \<not> create then Some (head, None)
          else
            (let head = change_at (create_node (mem_ok ix) k) head cur in
             if node_at head (cur @ [k]) = None then Some (head, None)
             else find_loop mem_ok create ks (Suc ix) left (cur @ [k]) head))"

definition tree_find :: "(nat \<Rightarrow> bool) \<Rightarrow> u32 list \<Rightarrow> nat \<Rightarrow> bool \<Rightarrow> std_node_t \<Rightarrow> (std_node_t \<times> u32 list option) option" where
  "tree_find mem_ok list len create head = find_loop mem_ok create list 0 len [] head"

definition reg_client :: "(nat \<Rightarrow> bool) \<Rightarrow> int \<Rightarrow> std_event_key_t \<Rightarrow> std_node_t \<Rightarrow> (std_node_t \<times> bool) option" where
  "reg_client mem_ok fd key head =
    (case tree_find mem_ok (event_key key) (unat (key_len key)) True head of
       None \<Rightarrow> None
     | Some (head, None) \<Rightarrow> Some (head, False)
     | Some (head, Some cur) \<Rightarrow>
         (let ok = mem_ok (length cur) in Some (change_at (\<lambda>n. fst (node_insert ok fd n)) head cur, ok)))"

definition dereg_client :: "int \<Rightarrow> std_event_key_t \<Rightarrow> std_node_t \<Rightarrow> (std_node_t \<times> bool) option" where
  "dereg_client fd key head =
    (case tree_find (\<lambda>_. True) (event_key key) (unat (key_len key)) False head of
       None \<Rightarrow> None
     | Some (head, None) \<Rightarrow> Some (head, True)
     | Some (head, Some cur) \<Rightarrow> Some (change_at (node_remove fd) head cur, True))"

definition tree_remove_from_tree :: "int \<Rightarrow> std_node_t \<Rightarrow> std_node_t" where
  "tree_remove_from_tree fd head = node_remove_from_tree fd head"

section \<open>Publishing\<close>

text \<open>
  \<open>event_send\<close> sends the message to a client and says whether that worked, \<open>client_close\<close> is
  \<open>std_socket_service_client_close\<close>. The clients that have the message already are \<open>fds\<close>.
\<close>

type_synonym 'w event_send = "int \<Rightarrow> 'w \<Rightarrow> 'w \<times> bool"

fun publish_loop :: "'w event_send \<Rightarrow> (int \<Rightarrow> 'w \<Rightarrow> 'w) \<Rightarrow> int list \<Rightarrow> int set \<Rightarrow> 'w \<Rightarrow> int set \<times> 'w" where
  "publish_loop event_send client_close [] fds w = (fds, w)"
| "publish_loop event_send client_close (fd # cs) fds w =
     (if fd \<in> fds then publish_loop event_send client_close cs fds w
      else
        (case event_send fd w of
           (w, ok) \<Rightarrow>
             (let w = (if \<not> ok then client_close fd w else w)
              in publish_loop event_send client_close cs (insert fd fds) w)))"

definition node_publish :: "'w event_send \<Rightarrow> (int \<Rightarrow> 'w \<Rightarrow> 'w) \<Rightarrow> std_node_t \<Rightarrow> int set \<Rightarrow> 'w \<Rightarrow> int set \<times> 'w" where
  "node_publish event_send client_close n fds w =
    (if length (node_clients n) = 0 then (fds, w) else publish_loop event_send client_close (node_clients n) fds w)"

fun tree_publish_loop :: "'w event_send \<Rightarrow> (int \<Rightarrow> 'w \<Rightarrow> 'w) \<Rightarrow> u32 list \<Rightarrow> nat \<Rightarrow> nat \<Rightarrow> std_node_t \<Rightarrow> int set \<Rightarrow> 'w \<Rightarrow> 'w option" where
  "tree_publish_loop event_send client_close ks ix 0 cur already_sent w = Some w"
| "tree_publish_loop event_send client_close ks ix (Suc left) cur already_sent w =
     (case arr_get ks ix of
        None \<Rightarrow> None
      | Some k \<Rightarrow>
          (case node_find cur k of
             None \<Rightarrow> Some w
           | Some cur \<Rightarrow>
               (case node_publish event_send client_close cur already_sent w of
                  (already_sent, w) \<Rightarrow> tree_publish_loop event_send client_close ks (Suc ix) left cur already_sent w)))"

definition tree_publish :: "'w event_send \<Rightarrow> (int \<Rightarrow> 'w \<Rightarrow> 'w) \<Rightarrow> std_event_key_t \<Rightarrow> std_node_t \<Rightarrow> 'w \<Rightarrow> 'w option" where
  "tree_publish event_send client_close key head w =
    tree_publish_loop event_send client_close (event_key key) 0 (unat (key_len key)) head {} w"

section \<open>Registrations\<close>

text \<open>What a tree says: which client is registered for which key.\<close>

definition registrations :: "std_node_t \<Rightarrow> (u32 list \<times> int) set" where
  "registrations n = {(p, fd). \<exists>c. node_at n p = Some c \<and> fd \<in> set (node_clients c)}"

text \<open>The containers are in order and without duplicates.\<close>

fun node_ok :: "std_node_t \<Rightarrow> bool" where
  "node_ok (Std_node cs ms) \<longleftrightarrow> sorted cs \<and> distinct cs \<and> sorted_wrt (<) (map fst ms) \<and> (\<forall>x\<in>set ms. node_ok (snd x))"

lemma map_of_map_insert [simp]: "map_of (map_insert k v m) = (map_of m)(k \<mapsto> v)"
  by (induction k v m rule: map_insert.induct) (auto simp: fun_eq_iff)

lemma set_map_insert: "set (map_insert k v m) \<subseteq> insert (k, v) (set m)"
  by (induction k v m rule: map_insert.induct) auto

lemma sorted_map_insert: "sorted_wrt (<) (map fst m) \<Longrightarrow> sorted_wrt (<) (map fst (map_insert k v m))"
proof (induction k v m rule: map_insert.induct)
  case (1 k v)
  then show ?case by simp
next
  case (2 k v i x m)
  have "i < k \<Longrightarrow> \<forall>y\<in>set (map fst (map_insert k v m)). i < y" using 2(2) set_map_insert [of k v m] by auto
  with 2 show ?case by (auto simp: not_less order.strict_iff_order)
qed

lemma node_ok_fields:
  assumes "node_ok n"
  shows "sorted (node_clients n)" "distinct (node_clients n)" "sorted_wrt (<) (map fst (node_nodes n))"
    "node_find n i = Some c \<Longrightarrow> node_ok c"
  using assms by (cases n; force simp: node_find_def dest: map_of_SomeD)+

lemma node_okI:
  "sorted cs \<Longrightarrow> distinct cs \<Longrightarrow> sorted_wrt (<) (map fst ms) \<Longrightarrow> (\<And>i c. (i, c) \<in> set ms \<Longrightarrow> node_ok c) \<Longrightarrow> node_ok (Std_node cs ms)"
  by auto

lemma node_ok_child: "node_ok n \<Longrightarrow> (i, c) \<in> set (node_nodes n) \<Longrightarrow> node_ok c"
  by (cases n) auto

lemma node_ok_map_insert:
  assumes "node_ok n" "node_ok c"
  shows "node_ok (Std_node (node_clients n) (map_insert i c (node_nodes n)))"
proof (rule node_okI)
  show "node_ok c'" if "(j, c') \<in> set (map_insert i c (node_nodes n))" for j c'
    using set_map_insert [of i c "node_nodes n"] that assms node_ok_child [OF assms(1)] by blast
qed (use node_ok_fields [OF assms(1)] sorted_map_insert in auto)

lemma registrations_Nil: "([], x) \<in> registrations n \<longleftrightarrow> x \<in> set (node_clients n)"
  by (simp add: registrations_def)

lemma registrations_Cons:
  "(i # q, x) \<in> registrations n \<longleftrightarrow> (\<exists>c. node_find n i = Some c \<and> (q, x) \<in> registrations c)"
  by (auto simp: registrations_def split: option.splits)

lemma node_find_insert [simp]: "node_find (Std_node cs (map_insert i c ms)) j = (if j = i then Some c else map_of ms j)"
  by (simp add: node_find_def)

text \<open>A change of the node at a path that keeps its children changes the registrations for that path only.\<close>

lemma change_at_clients:
  assumes "node_at n p = Some c" "\<And>c. node_nodes (f c) = node_nodes c"
  shows "(q, x) \<in> registrations (change_at f n p) \<longleftrightarrow> (if q = p then x \<in> set (node_clients (f c)) else (q, x) \<in> registrations n)"
  using assms(1)
proof (induction p arbitrary: n q)
  case Nil
  then show ?case
    by (cases q) (auto simp: registrations_Nil registrations_Cons node_find_def assms(2))
next
  case (Cons i p)
  obtain d where d: "node_find n i = Some d" "node_at d p = Some c" using Cons.prems by (auto split: option.splits)
  show ?case
  proof (cases q)
    case Nil
    then show ?thesis using d by (simp add: registrations_Nil)
  next
    case (Cons j r)
    then show ?thesis using d Cons.IH [OF d(2), of r] by (auto simp: registrations_Cons node_find_def [of n])
  qed
qed

lemma change_at_ok:
  assumes "node_ok n" "\<And>c. node_ok c \<Longrightarrow> node_ok (f c)"
  shows "node_ok (change_at f n p)"
  using assms(1)
proof (induction p arbitrary: n)
  case Nil
  then show ?case using assms(2) by simp
next
  case (Cons i p)
  show ?case
  proof (cases "node_find n i")
    case None
    then show ?thesis using Cons.prems by simp
  next
    case (Some d)
    have "node_ok (change_at f d p)" by (rule Cons.IH [OF node_ok_fields(4) [OF Cons.prems Some]])
    from node_ok_map_insert [OF Cons.prems this, of i] show ?thesis by (simp only: change_at.simps Some option.case)
  qed
qed

lemma map_insert_same: "sorted_wrt (<) (map fst m) \<Longrightarrow> map_of m k = Some v \<Longrightarrow> map_insert k v m = m"
  by (induction k v m rule: map_insert.induct) (fastforce split: if_splits dest: map_of_SomeD)+

lemma change_at_same:
  assumes "node_ok n" "\<And>c. f c = c"
  shows "change_at f n p = n"
  using assms(1)
proof (induction p arbitrary: n)
  case (Cons i p)
  show ?case
  proof (cases "node_find n i")
    case (Some d)
    have "change_at f d p = d" by (rule Cons.IH [OF node_ok_fields(4) [OF Cons.prems Some]])
    with map_insert_same [OF node_ok_fields(3) [OF Cons.prems]] Some show ?thesis by (simp add: node_find_def)
  qed simp
qed (simp add: assms(2))

text \<open>A new node adds no registration.\<close>

lemma registrations_new: "registrations new_node = {}"
  using registrations_Nil [of _ new_node] registrations_Cons [of _ _ _ new_node]
  by (auto simp: new_node_def node_find_def elim: list.exhaust) (metis neq_Nil_conv)

lemma change_at_create:
  assumes "node_at n p = Some c" "node_find c k = None"
  shows "registrations (change_at (create_node True k) n p) = registrations n"
    and "node_at (change_at (create_node True k) n p) (p @ [k]) = Some new_node"
proof -
  have "(q, x) \<in> registrations (change_at (create_node True k) n p) \<longleftrightarrow> (q, x) \<in> registrations n" for q x
    using assms(1)
  proof (induction p arbitrary: n q)
    case Nil
    then show ?case using assms(2)
      by (cases q) (auto simp: registrations_Nil registrations_Cons create_node_def node_find_def registrations_new)
  next
    case (Cons i p)
    obtain d where d: "node_find n i = Some d" "node_at d p = Some c" using Cons.prems by (auto split: option.splits)
    show ?case
    proof (cases q)
      case Nil
      then show ?thesis using d by (simp add: registrations_Nil)
    next
      case (Cons j r)
      then show ?thesis using d Cons.IH [OF d(2), of r] by (auto simp: registrations_Cons node_find_def [of n])
    qed
  qed
  then show "registrations (change_at (create_node True k) n p) = registrations n" by auto
  show "node_at (change_at (create_node True k) n p) (p @ [k]) = Some new_node" using assms(1)
    by (induction p arbitrary: n) (auto simp: create_node_def split: option.splits)
qed

section \<open>Finding a node\<close>

lemma node_at_take_Suc:
  "ix < length ks \<Longrightarrow> node_at head (take (Suc ix) ks) =
     (case node_at head (take ix ks) of None \<Rightarrow> None | Some c \<Rightarrow> node_find c (ks ! ix))"
proof (induction ks arbitrary: head ix)
  case (Cons k ks)
  then show ?case by (cases ix) (auto split: option.splits)
qed simp

lemma node_at_append: "node_at n (p @ q) = (case node_at n p of None \<Rightarrow> None | Some c \<Rightarrow> node_at c q)"
  by (induction p arbitrary: n) (auto split: option.splits)

text \<open>What \<open>find\<close> leaves behind: the same registrations, and the node of the key.\<close>

definition found :: "std_node_t \<Rightarrow> u32 list \<Rightarrow> bool \<Rightarrow> std_node_t \<times> u32 list option \<Rightarrow> bool" where
  "found head p create res \<longleftrightarrow> (case res of (head', cur) \<Rightarrow>
     node_ok head' \<and> registrations head' = registrations head \<and> (\<not> create \<longrightarrow> head' = head \<and> (cur = None \<longrightarrow> node_at head p = None)) \<and>
     (case cur of None \<Rightarrow> True | Some q \<Rightarrow> q = p \<and> node_at head' p \<noteq> None))"

lemma find_loop_found:
  assumes "node_ok head" "node_at head (take ix ks) \<noteq> None" "ix + left \<le> length ks"
  shows "\<exists>res. find_loop mem_ok create ks ix left (take ix ks) head = Some res \<and> found head (take (ix + left) ks) create res \<and>
    (create \<and> (\<forall>i. mem_ok i) \<longrightarrow> snd res \<noteq> None)"
  using assms
proof (induction left arbitrary: ix head)
  case 0
  then show ?case by (simp add: found_def)
next
  case (Suc left)
  let ?k = "ks ! ix"
  have ix: "ix < length ks" "take ix ks @ [?k] = take (Suc ix) ks" using Suc.prems(3) by (simp_all add: take_Suc_conv_app_nth)
  obtain c where c: "node_at head (take ix ks) = Some c" using Suc.prems(2) by blast
  have sub: "node_at head (take (Suc ix) ks) = node_find c ?k" using node_at_take_Suc [OF ix(1), of head] c by simp
  show ?case
  proof (cases "node_find c ?k")
    case (Some d)
    then show ?thesis using Suc.IH [of head "Suc ix"] Suc.prems sub ix by simp
  next
    case None
    have gone: "node_at head (take (ix + Suc left) ks) = None"
    proof -
      have "take (ix + Suc left) ks = take (Suc ix) ks @ take left (drop (Suc ix) ks)" by (simp add: take_add [of "Suc ix" left, simplified])
      then show ?thesis using sub None by (simp add: node_at_append)
    qed
    show ?thesis
    proof (cases "create \<and> mem_ok ix")
      case True
      let ?head = "change_at (create_node True ?k) head (take ix ks)"
      have new: "registrations ?head = registrations head" "node_at ?head (take (Suc ix) ks) = Some new_node"
        using change_at_create [OF c None] ix by simp_all
      have "node_ok ?head"
        by (rule change_at_ok [OF Suc.prems(1)])
          (use node_ok_map_insert [of _ new_node] in \<open>simp add: create_node_def new_node_def\<close>)
      from Suc.IH [OF this, of "Suc ix"] new(2) Suc.prems(3) obtain res where
        "find_loop mem_ok create ks (Suc ix) left (take (Suc ix) ks) ?head = Some res" "found ?head (take (Suc ix + left) ks) create res"
        "create \<and> (\<forall>i. mem_ok i) \<longrightarrow> snd res \<noteq> None" by auto
      then show ?thesis using True new ix sub None by (auto simp: found_def)
    next
      case False
      have "change_at (create_node False ?k) head (take ix ks) = head"
        by (rule change_at_same [OF Suc.prems(1)]) (simp add: create_node_def)
      then show ?thesis using False ix sub None gone Suc.prems(1) by (auto simp: found_def)
    qed
  qed
qed

section \<open>Registering and deregistering\<close>

text \<open>A key whose array holds as many numbers as its length says.\<close>

definition key_ok :: "std_event_key_t \<Rightarrow> bool" where
  "key_ok key \<longleftrightarrow> unat (key_len key) \<le> length (event_key key)"

definition key_path :: "std_event_key_t \<Rightarrow> u32 list" where
  "key_path key = take (unat (key_len key)) (event_key key)"

lemma tree_find_found:
  assumes "node_ok head" "key_ok key"
  shows "\<exists>res. tree_find mem_ok (event_key key) (unat (key_len key)) create head = Some res \<and>
    found head (key_path key) create res \<and> (create \<and> (\<forall>i. mem_ok i) \<longrightarrow> snd res \<noteq> None)"
  using find_loop_found [of head 0 "event_key key" "unat (key_len key)" mem_ok create] assms
  by (simp add: tree_find_def key_ok_def key_path_def)

lemma node_insert_fields:
  "node_nodes (fst (node_insert ok fd c)) = node_nodes c"
  "set (node_clients (fst (node_insert ok fd c))) = (if ok then insert fd (set (node_clients c)) else set (node_clients c))"
  "node_ok c \<Longrightarrow> node_ok (fst (node_insert ok fd c))"
  by (cases c; simp add: node_insert_def set_insort_insert sorted_insort_insert distinct_insort_insert)+

lemma sorted_removeAll: "sorted xs \<Longrightarrow> sorted (removeAll x xs)"
  by (induction xs) auto

lemma node_remove_fields:
  "node_nodes (node_remove fd c) = node_nodes c"
  "set (node_clients (node_remove fd c)) = set (node_clients c) - {fd}"
  "node_ok c \<Longrightarrow> node_ok (node_remove fd c)"
  by (simp_all add: node_remove_def) (cases c; simp add: sorted_removeAll distinct_removeAll)

lemma registrations_member: "node_at n p = Some c \<Longrightarrow> (p, x) \<in> registrations n \<longleftrightarrow> x \<in> set (node_clients c)"
  by (simp add: registrations_def)

lemma reg_client_ok:
  assumes "node_ok head" "key_ok key"
  shows "\<exists>head' ok. reg_client mem_ok fd key head = Some (head', ok) \<and> node_ok head' \<and> ((\<forall>i. mem_ok i) \<longrightarrow> ok) \<and>
    registrations head' = (if ok then insert (key_path key, fd) (registrations head) else registrations head)"
proof -
  obtain h cur where f: "tree_find mem_ok (event_key key) (unat (key_len key)) True head = Some (h, cur)"
      "found head (key_path key) True (h, cur)" "(\<forall>i. mem_ok i) \<longrightarrow> cur \<noteq> None"
    using tree_find_found [OF assms, of mem_ok True] by auto
  show ?thesis
  proof (cases cur)
    case None
    then show ?thesis using f by (auto simp: reg_client_def found_def)
  next
    case (Some q)
    obtain c where c: "q = key_path key" "node_at h q = Some c" "node_ok h" "registrations h = registrations head"
      using f(2) Some by (auto simp: found_def)
    let ?ok = "mem_ok (length q)"
    let ?h = "change_at (\<lambda>n. fst (node_insert ?ok fd n)) h q"
    have "(p, x) \<in> registrations ?h \<longleftrightarrow> (p, x) \<in> (if ?ok then insert (q, fd) (registrations h) else registrations h)" for p x
      by (subst change_at_clients [OF c(2)]) (auto simp: node_insert_fields registrations_member [OF c(2)])
    then have "registrations ?h = (if ?ok then insert (q, fd) (registrations h) else registrations h)" by auto
    moreover have "node_ok ?h" by (rule change_at_ok [OF c(3) node_insert_fields(3)])
    ultimately show ?thesis using f(1) Some c by (auto simp: reg_client_def Let_def)
  qed
qed

lemma dereg_client_ok:
  assumes "node_ok head" "key_ok key"
  shows "\<exists>head'. dereg_client fd key head = Some (head', True) \<and> node_ok head' \<and>
    registrations head' = registrations head - {(key_path key, fd)}"
proof -
  obtain h cur where f: "tree_find (\<lambda>_. True) (event_key key) (unat (key_len key)) False head = Some (h, cur)"
      "found head (key_path key) False (h, cur)"
    using tree_find_found [OF assms, of "\<lambda>_. True" False] by auto
  show ?thesis
  proof (cases cur)
    case None
    then have "node_at head (key_path key) = None" "h = head" using f(2) by (auto simp: found_def)
    then have "(key_path key, fd) \<notin> registrations head" by (simp add: registrations_def)
    then show ?thesis using f None \<open>h = head\<close> assms(1) by (auto simp: dereg_client_def)
  next
    case (Some q)
    obtain c where c: "q = key_path key" "node_at h q = Some c" "h = head"
      using f(2) Some by (auto simp: found_def)
    let ?h = "change_at (node_remove fd) h q"
    have "(p, x) \<in> registrations ?h \<longleftrightarrow> (p, x) \<in> registrations h - {(q, fd)}" for p x
      by (subst change_at_clients [OF c(2)]) (auto simp: node_remove_fields registrations_member [OF c(2)])
    then have "registrations ?h = registrations h - {(q, fd)}" by auto
    moreover have "node_ok ?h" by (rule change_at_ok [OF _ node_remove_fields(3)]) (use c assms in auto)
    ultimately show ?thesis using f(1) Some c by (auto simp: dereg_client_def)
  qed
qed

lemma node_find_remove: "node_find (node_remove_from_tree fd n) i = map_option (node_remove_from_tree fd) (node_find n i)"
proof (cases n)
  case (Std_node cs ms)
  have "map_of (map (\<lambda>(i, n). (i, node_remove_from_tree fd n)) ms) i = map_option (node_remove_from_tree fd) (map_of ms i)"
    by (induction ms) auto
  then show ?thesis by (simp add: Std_node node_find_def node_remove_def)
qed

lemma remove_from_tree_registrations: "registrations (node_remove_from_tree fd n) = {(p, x). (p, x) \<in> registrations n \<and> x \<noteq> fd}"
proof -
  have "(p, x) \<in> registrations (node_remove_from_tree fd n) \<longleftrightarrow> (p, x) \<in> registrations n \<and> x \<noteq> fd" for p x
  proof (induction p arbitrary: n)
    case Nil
    then show ?case by (cases n) (auto simp: registrations_Nil node_remove_def)
  next
    case (Cons i p)
    then show ?case by (auto simp: registrations_Cons node_find_remove)
  qed
  then show ?thesis by auto
qed

lemma remove_from_tree_ok: "node_ok n \<Longrightarrow> node_ok (node_remove_from_tree fd n)"
proof (induction n)
  case (Std_node cs ms)
  let ?ms = "map (\<lambda>(i, n). (i, node_remove_from_tree fd n)) ms"
  have "map fst ?ms = map fst ms" by (induction ms) auto
  then have "sorted_wrt (<) (map fst ?ms)" using Std_node.prems by (simp only: node_ok.simps)
  moreover have "node_ok c" if c: "(i, c) \<in> set ?ms" for i c
  proof -
    obtain n where n: "(i, n) \<in> set ms" "c = node_remove_from_tree fd n" using c by auto
    moreover have "node_ok n" using Std_node.prems n(1) by auto
    ultimately show ?thesis using Std_node.IH [OF n(1), of n] by simp
  qed
  ultimately have "node_ok (Std_node cs ?ms)" using Std_node.prems by (intro node_okI) simp_all
  then show ?case by (simp add: node_remove_def sorted_removeAll distinct_removeAll)
qed

section \<open>What is published\<close>

text \<open>The clients on the path of a key, in the order of the walk, each once.\<close>

fun path_clients :: "std_node_t \<Rightarrow> u32 list \<Rightarrow> int list" where
  "path_clients n [] = []"
| "path_clients n (k # ks) =
     (case node_find n k of None \<Rightarrow> [] | Some c \<Rightarrow> node_clients c @ path_clients c ks)"

fun new_ones :: "int set \<Rightarrow> int list \<Rightarrow> int list" where
  "new_ones fds [] = []"
| "new_ones fds (c # cs) = (if c \<in> fds then new_ones fds cs else c # new_ones (insert c fds) cs)"

definition deliver :: "'w event_send \<Rightarrow> (int \<Rightarrow> 'w \<Rightarrow> 'w) \<Rightarrow> int \<Rightarrow> 'w \<Rightarrow> 'w" where
  "deliver event_send client_close fd w = (case event_send fd w of (w, ok) \<Rightarrow> if ok then w else client_close fd w)"

lemma new_ones_append: "new_ones fds (xs @ ys) = new_ones fds xs @ new_ones (fds \<union> set xs) ys"
  by (induction fds xs rule: new_ones.induct) (auto simp: insert_absorb)

lemma set_new_ones: "set (new_ones fds xs) = set xs - fds"
  by (induction fds xs rule: new_ones.induct) auto

lemma distinct_new_ones: "distinct (new_ones fds xs)"
  by (induction fds xs rule: new_ones.induct) (auto simp: set_new_ones)

lemma publish_loop_delivers:
  "publish_loop event_send client_close cs fds w =
     (fds \<union> set cs, fold (deliver event_send client_close) (new_ones fds cs) w)"
  by (induction cs arbitrary: fds w) (auto simp: deliver_def insert_absorb split: prod.split)

lemma tree_publish_loop_delivers:
  assumes "ix + left \<le> length ks"
  shows "tree_publish_loop event_send client_close ks ix left cur fds w =
    Some (fold (deliver event_send client_close) (new_ones fds (path_clients cur (take left (drop ix ks)))) w)"
  using assms
proof (induction left arbitrary: ix cur fds w)
  case 0
  then show ?case by simp
next
  case (Suc left)
  have t: "take (Suc left) (drop ix ks) = ks ! ix # take left (drop (Suc ix) ks)" "ix < length ks"
    using Suc.prems by (simp_all add: Cons_nth_drop_Suc [symmetric])
  show ?case
  proof (cases "node_find cur (ks ! ix)")
    case (Some c)
    have "node_publish event_send client_close c fds w =
        (fds \<union> set (node_clients c), fold (deliver event_send client_close) (new_ones fds (node_clients c)) w)"
      by (simp add: node_publish_def publish_loop_delivers)
    with Some Suc t show ?thesis by (simp add: new_ones_append)
  qed (use t in simp)
qed

lemma path_clients_set: "set (path_clients n ks) = {fd. \<exists>p. p \<noteq> [] \<and> prefix p ks \<and> (p, fd) \<in> registrations n}"
proof (induction ks arbitrary: n)
  case Nil
  then show ?case by auto
next
  case (Cons k ks)
  have "(\<exists>p. p \<noteq> [] \<and> prefix p (k # ks) \<and> (p, fd) \<in> registrations n) \<longleftrightarrow>
      (\<exists>c. node_find n k = Some c \<and> (fd \<in> set (node_clients c) \<or> (\<exists>p. p \<noteq> [] \<and> prefix p ks \<and> (p, fd) \<in> registrations c)))" (is "?l \<longleftrightarrow> ?r") for fd
  proof
    assume ?l
    then obtain q where "prefix q ks" "(k # q, fd) \<in> registrations n" by (auto simp: prefix_Cons)
    then obtain c where "prefix q ks" "node_find n k = Some c" "(q, fd) \<in> registrations c"
      by (auto simp: registrations_Cons)
    then show ?r using registrations_Nil [of fd c] by (cases "q = []") auto
  next
    assume ?r
    then obtain c where c: "node_find n k = Some c" by blast
    from \<open>?r\<close> c consider "fd \<in> set (node_clients c)" | p where "prefix p ks" "(p, fd) \<in> registrations c" by auto
    then show ?l
    proof cases
      case 1
      then show ?thesis using c by (intro exI [of _ "[k]"]) (simp add: registrations_Cons registrations_Nil)
    next
      case 2
      then show ?thesis using c by (intro exI [of _ "k # p"]) (auto simp: registrations_Cons)
    qed
  qed
  then show ?case using Cons.IH by (cases "node_find n k") auto
qed

definition recipients :: "std_node_t \<Rightarrow> u32 list \<Rightarrow> int list" where
  "recipients n p = new_ones {} (path_clients n p)"

lemma tree_publish_delivers:
  assumes "key_ok key"
  shows "tree_publish event_send client_close key head w =
      Some (fold (deliver event_send client_close) (recipients head (key_path key)) w)"
    and "distinct (recipients head (key_path key))"
    and "set (recipients head (key_path key)) = {fd. \<exists>p. p \<noteq> [] \<and> prefix p (key_path key) \<and> (p, fd) \<in> registrations head}"
  using tree_publish_loop_delivers [of 0 "unat (key_len key)" "event_key key"] assms
  by (simp_all add: tree_publish_def recipients_def key_ok_def key_path_def distinct_new_ones set_new_ones path_clients_set)

section \<open>Properties\<close>

text \<open>A registration adds exactly its pair of key and client, once memory is found for it; a
  deregistration removes exactly its pair; a client that goes loses all its registrations and no
  other does. The containers stay in order.
\<close>

theorem event_registrations:
  assumes "node_ok head" "key_ok key"
  shows "(\<exists>head' ok. reg_client mem_ok fd key head = Some (head', ok) \<and> node_ok head' \<and> ((\<forall>i. mem_ok i) \<longrightarrow> ok) \<and>
      registrations head' = (if ok then insert (key_path key, fd) (registrations head) else registrations head)) \<and>
    (\<exists>head'. dereg_client fd key head = Some (head', True) \<and> node_ok head' \<and>
      registrations head' = registrations head - {(key_path key, fd)}) \<and>
    node_ok (tree_remove_from_tree fd head) \<and>
    registrations (tree_remove_from_tree fd head) = {(p, x). (p, x) \<in> registrations head \<and> x \<noteq> fd}"
  using reg_client_ok [OF assms] dereg_client_ok [OF assms] remove_from_tree_ok [OF assms(1)]
  by (simp add: tree_remove_from_tree_def remove_from_tree_registrations)

definition demo_key :: std_event_key_t where
  "demo_key = \<lparr>key_len = 2, event_key = [1, 4]\<rparr>"

definition demo_tree :: std_node_t where
  "demo_tree = Std_node [] [(1, Std_node [7, 9] [(4, Std_node [5, 7] [])])]"

lemma demo_tree_ok: "node_ok demo_tree" "key_ok demo_key"
  by (simp_all add: demo_tree_def demo_key_def key_ok_def)

theorem event_registrations_witness:
  "\<exists>head'. reg_client (\<lambda>_. True) 8 demo_key demo_tree = Some (head', True) \<and>
    registrations head' = insert ([1, 4], 8) (registrations demo_tree)"
proof -
  have p: "key_path demo_key = [1, 4]" by (simp add: key_path_def demo_key_def)
  obtain head' ok where "reg_client (\<lambda>_. True) 8 demo_key demo_tree = Some (head', ok)" "(\<forall>i :: nat. True) \<longrightarrow> ok"
      "registrations head' = (if ok then insert (key_path demo_key, 8) (registrations demo_tree) else registrations demo_tree)"
    using event_registrations [OF demo_tree_ok, of "\<lambda>_. True" 8, THEN conjunct1] by blast
  then show ?thesis unfolding p by simp
qed

text \<open> C20: An event is sent exactly once to every client that is registered for a prefix of its key, the empty
  one left out, and to nobody else; the connection of a client that cannot take it is closed. A
  client registered for the empty key gets nothing.
\<close>

theorem event_published_once:
  assumes "key_ok key"
  shows "\<exists>fds. tree_publish event_send client_close key head w = Some (fold (deliver event_send client_close) fds w) \<and>
    distinct fds \<and> set fds = {fd. \<exists>p. p \<noteq> [] \<and> prefix p (key_path key) \<and> (p, fd) \<in> registrations head}"
  by (intro exI [of _ "recipients head (key_path key)"] conjI tree_publish_delivers [OF assms])

theorem event_published_once_witness:
  "\<exists>fds. tree_publish (\<lambda>fd w. (w @ [fd], True)) (\<lambda>_ w. w) demo_key demo_tree [] =
      Some (fold (deliver (\<lambda>fd w. (w @ [fd], True)) (\<lambda>_ w. w)) fds []) \<and> distinct fds \<and> set fds = {5, 7, 9}"
proof -
  obtain fds where f: "tree_publish (\<lambda>fd w. (w @ [fd], True)) (\<lambda>_ w. w) demo_key demo_tree [] =
      Some (fold (deliver (\<lambda>fd w. (w @ [fd], True)) (\<lambda>_ w. w)) fds [])" "distinct fds"
      "set fds = {fd. \<exists>p. p \<noteq> [] \<and> prefix p (key_path demo_key) \<and> (p, fd) \<in> registrations demo_tree}"
    using event_published_once [OF demo_tree_ok(2), of "\<lambda>fd w. (w @ [fd], True)" "\<lambda>_ w. w" demo_tree "[]"]
    by (elim exE conjE) (rule that)
  have "set fds = set (path_clients demo_tree [1, 4])"
    unfolding f(3) path_clients_set by (simp add: key_path_def demo_key_def)
  then have "set fds = {5, 7, 9}" by (auto simp: demo_tree_def node_find_def)
  with f(1,2) show ?thesis by blast
qed

end
