(* ===== verification/SocketService.thy ===== *)
theory SocketService
  imports FileIo
begin

text \<open>
  The socket service of \<open>src/std_socket_service.cpp\<close>: a server thread that selects on its clients and
  hands those with data to jobs, and the jobs, which call the handlers of the application. A
  \<open>std::set\<close> is a sorted list. The steps of the server thread, of the jobs and of the other threads
  interleave; each section under \<open>m_mutex\<close> is one step, and so is each access of the server thread to
  \<open>m_clients\<close>, for which the code takes no lock: where such an access may meet one of another thread,
  the behaviour is not defined and there is no step. The kernel appears as the set of open
  descriptors: \<open>accept\<close> returns one that is not open.
\<close>

section \<open>State\<close>

datatype job_func = Queue_and_add_socket | Process_socket_data

text \<open>The next call of a job that is being worked on.\<close>

datatype job_at = At_new_client | At_new_conn | At_some_data | At_del_client | At_pend_close | At_returned

text \<open>Where the server thread is: at the head of its loop, before the select, behind it, among the clients, gone.\<close>

datatype server_at = S_top | S_select | S_ready "int set" | S_clients "int set" "int option" | S_exit

text \<open>
  The jobs in the queue of the thread pool and those being worked on stand in \<open>queued\<close> and \<open>in_work\<close>;
  \<open>app\<close> is the state behind \<open>server_init.context\<close>, and \<open>ctl_bytes\<close> counts the bytes in the pipe that
  wakes the server.
\<close>

record 'c std_socket_service_data_t =
  thread_pool_size :: nat
  server_ctl_sock :: int
  sock_socket :: int
  m_clients :: "int list"
  pending :: "int set"
  m_pending_close :: "int list"
  max_fd :: int
  ctl_bytes :: nat
  queued :: "(job_func \<times> int) list"
  in_work :: "(job_at \<times> int) list"
  open_fds :: "int set"
  server :: server_at
  app :: 'c

type_synonym 'c srv = "'c std_socket_service_data_t"

section \<open>Operations of the service\<close>

definition drain_server_wakeup :: "int set \<Rightarrow> 'c srv \<Rightarrow> 'c srv" where
  "drain_server_wakeup rset s =
    (if server_ctl_sock s \<notin> rset then s else s\<lparr>ctl_bytes := ctl_bytes s - 1\<rparr>)"

definition server_wakeup :: "'c srv \<Rightarrow> 'c srv" where
  "server_wakeup s = s\<lparr>ctl_bytes := ctl_bytes s + 1\<rparr>"

definition setup_max_fd :: "'c srv \<Rightarrow> 'c srv" where
  "setup_max_fd s = s\<lparr>max_fd := fold max (m_clients s) (max (sock_socket s) (server_ctl_sock s))\<rparr>"

definition new_conn :: "int \<Rightarrow> 'c srv \<Rightarrow> 'c srv" where
  "new_conn fd s = server_wakeup (s\<lparr>max_fd := max fd (max_fd s)\<rparr>)"

definition busy :: "int \<Rightarrow> 'c srv \<Rightarrow> 'c srv" where
  "busy fd s = s\<lparr>pending := pending s - {fd}\<rparr>"

definition pend_close :: "int \<Rightarrow> 'c srv \<Rightarrow> 'c srv" where
  "pend_close fd s = s\<lparr>m_pending_close := insort_insert fd (m_pending_close s)\<rparr>"

definition close_one :: "int \<Rightarrow> 'c srv \<Rightarrow> 'c srv" where
  "close_one fd s = s\<lparr>open_fds := open_fds s - {fd}, pending := pending s - {fd},
     m_clients := (if fd \<in> set (m_clients s) then removeAll fd (m_clients s) else m_clients s),
     m_pending_close := removeAll fd (m_pending_close s)\<rparr>"

function (sequential) close_loop :: "'c srv \<Rightarrow> 'c srv" where
  "close_loop s = (case m_pending_close s of [] \<Rightarrow> s | fd # _ \<Rightarrow> close_loop (close_one fd s))"
  by pat_completeness auto
termination
  by (relation "measure (\<lambda>s. length (m_pending_close s))") (auto simp: close_one_def less_Suc_eq_le)

definition process_closed :: "'c srv \<Rightarrow> 'c srv" where
  "process_closed s = (if length (m_pending_close s) = 0 then s else setup_max_fd (close_loop s))"

definition returned :: "int \<Rightarrow> 'c srv \<Rightarrow> 'c srv" where
  "returned fd s =
    (if fd \<notin> set (m_clients s) then s else server_wakeup (s\<lparr>pending := insert fd (pending s)\<rparr>))"

section \<open>Jobs\<close>

text \<open>
  A handler takes the descriptor and the state of the application; it returns the new state, the
  descriptors for which it has called \<open>std_socket_service_client_close\<close>, and its result, or None when
  its behaviour is not defined. With one thread the server thread does the job itself. Adding a job to
  the pool may fail.
\<close>

type_synonym 'c handler = "int \<Rightarrow> 'c \<Rightarrow> ('c \<times> int list \<times> bool) option"

record 'c std_socket_server_t =
  some_data :: "'c handler"
  new_client :: "'c handler"
  del_client :: "'c handler"
  timeout :: "('c \<Rightarrow> 'c \<times> int list) option"

text \<open>Handlers that are not given are replaced by stubs.\<close>

definition user_stub_function :: "'c handler" where "user_stub_function = (\<lambda>fd c. Some (c, [], True))"
definition user_stub_function_false :: "'c handler" where "user_stub_function_false = (\<lambda>fd c. Some (c, [], False))"

definition server_init :: "'c handler option \<Rightarrow> 'c handler option \<Rightarrow> 'c handler option \<Rightarrow> ('c \<Rightarrow> 'c \<times> int list) option \<Rightarrow>
    'c std_socket_server_t" where
  "server_init data new del tick =
    \<lparr>some_data = (case data of None \<Rightarrow> user_stub_function_false | Some h \<Rightarrow> h),
     new_client = (case new of None \<Rightarrow> user_stub_function | Some h \<Rightarrow> h),
     del_client = (case del of None \<Rightarrow> user_stub_function | Some h \<Rightarrow> h), timeout = tick\<rparr>"

definition std_socket_service_client_close :: "int \<Rightarrow> 'c srv \<Rightarrow> 'c srv" where
  "std_socket_service_client_close fd s = pend_close fd s"

definition std_socket_service_client_add :: "int \<Rightarrow> 'c srv \<Rightarrow> 'c srv" where
  "std_socket_service_client_add fd s =
    returned fd (new_conn fd (s\<lparr>m_clients := insort_insert fd (m_clients s)\<rparr>))"

fun job_start :: "job_func \<Rightarrow> job_at" where
  "job_start Queue_and_add_socket = At_new_client"
| "job_start Process_socket_data = At_some_data"

definition queue_job :: "bool \<Rightarrow> 'c srv \<Rightarrow> int \<Rightarrow> job_func \<Rightarrow> 'c srv \<times> bool" where
  "queue_job add_ok s fd func =
    (if thread_pool_size s > 1 then
       (if add_ok then (s\<lparr>queued := queued s @ [(func, fd)]\<rparr>, True) else (s, False))
     else (s\<lparr>in_work := in_work s @ [(job_start func, fd)]\<rparr>, True))"

definition call :: "'c handler \<Rightarrow> int \<Rightarrow> 'c srv \<Rightarrow> ('c srv \<times> bool) option" where
  "call h fd s =
    map_option (\<lambda>(c, closes, ok). (fold std_socket_service_client_close closes (s\<lparr>app := c\<rparr>), ok)) (h fd (app s))"

text \<open>\<open>queue_and_add_socket\<close> and \<open>process_socket_data\<close>: one call, and what the job does next.\<close>

definition job_step :: "'c std_socket_server_t \<Rightarrow> job_at \<Rightarrow> int \<Rightarrow> 'c srv \<Rightarrow> ('c srv \<times> job_at option) option" where
  "job_step init pc fd s =
    (case pc of
       At_new_client \<Rightarrow> map_option (\<lambda>(s, ok). (s, Some (if \<not> ok then At_pend_close else At_new_conn))) (call (new_client init) fd s)
     | At_new_conn \<Rightarrow> Some (returned fd (new_conn fd s), None)
     | At_some_data \<Rightarrow> map_option (\<lambda>(s, ok). (s, Some (if \<not> ok then At_del_client else At_returned))) (call (some_data init) fd s)
     | At_del_client \<Rightarrow> map_option (\<lambda>(s, _). (s, Some At_pend_close)) (call (del_client init) fd s)
     | At_pend_close \<Rightarrow> Some (pend_close fd s, None)
     | At_returned \<Rightarrow> Some (returned fd s, None))"

definition work_step :: "'c std_socket_server_t \<Rightarrow> nat \<Rightarrow> 'c srv \<Rightarrow> 'c srv option" where
  "work_step init i s =
    (if i \<ge> length (in_work s) then None
     else
       (case in_work s ! i of (pc, fd) \<Rightarrow>
          (case job_step init pc fd s of
             None \<Rightarrow> None
           | Some (s, None) \<Rightarrow> Some (s\<lparr>in_work := take i (in_work s) @ drop (Suc i) (in_work s)\<rparr>)
           | Some (s, Some pc) \<Rightarrow> Some (s\<lparr>in_work := (in_work s)[i := (pc, fd)]\<rparr>))))"

text \<open>A thread of the pool that is free takes the next job; the server is itself a job of the pool.\<close>

definition take_job :: "'c srv \<Rightarrow> 'c srv option" where
  "take_job s =
    (if length (in_work s) + 1 < thread_pool_size s then
       (case queued s of
          [] \<Rightarrow> None
        | (func, fd) # rest \<Rightarrow> Some (s\<lparr>queued := rest, in_work := in_work s @ [(job_start func, fd)]\<rparr>))
     else None)"

section \<open>The server thread\<close>

text \<open>The start of \<open>socket_service\<close>, and what its select looks at: the descriptors below \<open>max_fd + 1\<close>.\<close>

definition service_start :: "'c srv \<Rightarrow> 'c srv" where
  "service_start s = setup_max_fd (s\<lparr>pending := insert (server_ctl_sock s) (insert (sock_socket s) (pending s)), server := S_top\<rparr>)"

definition watched :: "'c srv \<Rightarrow> int set" where
  "watched s = {fd \<in> pending s. 0 \<le> fd \<and> fd < max_fd s + 1}"

definition loop_head :: "'c srv \<Rightarrow> 'c srv" where
  "loop_head s =
    (let s = process_closed s in
     if max_fd s = STD_INVALID_FD \<or> sock_socket s = STD_INVALID_FD then s\<lparr>server := S_exit\<rparr>
     else s\<lparr>server := S_select\<rparr>)"

text \<open>A select that fails: each descriptor that fails alone is closed, unless it is one of the server.\<close>

fun repair_loop :: "(int \<Rightarrow> bool) \<Rightarrow> int set \<Rightarrow> nat \<Rightarrow> nat \<Rightarrow> 'c srv \<Rightarrow> 'c srv option" where
  "repair_loop bad rset ix 0 s = Some s"
| "repair_loop bad rset ix (Suc left) s =
     (if int ix \<notin> rset then repair_loop bad rset (Suc ix) left s
      else if bad (int ix) then
        (if int ix = sock_socket s \<or> int ix = server_ctl_sock s then None
         else repair_loop bad rset (Suc ix) left (pend_close (int ix) s))
      else repair_loop bad rset (Suc ix) left s)"

definition select_timeout :: "'c std_socket_server_t \<Rightarrow> 'c srv \<Rightarrow> 'c srv" where
  "select_timeout init s =
    (let s = (case timeout init of
                None \<Rightarrow> s
              | Some h \<Rightarrow> (case h (app s) of (c, closes) \<Rightarrow> fold std_socket_service_client_close closes (s\<lparr>app := c\<rparr>)))
     in s\<lparr>server := S_top\<rparr>)"

definition select_failed :: "(int \<Rightarrow> bool) \<Rightarrow> 'c srv \<Rightarrow> 'c srv option" where
  "select_failed bad s = map_option (\<lambda>s. s\<lparr>server := S_top\<rparr>) (repair_loop bad (pending s) 0 (nat (max_fd s + 1)) s)"

text \<open>\<open>process_sockets\<close>: the wake-up byte and the new connection, then one client after the other.\<close>

definition accept_client :: "int \<Rightarrow> bool \<Rightarrow> 'c srv \<Rightarrow> 'c srv" where
  "accept_client sock add_ok s =
    (if sock = STD_INVALID_FD then s
     else
       (let s = s\<lparr>open_fds := insert sock (open_fds s), m_clients := insort_insert sock (m_clients s)\<rparr> in
        case queue_job add_ok s sock Queue_and_add_socket of
          (s, ok) \<Rightarrow> if \<not> ok then pend_close sock s else s))"

definition process_ready :: "int \<Rightarrow> bool \<Rightarrow> int set \<Rightarrow> 'c srv \<Rightarrow> 'c srv" where
  "process_ready sock add_ok rset s =
    (let s = drain_server_wakeup rset s;
         s = (if sock_socket s \<in> rset then accept_client sock add_ok s else s)
     in s\<lparr>server := S_clients rset None\<rparr>)"

definition next_client :: "int option \<Rightarrow> 'c srv \<Rightarrow> int option" where
  "next_client prev s = find (\<lambda>fd. case prev of None \<Rightarrow> True | Some l \<Rightarrow> l < fd) (m_clients s)"

definition process_client :: "bool \<Rightarrow> int set \<Rightarrow> int option \<Rightarrow> 'c srv \<Rightarrow> 'c srv" where
  "process_client add_ok rset prev s =
    (case next_client prev s of
       None \<Rightarrow> s\<lparr>server := S_top\<rparr>
     | Some fd \<Rightarrow>
         (let s = s\<lparr>server := S_clients rset (Some fd)\<rparr> in
          if fd \<in> rset then
            (case queue_job add_ok (busy fd s) fd Process_socket_data of
               (s, ok) \<Rightarrow> if \<not> ok then pend_close fd s else s)
          else s))"

section \<open>Interleaving\<close>

text \<open>
  The steps, with labels that tell which of them may occur: a repaired select, a job that is refused,
  a handler that asks to close descriptors, calls of the interface by other threads. The handlers run
  with no lock of the service held; \<open>Ev_overlap\<close> marks a call of a data handler that may run at the same
  time as the handler that announces or takes away another client.
\<close>

datatype event = Ev_server | Ev_repair | Ev_refused | Ev_take | Ev_job "int list" | Ev_overlap "int list"
  | Ev_add int | Ev_close int | Ev_open int

definition server_runs :: "'c srv \<Rightarrow> bool" where
  "server_runs s \<longleftrightarrow> thread_pool_size s > 1 \<or> in_work s = []"

text \<open>What the timeout or a job is about to ask to be closed.\<close>

definition timeout_closes :: "'c std_socket_server_t \<Rightarrow> 'c srv \<Rightarrow> int list" where
  "timeout_closes init s = (case timeout init of None \<Rightarrow> [] | Some h \<Rightarrow> snd (h (app s)))"


definition closes_of :: "'c handler \<Rightarrow> int \<Rightarrow> 'c \<Rightarrow> int list" where
  "closes_of h fd c = (case h fd c of None \<Rightarrow> [] | Some (_, closes, _) \<Rightarrow> closes)"

definition job_closes :: "'c std_socket_server_t \<Rightarrow> nat \<Rightarrow> 'c srv \<Rightarrow> int list" where
  "job_closes init i s =
    (case in_work s ! i of (pc, fd) \<Rightarrow>
       (case pc of
          At_new_client \<Rightarrow> closes_of (new_client init) fd (app s)
        | At_some_data \<Rightarrow> closes_of (some_data init) fd (app s)
        | At_del_client \<Rightarrow> closes_of (del_client init) fd (app s)
        | _ \<Rightarrow> []))"

definition handlers_conflict :: "job_at \<Rightarrow> job_at \<Rightarrow> bool" where
  "handlers_conflict pc pc' \<longleftrightarrow>
     pc = At_some_data \<and> pc' \<in> {At_new_client, At_del_client} \<or> pc' = At_some_data \<and> pc \<in> {At_new_client, At_del_client}"

definition handlers_overlap :: "nat \<Rightarrow> 'c srv \<Rightarrow> bool" where
  "handlers_overlap i s \<longleftrightarrow>
     list_ex (\<lambda>j. j \<noteq> i \<and> handlers_conflict (fst (in_work s ! i)) (fst (in_work s ! j))) [0..<length (in_work s)]"

text \<open>
  The accesses to \<open>m_clients\<close>: the server thread inserts into it and runs over it with no lock; the jobs look
  it up, and \<open>std_socket_service_client_add\<close> inserts into it, under \<open>m_mutex\<close>. \<open>m_clients_race\<close> is a state in
  which a job and the server thread are both about to access it and the server is to insert.
\<close>

definition inserting :: "'c srv \<Rightarrow> bool" where
  "inserting s \<longleftrightarrow> (case server s of S_ready rset \<Rightarrow> sock_socket s \<in> rset | _ \<Rightarrow> False)"

definition iterating :: "'c srv \<Rightarrow> bool" where
  "iterating s \<longleftrightarrow> (case server s of S_clients rset prev \<Rightarrow> True | _ \<Rightarrow> False)"

definition looks_up :: "job_at \<Rightarrow> bool" where
  "looks_up pc \<longleftrightarrow> pc \<in> {At_new_conn, At_returned}"

definition m_clients_race :: "'c srv \<Rightarrow> bool" where
  "m_clients_race s \<longleftrightarrow> inserting s \<and> list_ex (\<lambda>(pc, fd). looks_up pc) (in_work s)"

inductive service_step :: "'c std_socket_server_t \<Rightarrow> 'c srv \<Rightarrow> event \<Rightarrow> 'c srv \<Rightarrow> bool" for init where
  head: "server_runs s \<Longrightarrow> server s = S_top \<Longrightarrow> service_step init s Ev_server (loop_head s)"
| timeout: "server_runs s \<Longrightarrow> server s = S_select \<Longrightarrow> 
    service_step init s (Ev_job (timeout_closes init s)) (select_timeout init s)"
| failed: "server_runs s \<Longrightarrow> server s = S_select \<Longrightarrow> select_failed bad s = Some s' \<Longrightarrow> service_step init s Ev_repair s'"
| ready: "server_runs s \<Longrightarrow> server s = S_select \<Longrightarrow> rset \<subseteq> watched s \<Longrightarrow> service_step init s Ev_server (s\<lparr>server := S_ready rset\<rparr>)"
| process: "server_runs s \<Longrightarrow> server s = S_ready rset \<Longrightarrow> sock = STD_INVALID_FD \<or> 0 \<le> sock \<and> sock \<notin> open_fds s \<Longrightarrow>
    sock = STD_INVALID_FD \<or> \<not> m_clients_race s \<Longrightarrow>
    service_step init s (if add_ok then Ev_server else Ev_refused) (process_ready sock add_ok rset s)"
| client: "server_runs s \<Longrightarrow> server s = S_clients rset prev \<Longrightarrow>
    service_step init s (if add_ok then Ev_server else Ev_refused) (process_client add_ok rset prev s)"
| take: "take_job s = Some s' \<Longrightarrow> service_step init s Ev_take s'"
| job: "work_step init i s = Some s' \<Longrightarrow> \<not> (inserting s \<and> looks_up (fst (in_work s ! i))) \<Longrightarrow>
    service_step init s ((if handlers_overlap i s then Ev_overlap else Ev_job) (job_closes init i s)) s'"
| add: "fd \<in> open_fds s \<Longrightarrow> fd \<notin> set (m_clients s) \<Longrightarrow> 0 \<le> fd \<Longrightarrow> fd \<noteq> sock_socket s \<Longrightarrow> fd \<noteq> server_ctl_sock s \<Longrightarrow>
    \<not> inserting s \<and> \<not> iterating s \<Longrightarrow> service_step init s (Ev_add fd) (std_socket_service_client_add fd s)"
| close: "service_step init s (Ev_close fd) (std_socket_service_client_close fd s)"
| other: "0 \<le> fd \<Longrightarrow> service_step init s (Ev_open fd) (s\<lparr>open_fds := insert fd (open_fds s)\<rparr>)"

text \<open>
  Creation: the server socket, the control pipe and the pool may fail to be made. When the pipe fails,
  the object is deleted before its socket and its pool are set, which is not defined (None). \<open>max_fd\<close> is
  not set here; it is before its first use, by the start of the server thread.
\<close>

definition std_socket_service_init :: "int option \<Rightarrow> int option \<Rightarrow> bool \<Rightarrow> nat \<Rightarrow> int set \<Rightarrow> 'c \<Rightarrow> (t_std_error + 'c srv) option" where
  "std_socket_service_init sock pipe pool_ok threads fds c =
    (let fail = STD_ERR e_std_err_COM e_std_err_code_FAIL 0 in
     case sock of
       None \<Rightarrow> Some (Inl fail)
     | Some sock \<Rightarrow>
         (case pipe of
            None \<Rightarrow> None
          | Some ctl \<Rightarrow>
              if \<not> pool_ok then Some (Inl fail)
              else Some (Inr \<lparr>thread_pool_size = threads, server_ctl_sock = ctl, sock_socket = sock, m_clients = [], pending = {},
                m_pending_close = [], max_fd = 0, ctl_bytes = 0, queued = [], in_work = [], open_fds = insert sock (insert ctl fds),
                server = S_top, app = c\<rparr>)))"

text \<open>\<open>cleanup\<close>, without the pool, which is deleted between the server socket and the clients.\<close>

definition std_socket_service_destroy :: "'c srv \<Rightarrow> 'c srv" where
  "std_socket_service_destroy s =
    (let s = (if sock_socket s \<noteq> STD_INVALID_FD then s\<lparr>open_fds := open_fds s - {sock_socket s}, sock_socket := STD_INVALID_FD\<rparr> else s)
     in fold (\<lambda>fd s. s\<lparr>open_fds := open_fds s - {fd}\<rparr>) (m_clients s) s)"

inductive service_reachable :: "(event \<Rightarrow> bool) \<Rightarrow> 'c std_socket_server_t \<Rightarrow> 'c \<Rightarrow> 'c srv \<Rightarrow> bool" for P init c where
  start: "0 \<le> sock \<Longrightarrow> 0 \<le> ctl \<Longrightarrow> sock \<noteq> ctl \<Longrightarrow> std_socket_service_init (Some sock) (Some ctl) pool_ok threads fds c = Some (Inr s) \<Longrightarrow>
    service_reachable P init c (service_start s)"
| step: "service_reachable P init c s \<Longrightarrow> service_step init s e s' \<Longrightarrow> P e \<Longrightarrow> service_reachable P init c s'"

section \<open>The invariant\<close>

declare close_loop.simps [simp del]

definition jobs_of :: "'c srv \<Rightarrow> int list" where
  "jobs_of s = map snd (queued s) @ map snd (in_work s)"

text \<open>
  Every client is in one place: watched by the select, in a job, or to be closed; the two descriptors
  of the server are always watched.
\<close>

definition places_ok :: "int set \<Rightarrow> int set \<Rightarrow> int set \<Rightarrow> int list \<Rightarrow> int set \<Rightarrow> bool" where
  "places_ok own clients pend jobs closing \<longleftrightarrow>
     own \<subseteq> pend \<and> own \<inter> clients = {} \<and> distinct jobs \<and> set jobs \<inter> pend = {} \<and> set jobs \<inter> closing = {} \<and>
     clients = (pend - own) \<union> set jobs \<union> closing"

definition server_ok :: "int set \<Rightarrow> int set \<Rightarrow> server_at \<Rightarrow> bool" where
  "server_ok pend closing at \<longleftrightarrow>
     (at \<noteq> S_top \<longrightarrow> pend \<inter> closing = {}) \<and>
     (case at of
        S_ready rset \<Rightarrow> rset \<subseteq> pend
      | S_clients rset prev \<Rightarrow> (\<forall>fd\<in>rset. (\<forall>l. prev = Some l \<longrightarrow> l < fd) \<longrightarrow> fd \<in> pend)
      | _ \<Rightarrow> True)"

definition own_fds :: "'c srv \<Rightarrow> int set" where
  "own_fds s = {sock_socket s, server_ctl_sock s}"

text \<open>A job that may give its descriptor back to the select.\<close>

definition comes_back :: "job_at \<Rightarrow> bool" where
  "comes_back pc \<longleftrightarrow> pc \<in> {At_some_data, At_returned}"

definition bounds_ok :: "'c srv \<Rightarrow> bool" where
  "bounds_ok s \<longleftrightarrow> (\<forall>fd\<in>pending s. fd \<le> max_fd s) \<and> (\<forall>fd. (Process_socket_data, fd) \<in> set (queued s) \<longrightarrow> fd \<le> max_fd s) \<and>
     (\<forall>pc fd. (pc, fd) \<in> set (in_work s) \<and> comes_back pc \<longrightarrow> fd \<le> max_fd s)"

definition fds_ok :: "'c srv \<Rightarrow> bool" where
  "fds_ok s \<longleftrightarrow> own_fds s \<union> set (m_clients s) \<subseteq> open_fds s \<inter> {0..} \<and> sock_socket s \<noteq> server_ctl_sock s"

definition service_ok :: "'c srv \<Rightarrow> bool" where
  "service_ok s \<longleftrightarrow> places_ok (own_fds s) (set (m_clients s)) (pending s) (jobs_of s) (set (m_pending_close s)) \<and>
     server_ok (pending s) (set (m_pending_close s)) (server s) \<and> bounds_ok s \<and> fds_ok s"

fun quiet :: "event \<Rightarrow> bool" where
  "quiet (Ev_job closes) = (closes = [])"
| "quiet (Ev_overlap closes) = (closes = [])"
| "quiet (Ev_close fd) = False"
| "quiet _ = True"

lemmas service_parts = places_ok_def server_ok_def bounds_ok_def fds_ok_def own_fds_def jobs_of_def

text \<open>Moves between the places.\<close>

lemma places_watch_to_job:
  assumes "places_ok own clients pend (js @ ks) closing" "fd \<in> pend" "fd \<notin> own" "fd \<notin> closing"
  shows "places_ok own clients (pend - {fd}) (js @ fd # ks) closing"
    and "places_ok own clients (pend - {fd}) (js @ ks) (insert fd closing)"
  using assms unfolding places_ok_def by auto

lemma places_job_ends:
  assumes "places_ok own clients pend jobs closing" "fd \<in> set jobs" "set jobs' = set jobs - {fd}" "distinct jobs'"
  shows "places_ok own clients (insert fd pend) jobs' closing"
    and "places_ok own clients pend jobs' (insert fd closing)"
  using assms unfolding places_ok_def by auto

lemma places_perm: "places_ok own clients pend jobs closing \<Longrightarrow> set jobs' = set jobs \<Longrightarrow> distinct jobs' \<Longrightarrow> places_ok own clients pend jobs' closing"
  unfolding places_ok_def by auto

lemma places_new:
  assumes "places_ok own clients pend (js @ ks) closing" "fd \<notin> own" "fd \<notin> clients"
  shows "places_ok own (insert fd clients) pend (js @ fd # ks) closing"
    and "places_ok own (insert fd clients) pend (js @ ks) (insert fd closing)"
    and "places_ok own (insert fd clients) (insert fd pend) (js @ ks) closing"
  using assms unfolding places_ok_def by auto

lemma places_closed:
  assumes "places_ok own clients pend jobs closing" "fd \<in> closing"
  shows "places_ok own (clients - {fd}) (pend - {fd}) jobs (closing - {fd})"
  using assms unfolding places_ok_def by auto

lemma in_one_place:
  assumes "service_ok s" "fd \<in> set (m_clients s)"
  shows "fd \<in> pending s \<or> fd \<in> set (jobs_of s) \<or> fd \<in> set (m_pending_close s)"
    and "distinct (jobs_of s)" "fd \<in> set (jobs_of s) \<Longrightarrow> fd \<notin> pending s \<and> fd \<notin> set (m_pending_close s)"
  using assms by (auto simp: service_ok_def places_ok_def)

text \<open>A change of the watched descriptors that adds some keeps what the server thread relies on.\<close>

lemma server_ok_mono: "server_ok pend closing at \<Longrightarrow> pend \<subseteq> pend' \<Longrightarrow> pend' \<inter> closing' \<subseteq> pend \<inter> closing \<Longrightarrow> server_ok pend' closing' at"
  by (cases at) (auto simp: server_ok_def)

lemma set_insort_insert_int [simp]: "set (insort_insert (x :: int) xs) = insert x (set xs)"
  by (rule set_insort_insert)

lemma remove_nth:
  assumes "distinct (map snd xs)" "i < length xs" "xs ! i = (pc, fd)"
  shows "distinct (map snd (take i xs @ drop (Suc i) xs))" "set (map snd (take i xs @ drop (Suc i) xs)) = set (map snd xs) - {fd}"
    "set (take i xs @ drop (Suc i) xs) \<subseteq> set xs"
proof -
  have xs: "xs = take i xs @ (pc, fd) # drop (Suc i) xs" using assms(2,3) by (metis id_take_nth_drop)
  then have "distinct (map snd (take i xs) @ fd # map snd (drop (Suc i) xs))" using assms(1) by (metis list.simps(9) map_append snd_conv)
  moreover have "set (map snd xs) = set (map snd (take i xs)) \<union> insert fd (set (map snd (drop (Suc i) xs)))"
    by (subst xs) simp
  ultimately show "distinct (map snd (take i xs @ drop (Suc i) xs))" "set (map snd (take i xs @ drop (Suc i) xs)) = set (map snd xs) - {fd}"
    by auto
  show "set (take i xs @ drop (Suc i) xs) \<subseteq> set xs" by (auto dest: in_set_takeD in_set_dropD)
qed

lemma update_nth_snd: "i < length xs \<Longrightarrow> xs ! i = (pc, fd) \<Longrightarrow> map snd (xs[i := (pc', fd)]) = map snd xs"
  by (simp add: map_update list_update_same_conv)

section \<open>The steps keep the invariant\<close>

lemma close_loop_eq:
  "close_loop s = s\<lparr>open_fds := open_fds s - set (m_pending_close s), pending := pending s - set (m_pending_close s),
     m_clients := filter (\<lambda>fd. fd \<notin> set (m_pending_close s)) (m_clients s), m_pending_close := []\<rparr>"
proof (induction s rule: close_loop.induct)
  case (1 s)
  show ?case
  proof (cases "m_pending_close s")
    case Nil
    then show ?thesis by (subst close_loop.simps) simp
  next
    case (Cons fd rest)
    have "close_loop s = close_loop (close_one fd s)" using Cons by (subst close_loop.simps) simp
    also have "\<dots> = s\<lparr>open_fds := open_fds s - set (m_pending_close s), pending := pending s - set (m_pending_close s),
        m_clients := filter (\<lambda>fd. fd \<notin> set (m_pending_close s)) (m_clients s), m_pending_close := []\<rparr>"
      unfolding 1 [OF Cons] using Cons
      by (intro std_socket_service_data_t.equality)
        (auto simp: close_one_def removeAll_filter_not_eq intro!: filter_cong)
    finally show ?thesis .
  qed
qed

lemma fold_max_start: "(m :: int) \<le> fold max xs m"
  by (induction xs arbitrary: m) (auto intro: order_trans [OF max.cobounded2])

lemma fold_max_member: "(x :: int) \<in> set xs \<Longrightarrow> x \<le> fold max xs m"
proof (induction xs arbitrary: m)
  case (Cons y xs)
  then show ?case using fold_max_start [of "max y m" xs] by auto
qed simp

lemma places_close_all:
  assumes "places_ok own clients pend jobs closing"
  shows "places_ok own (clients - closing) (pend - closing) jobs {}"
  using assms unfolding places_ok_def by auto

lemma process_closed_ok:
  assumes "service_ok s" "server s = S_top"
  shows "service_ok (process_closed s)" "m_pending_close (process_closed s) = []" "server (process_closed s) = S_top"
proof -
  let ?C = "set (m_pending_close s)"
  let ?s = "setup_max_fd (close_loop s)"
  have clients: "set (m_clients ?s) = set (m_clients s) - ?C" by (auto simp: setup_max_fd_def close_loop_eq)
  have fields: "pending ?s = pending s - ?C" "m_pending_close ?s = []" "queued ?s = queued s" "in_work ?s = in_work s"
      "own_fds ?s = own_fds s" "jobs_of ?s = jobs_of s" "server ?s = server s" "open_fds ?s = open_fds s - ?C"
    by (simp_all add: setup_max_fd_def close_loop_eq own_fds_def jobs_of_def)
  have places: "places_ok (own_fds ?s) (set (m_clients ?s)) (pending ?s) (jobs_of ?s) (set (m_pending_close ?s))"
    unfolding fields clients using places_close_all assms(1) by (simp add: service_ok_def)
  have max: "fd \<le> max_fd ?s" if "fd \<in> own_fds ?s \<union> set (m_clients ?s)" for fd
  proof -
    let ?m = "max (sock_socket s) (server_ctl_sock s)"
    have "max_fd ?s = fold max (m_clients ?s) ?m" by (simp add: setup_max_fd_def close_loop_eq)
    moreover have "fd \<le> ?m" if "fd \<in> own_fds ?s"
    proof -
      have "fd \<in> own_fds s" using that fields(5) by simp
      then have "fd = sock_socket s \<or> fd = server_ctl_sock s" by (simp add: own_fds_def)
      then show ?thesis by (elim disjE) simp_all
    qed
    ultimately show ?thesis using that fold_max_start [of ?m "m_clients ?s"] fold_max_member [of fd "m_clients ?s" ?m] order_trans
      by (metis UnE)
  qed
  have jobs: "fd \<in> set (m_clients ?s)" if "fd \<in> set (jobs_of ?s)" for fd
    using places that by (auto simp: places_ok_def)
  have "fd \<in> own_fds ?s \<union> set (m_clients ?s)" if "fd \<in> pending ?s" for fd
    using places that by (auto simp: places_ok_def)
  then have bounds: "bounds_ok ?s" using max jobs by (force simp: bounds_ok_def jobs_of_def)
  have "?C \<inter> own_fds s = {}" using assms(1) by (auto simp: service_ok_def places_ok_def)
  then have fds: "fds_ok ?s" using assms(1) clients fields by (auto simp: service_ok_def fds_ok_def own_fds_def setup_max_fd_def close_loop_eq)
  have "service_ok ?s" using places bounds fds fields(7) assms(2) by (simp add: service_ok_def server_ok_def)
  then show "service_ok (process_closed s)" "m_pending_close (process_closed s) = []" "server (process_closed s) = S_top"
    using assms fields by (simp_all add: process_closed_def)
qed

lemma service_ok_server:
  assumes "service_ok s" "server_ok (pending s) (set (m_pending_close s)) at"
  shows "service_ok (s\<lparr>server := at\<rparr>)"
  using assms by (simp add: service_ok_def bounds_ok_def fds_ok_def own_fds_def jobs_of_def)

lemma loop_head_ok: "service_ok s \<Longrightarrow> server s = S_top \<Longrightarrow> service_ok (loop_head s)"
  using process_closed_ok [of s] by (auto simp: loop_head_def Let_def server_ok_def intro!: service_ok_server)

lemma service_okI:
  assumes "places_ok (own_fds s) (set (m_clients s)) (pending s) (jobs_of s) (set (m_pending_close s))"
    "server_ok (pending s) (set (m_pending_close s)) (server s)" "bounds_ok s" "fds_ok s"
  shows "service_ok s"
  using assms by (simp add: service_ok_def)

lemma bounds_okI:
  assumes "\<And>fd. fd \<in> pending s \<Longrightarrow> fd \<le> max_fd s" "\<And>fd. (Process_socket_data, fd) \<in> set (queued s) \<Longrightarrow> fd \<le> max_fd s"
    "\<And>pc fd. (pc, fd) \<in> set (in_work s) \<Longrightarrow> comes_back pc \<Longrightarrow> fd \<le> max_fd s"
  shows "bounds_ok s"
  using assms by (auto simp: bounds_ok_def)

lemma bounds_okD:
  assumes "bounds_ok s"
  shows "fd \<in> pending s \<Longrightarrow> fd \<le> max_fd s" "(Process_socket_data, fd) \<in> set (queued s) \<Longrightarrow> fd \<le> max_fd s"
    "(pc, fd) \<in> set (in_work s) \<Longrightarrow> comes_back pc \<Longrightarrow> fd \<le> max_fd s"
  using assms by (auto simp: bounds_ok_def)

lemma service_okD:
  assumes "service_ok s"
  shows "places_ok (own_fds s) (set (m_clients s)) (pending s) (jobs_of s) (set (m_pending_close s))"
    and "server_ok (pending s) (set (m_pending_close s)) (server s)" and "bounds_ok s" and "fds_ok s"
  using assms by (simp_all add: service_ok_def)

lemma pend_close_fields [simp]:
  "set (m_pending_close (pend_close fd s)) = insert fd (set (m_pending_close s))"
  "own_fds (pend_close fd s) = own_fds s" "m_clients (pend_close fd s) = m_clients s" "pending (pend_close fd s) = pending s"
  "jobs_of (pend_close fd s) = jobs_of s" "queued (pend_close fd s) = queued s" "in_work (pend_close fd s) = in_work s"
  "server (pend_close fd s) = server s" "open_fds (pend_close fd s) = open_fds s" "max_fd (pend_close fd s) = max_fd s"
  "bounds_ok (pend_close fd s) = bounds_ok s" "fds_ok (pend_close fd s) = fds_ok s"
  "sock_socket (pend_close fd s) = sock_socket s" "server_ctl_sock (pend_close fd s) = server_ctl_sock s"
  "thread_pool_size (pend_close fd s) = thread_pool_size s" "app (pend_close fd s) = app s"
  by (simp_all add: pend_close_def own_fds_def jobs_of_def bounds_ok_def fds_ok_def)

lemma service_ok_repair_one:
  assumes "service_ok s" "fd \<in> pending s" "fd \<notin> own_fds s" "server s = S_top"
  shows "service_ok (pend_close fd s)"
proof (rule service_okI)
  show "places_ok (own_fds (pend_close fd s)) (set (m_clients (pend_close fd s))) (pending (pend_close fd s)) (jobs_of (pend_close fd s))
      (set (m_pending_close (pend_close fd s)))"
    using service_okD(1) [OF assms(1)] assms(2,3) unfolding pend_close_fields places_ok_def by blast
qed (use service_okD [OF assms(1)] assms(4) in \<open>simp_all add: server_ok_def\<close>)

lemma repair_loop_ok:
  fixes s :: "'c srv"
  shows "repair_loop bad (pending s) ix left s = Some s' \<Longrightarrow> service_ok s \<Longrightarrow> server s = S_top \<Longrightarrow> service_ok s' \<and> server s' = S_top"
proof (induction left arbitrary: ix s)
  case (Suc left)
  show ?case
  proof (cases "int ix \<in> pending s \<and> bad (int ix)")
    case True
    have "pending (pend_close (int ix) s) = pending s" "server (pend_close (int ix) s) = server s" by (simp_all add: pend_close_def)
    moreover have "repair_loop bad (pending s) (Suc ix) left (pend_close (int ix) s) = Some s'" "int ix \<notin> own_fds s"
      using Suc.prems(1) True by (auto simp: own_fds_def split: if_splits)
    ultimately show ?thesis
      using Suc.IH [of "pend_close (int ix) s" "Suc ix"] Suc.prems True service_ok_repair_one [of s "int ix"] by simp
  next
    case False
    then show ?thesis using Suc by (auto split: if_splits)
  qed
qed simp

lemma repair_loop_server:
  "repair_loop bad rset ix left (s\<lparr>server := at\<rparr>) = map_option (\<lambda>s. s\<lparr>server := at\<rparr>) (repair_loop bad rset ix left s)"
proof (induction left arbitrary: ix s)
  case (Suc left)
  have "pend_close fd (s\<lparr>server := at\<rparr>) = (pend_close fd s)\<lparr>server := at\<rparr>" for fd by (simp add: pend_close_def)
  then show ?case using Suc by simp
qed simp

lemma select_failed_ok: "select_failed bad s = Some s' \<Longrightarrow> service_ok s \<Longrightarrow> service_ok s'"
proof -
  assume f: "select_failed bad s = Some s'" "service_ok s"
  have "service_ok (s\<lparr>server := S_top\<rparr>)" by (rule service_ok_server [OF f(2)]) (simp add: server_ok_def)
  moreover have "repair_loop bad (pending (s\<lparr>server := S_top\<rparr>)) 0 (nat (max_fd s + 1)) (s\<lparr>server := S_top\<rparr>) = Some s'"
    using f(1) by (simp add: repair_loop_server select_failed_def)
  ultimately show "service_ok s'" using repair_loop_ok by fastforce
qed

text \<open>A state that differs in what the invariant does not look at.\<close>

lemma service_ok_frame:
  assumes "service_ok s" "sock_socket s' = sock_socket s" "server_ctl_sock s' = server_ctl_sock s" "m_clients s' = m_clients s"
    "pending s' = pending s" "m_pending_close s' = m_pending_close s" "max_fd s' = max_fd s" "queued s' = queued s"
    "in_work s' = in_work s" "open_fds s \<subseteq> open_fds s'" "server s' = server s"
  shows "service_ok s'"
  using assms by (auto simp: service_ok_def own_fds_def jobs_of_def bounds_ok_def fds_ok_def)

lemma jobs_are_clients: "service_ok s \<Longrightarrow> fd \<in> set (jobs_of s) \<Longrightarrow> fd \<in> set (m_clients s) \<and> fd \<notin> own_fds s \<and> fd \<notin> pending s \<and> fd \<notin> set (m_pending_close s)"
  by (auto simp: service_ok_def places_ok_def)

lemma pending_open: "service_ok s \<Longrightarrow> fd \<in> pending s \<union> set (m_clients s) \<union> own_fds s \<Longrightarrow> fd \<in> open_fds s \<and> 0 \<le> fd"
  by (auto simp: service_ok_def places_ok_def fds_ok_def)

text \<open>A descriptor that enters a job: \<open>queue_job\<close> and what its caller does when it fails.\<close>

definition queue_or_close :: "bool \<Rightarrow> 'c srv \<Rightarrow> int \<Rightarrow> job_func \<Rightarrow> 'c srv" where
  "queue_or_close add_ok s fd func = (case queue_job add_ok s fd func of (s, ok) \<Rightarrow> if \<not> ok then pend_close fd s else s)"

lemma queue_or_close_cases:
  obtains (queued) "queue_or_close add_ok s fd func = s\<lparr>queued := queued s @ [(func, fd)]\<rparr>"
  | (now) "queue_or_close add_ok s fd func = s\<lparr>in_work := in_work s @ [(job_start func, fd)]\<rparr>" "thread_pool_size s \<le> 1"
  | (refused) "queue_or_close add_ok s fd func = pend_close fd s" "\<not> add_ok"
  by (cases "thread_pool_size s > 1"; cases add_ok) (simp_all add: queue_or_close_def queue_job_def)

lemma queue_or_close_ok:
  assumes "places_ok (own_fds s) (set (m_clients s) - {fd}) (pending s) (jobs_of s) (set (m_pending_close s))"
    and "fd \<in> set (m_clients s)" "fd \<notin> own_fds s" "server_ok (pending s) (set (m_pending_close s)) (server s)"
    and "bounds_ok s" "fds_ok s" "func = Process_socket_data \<Longrightarrow> fd \<le> max_fd s"
  shows "service_ok (queue_or_close add_ok s fd func)"
proof -
  have fd: "fd \<notin> pending s" "fd \<notin> set (jobs_of s)" "fd \<notin> set (m_pending_close s)" using assms(1,3) unfolding places_ok_def by blast+
  have ins: "insert fd (set (m_clients s) - {fd}) = set (m_clients s)" using assms(2) by blast
  note new = places_new [where fd = fd and clients = "set (m_clients s) - {fd}", unfolded ins]
  have start: "comes_back (job_start func) \<Longrightarrow> func = Process_socket_data" by (cases func) (simp_all add: comes_back_def)
  show ?thesis
  proof (cases rule: queue_or_close_cases [of add_ok s fd func])
    case queued
    have "places_ok (own_fds s) (set (m_clients s)) (pending s) (map snd (queued s) @ fd # map snd (in_work s)) (set (m_pending_close s))"
      by (rule new(1) [OF _ assms(3)]) (use assms(1) in \<open>simp_all add: jobs_of_def\<close>)
    then show ?thesis unfolding queued using assms(4-7)
      by (intro service_okI) (auto simp: own_fds_def jobs_of_def bounds_ok_def fds_ok_def)
  next
    case now
    have "places_ok (own_fds s) (set (m_clients s)) (pending s) (jobs_of s @ fd # []) (set (m_pending_close s))"
      by (rule new(1) [OF _ assms(3)]) (use assms(1) in simp_all)
    then show ?thesis unfolding now using assms(4-7) start
      by (intro service_okI) (auto simp: own_fds_def jobs_of_def bounds_ok_def fds_ok_def)
  next
    case refused
    have "places_ok (own_fds s) (set (m_clients s)) (pending s) (jobs_of s @ []) (insert fd (set (m_pending_close s)))"
      by (rule new(2) [OF _ assms(3)]) (use assms(1) in simp_all)
    moreover have "server_ok (pending s) (insert fd (set (m_pending_close s))) (server s)"
      by (rule server_ok_mono [OF assms(4)]) (use fd in auto)
    ultimately show ?thesis unfolding refused using assms(5,6) by (intro service_okI) simp_all
  qed
qed

lemma drain_ok: "service_ok s \<Longrightarrow> service_ok (drain_server_wakeup rset s)"
  by (erule service_ok_frame) (simp_all add: drain_server_wakeup_def)

lemma accept_client_ok:
  assumes "service_ok s" "sock = STD_INVALID_FD \<or> 0 \<le> sock \<and> sock \<notin> open_fds s"
  shows "service_ok (accept_client sock add_ok s)"
proof (cases "sock = STD_INVALID_FD")
  case False
  let ?s = "s\<lparr>open_fds := insert sock (open_fds s), m_clients := insort_insert sock (m_clients s)\<rparr>"
  have sock: "0 \<le> sock" "sock \<notin> open_fds s" using False assms(2) by auto
  then have new: "sock \<notin> pending s \<union> set (m_clients s) \<union> own_fds s" using pending_open [OF assms(1)] by blast
  have "service_ok (queue_or_close add_ok ?s sock Queue_and_add_socket)"
  proof (rule queue_or_close_ok)
    have "set (m_clients ?s) - {sock} = set (m_clients s)" using new by auto
    then show "places_ok (own_fds ?s) (set (m_clients ?s) - {sock}) (pending ?s) (jobs_of ?s) (set (m_pending_close ?s))"
      using service_okD(1) [OF assms(1)] by (simp add: own_fds_def jobs_of_def)
    show "fds_ok ?s" using service_okD(4) [OF assms(1)] sock by (auto simp: fds_ok_def own_fds_def)
  qed (use service_okD [OF assms(1)] new in \<open>auto simp: own_fds_def bounds_ok_def\<close>)
  then show ?thesis using False by (simp add: accept_client_def queue_or_close_def)
qed (use assms in \<open>simp add: accept_client_def\<close>)

lemma accept_client_server: "server (accept_client sock add_ok s) = server s"
  by (simp add: accept_client_def queue_job_def Let_def)

lemma process_ready_ok:
  assumes "service_ok s" "server s = S_ready rset" "sock = STD_INVALID_FD \<or> 0 \<le> sock \<and> sock \<notin> open_fds s"
  shows "service_ok (process_ready sock add_ok rset s)"
proof -
  define s1 where "s1 = drain_server_wakeup rset s"
  define s2 where "s2 = (if sock_socket s1 \<in> rset then accept_client sock add_ok s1 else s1)"
  have s1: "service_ok s1" "server s1 = S_ready rset" "open_fds s1 = open_fds s"
    using drain_ok [OF assms(1)] assms(2) by (simp_all add: s1_def drain_server_wakeup_def)
  then have s2: "service_ok s2" "server s2 = S_ready rset"
    using accept_client_ok [OF s1(1), of sock add_ok] assms(3) by (simp_all add: s2_def accept_client_server)
  have "service_ok (s2\<lparr>server := S_clients rset None\<rparr>)"
    by (rule service_ok_server [OF s2(1)]) (use service_okD(2) [OF s2(1)] s2(2) in \<open>auto simp: server_ok_def\<close>)
  then show ?thesis by (simp only: process_ready_def s1_def s2_def Let_def)
qed

lemma next_client_Some:
  "next_client prev s = Some fd \<Longrightarrow> fd \<in> set (m_clients s) \<and> (\<forall>l. prev = Some l \<longrightarrow> l < fd)"
  by (auto simp: next_client_def dest!: find_Some_in)

lemma process_client_ok:
  assumes "service_ok s" "server s = S_clients rset prev"
  shows "service_ok (process_client add_ok rset prev s)"
proof (cases "next_client prev s")
  case None
  then show ?thesis by (simp add: process_client_def server_ok_def service_ok_server [OF assms(1)])
next
  case (Some fd)
  note fd = next_client_Some [OF Some]
  have at: "pending s \<inter> set (m_pending_close s) = {}" "\<And>x. x \<in> rset \<Longrightarrow> (\<forall>l. prev = Some l \<longrightarrow> l < x) \<Longrightarrow> x \<in> pending s"
    using service_okD(2) [OF assms(1)] assms(2) by (simp_all add: server_ok_def)
  have later: "x \<in> rset \<Longrightarrow> fd < x \<Longrightarrow> x \<in> pending s" for x using at(2) [of x] fd by fastforce
  let ?s = "s\<lparr>server := S_clients rset (Some fd)\<rparr>"
  have "server_ok (pending s) (set (m_pending_close s)) (S_clients rset (Some fd))" using at(1) later by (simp add: server_ok_def)
  from service_ok_server [OF assms(1) this] have s: "service_ok ?s" .
  show ?thesis
  proof (cases "fd \<in> rset")
    case False
    then show ?thesis using s Some by (simp add: process_client_def Let_def)
  next
    case True
    have pend: "fd \<in> pending s" "fd \<notin> set (m_pending_close s)" using at fd True by blast+
    have own: "fd \<notin> own_fds s" using fd service_okD(1) [OF assms(1)] by (auto simp: places_ok_def)
    have "service_ok (queue_or_close add_ok (busy fd ?s) fd Process_socket_data)"
    proof (rule queue_or_close_ok)
      show "places_ok (own_fds (busy fd ?s)) (set (m_clients (busy fd ?s)) - {fd}) (pending (busy fd ?s)) (jobs_of (busy fd ?s))
          (set (m_pending_close (busy fd ?s)))"
        using service_okD(1) [OF assms(1)] pend own by (auto simp: places_ok_def busy_def own_fds_def jobs_of_def)
      show "server_ok (pending (busy fd ?s)) (set (m_pending_close (busy fd ?s))) (server (busy fd ?s))"
        using at(1) later by (auto simp: server_ok_def busy_def)
    qed (use service_okD(3,4) [OF assms(1)] fd own pend in \<open>auto simp: busy_def own_fds_def bounds_ok_def fds_ok_def\<close>)
    then show ?thesis using True Some by (simp add: process_client_def queue_or_close_def Let_def)
  qed
qed

lemma take_job_ok:
  assumes "service_ok s" "take_job s = Some s'"
  shows "service_ok s'"
proof -
  obtain func fd rest where q: "queued s = (func, fd) # rest" "s' = s\<lparr>queued := rest, in_work := in_work s @ [(job_start func, fd)]\<rparr>"
    using assms(2) by (auto simp: take_job_def split: if_splits list.splits)
  have "places_ok (own_fds s) (set (m_clients s)) (pending s) (jobs_of s') (set (m_pending_close s))"
    by (rule places_perm [OF service_okD(1) [OF assms(1)]])
      (use service_okD(1) [OF assms(1)] q in \<open>auto simp: places_ok_def jobs_of_def\<close>)
  moreover have "comes_back (job_start func) \<Longrightarrow> func = Process_socket_data" by (cases func) (simp_all add: comes_back_def)
  then have "bounds_ok s'" using service_okD(3) [OF assms(1)] q by (auto simp: bounds_ok_def)
  ultimately show ?thesis using service_okD [OF assms(1)] q(2)
    by (intro service_okI) (auto simp: own_fds_def fds_ok_def)
qed

text \<open>The fields a call of a handler can touch when it asks for no close.\<close>

lemma call_quiet: "h fd (app s) = Some (c, [], ok) \<Longrightarrow> call h fd s = Some (s\<lparr>app := c\<rparr>, ok)"
  by (simp add: call_def)

lemma job_moves_ok:
  assumes "service_ok s" "i < length (in_work s)" "in_work s ! i = (pc, fd)" "comes_back pc' \<Longrightarrow> comes_back pc"
  shows "service_ok (s\<lparr>app := c, in_work := (in_work s)[i := (pc', fd)]\<rparr>)"
proof (rule service_okI)
  let ?s = "s\<lparr>app := c, in_work := (in_work s)[i := (pc', fd)]\<rparr>"
  have j: "jobs_of ?s = jobs_of s" using assms(2,3) by (simp add: jobs_of_def update_nth_snd)
  show "places_ok (own_fds ?s) (set (m_clients ?s)) (pending ?s) (jobs_of ?s) (set (m_pending_close ?s))"
    unfolding j using service_okD(1) [OF assms(1)] by (simp add: own_fds_def)
  have b: "bounds_ok s" by (rule service_okD(3) [OF assms(1)])
  have mem: "(pc, fd) \<in> set (in_work s)" using assms(2,3) by (metis nth_mem)
  have "x \<le> max_fd s" if "(q, x) \<in> set ((in_work s)[i := (pc', fd)])" "comes_back q" for q x
    using set_update_subset_insert [of "in_work s" i "(pc', fd)"] that b mem assms(4) unfolding bounds_ok_def by blast
  then show "bounds_ok ?s" using b by (auto simp: bounds_ok_def)
qed (use service_okD(2,4) [OF assms(1)] in \<open>simp_all add: fds_ok_def own_fds_def\<close>)

text \<open>A job ends: its descriptor is watched again, or it is to be closed.\<close>

lemma job_removed:
  assumes "service_ok s" "i < length (in_work s)" "in_work s ! i = (pc, fd)" "ws = take i (in_work s) @ drop (Suc i) (in_work s)"
  shows "set (map snd (queued s) @ map snd ws) = set (jobs_of s) - {fd}" "distinct (map snd (queued s) @ map snd ws)"
    "set ws \<subseteq> set (in_work s)" "fd \<in> set (jobs_of s)"
proof -
  have d: "distinct (map snd (queued s) @ map snd (in_work s))"
    using service_okD(1) [OF assms(1)] by (simp add: places_ok_def jobs_of_def)
  then have w: "distinct (map snd (in_work s))" by simp
  note r = remove_nth [OF w assms(2,3), folded assms(4)]
  have mem: "fd \<in> set (map snd (in_work s))" using assms(2,3) by (metis nth_mem set_map image_eqI snd_conv)
  then show "fd \<in> set (jobs_of s)" by (simp add: jobs_of_def)
  show "set ws \<subseteq> set (in_work s)" by (rule r(3))
  show "set (map snd (queued s) @ map snd ws) = set (jobs_of s) - {fd}" using d r(2) mem by (auto simp: jobs_of_def)
  show "distinct (map snd (queued s) @ map snd ws)" using d r(1,2) by auto
qed

lemma job_ends_ok:
  assumes "service_ok s" "i < length (in_work s)" "in_work s ! i = (pc, fd)" "ws = take i (in_work s) @ drop (Suc i) (in_work s)"
  shows "fd \<le> m \<Longrightarrow> max_fd s \<le> m \<Longrightarrow> service_ok (s\<lparr>max_fd := m, ctl_bytes := n, pending := insert fd (pending s), in_work := ws\<rparr>)"
    and "service_ok ((pend_close fd s)\<lparr>in_work := ws\<rparr>)"
proof -
  note r = job_removed [OF assms]
  have fd: "fd \<in> set (m_clients s)" "fd \<notin> pending s" "fd \<notin> set (m_pending_close s)" using jobs_are_clients [OF assms(1) r(4)] by simp_all
  have b: "bounds_ok s" by (rule service_okD(3) [OF assms(1)])
  show "service_ok (s\<lparr>max_fd := m, ctl_bytes := n, pending := insert fd (pending s), in_work := ws\<rparr>)" (is "service_ok ?s")
    if m: "fd \<le> m" "max_fd s \<le> m"
  proof (rule service_okI)
    show "places_ok (own_fds ?s) (set (m_clients ?s)) (pending ?s) (jobs_of ?s) (set (m_pending_close ?s))"
      using places_job_ends(1) [OF service_okD(1) [OF assms(1)] r(4,1,2)] by (simp add: own_fds_def jobs_of_def)
    show "server_ok (pending ?s) (set (m_pending_close ?s)) (server ?s)"
      using server_ok_mono [OF service_okD(2) [OF assms(1)], of "insert fd (pending s)"] fd by auto
    have le: "x \<le> m" if "x \<le> max_fd s" for x using that m(2) by simp
    show "bounds_ok ?s"
    proof (rule bounds_okI)
      show "x \<le> max_fd ?s" if "x \<in> pending ?s" for x using that m(1) le bounds_okD(1) [OF b, of x] by auto
      show "x \<le> max_fd ?s" if "(Process_socket_data, x) \<in> set (queued ?s)" for x using that le bounds_okD(2) [OF b, of x] by simp
      show "x \<le> max_fd ?s" if "(q, x) \<in> set (in_work ?s)" "comes_back q" for q x
        using le bounds_okD(3) [OF b, of q x] that r(3) by auto
    qed
  qed (use service_okD(4) [OF assms(1)] in \<open>simp add: fds_ok_def own_fds_def\<close>)
  show "service_ok ((pend_close fd s)\<lparr>in_work := ws\<rparr>)" (is "service_ok ?s")
  proof (rule service_okI)
    show "places_ok (own_fds ?s) (set (m_clients ?s)) (pending ?s) (jobs_of ?s) (set (m_pending_close ?s))"
      using places_job_ends(2) [OF service_okD(1) [OF assms(1)] r(4,1,2)] by (simp add: own_fds_def jobs_of_def pend_close_def)
    show "server_ok (pending ?s) (set (m_pending_close ?s)) (server ?s)"
      using server_ok_mono [OF service_okD(2) [OF assms(1)], of "pending s" "insert fd (set (m_pending_close s))"] fd by auto
    show "bounds_ok ?s" using b r(3) unfolding bounds_ok_def by auto
  qed (use service_okD(4) [OF assms(1)] in \<open>simp add: fds_ok_def own_fds_def pend_close_def\<close>)
qed

text \<open>The watched descriptors of \<open>returned\<close> and \<open>new_conn\<close>, and the end of the job.\<close>

lemma returned_eq:
  "fd \<in> set (m_clients s) \<Longrightarrow> returned fd s = s\<lparr>ctl_bytes := ctl_bytes s + 1, pending := insert fd (pending s)\<rparr>"
  by (simp add: returned_def server_wakeup_def)

lemma new_conn_eq: "new_conn fd s = s\<lparr>max_fd := max fd (max_fd s), ctl_bytes := ctl_bytes s + 1\<rparr>"
  by (simp add: new_conn_def server_wakeup_def)

lemma work_step_defined:
  "work_step init i s = Some s' \<Longrightarrow> i < length (in_work s) \<Longrightarrow> in_work s ! i = (pc, fd) \<Longrightarrow> job_step init pc fd s \<noteq> None"
  by (cases "job_step init pc fd s") (auto simp: work_step_def)

lemma work_step_handler:
  assumes "i < length (in_work s)" "work_step init i s = Some s'"
  shows "in_work s ! i = (At_new_client, fd) \<Longrightarrow> new_client init fd (app s) = Some (c, [], ok) \<Longrightarrow>
      s' = s\<lparr>app := c, in_work := (in_work s)[i := (if ok then At_new_conn else At_pend_close, fd)]\<rparr>"
    and "in_work s ! i = (At_some_data, fd) \<Longrightarrow> some_data init fd (app s) = Some (c, [], ok) \<Longrightarrow>
      s' = s\<lparr>app := c, in_work := (in_work s)[i := (if ok then At_returned else At_del_client, fd)]\<rparr>"
    and "in_work s ! i = (At_del_client, fd) \<Longrightarrow> del_client init fd (app s) = Some (c, [], ok) \<Longrightarrow>
      s' = s\<lparr>app := c, in_work := (in_work s)[i := (At_pend_close, fd)]\<rparr>"
  using assms by (auto simp: work_step_def job_step_def call_quiet)

lemma work_step_ok:
  fixes s :: "'a srv"
  assumes "service_ok s" "work_step init i s = Some s'" "job_closes init i s = []"
  shows "service_ok s'"
proof -
  have i: "i < length (in_work s)" using assms(2) by (simp add: work_step_def split: if_splits)
  obtain pc fd where pc: "in_work s ! i = (pc, fd)" by fastforce
  have mem: "(pc, fd) \<in> set (in_work s)" using i pc by (metis nth_mem)
  let ?ws = "take i (in_work s) @ drop (Suc i) (in_work s)"
  have client: "fd \<in> set (m_clients s)"
    using jobs_are_clients [OF assms(1), of fd] mem by (force simp: jobs_of_def)
  note ends = job_ends_ok [OF assms(1) i pc refl] and moves = job_moves_ok [OF assms(1) i pc]
  note handler = work_step_handler [OF i assms(2), of fd]
  have result: "\<exists>c ok. h fd (app s) = Some (c, [], ok)" if "closes_of h fd (app s) = []" "call h fd s \<noteq> None" for h :: "'a handler"
    using that by (auto simp: call_def closes_of_def)
  have defined: "job_step init pc fd s \<noteq> None" by (rule work_step_defined [OF assms(2) i pc])
  have handled: "\<exists>c pc'. s' = s\<lparr>app := c, in_work := (in_work s)[i := (pc', fd)]\<rparr> \<and> (comes_back pc' \<longrightarrow> comes_back pc)"
    if at: "pc \<in> {At_new_client, At_some_data, At_del_client}"
  proof -
    from at consider "pc = At_new_client" | "pc = At_some_data" | "pc = At_del_client" by blast
    then show ?thesis
    proof cases
      case 1
      then obtain c ok where "new_client init fd (app s) = Some (c, [], ok)"
        using result [of "new_client init"] assms(3) pc defined by (auto simp: job_closes_def job_step_def)
      from handler(1) [OF _ this] show ?thesis using pc 1
        by (intro exI [of _ c] exI [of _ "if ok then At_new_conn else At_pend_close"]) (simp add: comes_back_def)
    next
      case 2
      then obtain c ok where "some_data init fd (app s) = Some (c, [], ok)"
        using result [of "some_data init"] assms(3) pc defined by (auto simp: job_closes_def job_step_def)
      from handler(2) [OF _ this] show ?thesis using pc 2
        by (intro exI [of _ c] exI [of _ "if ok then At_returned else At_del_client"]) (simp add: comes_back_def)
    next
      case 3
      then obtain c ok where "del_client init fd (app s) = Some (c, [], ok)"
        using result [of "del_client init"] assms(3) pc defined by (auto simp: job_closes_def job_step_def)
      from handler(3) [OF _ this] show ?thesis using pc 3
        by (intro exI [of _ c] exI [of _ At_pend_close]) (simp add: comes_back_def)
    qed
  qed
  have "pc \<in> {At_new_client, At_some_data, At_del_client} \<or> pc = At_new_conn \<or> pc = At_pend_close \<or> pc = At_returned"
    by (cases pc) simp_all
  then show ?thesis
  proof (elim disjE)
    assume "pc \<in> {At_new_client, At_some_data, At_del_client}"
    then show ?thesis using handled moves by blast
  next
    assume "pc = At_new_conn"
    then have "s' = s\<lparr>max_fd := max fd (max_fd s), ctl_bytes := ctl_bytes s + 2, pending := insert fd (pending s), in_work := ?ws\<rparr>"
      using assms(2) i pc client by (simp add: work_step_def job_step_def returned_eq new_conn_eq)
    then show ?thesis using ends(1) [of "max fd (max_fd s)" "ctl_bytes s + 2"] by simp
  next
    assume "pc = At_pend_close"
    then have "s' = (pend_close fd s)\<lparr>in_work := ?ws\<rparr>" using assms(2) i pc by (simp add: work_step_def job_step_def)
    then show ?thesis using ends(2) by simp
  next
    assume at: "pc = At_returned"
    then have "fd \<le> max_fd s" using bounds_okD(3) [OF service_okD(3) [OF assms(1)] mem] by (simp add: comes_back_def)
    moreover have "s' = s\<lparr>max_fd := max_fd s, ctl_bytes := ctl_bytes s + 1, pending := insert fd (pending s), in_work := ?ws\<rparr>"
      using assms(2) i pc client at by (simp add: work_step_def job_step_def returned_eq)
    ultimately show ?thesis using ends(1) [of "max_fd s" "ctl_bytes s + 1"] by simp
  qed
qed

lemma client_add_ok:
  assumes "service_ok s" "fd \<in> open_fds s" "fd \<notin> set (m_clients s)" "0 \<le> fd" "fd \<notin> own_fds s"
  shows "service_ok (std_socket_service_client_add fd s)"
proof -
  have eq: "std_socket_service_client_add fd s =
      s\<lparr>m_clients := insort_insert fd (m_clients s), max_fd := max fd (max_fd s), ctl_bytes := ctl_bytes s + 2, pending := insert fd (pending s)\<rparr>"
    by (simp add: std_socket_service_client_add_def returned_eq new_conn_eq)
  have out: "fd \<notin> set (m_pending_close s)" using service_okD(1) [OF assms(1)] assms(3) by (auto simp: places_ok_def)
  have places: "places_ok (own_fds s) (insert fd (set (m_clients s))) (insert fd (pending s)) (jobs_of s @ []) (set (m_pending_close s))"
    by (rule places_new(3)) (use service_okD(1) [OF assms(1)] assms in simp_all)
  have b: "bounds_ok s" by (rule service_okD(3) [OF assms(1)])
  have le: "x \<le> max fd (max_fd s)" if "x \<le> max_fd s" for x using that by simp
  show ?thesis unfolding eq
  proof (rule service_okI, goal_cases)
    case 1
    then show ?case using places by (simp add: own_fds_def jobs_of_def)
  next
    case 2
    then show ?case using server_ok_mono [OF service_okD(2) [OF assms(1)], of "insert fd (pending s)"] out by auto
  next
    case 3
    then show ?case
    proof (rule bounds_okI, goal_cases)
      case (1 x)
      then show ?case using le bounds_okD(1) [OF b, of x] by auto
    next
      case (2 x)
      then show ?case using le bounds_okD(2) [OF b, of x] by simp
    next
      case (3 q x)
      then show ?case using le bounds_okD(3) [OF b, of q x] by simp
    qed
  next
    case 4
    then show ?case using service_okD(4) [OF assms(1)] assms by (auto simp: fds_ok_def own_fds_def)
  qed
qed

lemma select_timeout_quiet:
  assumes "timeout_closes init s = []"
  shows "select_timeout init s = s\<lparr>app := (case timeout init of None \<Rightarrow> app s | Some h \<Rightarrow> fst (h (app s))), server := S_top\<rparr>"
proof (cases "timeout init")
  case None
  then show ?thesis by (simp add: select_timeout_def)
next
  case (Some h)
  moreover obtain c closes where "h (app s) = (c, closes)" by fastforce
  ultimately show ?thesis using assms by (simp add: select_timeout_def timeout_closes_def)
qed

lemma service_step_ok:
  assumes "service_step init s e s'" "quiet e" "service_ok s"
  shows "service_ok s'"
  using assms
proof (induction rule: service_step.induct)
  case (head s)
  then show ?case by (simp add: loop_head_ok)
next
  case (timeout s)
  have ok: "service_ok (s\<lparr>app := c\<rparr>)" for c by (rule service_ok_frame [OF timeout(4)]) simp_all
  from service_ok_server [OF ok, where at = S_top] timeout(3) show ?case by (simp add: select_timeout_quiet server_ok_def)
next
  case (failed s bad s')
  then show ?case using select_failed_ok by blast
next
  case (ready s rset)
  have "pending s \<inter> set (m_pending_close s) = {}" using service_okD(2) [OF \<open>service_ok s\<close>] ready by (simp add: server_ok_def)
  then show ?case using ready by (intro service_ok_server) (auto simp: server_ok_def watched_def)
next
  case (process s rset sock add_ok)
  then show ?case by (simp add: process_ready_ok)
next
  case (client s rset prev add_ok)
  then show ?case by (simp add: process_client_ok)
next
  case (take s s')
  then show ?case using take_job_ok by blast
next
  case (job i s s')
  then have "job_closes init i s = []" by (simp split: if_splits)
  then show ?case using job work_step_ok by blast
next
  case (add fd s)
  then show ?case by (simp add: client_add_ok own_fds_def)
next
  case (close fd s)
  then show ?case by simp
next
  case (other fd s)
  then show ?case by (intro service_ok_frame [OF \<open>service_ok s\<close>]) auto
qed

lemma service_start_ok:
  assumes "0 \<le> sock" "0 \<le> ctl" "sock \<noteq> ctl" "std_socket_service_init (Some sock) (Some ctl) pool_ok threads fds c = Some (Inr s)"
  shows "service_ok (service_start s)"
  using assms by (intro service_okI)
    (auto simp: service_start_def std_socket_service_init_def setup_max_fd_def service_parts split: if_splits)

lemma reachable_service_ok:
  "service_reachable P init c s \<Longrightarrow> (\<And>e. P e \<Longrightarrow> quiet e) \<Longrightarrow> service_ok s"
  by (induction rule: service_reachable.induct) (auto intro: service_start_ok service_step_ok)

section \<open>Runs\<close>

text \<open>A run: handlers that always agree, a pool of three threads, the descriptors 3 and 4 of the server and one client, 5.\<close>

definition agree :: "unit std_socket_server_t" where
  "agree = \<lparr>some_data = \<lambda>_ c. Some (c, [], True), new_client = \<lambda>_ c. Some (c, [], True), del_client = \<lambda>_ c. Some (c, [], True), timeout = None\<rparr>"

definition run_state :: "'c \<Rightarrow> int list \<Rightarrow> int set \<Rightarrow> int list \<Rightarrow> int \<Rightarrow> nat \<Rightarrow> (job_func \<times> int) list \<Rightarrow> (job_at \<times> int) list \<Rightarrow> int set \<Rightarrow> server_at \<Rightarrow> 'c srv" where
  "run_state c clients pend closing m n q w fds at = \<lparr>thread_pool_size = 3, server_ctl_sock = 4, sock_socket = 3, m_clients = clients, pending = pend,
     m_pending_close = closing, max_fd = m, ctl_bytes = n, queued = q, in_work = w, open_fds = fds, server = at, app = c\<rparr>"

lemmas run_defs = run_state_def agree_def server_runs_def STD_INVALID_FD_def

lemma run_one_job: "length (in_work s) = 1 \<Longrightarrow> \<not> handlers_overlap 0 s"
  by (simp add: handlers_overlap_def)

lemma run_start: "service_reachable P init c (run_state c [] {3, 4} [] 4 0 [] [] {3, 4} S_top)"
proof -
  obtain s where s: "std_socket_service_init (Some 3) (Some 4) True 3 {} c = Some (Inr s)" by (simp add: std_socket_service_init_def)
  then have "service_start s = run_state c [] {3, 4} [] 4 0 [] [] {3, 4} S_top"
    by (auto simp: service_start_def std_socket_service_init_def setup_max_fd_def run_defs)
  then show ?thesis using service_reachable.start [OF _ _ _ s, of P init] by simp
qed

lemma run_head:
  "service_reachable P init c (run_state a cl pend pc m n q w fds S_top) \<Longrightarrow> P Ev_server \<Longrightarrow> m \<noteq> -1 \<Longrightarrow> pc = [] \<Longrightarrow>
    service_reachable P init c (run_state a cl pend [] m n q w fds S_select)"
  using service_reachable.step [OF _ service_step.head, of P init c "run_state a cl pend [] m n q w fds S_top"]
  by (simp add: loop_head_def process_closed_def run_defs)

lemma run_ready:
  "service_reachable P init c (run_state a cl pend pc m n q w fds S_select) \<Longrightarrow> P Ev_server \<Longrightarrow> fd \<in> pend \<Longrightarrow> 0 \<le> fd \<Longrightarrow> fd \<le> m \<Longrightarrow>
    service_reachable P init c (run_state a cl pend pc m n q w fds (S_ready {fd}))"
  using service_reachable.step [OF _ service_step.ready, of P init c "run_state a cl pend pc m n q w fds S_select" "{fd}"]
  by (simp add: watched_def run_defs)

lemma run_accept:
  "service_reachable P init c (run_state a cl pend pc m n [] w fds (S_ready {3})) \<Longrightarrow> P Ev_server \<Longrightarrow> 0 \<le> fd \<Longrightarrow> fd \<notin> fds \<Longrightarrow>
    list_ex (\<lambda>(pc, fd). looks_up pc) w = False \<Longrightarrow>
    service_reachable P init c (run_state a (insort_insert fd cl) pend pc m n [(Queue_and_add_socket, fd)] w (insert fd fds) (S_clients {3} None))"
  using service_reachable.step [OF _ service_step.process, of P init c "run_state a cl pend pc m n [] w fds (S_ready {3})" "{3}" fd True]
  by (simp add: process_ready_def accept_client_def drain_server_wakeup_def queue_job_def Let_def run_defs m_clients_race_def)

lemma run_take:
  "service_reachable P init c (run_state a cl pend pc m n [(f, fd)] w fds at) \<Longrightarrow> P Ev_take \<Longrightarrow> length w < 2 \<Longrightarrow>
    service_reachable P init c (run_state a cl pend pc m n [] (w @ [(job_start f, fd)]) fds at)"
  using service_reachable.step [OF _ service_step.take, of P init c "run_state a cl pend pc m n [(f, fd)] w fds at"]
  by (simp add: take_job_def run_defs)

lemma run_connected:
  assumes P: "P Ev_server" "P Ev_take" "P (Ev_job [])" and h: "new_client init 5 c = Some (a, [], True)"
  shows "service_reachable P init c (run_state a [5] {3, 4, 5} [] 5 2 [] [] {3, 4, 5} (S_clients {3} None))"
proof -
  have "service_reachable P init c (run_state c (insort_insert 5 []) {3, 4} [] 4 0 [(Queue_and_add_socket, 5)] [] (insert 5 {3, 4}) (S_clients {3} None))"
    by (rule run_accept [OF run_ready [OF run_head [OF run_start]]]) (use P in simp_all)
  then have s: "service_reachable P init c (run_state c [5] {3, 4} [] 4 0 [] [(At_new_client, 5)] {3, 4, 5} (S_clients {3} None))"
    using run_take [of P init c c "[5]" "{3, 4}" "[]" 4 0 Queue_and_add_socket 5 "[]"] P by (simp add: insert_commute insort_insert_key_def)
  have t: "service_reachable P init c (run_state a [5] {3, 4} [] 4 0 [] [(At_new_conn, 5)] {3, 4, 5} (S_clients {3} None))"
    by (rule service_reachable.step [OF s service_step.job [where i = 0]])
      (use P h in \<open>simp_all add: work_step_def job_step_def call_def job_closes_def closes_of_def run_one_job inserting_def run_defs\<close>)
  show ?thesis
    by (rule service_reachable.step [OF t service_step.job [where i = 0]])
      (use P in \<open>auto simp: work_step_def job_step_def job_closes_def returned_eq new_conn_eq run_one_job inserting_def run_defs\<close>)
qed

lemma run_client_skip:
  "service_reachable P init c (run_state a [5] pend pc m n q w fds (S_clients rset None)) \<Longrightarrow> P Ev_server \<Longrightarrow> 5 \<notin> rset \<Longrightarrow>
    service_reachable P init c (run_state a [5] pend pc m n q w fds (S_clients rset (Some 5)))"
  using service_reachable.step [OF _ service_step.client, of P init c "run_state a [5] pend pc m n q w fds (S_clients rset None)" rset None True]
  by (simp add: process_client_def next_client_def Let_def run_defs)

lemma run_client_last:
  "service_reachable P init c (run_state a [5] pend pc m n q w fds (S_clients rset (Some 5))) \<Longrightarrow> P Ev_server \<Longrightarrow>
    service_reachable P init c (run_state a [5] pend pc m n q w fds S_top)"
  using service_reachable.step [OF _ service_step.client, of P init c "run_state a [5] pend pc m n q w fds (S_clients rset (Some 5))" rset "Some 5" True]
  by (simp add: process_client_def next_client_def run_defs)

lemma run_client_data:
  "service_reachable P init c (run_state a [5] pend pc m n [] w fds (S_ready {5})) \<Longrightarrow> P Ev_server \<Longrightarrow>
    service_reachable P init c (run_state a [5] (pend - {5}) pc m n [(Process_socket_data, 5)] w fds (S_clients {5} (Some 5)))"
proof -
  assume s: "service_reachable P init c (run_state a [5] pend pc m n [] w fds (S_ready {5}))" "P Ev_server"
  have "service_reachable P init c (run_state a [5] pend pc m n [] w fds (S_clients {5} None))"
    using service_reachable.step [OF s(1) service_step.process, of "{5}" "-1" True] s(2)
    by (simp add: process_ready_def accept_client_def drain_server_wakeup_def Let_def run_defs)
  from service_reachable.step [OF this service_step.client, of "{5}" None True] s(2) show ?thesis
    by (simp add: process_client_def next_client_def busy_def queue_job_def Let_def run_defs)
qed

lemma run_data_job:
  assumes P: "P Ev_server" "P Ev_take" "P (Ev_job [])" and h: "new_client init 5 c = Some (a, [], True)"
  shows "service_reachable P init c (run_state a [5] {3, 4} [] 5 2 [] [(At_some_data, 5)] {3, 4, 5} S_top)"
proof -
  let ?R = "\<lambda>s. service_reachable P init c s"
  have "?R (run_state a [5] {3, 4, 5} [] 5 2 [] [] {3, 4, 5} S_top)"
    by (rule run_client_last [OF run_client_skip [OF run_connected [OF P h]]]) (use P in simp_all)
  then have "?R (run_state a [5] {3, 4, 5} [] 5 2 [] [] {3, 4, 5} (S_ready {5}))"
    by (rule run_ready [OF run_head]) (use P in simp_all)
  then have "?R (run_state a [5] ({3, 4, 5} - {5}) [] 5 2 [(Process_socket_data, 5)] [] {3, 4, 5} (S_clients {5} (Some 5)))"
    by (rule run_client_data) (rule P(1))
  then have "?R (run_state a [5] {3, 4} [] 5 2 [(Process_socket_data, 5)] [] {3, 4, 5} S_top)"
    using run_client_last [of P init c a "{3, 4, 5} - {5}" "[]" 5 2 "[(Process_socket_data, 5)]" "[]" "{3, 4, 5}" "{5}"] P(1)
    by (simp add: insert_Diff_if)
  then show ?thesis
    using run_take [of P init c a "[5]" "{3, 4}" "[]" 5 2 Process_socket_data 5 "[]"] P(2) by simp
qed

text \<open>The server thread is about to insert a new client while the job is about to look its client up.\<close>

lemma run_race:
  assumes P: "P Ev_server" "P Ev_take" "P (Ev_job [])"
  shows "\<exists>s. service_reachable P agree () s \<and> m_clients_race s"
proof -
  have "service_reachable P agree () (run_state () [5] {3, 4} [] 5 2 [] [(At_some_data, 5)] {3, 4, 5} S_top)"
    by (rule run_data_job [OF P]) (simp add: agree_def)
  from service_reachable.step [OF this service_step.job [where i = 0]]
  have "service_reachable P agree () (run_state () [5] {3, 4} [] 5 2 [] [(At_returned, 5)] {3, 4, 5} S_top)"
    using P by (simp add: work_step_def job_step_def call_def job_closes_def closes_of_def run_one_job inserting_def run_defs)
  then have "service_reachable P agree () (run_state () [5] {3, 4} [] 5 2 [] [(At_returned, 5)] {3, 4, 5} (S_ready {3}))"
    by (rule run_ready [OF run_head]) (use P in simp_all)
  moreover have "m_clients_race (run_state () [5] {3, 4} [] 5 2 [] [(At_returned, 5)] {3, 4, 5} (S_ready {3}))"
    by (simp add: m_clients_race_def inserting_def looks_up_def run_defs)
  ultimately show ?thesis by blast
qed

section \<open>Properties\<close>

text \<open> C14: As long as no descriptor is closed through \<open>std_socket_service_client_close\<close> and no access to the set of
  the clients meets another, every client is in exactly one place, whatever the order of the threads and
  whichever selects and queues fail: watched, in one job, or to be closed. No two jobs work on one
  descriptor, no client is forgotten, the select looks at every descriptor that is to be watched, and all
  of them are open. At the head of the loop alone a descriptor may be watched and to be closed, after a
  select that failed for it; the head closes it before the next select. The code does not keep the accesses
  apart: a run leads to a state where the server thread, which takes no lock, inserts into the set while a
  job looks it up.
\<close>

theorem service_one_place:
  assumes "service_reachable quiet init c s"
  shows "distinct (jobs_of s) \<and> set (jobs_of s) \<inter> (pending s \<union> set (m_pending_close s)) = {} \<and>
    set (m_clients s) = (pending s - own_fds s) \<union> set (jobs_of s) \<union> set (m_pending_close s) \<and>
    (if server s = S_top then m_pending_close (loop_head s) = [] else pending s \<inter> set (m_pending_close s) = {}) \<and>
    pending s \<subseteq> watched s \<inter> open_fds s \<and>
    (\<exists>s. service_reachable quiet agree () s \<and> m_clients_race s)"
proof -
  have ok: "service_ok s" by (rule reachable_service_ok [OF assms])
  have "watched s = pending s"
    using pending_open [OF ok] bounds_okD(1) [OF service_okD(3) [OF ok]] by (force simp: watched_def)
  moreover have "\<exists>s. service_reachable quiet agree () s \<and> m_clients_race s" by (rule run_race) simp_all
  moreover have "if server s = S_top then m_pending_close (loop_head s) = [] else pending s \<inter> set (m_pending_close s) = {}"
    using process_closed_ok(2) [OF ok] service_okD(2) [OF ok] by (simp add: loop_head_def Let_def server_ok_def)
  ultimately show ?thesis using service_okD(1) [OF ok] pending_open [OF ok] by (auto simp: places_ok_def)
qed

theorem service_one_place_witness:
  "set (m_clients (run_state () [5] {3, 4, 5} [] 5 2 [] [] {3, 4, 5} (S_clients {3} None))) = {5} \<and>
    5 \<in> watched (run_state () [5] {3, 4, 5} [] 5 2 [] [] {3, 4, 5} (S_clients {3} None))"
  using service_one_place [OF run_connected [of quiet agree "()" "()"]]
  by (simp add: run_defs)

text \<open> C15: A close that another thread asks for while a job works on the descriptor breaks this: the server closes
  the descriptor under the job, the next connection gets the same number, and two jobs work on it, the
  one of the old connection and the one that announces the new one.
\<close>

theorem service_close_reuses:
  "\<exists>s. service_reachable (\<lambda>_. True) agree () s \<and> in_work s = [(At_some_data, 5), (At_new_client, 5)]"
proof -
  let ?R = "\<lambda>s. service_reachable (\<lambda>_. True) agree () s"
  have a: "?R (run_state () [5] {3, 4} [] 5 2 [] [(At_some_data, 5)] {3, 4, 5} S_top)"
    by (rule run_data_job) (simp_all add: agree_def)
  have b: "?R (run_state () [5] {3, 4} [5] 5 2 [] [(At_some_data, 5)] {3, 4, 5} S_top)"
    using service_reachable.step [OF a service_step.close, of 5]
    by (simp add: std_socket_service_client_close_def pend_close_def run_defs insort_insert_key_def)
  have "?R (run_state () [] {3, 4} [] 4 2 [] [(At_some_data, 5)] {3, 4} S_select)"
    using service_reachable.step [OF b service_step.head]
    by (simp add: loop_head_def process_closed_def setup_max_fd_def close_loop_eq run_defs insert_Diff_if)
  then have "?R (run_state () [] {3, 4} [] 4 2 [] [(At_some_data, 5)] {3, 4} (S_ready {3}))"
    by (rule run_ready) simp_all
  then have "?R (run_state () (insort_insert 5 []) {3, 4} [] 4 2 [(Queue_and_add_socket, 5)] [(At_some_data, 5)] (insert 5 {3, 4}) (S_clients {3} None))"
    by (rule run_accept) (simp_all add: looks_up_def)
  then have "?R (run_state () (insort_insert 5 []) {3, 4} [] 4 2 [] ([(At_some_data, 5)] @ [(job_start Queue_and_add_socket, 5)]) (insert 5 {3, 4}) (S_clients {3} None))"
    by (rule run_take) simp_all
  moreover have "in_work (run_state () (insort_insert 5 []) {3, 4} [] 4 2 [] ([(At_some_data, 5)] @ [(job_start Queue_and_add_socket, 5)]) (insert 5 {3, 4}) (S_clients {3} None)) =
      [(At_some_data, 5), (At_new_client, 5)]" by (simp add: run_defs)
  ultimately show ?thesis by blast
qed

end
