(* ===== verification/SocketHandlers.thy ===== *)
theory SocketHandlers
  imports SocketService
begin

text \<open>
  What the socket service promises to the handlers of an application, and what it asks of them. The
  contract of the handlers is the locale \<open>connection_handlers\<close>: the application keeps a set of connected
  descriptors, \<open>new_client\<close> adds to it, \<open>del_client\<close> takes away, \<open>some_data\<close> leaves it alone. Under
  it, in a run without failing selects, refused jobs, calls from outside and a data handler that meets the
  handler that announces or takes away another client (the service does not keep them apart), the service
  calls the handlers as a protocol says.
\<close>

section \<open>Connected descriptors\<close>

text \<open>The regular course of events.\<close>

fun regular :: "event \<Rightarrow> bool" where
  "regular (Ev_job closes) = (closes = [])"
| "regular Ev_server = True"
| "regular Ev_take = True"
| "regular (Ev_open fd) = True"
| "regular _ = False"

lemma regular_quiet: "regular e \<Longrightarrow> quiet e"
  by (cases e) simp_all

text \<open>A job whose client has been announced and not yet been taken away.\<close>

definition live :: "job_at \<Rightarrow> bool" where
  "live pc \<longleftrightarrow> pc \<in> {At_new_conn, At_some_data, At_del_client, At_returned}"

definition live_queued :: "(job_func \<times> int) list \<Rightarrow> int set" where
  "live_queued q = {fd. (Process_socket_data, fd) \<in> set q}"

definition live_work :: "(job_at \<times> int) list \<Rightarrow> int set" where
  "live_work w = {fd. \<exists>pc. (pc, fd) \<in> set w \<and> live pc}"

definition connected :: "'c srv \<Rightarrow> int set" where
  "connected s = (pending s - own_fds s) \<union> live_queued (queued s) \<union> live_work (in_work s)"

text \<open>The application agrees with the service, and nothing that is watched is about to be closed.\<close>

definition agrees :: "('c \<Rightarrow> int set) \<Rightarrow> ('c \<Rightarrow> bool) \<Rightarrow> 'c srv \<Rightarrow> bool" where
  "agrees conn app_ok s \<longleftrightarrow> app_ok (app s) \<and> conn (app s) = connected s \<and> pending s \<inter> set (m_pending_close s) = {}"

lemma live_queued_append [simp]: "live_queued (q @ q') = live_queued q \<union> live_queued q'"
  by (auto simp: live_queued_def)

lemma live_work_append [simp]: "live_work (w @ w') = live_work w \<union> live_work w'"
  by (auto simp: live_work_def)

lemma live_single [simp]:
  "live_queued [] = {}" "live_work [] = {}"
  "live_queued ((f, fd) # q) = (if f = Process_socket_data then insert fd (live_queued q) else live_queued q)"
  "live_work ((pc, fd) # w) = (if live pc then insert fd (live_work w) else live_work w)"
  by (auto simp: live_queued_def live_work_def)

lemma live_start [simp]: "live (job_start f) \<longleftrightarrow> f = Process_socket_data"
  by (cases f) (simp_all add: live_def)

text \<open>What a list of jobs says when one of them moves on or ends.\<close>

lemma work_split:
  assumes "i < length w" "w ! i = (pc, fd)" "distinct (map snd w)"
  obtains a b where "w = a @ (pc, fd) # b" "fd \<notin> live_work a \<union> live_work b"
    "\<And>x. w[i := x] = a @ x # b" "take i w @ drop (Suc i) w = a @ b"
proof
  show w: "w = take i w @ (pc, fd) # drop (Suc i) w" using assms(1,2) by (metis id_take_nth_drop)
  have "distinct (map snd (take i w) @ fd # map snd (drop (Suc i) w))" using assms(3) w by (metis list.simps(9) map_append snd_conv)
  then have "fd \<notin> snd ` set (take i w)" "fd \<notin> snd ` set (drop (Suc i) w)" by auto
  then show "fd \<notin> live_work (take i w) \<union> live_work (drop (Suc i) w)" by (force simp: live_work_def)
  show "w[i := x] = take i w @ x # drop (Suc i) w" for x using assms(1) by (simp add: upd_conv_take_nth_drop)
qed simp

lemma live_work_update:
  assumes "i < length w" "w ! i = (pc, fd)" "distinct (map snd w)"
  shows "live_work (w[i := (pc', fd)]) = (live_work w - {fd}) \<union> (if live pc' then {fd} else {})"
    and "live_work (take i w @ drop (Suc i) w) = live_work w - {fd}"
    and "fd \<in> live_work w \<longleftrightarrow> live pc"
proof -
  obtain a b where w: "w = a @ (pc, fd) # b" "fd \<notin> live_work a \<union> live_work b" "\<And>x. w[i := x] = a @ x # b"
      "take i w @ drop (Suc i) w = a @ b"
    by (rule work_split [OF assms]) (rule that)
  show "live_work (w[i := (pc', fd)]) = (live_work w - {fd}) \<union> (if live pc' then {fd} else {})" using w(2) by (subst w(3), subst w(1)) auto
  show "live_work (take i w @ drop (Suc i) w) = live_work w - {fd}" using w(2) by (subst w(4), subst w(1)) auto
  show "fd \<in> live_work w \<longleftrightarrow> live pc" using w(2) by (subst w(1)) auto
qed

section \<open>Steps of the service that call no handler\<close>

lemma connected_frame:
  "own_fds s' = own_fds s \<Longrightarrow> pending s' = pending s \<Longrightarrow> queued s' = queued s \<Longrightarrow> in_work s' = in_work s \<Longrightarrow> connected s' = connected s"
  by (simp add: connected_def)

lemma agrees_frame:
  assumes "agrees conn app_ok s" "app s' = app s" "own_fds s' = own_fds s" "pending s' = pending s" "queued s' = queued s"
    "in_work s' = in_work s" "m_pending_close s' = m_pending_close s"
  shows "agrees conn app_ok s'"
  using assms by (simp add: agrees_def connected_def)

lemma agrees_head:
  assumes "agrees conn app_ok s"
  shows "agrees conn app_ok (loop_head s)"
proof -
  let ?t = "process_closed s"
  have p: "pending s - set (m_pending_close s) = pending s" using assms by (auto simp: agrees_def)
  have t: "pending ?t = pending s" "own_fds ?t = own_fds s" "queued ?t = queued s" "in_work ?t = in_work s" "app ?t = app s"
      "m_pending_close ?t = []"
    by (simp_all add: process_closed_def setup_max_fd_def close_loop_eq p own_fds_def)
  have "agrees conn app_ok ?t" using assms t connected_frame [of ?t s] by (simp add: agrees_def)
  then show ?thesis by (rule agrees_frame) (simp_all add: loop_head_def Let_def own_fds_def)
qed

lemma queue_True_fields:
  "app (queue_or_close True s fd func) = app s" "pending (queue_or_close True s fd func) = pending s"
  "m_pending_close (queue_or_close True s fd func) = m_pending_close s"
  "connected (queue_or_close True s fd func) = connected s \<union> (if func = Process_socket_data then {fd} else {})"
  by (cases rule: queue_or_close_cases [of True s fd func]; simp add: connected_def own_fds_def; auto)+

lemma agrees_client:
  assumes "agrees conn app_ok s" "service_ok s" "server s = S_clients rset prev"
  shows "agrees conn app_ok (process_client True rset prev s)"
proof (cases "next_client prev s")
  case None
  then show ?thesis by (intro agrees_frame [OF assms(1)]) (simp_all add: process_client_def own_fds_def)
next
  case (Some fd)
  note fd = next_client_Some [OF Some]
  let ?s = "busy fd (s\<lparr>server := S_clients rset (Some fd)\<rparr>)"
  show ?thesis
  proof (cases "fd \<in> rset")
    case True
    have "fd \<in> pending s" using service_okD(2) [OF assms(2)] assms(3) fd True by (simp add: server_ok_def)
    moreover have "fd \<notin> own_fds s" using service_okD(1) [OF assms(2)] fd by (auto simp: places_ok_def)
    ultimately have "connected s = connected ?s \<union> {fd}" by (auto simp: connected_def busy_def own_fds_def)
    moreover have "process_client True rset prev s = queue_or_close True ?s fd Process_socket_data"
      using Some True by (simp add: process_client_def queue_or_close_def Let_def)
    ultimately show ?thesis using assms(1) by (auto simp: agrees_def queue_True_fields) (auto simp: busy_def)
  next
    case False
    then show ?thesis using Some by (intro agrees_frame [OF assms(1)]) (simp_all add: process_client_def own_fds_def Let_def)
  qed
qed

lemma agrees_ready:
  assumes "agrees conn app_ok s"
  shows "agrees conn app_ok (process_ready sock True rset s)"
proof -
  let ?d = "drain_server_wakeup rset s"
  have d: "agrees conn app_ok ?d" by (rule agrees_frame [OF assms]) (simp_all add: drain_server_wakeup_def own_fds_def)
  have "agrees conn app_ok (accept_client sock True ?d)"
  proof (cases "sock = STD_INVALID_FD")
    case False
    let ?t = "?d\<lparr>open_fds := insert sock (open_fds ?d), m_clients := insort_insert sock (m_clients ?d)\<rparr>"
    have "accept_client sock True ?d = queue_or_close True ?t sock Queue_and_add_socket"
      using False by (simp add: accept_client_def queue_or_close_def Let_def)
    moreover have "agrees conn app_ok ?t" by (rule agrees_frame [OF d]) (simp_all add: own_fds_def)
    ultimately show ?thesis by (simp add: agrees_def queue_True_fields)
  qed (use d in \<open>simp add: accept_client_def\<close>)
  then have "agrees conn app_ok (if sock_socket ?d \<in> rset then accept_client sock True ?d else ?d)" (is "agrees conn app_ok ?u")
    using d by simp
  then have "agrees conn app_ok (?u\<lparr>server := S_clients rset None\<rparr>)" by (rule agrees_frame) (simp_all add: own_fds_def)
  then show ?thesis by (simp only: process_ready_def Let_def)
qed

lemma agrees_take:
  assumes "agrees conn app_ok s" "take_job s = Some s'"
  shows "agrees conn app_ok s'"
proof -
  obtain func fd rest where q: "queued s = (func, fd) # rest" "s' = s\<lparr>queued := rest, in_work := in_work s @ [(job_start func, fd)]\<rparr>"
    using assms(2) by (auto simp: take_job_def split: if_splits list.splits)
  have "connected s' = connected s" using q by (auto simp: connected_def own_fds_def)
  then show ?thesis using assms(1) q(2) by (simp add: agrees_def)
qed

text \<open>The set of connected descriptors when a job moves on or ends.\<close>

lemma connected_job:
  assumes "service_ok s" "i < length (in_work s)" "in_work s ! i = (pc, fd)"
  shows "connected (s\<lparr>app := c, in_work := (in_work s)[i := (pc', fd)]\<rparr>) = (connected s - {fd}) \<union> (if live pc' then {fd} else {})"
    and "fd \<in> connected s \<longleftrightarrow> live pc"
    and "connected (s\<lparr>max_fd := m, ctl_bytes := n, pending := insert fd (pending s), in_work := take i (in_work s) @ drop (Suc i) (in_work s)\<rparr>) =
      insert fd (connected s)"
    and "connected ((pend_close fd s)\<lparr>in_work := take i (in_work s) @ drop (Suc i) (in_work s)\<rparr>) = connected s - {fd}"
proof -
  have d: "distinct (map snd (queued s) @ map snd (in_work s))"
    using service_okD(1) [OF assms(1)] by (simp add: places_ok_def jobs_of_def)
  have mem: "fd \<in> set (map snd (in_work s))" using assms(2,3) by (metis nth_mem set_map image_eqI snd_conv)
  then have q: "fd \<notin> live_queued (queued s)" using d by (force simp: live_queued_def)
  have p: "fd \<notin> pending s" "fd \<notin> own_fds s"
    using jobs_are_clients [OF assms(1), of fd] mem by (auto simp: jobs_of_def)
  have dw: "distinct (map snd (in_work s))" using d by simp
  note w = live_work_update [OF assms(2,3) dw]
  show "connected (s\<lparr>app := c, in_work := (in_work s)[i := (pc', fd)]\<rparr>) = (connected s - {fd}) \<union> (if live pc' then {fd} else {})"
    using q p by (auto simp: connected_def own_fds_def w(1))
  show "fd \<in> connected s \<longleftrightarrow> live pc" using q p w(3) by (auto simp: connected_def)
  show "connected (s\<lparr>max_fd := m, ctl_bytes := n, pending := insert fd (pending s), in_work := take i (in_work s) @ drop (Suc i) (in_work s)\<rparr>) =
      insert fd (connected s)"
    using p by (auto simp: connected_def own_fds_def w(2) simp del: live_work_append)
  show "connected ((pend_close fd s)\<lparr>in_work := take i (in_work s) @ drop (Suc i) (in_work s)\<rparr>) = connected s - {fd}"
    using q p by (auto simp: connected_def own_fds_def w(2) pend_close_def simp del: live_work_append)
qed

section \<open>The contract of the handlers\<close>

locale connection_handlers =
  fixes init :: "'c std_socket_server_t" and conn :: "'c \<Rightarrow> int set" and app_ok :: "'c \<Rightarrow> bool"
  assumes new_law: "app_ok c \<Longrightarrow> fd \<notin> conn c \<Longrightarrow> new_client init fd c = Some (c', closes, ok) \<Longrightarrow>
      app_ok c' \<and> conn c' = (if ok then insert fd (conn c) else conn c)"
    and data_law: "app_ok c \<Longrightarrow> fd \<in> conn c \<Longrightarrow> some_data init fd c = Some (c', closes, ok) \<Longrightarrow> app_ok c' \<and> conn c' = conn c"
    and del_law: "app_ok c \<Longrightarrow> fd \<in> conn c \<Longrightarrow> del_client init fd c = Some (c', closes, ok) \<Longrightarrow> app_ok c' \<and> conn c' = conn c - {fd}"
    and timeout_law: "app_ok c \<Longrightarrow> timeout init = Some h \<Longrightarrow> h c = (c', closes) \<Longrightarrow> app_ok c' \<and> conn c' = conn c"
begin

lemma agrees_handler:
  assumes "agrees conn app_ok s" "service_ok s" "i < length (in_work s)" "in_work s ! i = (pc, fd)"
    and "app_ok c" "conn c = (connected s - {fd}) \<union> (if live pc' then {fd} else {})"
  shows "agrees conn app_ok (s\<lparr>app := c, in_work := (in_work s)[i := (pc', fd)]\<rparr>)"
  using assms(1,5,6) connected_job(1) [OF assms(2-4), where c = c and pc' = pc'] by (simp add: agrees_def)

lemma agrees_work:
  assumes "agrees conn app_ok s" "service_ok s" "work_step init i s = Some s'" "job_closes init i s = []"
  shows "agrees conn app_ok s'"
proof -
  have i: "i < length (in_work s)" using assms(3) by (simp add: work_step_def split: if_splits)
  obtain pc fd where pc: "in_work s ! i = (pc, fd)" by fastforce
  have mem: "fd \<in> set (jobs_of s)" using i pc by (force simp: jobs_of_def dest: nth_mem)
  note fd = jobs_are_clients [OF assms(2) mem] and job = connected_job [OF assms(2) i pc]
  have app: "app_ok (app s)" "conn (app s) = connected s" "pending s \<inter> set (m_pending_close s) = {}"
    using assms(1) by (simp_all add: agrees_def)
  note handler = work_step_handler [OF i assms(3), of fd] and moved = agrees_handler [OF assms(1,2) i pc]
  have defined: "job_step init pc fd s \<noteq> None" by (rule work_step_defined [OF assms(3) i pc])
  show ?thesis
  proof (cases pc)
    case At_new_client
    obtain c closes ok where c: "new_client init fd (app s) = Some (c, closes, ok)"
      using defined At_new_client by (cases "new_client init fd (app s)") (auto simp: job_step_def call_def)
    moreover have "closes = []" using assms(4) pc c At_new_client by (simp add: job_closes_def closes_of_def)
    moreover have out: "fd \<notin> connected s" using job(2) At_new_client by (simp add: live_def)
    then have "app_ok c \<and> conn c = (if ok then insert fd (connected s) else connected s)"
      using new_law [of "app s" fd c closes ok] app c by simp
    moreover have "connected s - {fd} = connected s" using out by simp
    ultimately show ?thesis using handler(1) [of c ok] pc At_new_client
        moved [of c "if ok then At_new_conn else At_pend_close"] by (cases ok) (simp_all add: live_def)
  next
    case At_some_data
    obtain c closes ok where c: "some_data init fd (app s) = Some (c, closes, ok)"
      using defined At_some_data by (cases "some_data init fd (app s)") (auto simp: job_step_def call_def)
    moreover have "closes = []" using assms(4) pc c At_some_data by (simp add: job_closes_def closes_of_def)
    moreover have "fd \<in> connected s" using job(2) At_some_data by (simp add: live_def)
    moreover from this have "app_ok c \<and> conn c = connected s" using data_law [of "app s" fd c closes ok] app c by simp
    ultimately show ?thesis using handler(2) [of c ok] pc At_some_data
        moved [of c "if ok then At_returned else At_del_client"] by (auto simp: live_def insert_absorb)
  next
    case At_del_client
    obtain c closes ok where c: "del_client init fd (app s) = Some (c, closes, ok)"
      using defined At_del_client by (cases "del_client init fd (app s)") (auto simp: job_step_def call_def)
    moreover have "closes = []" using assms(4) pc c At_del_client by (simp add: job_closes_def closes_of_def)
    moreover have "fd \<in> connected s" using job(2) At_del_client by (simp add: live_def)
    then have "app_ok c \<and> conn c = connected s - {fd}" using del_law [of "app s" fd c closes ok] app c by simp
    ultimately show ?thesis using handler(3) [of c ok] pc At_del_client moved [of c At_pend_close] by (auto simp: live_def)
  next
    case At_new_conn
    then have "s' = s\<lparr>max_fd := max fd (max_fd s), ctl_bytes := ctl_bytes s + 2, pending := insert fd (pending s),
        in_work := take i (in_work s) @ drop (Suc i) (in_work s)\<rparr>"
      using assms(3) i pc fd by (simp add: work_step_def job_step_def returned_eq new_conn_eq)
    then show ?thesis using app fd job(2) At_new_conn job(3) by (simp add: agrees_def live_def insert_absorb)
  next
    case At_returned
    then have "s' = s\<lparr>max_fd := max_fd s, ctl_bytes := ctl_bytes s + 1, pending := insert fd (pending s),
        in_work := take i (in_work s) @ drop (Suc i) (in_work s)\<rparr>"
      using assms(3) i pc fd by (simp add: work_step_def job_step_def returned_eq)
    then show ?thesis using app fd job(2) At_returned job(3) [where m = "max_fd s" and n = "ctl_bytes s + 1"] by (simp add: agrees_def live_def insert_absorb)
  next
    case At_pend_close
    then have "s' = (pend_close fd s)\<lparr>in_work := take i (in_work s) @ drop (Suc i) (in_work s)\<rparr>"
      using assms(3) i pc by (simp add: work_step_def job_step_def)
    then show ?thesis using app fd job(2,4) At_pend_close by (simp add: agrees_def live_def)
  qed
qed

lemma agrees_step:
  assumes "service_step init s e s'" "regular e" "service_ok s" "agrees conn app_ok s"
  shows "agrees conn app_ok s'"
  using assms
proof (induction rule: service_step.induct)
  case (timeout s)
  define c where "c = (case timeout init of None \<Rightarrow> app s | Some h \<Rightarrow> fst (h (app s)))"
  have app: "app_ok (app s)" "conn (app s) = connected s" "pending s \<inter> set (m_pending_close s) = {}"
    using timeout(5) by (simp_all add: agrees_def)
  have "app_ok c \<and> conn c = conn (app s)"
  proof (cases "timeout init")
    case (Some h)
    then show ?thesis using timeout_law [OF app(1) Some, of "fst (h (app s))" "snd (h (app s))"] by (simp add: c_def)
  qed (use app(1) in \<open>simp add: c_def\<close>)
  moreover have "select_timeout init s = s\<lparr>app := c, server := S_top\<rparr>"
    using select_timeout_quiet [of init s] timeout(3) by (simp add: c_def)
  moreover have "connected (s\<lparr>app := c, server := S_top\<rparr>) = connected s" by (simp add: connected_def own_fds_def)
  ultimately show ?case using app by (simp add: agrees_def)
next
  case (process s rset sock add_ok)
  then show ?case using agrees_ready by (cases add_ok) simp_all
next
  case (client s rset prev add_ok)
  then show ?case using agrees_client by (cases add_ok) simp_all
next
  case (job i s s')
  then have "job_closes init i s = []" by (simp split: if_splits)
  then show ?case using job agrees_work by blast
qed (auto intro: agrees_head agrees_take agrees_frame simp: own_fds_def)

lemma agrees_reachable:
  assumes "service_reachable regular init c s" "app_ok c" "conn c = {}"
  shows "agrees conn app_ok s"
  using assms
proof (induction rule: service_reachable.induct)
  case (start sock ctl pool_ok threads fds s)
  then show ?case
    by (auto simp: agrees_def connected_def service_start_def std_socket_service_init_def setup_max_fd_def own_fds_def split: if_splits)
next
  case (step s e s')
  have "service_ok s" using reachable_service_ok [OF step.hyps(1)] regular_quiet by blast
  with step agrees_step show ?case by blast
qed

text \<open>
  The protocol: \<open>new_client\<close> is called for a descriptor that is not connected, \<open>some_data\<close> and
  \<open>del_client\<close> for one that is, and the connected ones are clients.
\<close>

lemma handlers_called:
  assumes "service_reachable regular init c s" "app_ok c" "conn c = {}"
  shows "(\<forall>(pc, fd)\<in>set (in_work s). (pc = At_new_client \<longrightarrow> fd \<notin> conn (app s)) \<and>
      (pc \<in> {At_some_data, At_del_client} \<longrightarrow> fd \<in> conn (app s))) \<and>
    conn (app s) \<subseteq> set (m_clients s)"
proof -
  have ok: "service_ok s" using reachable_service_ok [OF assms(1)] regular_quiet by blast
  have agree: "conn (app s) = connected s" using agrees_reachable [OF assms] by (simp add: agrees_def)
  have "(pc = At_new_client \<longrightarrow> fd \<notin> conn (app s)) \<and> (pc \<in> {At_some_data, At_del_client} \<longrightarrow> fd \<in> conn (app s))"
    if mem: "(pc, fd) \<in> set (in_work s)" for pc fd
  proof -
    obtain i where i: "i < length (in_work s)" "in_work s ! i = (pc, fd)" using mem by (auto simp: in_set_conv_nth)
    have "fd \<in> connected s \<longleftrightarrow> live pc" by (rule connected_job(2) [OF ok i])
    then show ?thesis using agree by (cases pc) (simp_all add: live_def)
  qed
  moreover have "connected s \<subseteq> set (m_clients s)"
  proof -
    have "live_queued (queued s) \<union> live_work (in_work s) \<subseteq> set (jobs_of s)"
      by (force simp: live_queued_def live_work_def jobs_of_def)
    then show ?thesis using service_okD(1) [OF ok] unfolding connected_def places_ok_def by blast
  qed
  ultimately show ?thesis using agree by blast
qed

end

end
