(* ===== verification/EventServer.thy ===== *)
theory EventServer
  imports EventTree SocketHandlers
begin

text \<open>
  The event service of \<open>src/std_event_service.cpp\<close>: the handlers it gives to the socket service, its
  registered clients with their buffers, and the functions of the client side. The system calls and
  whatever the process decides outside (memory, the bytes of an uninitialised header) are the fields of
  \<open>event_env\<close>. A call of a handler is one step; behaviour that is not defined, such as
  reading beyond a message, is None.

  The handlers for a new and for a closed connection run under the write lock of the tree. The handler for
  data looks its client up in \<open>m_event_clients\<close> and receives with no lock, and takes the tree lock only for the
  tree: exclusively for a registration, shared for a publication. So a call for data that meets one of
  the other two is a race on \<open>m_event_clients\<close>; the socket service marks it (\<open>Ev_overlap\<close>), the regular runs leave
  it out, and \<open>event_server_protocol\<close> shows that the service does not prevent it. Two publications that meet
  share the lock and may mix their bytes on the stream of one subscriber; what is shown of a
  publication is about one alone.
\<close>

section \<open>The server\<close>

record 'w event_env =
  ev_read :: "'w fo"
  ev_recvmsg :: "'w msg_call"
  ev_sendmsg :: "'w msg_call"
  ev_select :: "'w select_call"
  ev_setbuf :: "int \<Rightarrow> int \<Rightarrow> 'w \<Rightarrow> 'w \<times> t_std_error"
  ev_junk :: "u8 list"
  ev_mem :: "nat \<Rightarrow> bool"

record 'w std_socket_event_server_t =
  m_event_clients :: "int \<Rightarrow> u8 list option"
  m_reg_tree :: std_node_t
  kernel :: 'w

definition EV_WRITE_TIMEOUT :: nat where "EV_WRITE_TIMEOUT = 100"
definition EV_SEND_TIMEOUT :: nat where "EV_SEND_TIMEOUT = 2000"
definition SOCKET_BUFFER_SIZE :: u64 where "SOCKET_BUFFER_SIZE = 1024 * 1000 * 40"
definition SOCKET_BUFFER_MIN_SIZE :: u64 where "SOCKET_BUFFER_MIN_SIZE = 300000"

text \<open>Reading numbers and keys out of the bytes of a message.\<close>

fun words32 :: "u8 list \<Rightarrow> u32 list" where
  "words32 (a # b # c # d # bs) = from_le [a, b, c, d] # words32 bs"
| "words32 _ = []"

definition key_of_bytes :: "u8 list \<Rightarrow> std_event_key_t option" where
  "key_of_bytes bs = (case words32 bs of [] \<Rightarrow> None | n # ks \<Rightarrow> Some \<lparr>key_len = n, event_key = ks\<rparr>)"

definition new_client_connection :: "'w event_env \<Rightarrow> int \<Rightarrow> 'w std_socket_event_server_t \<Rightarrow> 'w std_socket_event_server_t \<times> bool" where
  "new_client_connection env fd p =
    (if ev_mem env 0 then (p\<lparr>m_event_clients := (m_event_clients p)(fd \<mapsto> [])\<rparr>, True) else (p, False))"

definition close_client_connection :: "int \<Rightarrow> 'w std_socket_event_server_t \<Rightarrow> 'w std_socket_event_server_t" where
  "close_client_connection fd p =
    (let p = (if m_event_clients p fd \<noteq> None then p\<lparr>m_event_clients := (m_event_clients p)(fd := None)\<rparr> else p)
     in p\<lparr>m_reg_tree := tree_remove_from_tree fd (m_reg_tree p)\<rparr>)"

definition reg_message :: "'w event_env \<Rightarrow> int \<Rightarrow> std_event_key_t \<Rightarrow> 'w std_socket_event_server_t \<Rightarrow>
    ('w std_socket_event_server_t \<times> bool) option" where
  "reg_message env fd key p =
    map_option (\<lambda>(t, ok). (p\<lparr>m_reg_tree := t\<rparr>, ok)) (reg_client (ev_mem env) fd key (m_reg_tree p))"

definition dereg_message :: "int \<Rightarrow> std_event_key_t \<Rightarrow> 'w std_socket_event_server_t \<Rightarrow>
    ('w std_socket_event_server_t \<times> bool) option" where
  "dereg_message fd key p =
    map_option (\<lambda>(t, _). (p\<lparr>m_reg_tree := t\<rparr>, True)) (dereg_client fd key (m_reg_tree p))"

text \<open>
  Publishing: a send that does not come back is None. A client whose send fails is given to
  \<open>std_socket_service_client_close\<close>; the list of them is part of the result.
\<close>

definition publish_send :: "'w event_env \<Rightarrow> u8 list \<Rightarrow> ('w \<times> int list) option event_send" where
  "publish_send env msg fd w =
    (case w of
       None \<Rightarrow> (None, True)
     | Some (w, closes) \<Rightarrow>
         (case std_event_util_event_send (ev_recvmsg env) (ev_sendmsg env) (ev_select env) fd
                 (op_code event_serv_msg_t_PUBLISH) [msg] EV_WRITE_TIMEOUT w of
            None \<Rightarrow> (None, True)
          | Some (w, rc) \<Rightarrow> (Some (w, closes), rc = STD_ERR_OK)))"

definition publish_close :: "int \<Rightarrow> ('w \<times> int list) option \<Rightarrow> ('w \<times> int list) option" where
  "publish_close fd w = map_option (\<lambda>(w, closes). (w, closes @ [fd])) w"

definition server_publish :: "'w event_env \<Rightarrow> std_event_key_t \<Rightarrow> u8 list \<Rightarrow> 'w std_socket_event_server_t \<Rightarrow>
    ('w std_socket_event_server_t \<times> int list) option" where
  "server_publish env key msg p =
    (case tree_publish (publish_send env msg) publish_close key (m_reg_tree p) (Some (kernel p, [])) of
       Some (Some (w, closes)) \<Rightarrow> Some (p\<lparr>kernel := w\<rparr>, closes)
     | _ \<Rightarrow> None)"

section \<open>Handlers\<close>

text \<open>What a message says, once it is in the buffer.\<close>

definition handle_message :: "'w event_env \<Rightarrow> int \<Rightarrow> u8 list \<Rightarrow> 'w std_socket_event_server_t \<Rightarrow>
    ('w std_socket_event_server_t \<times> int list \<times> bool) option" where
  "handle_message env fd buff p =
    (let op = u32_at buff 0; data = drop sizeof_event_serv_msg_t buff in
     if op = op_code event_serv_msg_t_ADD_REG then
       Option.bind (key_of_bytes data) (\<lambda>key. map_option (\<lambda>(p, ok). (p, [], ok)) (reg_message env fd key p))
     else if op = op_code event_serv_msg_t_DEL_REG then
       Option.bind (key_of_bytes data) (\<lambda>key. map_option (\<lambda>(p, _). (p, [], True)) (dereg_message fd key p))
     else if op = op_code event_serv_msg_t_PUBLISH then
       (if length data < sizeof_std_event_msg_t then None
        else
          (let data_len = unat (u32_at data sizeof_std_event_key_t) in
           if length buff < sizeof_event_serv_msg_t + sizeof_std_event_msg_t + data_len then Some (p, [], False)
           else
             Option.bind (key_of_bytes data) (\<lambda>key.
               map_option (\<lambda>(p, closes). (p, closes, True))
                 (server_publish env key (take (sizeof_std_event_msg_t + data_len) data) p))))
     else if op = op_code event_serv_msg_t_BUFFER then
       (if length data < 8 then None
        else
          (let buff_len = from_le (take 8 data) :: u64;
               buff_len = (if buff_len < SOCKET_BUFFER_MIN_SIZE then SOCKET_BUFFER_MIN_SIZE else buff_len)
           in Some (p\<lparr>kernel := fst (ev_setbuf env fd (to_int32 (unat buff_len)) (kernel p))\<rparr>, [], True)))
     else Some (p, [], True))"

definition event_some_data :: "'w event_env \<Rightarrow> 'w std_socket_event_server_t handler" where
  "event_some_data env fd p =
    (case m_event_clients p fd of
       None \<Rightarrow> Some (p, [], False)
     | Some buff \<Rightarrow>
         (case std_event_util_event_recv (ev_read env) (ev_junk env) fd buff True (kernel p) of
            None \<Rightarrow> None
          | Some (w, buff, rc) \<Rightarrow>
              (let p = p\<lparr>m_event_clients := (m_event_clients p)(fd \<mapsto> buff), kernel := w\<rparr> in
               if rc \<noteq> STD_ERR_OK then Some (p, [], False)
               else if length buff < sizeof_event_serv_msg_t then Some (p, [], False)
               else handle_message env fd buff p)))"

definition event_new_client :: "'w event_env \<Rightarrow> 'w std_socket_event_server_t handler" where
  "event_new_client env fd p =
    (if m_event_clients p fd \<noteq> None then Some (close_client_connection fd p, [], False)
     else
       (let p = p\<lparr>kernel := fst (ev_setbuf env fd (to_int32 (unat SOCKET_BUFFER_SIZE)) (kernel p))\<rparr> in
        case new_client_connection env fd p of (p, ok) \<Rightarrow> Some (p, [], ok)))"

definition event_del_client :: "'w event_env \<Rightarrow> 'w std_socket_event_server_t handler" where
  "event_del_client env fd p = Some (close_client_connection fd p, [], True)"

definition std_event_server_init :: "'w event_env \<Rightarrow> 'w std_socket_event_server_t std_socket_server_t" where
  "std_event_server_init env = server_init (Some (event_some_data env)) (Some (event_new_client env)) (Some (event_del_client env)) None"

definition new_event_server :: "'w \<Rightarrow> 'w std_socket_event_server_t" where
  "new_event_server w = \<lparr>m_event_clients = (\<lambda>_. None), m_reg_tree = new_node, kernel = w\<rparr>"

section \<open>The client side\<close>

definition key_bytes :: "std_event_key_t \<Rightarrow> u8 list" where
  "key_bytes key = le_bytes 4 (key_len key) @ concat (map (le_bytes 4) (event_key key))"

definition msg_bytes :: "std_event_key_t \<Rightarrow> u8 list \<Rightarrow> u8 list" where
  "msg_bytes key data = key_bytes key @ le_bytes 4 (of_nat (length data) :: u32) @ data"

definition client_send :: "'w event_env \<Rightarrow> int \<Rightarrow> event_serv_msg_types_t \<Rightarrow> u8 list list \<Rightarrow> 'w \<Rightarrow> ('w \<times> t_std_error) option" where
  "client_send env handle op data w =
    std_event_util_event_send (ev_recvmsg env) (ev_sendmsg env) (ev_select env) handle (op_code op) data EV_SEND_TIMEOUT w"

definition std_client_publish_msg :: "'w event_env \<Rightarrow> int \<Rightarrow> u8 list \<Rightarrow> 'w \<Rightarrow> ('w \<times> t_std_error) option" where
  "std_client_publish_msg env handle msg w =
    (let len = sizeof_std_event_msg_t + unat (u32_at msg sizeof_std_event_key_t) in
     if length msg < sizeof_std_event_msg_t \<or> length msg < len then None
     else client_send env handle event_serv_msg_t_PUBLISH [take len msg] w)"

definition std_client_publish_msg_data :: "'w event_env \<Rightarrow> int \<Rightarrow> std_event_key_t \<Rightarrow> u8 list \<Rightarrow> 'w \<Rightarrow> ('w \<times> t_std_error) option" where
  "std_client_publish_msg_data env handle key data w =
    client_send env handle event_serv_msg_t_PUBLISH [key_bytes key @ le_bytes 4 (of_nat (length data) :: u32), data] w"

fun client_send_key_op :: "'w event_env \<Rightarrow> int \<Rightarrow> event_serv_msg_types_t \<Rightarrow> std_event_key_t list \<Rightarrow> 'w \<Rightarrow> ('w \<times> t_std_error) option" where
  "client_send_key_op env handle op [] w = Some (w, STD_ERR_OK)"
| "client_send_key_op env handle op (key # keys) w =
     (case client_send env handle op [key_bytes key] w of
        None \<Rightarrow> None
      | Some (w, rc) \<Rightarrow>
          if rc \<noteq> STD_ERR_OK then Some (w, STD_ERR e_std_err_COM e_std_err_code_FAIL 0)
          else client_send_key_op env handle op keys w)"

definition std_client_register_interest :: "'w event_env \<Rightarrow> int \<Rightarrow> std_event_key_t list \<Rightarrow> 'w \<Rightarrow> ('w \<times> t_std_error) option" where
  "std_client_register_interest env handle keys w = client_send_key_op env handle event_serv_msg_t_ADD_REG keys w"

definition std_client_remove_interest :: "'w event_env \<Rightarrow> int \<Rightarrow> std_event_key_t list \<Rightarrow> 'w \<Rightarrow> ('w \<times> t_std_error) option" where
  "std_client_remove_interest env handle keys w = client_send_key_op env handle event_serv_msg_t_DEL_REG keys w"

definition std_client_set_receive_buffer :: "'w event_env \<Rightarrow> int \<Rightarrow> u64 \<Rightarrow> 'w \<Rightarrow> ('w \<times> t_std_error) option" where
  "std_client_set_receive_buffer env handle len w = client_send env handle event_serv_msg_t_BUFFER [le_bytes 8 len] w"

text \<open>The buffer a client receives into.\<close>

record event_msg_buff_t =
  ev_buff :: "u8 list"
  limit_max :: bool
  max_len :: nat

definition std_client_allocate_msg_buff :: "bool \<Rightarrow> nat \<Rightarrow> bool \<Rightarrow> event_msg_buff_t option" where
  "std_client_allocate_msg_buff mem_ok buffer_space limit =
    (if mem_ok then Some \<lparr>ev_buff = replicate buffer_space 0, limit_max = limit, max_len = buffer_space\<rparr> else None)"

definition std_event_msg_from_buff :: "event_msg_buff_t \<Rightarrow> u8 list option" where
  "std_event_msg_from_buff p =
    (if length (ev_buff p) < sizeof_event_serv_msg_t then None
     else if u32_at (ev_buff p) 0 \<noteq> op_code event_serv_msg_t_PUBLISH then None
     else Some (drop sizeof_event_serv_msg_t (ev_buff p)))"

definition std_client_wait_for_event :: "'w event_env \<Rightarrow> int \<Rightarrow> event_msg_buff_t \<Rightarrow> 'w \<Rightarrow> ('w \<times> event_msg_buff_t \<times> t_std_error) option" where
  "std_client_wait_for_event env handle p w =
    map_option (\<lambda>(w, b, rc). (w, p\<lparr>ev_buff := b\<rparr>, rc))
      (std_event_util_event_recv (ev_read env) (ev_junk env) handle (ev_buff p) (\<not> limit_max p) w)"

definition std_client_wait_for_event_data :: "'w event_env \<Rightarrow> int \<Rightarrow> u8 list \<Rightarrow> u8 list \<Rightarrow> nat \<Rightarrow> 'w \<Rightarrow>
    ('w \<times> u8 list \<times> u8 list \<times> t_std_error) option" where
  "std_client_wait_for_event_data env handle msg area len w =
    std_event_util_event_recv_msg (ev_read env) (ev_junk env) handle msg area len w"

section \<open>The contract of the handlers\<close>

text \<open>A registration belongs to a connected client.\<close>

definition connected_clients :: "'w std_socket_event_server_t \<Rightarrow> int set" where
  "connected_clients p = dom (m_event_clients p)"

definition registered :: "std_node_t \<Rightarrow> int set" where
  "registered n = snd ` registrations n"

definition event_server_ok :: "'w std_socket_event_server_t \<Rightarrow> bool" where
  "event_server_ok p \<longleftrightarrow> node_ok (m_reg_tree p) \<and> registered (m_reg_tree p) \<subseteq> connected_clients p"

text \<open>Whatever key a message holds, \<open>find\<close> leaves the registrations alone.\<close>

lemma node_at_snoc: "node_at n (p @ [k]) = (case node_at n p of None \<Rightarrow> None | Some c \<Rightarrow> node_find c k)"
  by (simp add: node_at_append split: option.splits)

lemma find_loop_keeps:
  assumes "node_ok head" "node_at head cur \<noteq> None" "find_loop mem_ok create ks ix left cur head = Some (h, q)"
  shows "node_ok h \<and> registrations h = registrations head \<and> (\<forall>p. q = Some p \<longrightarrow> node_at h p \<noteq> None)"
  using assms
proof (induction left arbitrary: ix cur head)
  case 0
  then show ?case by auto
next
  case (Suc left)
  obtain k where k: "arr_get ks ix = Some k" using Suc.prems(3) by (cases "arr_get ks ix") auto
  obtain c where c: "node_at head cur = Some c" using Suc.prems(2) by blast
  show ?case
  proof (cases "node_at head (cur @ [k])")
    case (Some d)
    then show ?thesis using Suc.IH [of head "cur @ [k]" "Suc ix"] Suc.prems k by simp
  next
    case None
    then have none: "node_find c k = None" using c by (simp add: node_at_snoc)
    show ?thesis
    proof (cases "create \<and> mem_ok ix")
      case True
      let ?head = "change_at (create_node True k) head cur"
      note new = change_at_create [OF c none]
      have "node_ok ?head"
        by (rule change_at_ok [OF Suc.prems(1)])
          (use node_ok_map_insert [of _ new_node] in \<open>simp add: create_node_def new_node_def\<close>)
      with new Suc.IH [of ?head "cur @ [k]" "Suc ix"] Suc.prems(3) True None k show ?thesis by (simp add: Let_def)
    next
      case False
      have "change_at (create_node False k) head cur = head"
        by (rule change_at_same [OF Suc.prems(1)]) (simp add: create_node_def)
      then show ?thesis using Suc.prems False None k by (auto simp: Let_def split: if_splits)
    qed
  qed
qed

lemma reg_client_keeps:
  assumes "node_ok head" "reg_client mem_ok fd key head = Some (h, ok)"
  shows "node_ok h" "registered h \<subseteq> insert fd (registered head)"
proof -
  obtain h1 q where f: "tree_find mem_ok (event_key key) (unat (key_len key)) True head = Some (h1, q)"
    using assms(2) by (cases "tree_find mem_ok (event_key key) (unat (key_len key)) True head") (auto simp: reg_client_def)
  have k: "node_ok h1" "registrations h1 = registrations head" "\<forall>p. q = Some p \<longrightarrow> node_at h1 p \<noteq> None"
    using find_loop_keeps [of head "[]" mem_ok True "event_key key" 0 "unat (key_len key)" h1 q] assms(1) f
    by (simp_all add: tree_find_def)
  have "node_ok h \<and> registered h \<subseteq> insert fd (registered head)"
  proof (cases q)
    case None
    then show ?thesis using assms(2) f k by (auto simp: reg_client_def registered_def)
  next
    case (Some p)
    obtain c where c: "node_at h1 p = Some c" using k(3) Some by blast
    let ?f = "\<lambda>n. fst (node_insert (mem_ok (length p)) fd n)"
    have h: "h = change_at ?f h1 p" using assms(2) f Some by (auto simp: reg_client_def Let_def)
    have "node_ok h" unfolding h by (rule change_at_ok [OF k(1) node_insert_fields(3)])
    moreover have "registrations h \<subseteq> insert (p, fd) (registrations head)"
      unfolding h k(2) [symmetric]
      using change_at_clients [OF c, of ?f] registrations_member [OF c] by (auto simp: node_insert_fields split: if_splits)
    ultimately show ?thesis by (force simp: registered_def)
  qed
  then show "node_ok h" "registered h \<subseteq> insert fd (registered head)" by simp_all
qed

lemma dereg_client_keeps:
  assumes "node_ok head" "dereg_client fd key head = Some (h, ok)"
  shows "node_ok h" "registered h \<subseteq> registered head"
proof -
  obtain h1 q where f: "tree_find (\<lambda>_. True) (event_key key) (unat (key_len key)) False head = Some (h1, q)"
    using assms(2) by (cases "tree_find (\<lambda>_. True) (event_key key) (unat (key_len key)) False head") (auto simp: dereg_client_def)
  have k: "node_ok h1" "registrations h1 = registrations head" "\<forall>p. q = Some p \<longrightarrow> node_at h1 p \<noteq> None"
    using find_loop_keeps [of head "[]" "\<lambda>_. True" False "event_key key" 0 "unat (key_len key)" h1 q] assms(1) f
    by (simp_all add: tree_find_def)
  have "node_ok h \<and> registered h \<subseteq> registered head"
  proof (cases q)
    case None
    then show ?thesis using assms(2) f k by (auto simp: dereg_client_def registered_def)
  next
    case (Some p)
    obtain c where c: "node_at h1 p = Some c" using k(3) Some by blast
    have h: "h = change_at (node_remove fd) h1 p" using assms(2) f Some by (simp add: dereg_client_def)
    have "node_ok h" unfolding h by (rule change_at_ok [OF k(1) node_remove_fields(3)])
    moreover have "registrations h \<subseteq> registrations head"
      unfolding h k(2) [symmetric]
      using change_at_clients [OF c, of "node_remove fd"] registrations_member [OF c] by (auto simp: node_remove_fields split: if_splits)
    ultimately show ?thesis by (auto simp: registered_def)
  qed
  then show "node_ok h" "registered h \<subseteq> registered head" by simp_all
qed

lemma close_client_connection_ok:
  assumes "event_server_ok p"
  shows "event_server_ok (close_client_connection fd p) \<and>
    connected_clients (close_client_connection fd p) = connected_clients p - {fd} \<and>
    registrations (m_reg_tree (close_client_connection fd p)) = {(k, x). (k, x) \<in> registrations (m_reg_tree p) \<and> x \<noteq> fd}"
proof -
  have t: "m_reg_tree (close_client_connection fd p) = tree_remove_from_tree fd (m_reg_tree p)"
    by (simp add: close_client_connection_def Let_def)
  have c: "connected_clients (close_client_connection fd p) = connected_clients p - {fd}"
    by (auto simp: close_client_connection_def Let_def connected_clients_def split: if_splits)
  have r: "registrations (tree_remove_from_tree fd (m_reg_tree p)) = {(k, x). (k, x) \<in> registrations (m_reg_tree p) \<and> x \<noteq> fd}"
    by (simp add: tree_remove_from_tree_def remove_from_tree_registrations)
  have "node_ok (tree_remove_from_tree fd (m_reg_tree p))"
    using assms remove_from_tree_ok by (simp add: tree_remove_from_tree_def event_server_ok_def)
  moreover have "registered (tree_remove_from_tree fd (m_reg_tree p)) \<subseteq> connected_clients p - {fd}"
    using assms r by (auto simp: registered_def event_server_ok_def)
  ultimately show ?thesis using t c r by (simp add: event_server_ok_def)
qed

lemma server_publish_keeps:
  "server_publish env key msg p = Some (p', closes) \<Longrightarrow> m_event_clients p' = m_event_clients p \<and> m_reg_tree p' = m_reg_tree p"
  by (auto simp: server_publish_def split: option.splits)

lemma event_server_ok_cong:
  "m_event_clients p' = m_event_clients p \<Longrightarrow> m_reg_tree p' = m_reg_tree p \<Longrightarrow>
    event_server_ok p' = event_server_ok p \<and> connected_clients p' = connected_clients p"
  by (simp add: event_server_ok_def connected_clients_def)

lemma handle_message_ok:
  assumes "handle_message env fd buff p = Some (p', closes, ok)" "event_server_ok p" "fd \<in> connected_clients p"
  shows "event_server_ok p' \<and> connected_clients p' = connected_clients p"
proof -
  let ?data = "drop sizeof_event_serv_msg_t buff" and ?op = "u32_at buff 0"
  have tree: "event_server_ok (p\<lparr>m_reg_tree := t\<rparr>) \<and> connected_clients (p\<lparr>m_reg_tree := t\<rparr>) = connected_clients p"
    if "node_ok t" "registered t \<subseteq> insert fd (registered (m_reg_tree p))" for t
    using that assms(2,3) by (auto simp: event_server_ok_def connected_clients_def)
  have n: "node_ok (m_reg_tree p)" using assms(2) by (simp add: event_server_ok_def)
  consider (reg) "?op = op_code event_serv_msg_t_ADD_REG" | (dereg) "?op = op_code event_serv_msg_t_DEL_REG"
    | (publish) "?op = op_code event_serv_msg_t_PUBLISH"
    | (other) "?op \<notin> op_code ` {event_serv_msg_t_ADD_REG, event_serv_msg_t_DEL_REG, event_serv_msg_t_PUBLISH}" by auto
  then show ?thesis
  proof cases
    case reg
    then obtain key t where "reg_client (ev_mem env) fd key (m_reg_tree p) = Some (t, ok)" "p' = p\<lparr>m_reg_tree := t\<rparr>"
      using assms(1) by (auto simp: handle_message_def Let_def reg_message_def bind_eq_Some_conv)
    with tree reg_client_keeps [OF n] show ?thesis by blast
  next
    case dereg
    then obtain key t b where "dereg_client fd key (m_reg_tree p) = Some (t, b)" "p' = p\<lparr>m_reg_tree := t\<rparr>"
      using assms(1) by (auto simp: handle_message_def Let_def dereg_message_def bind_eq_Some_conv)
    with tree dereg_client_keeps [OF n] show ?thesis by blast
  next
    case publish
    then have "p' = p \<or> (\<exists>key msg. server_publish env key msg p = Some (p', closes))"
      using assms(1) by (auto simp: handle_message_def Let_def bind_eq_Some_conv split: if_splits)
    then have "m_event_clients p' = m_event_clients p \<and> m_reg_tree p' = m_reg_tree p" using server_publish_keeps by blast
    then show ?thesis using assms(2) event_server_ok_cong [of p' p] by simp
  next
    case other
    then have "m_event_clients p' = m_event_clients p \<and> m_reg_tree p' = m_reg_tree p"
      using assms(1) by (auto simp: handle_message_def Let_def split: if_splits)
    then show ?thesis using assms(2) event_server_ok_cong [of p' p] by simp
  qed
qed

lemma event_some_data_ok:
  assumes "event_some_data env fd p = Some (p', closes, ok)" "event_server_ok p" "fd \<in> connected_clients p"
  shows "event_server_ok p' \<and> connected_clients p' = connected_clients p"
proof -
  obtain buff where buff: "m_event_clients p fd = Some buff" using assms(3) by (auto simp: connected_clients_def)
  obtain w buff' rc where r: "std_event_util_event_recv (ev_read env) (ev_junk env) fd buff True (kernel p) = Some (w, buff', rc)"
    using assms(1) buff by (auto simp: event_some_data_def split: option.splits)
  let ?p = "p\<lparr>m_event_clients := (m_event_clients p)(fd \<mapsto> buff'), kernel := w\<rparr>"
  have c: "connected_clients ?p = connected_clients p" using buff by (auto simp: connected_clients_def)
  then have ok: "event_server_ok ?p" using assms(2) by (simp add: event_server_ok_def)
  have "p' = ?p \<or> handle_message env fd buff' ?p = Some (p', closes, ok)"
    using assms(1) buff r by (auto simp: event_some_data_def Let_def split: if_splits)
  then show ?thesis using handle_message_ok [of env fd buff' ?p p' closes ok] ok c assms(3) by auto
qed

interpretation event_handlers: connection_handlers "std_event_server_init env" connected_clients event_server_ok for env
proof
  fix c :: "'a std_socket_event_server_t" and c' fd closes ok
  show "event_server_ok c' \<and> connected_clients c' = (if ok then insert fd (connected_clients c) else connected_clients c)"
    if c: "event_server_ok c" "fd \<notin> connected_clients c" "new_client (std_event_server_init env) fd c = Some (c', closes, ok)"
  proof -
    have "m_event_clients c fd = None" using c(2) by (auto simp: connected_clients_def)
    then have "m_reg_tree c' = m_reg_tree c \<and> m_event_clients c' = (if ok then (m_event_clients c)(fd \<mapsto> []) else m_event_clients c)"
      using c(3) by (auto simp: std_event_server_init_def server_init_def event_new_client_def new_client_connection_def Let_def split: if_splits)
    then show ?thesis using c(1) by (auto simp: event_server_ok_def connected_clients_def)
  qed
  show "event_server_ok c' \<and> connected_clients c' = connected_clients c"
    if "event_server_ok c" "fd \<in> connected_clients c" "some_data (std_event_server_init env) fd c = Some (c', closes, ok)"
    using that event_some_data_ok [of env fd c c' closes ok] by (simp add: std_event_server_init_def server_init_def)
  show "event_server_ok c' \<and> connected_clients c' = connected_clients c - {fd}"
    if "event_server_ok c" "fd \<in> connected_clients c" "del_client (std_event_server_init env) fd c = Some (c', closes, ok)"
    using that close_client_connection_ok [of c fd] by (auto simp: std_event_server_init_def server_init_def event_del_client_def)
  show "event_server_ok c' \<and> connected_clients c' = connected_clients c"
    if "event_server_ok c" "timeout (std_event_server_init env) = Some h" "h c = (c', closes)" for h
    using that by (simp add: std_event_server_init_def server_init_def)
qed

lemma new_event_server_ok: "event_server_ok (new_event_server w)" "connected_clients (new_event_server w) = {}"
  by (simp_all add: event_server_ok_def connected_clients_def new_event_server_def registered_def registrations_new)
    (simp add: new_node_def)

section \<open>Messages on the stream\<close>

lemma words32_append: "words32 (le_bytes 4 v @ bs) = v # words32 bs"
proof -
  have b: "le_bytes 4 v = [ucast v, ucast (drop_bit 8 v), ucast (drop_bit 16 v), ucast (drop_bit 24 v)]"
    by (simp add: le_bytes_def upt_rec)
  have "words32 (le_bytes 4 v @ bs) = from_le (le_bytes 4 v) # words32 bs" unfolding b by simp
  then show ?thesis using from_le_bytes_word [of 4 v] by simp
qed

lemma words32_concat: "words32 (concat (map (le_bytes 4) ks) @ bs) = ks @ words32 bs"
  by (induction ks) (simp_all add: words32_append)

lemma key_of_key_bytes:
  "key_of_bytes (key_bytes key @ bs) = Some \<lparr>key_len = key_len key, event_key = event_key key @ words32 bs\<rparr>"
  by (simp add: key_of_bytes_def key_bytes_def words32_append words32_concat)

lemma length_key_bytes: "length (key_bytes key) = 4 + 4 * length (event_key key)"
proof -
  have "length (concat (map (le_bytes 4) ks)) = 4 * length ks" for ks :: "u32 list" by (induction ks) simp_all
  then show ?thesis by (simp add: key_bytes_def)
qed

lemma key_longer:
  assumes "key_ok key"
  shows "key_ok \<lparr>key_len = key_len key, event_key = event_key key @ ks\<rparr>"
    "key_path \<lparr>key_len = key_len key, event_key = event_key key @ ks\<rparr> = key_path key"
  using assms by (simp_all add: key_ok_def key_path_def)

lemma u32_at_front: "u32_at (le_bytes 4 v @ bs) 0 = v"
  using u32_at_le_bytes [of "[]" v bs] by simp

text \<open>A message on the stream of a client comes to \<open>handle_message\<close>, at the front of the buffer.\<close>

lemma event_some_data_frame:
  fixes p :: "'w std_socket_event_server_t"
  assumes "reliable_source (ev_read env) fd pend" "length (ev_junk env) = 16" "m_event_clients p fd = Some b"
    and "pend (kernel p) = frame (op_code op) payload @ rest" "4 + length payload < 2 ^ 31"
  shows "\<exists>w tail. pend w = rest \<and>
    (\<forall>g :: 'w \<Rightarrow> int \<Rightarrow> u8 list. (\<forall>v h bs. g (fst (ev_read env v h bs)) = g v) \<longrightarrow> g w = g (kernel p)) \<and>
    event_some_data env fd p = handle_message env fd (le_bytes 4 (op_code op) @ payload @ tail)
      (p\<lparr>m_event_clients := (m_event_clients p)(fd \<mapsto> le_bytes 4 (op_code op) @ payload @ tail), kernel := w\<rparr>)"
proof -
  obtain w where "std_event_util_event_recv (ev_read env) (ev_junk env) fd b True (kernel p) =
      Some (w, le_bytes 4 (op_code op) @ payload @ drop (4 + length payload) b, STD_ERR_OK)" "pend w = rest"
    using reliable_source.event_recv_frame [OF assms(1,2,4,5)] by blast
  moreover from this(1) have "g w = g (kernel p)" if "\<forall>v h bs. g (fst (ev_read env v h bs)) = g v" for g :: "'w \<Rightarrow> int \<Rightarrow> u8 list"
    using event_recv_keeps [of g "ev_read env"] that by blast
  ultimately show ?thesis using assms(3)
    by (intro exI [of _ w] exI [of _ "drop (4 + length payload) b"]) (simp add: event_some_data_def sizeof_event_serv_msg_t_def Let_def)
qed

text \<open>The client side: what a sequence of keys puts on the stream.\<close>

definition key_frames :: "event_serv_msg_types_t \<Rightarrow> std_event_key_t list \<Rightarrow> u8 list" where
  "key_frames op keys = concat (map (\<lambda>key. frame (op_code op) (key_bytes key)) keys)"

lemma client_send_key_op_frames:
  assumes "byte_sink (ev_sendmsg env) (ev_select env) accepted hiccups" "\<forall>key\<in>set keys. length (event_key key) = STD_EVENT_KEY_MAX"
  shows "\<exists>w' rc k. client_send_key_op env fd op keys w = Some (w', rc) \<and>
    accepted w' = (accepted w)(fd := accepted w fd @ take k (key_frames op keys)) \<and>
    (rc = STD_ERR_OK \<longrightarrow> k = length (key_frames op keys))"
  using assms(2)
proof (induction keys arbitrary: w)
  case Nil
  then show ?case by (auto simp: key_frames_def)
next
  case (Cons key keys)
  have "length (concat [key_bytes key]) + 4 < 2 ^ 31" using Cons.prems by (simp add: length_key_bytes STD_EVENT_KEY_MAX_def)
  from byte_sink.event_send_frame [OF assms(1) this] obtain w1 rc1 k1 where
    s: "client_send env fd op [key_bytes key] w = Some (w1, rc1)"
      "accepted w1 = (accepted w)(fd := accepted w fd @ take k1 (frame (op_code op) (key_bytes key)))"
      "rc1 = STD_ERR_OK \<longrightarrow> k1 = length (frame (op_code op) (key_bytes key))"
    by (simp add: client_send_def) blast
  show ?case
  proof (cases "rc1 = STD_ERR_OK")
    case True
    obtain w' rc k where r: "client_send_key_op env fd op keys w1 = Some (w', rc)"
        "accepted w' = (accepted w1)(fd := accepted w1 fd @ take k (key_frames op keys))"
        "rc = STD_ERR_OK \<longrightarrow> k = length (key_frames op keys)"
      using Cons.IH [of w1] Cons.prems by (simp del: fun_upd_apply) (elim exE conjE, rule that)
    have "accepted w' = (accepted w)(fd := accepted w fd @ take (k1 + k) (key_frames op (key # keys)))"
      using s True r(2) by (simp add: key_frames_def)
    then show ?thesis using s True r(1,3) by (intro exI [of _ w'] exI [of _ rc] exI [of _ "k1 + k"]) (simp add: key_frames_def)
  next
    case False
    have err: "STD_ERR e_std_err_COM e_std_err_code_FAIL 0 \<noteq> STD_ERR_OK" by (rule std_err_not_ok)
    have "take k1 (frame (op_code op) (key_bytes key)) =
        take (min k1 (length (frame (op_code op) (key_bytes key)))) (key_frames op (key # keys))"
      by (simp add: key_frames_def min_def)
    with s False err show ?thesis
      by (intro exI [of _ w1] exI [of _ "STD_ERR e_std_err_COM e_std_err_code_FAIL 0"]
          exI [of _ "min k1 (length (frame (op_code op) (key_bytes key)))"]) (simp del: fun_upd_apply)
  qed
qed

section \<open>What handling a message does\<close>

lemma handle_registration:
  assumes "node_ok (m_reg_tree p)" "key_ok key" "\<forall>i. ev_mem env i"
  shows "\<exists>p'. handle_message env fd (le_bytes 4 (op_code event_serv_msg_t_ADD_REG) @ key_bytes key @ tail) p = Some (p', [], True) \<and>
      m_event_clients p' = m_event_clients p \<and> kernel p' = kernel p \<and> node_ok (m_reg_tree p') \<and>
      registrations (m_reg_tree p') = insert (key_path key, fd) (registrations (m_reg_tree p))"
    and "\<exists>p'. handle_message env fd (le_bytes 4 (op_code event_serv_msg_t_DEL_REG) @ key_bytes key @ tail) p = Some (p', [], True) \<and>
      m_event_clients p' = m_event_clients p \<and> kernel p' = kernel p \<and> node_ok (m_reg_tree p') \<and>
      registrations (m_reg_tree p') = registrations (m_reg_tree p) - {(key_path key, fd)}"
proof -
  let ?key = "\<lparr>key_len = key_len key, event_key = event_key key @ words32 tail\<rparr>"
  note longer = key_longer [OF assms(2), of "words32 tail"]
  obtain t ok where t: "reg_client (ev_mem env) fd ?key (m_reg_tree p) = Some (t, ok)" "node_ok t" "(\<forall>i. ev_mem env i) \<longrightarrow> ok"
      "registrations t = (if ok then insert (key_path ?key, fd) (registrations (m_reg_tree p)) else registrations (m_reg_tree p))"
    using reg_client_ok [OF assms(1) longer(1), of "ev_mem env" fd] by (elim exE conjE) (rule that)
  have "handle_message env fd (le_bytes 4 (op_code event_serv_msg_t_ADD_REG) @ key_bytes key @ tail) p = Some (p\<lparr>m_reg_tree := t\<rparr>, [], True)"
    using t(1,3) assms(3) by (simp add: handle_message_def Let_def u32_at_front sizeof_event_serv_msg_t_def key_of_key_bytes reg_message_def)
  then show "\<exists>p'. handle_message env fd (le_bytes 4 (op_code event_serv_msg_t_ADD_REG) @ key_bytes key @ tail) p = Some (p', [], True) \<and>
      m_event_clients p' = m_event_clients p \<and> kernel p' = kernel p \<and> node_ok (m_reg_tree p') \<and>
      registrations (m_reg_tree p') = insert (key_path key, fd) (registrations (m_reg_tree p))"
    using t assms(3) longer(2) by simp
  obtain u where u: "dereg_client fd ?key (m_reg_tree p) = Some (u, True)" "node_ok u"
      "registrations u = registrations (m_reg_tree p) - {(key_path ?key, fd)}"
    using dereg_client_ok [OF assms(1) longer(1), of fd] by (elim exE conjE) (rule that)
  have "handle_message env fd (le_bytes 4 (op_code event_serv_msg_t_DEL_REG) @ key_bytes key @ tail) p = Some (p\<lparr>m_reg_tree := u\<rparr>, [], True)"
    using u(1) by (simp add: handle_message_def Let_def u32_at_front sizeof_event_serv_msg_t_def key_of_key_bytes dereg_message_def)
  then show "\<exists>p'. handle_message env fd (le_bytes 4 (op_code event_serv_msg_t_DEL_REG) @ key_bytes key @ tail) p = Some (p', [], True) \<and>
      m_event_clients p' = m_event_clients p \<and> kernel p' = kernel p \<and> node_ok (m_reg_tree p') \<and>
      registrations (m_reg_tree p') = registrations (m_reg_tree p) - {(key_path key, fd)}"
    using u longer(2) by simp
qed

text \<open>
  Publishing to a list of clients over a sink: each gets the frame, and those that do not get all of it,
  and no others, are closed; none is when every call of \<open>sendmsg\<close> accepts something (\<open>willing\<close>).
\<close>

definition willing :: "'w event_env \<Rightarrow> bool" where
  "willing env \<longleftrightarrow> (\<forall>w fd iov flags. concat iov \<noteq> [] \<longrightarrow> 0 < fst (snd (snd (ev_sendmsg env w fd iov flags))))"

definition published :: "(int \<Rightarrow> u8 list) \<Rightarrow> (int \<Rightarrow> u8 list) \<Rightarrow> u8 list \<Rightarrow> int set \<Rightarrow> int list \<Rightarrow> bool" where
  "published before later msg R closes \<longleftrightarrow> set closes \<subseteq> R \<and> (\<forall>x. x \<notin> R \<longrightarrow> later x = before x) \<and>
     (\<forall>x\<in>R. \<exists>k \<le> length msg. later x = before x @ take k msg \<and> (x \<in> set closes \<longleftrightarrow> k < length msg))"

lemma deliver_sent:
  assumes "byte_sink (ev_sendmsg env) (ev_select env) accepted hiccups" "length msg + 4 < 2 ^ 31" "distinct fds"
  shows "\<exists>w' more. fold (deliver (publish_send env msg) publish_close) fds (Some (w, closes)) = Some (w', closes @ more) \<and>
    published (accepted w) (accepted w') (frame (op_code event_serv_msg_t_PUBLISH) msg) (set fds) more \<and>
    (willing env \<longrightarrow> more = [])"
  using assms(3)
proof (induction fds arbitrary: w closes)
  case Nil
  then show ?case by (simp add: published_def)
next
  case (Cons fd fds)
  let ?f = "frame (op_code event_serv_msg_t_PUBLISH) msg"
  have "length (concat [msg]) + 4 < 2 ^ 31" using assms(2) by simp
  from byte_sink.event_send_frame_exact [OF assms(1) this] obtain w1 rc k where
    s: "std_event_util_event_send (ev_recvmsg env) (ev_sendmsg env) (ev_select env) fd
          (op_code event_serv_msg_t_PUBLISH) [msg] EV_WRITE_TIMEOUT w = Some (w1, rc)"
      "accepted w1 = (accepted w)(fd := accepted w fd @ take k ?f)" "k \<le> length ?f" "rc = STD_ERR_OK \<longleftrightarrow> k = length ?f"
    by simp blast
  let ?more = "if rc = STD_ERR_OK then [] else [fd]"
  have d: "deliver (publish_send env msg) publish_close fd (Some (w, closes)) = Some (w1, closes @ ?more)"
    using s(1) by (simp add: deliver_def publish_send_def publish_close_def)
  obtain w' more where r: "fold (deliver (publish_send env msg) publish_close) fds (Some (w1, closes @ ?more)) = Some (w', (closes @ ?more) @ more)"
      "published (accepted w1) (accepted w') ?f (set fds) more" "willing env \<longrightarrow> more = []"
    using Cons.IH [of w1 "closes @ ?more"] Cons.prems by (metis distinct.simps(2))
  note pub = r(2) [unfolded published_def]
  have new: "fd \<notin> set fds" "fd \<notin> set more" using Cons.prems pub by auto
  have w1: "accepted w1 x = accepted w x" if "x \<noteq> fd" for x using s(2) that by simp
  have "published (accepted w) (accepted w') ?f (set (fd # fds)) (?more @ more)"
    unfolding published_def
  proof (intro conjI allI impI ballI)
    show "set (?more @ more) \<subseteq> set (fd # fds)" using pub by auto
    show "accepted w' x = accepted w x" if "x \<notin> set (fd # fds)" for x using that pub w1 [of x] by simp
    show "\<exists>k \<le> length ?f. accepted w' x = accepted w x @ take k ?f \<and> (x \<in> set (?more @ more) \<longleftrightarrow> k < length ?f)"
      if x: "x \<in> set (fd # fds)" for x
    proof (cases "x = fd")
      case True
      have "accepted w' fd = accepted w fd @ take k ?f" using pub new s(2) by simp
      then show ?thesis using s(3,4) new True by (intro exI [of _ k]) auto
    next
      case False
      then have "x \<in> set fds" using x by simp
      then obtain j where "j \<le> length ?f" "accepted w' x = accepted w1 x @ take j ?f" "x \<in> set more \<longleftrightarrow> j < length ?f"
        using pub by blast
      then show ?thesis using w1 [OF False] False by (intro exI [of _ j]) auto
    qed
  qed
  moreover have "?more = []" if "willing env"
    using byte_sink.event_send_willing [OF assms(1), of fd "ev_recvmsg env" "op_code event_serv_msg_t_PUBLISH" "[msg]" EV_WRITE_TIMEOUT w] that s(1)
    by (auto simp: willing_def)
  ultimately show ?case using r(1,3) d by (intro exI [of _ w'] exI [of _ "?more @ more"]) simp
qed

lemma handle_publish:
  assumes "byte_sink (ev_sendmsg env) (ev_select env) accepted hiccups"
    and "length (event_key key) = STD_EVENT_KEY_MAX" "unat (key_len key) \<le> STD_EVENT_KEY_MAX" "length data + 76 < 2 ^ 31"
  shows "\<exists>p' closes. handle_message env fd (le_bytes 4 (op_code event_serv_msg_t_PUBLISH) @ msg_bytes key data @ tail) p = Some (p', closes, True) \<and>
    m_event_clients p' = m_event_clients p \<and> m_reg_tree p' = m_reg_tree p \<and>
    published (accepted (kernel p)) (accepted (kernel p')) (frame (op_code event_serv_msg_t_PUBLISH) (msg_bytes key data))
      {x. \<exists>q. q \<noteq> [] \<and> prefix q (key_path key) \<and> (q, x) \<in> registrations (m_reg_tree p)} closes \<and>
    (willing env \<longrightarrow> closes = [])"
proof -
  let ?tail = "le_bytes 4 (of_nat (length data) :: u32) @ data @ tail"
  let ?key = "\<lparr>key_len = key_len key, event_key = event_key key @ words32 ?tail\<rparr>"
  let ?msg = "msg_bytes key data"
  have kb: "length (key_bytes key) = 68" using assms(2) by (simp add: length_key_bytes STD_EVENT_KEY_MAX_def)
  have ok: "key_ok key" using assms(2,3) by (simp add: key_ok_def)
  note longer = key_longer [OF ok, of "words32 ?tail"]
  have len: "unat (u32_at (?msg @ tail) sizeof_std_event_key_t) = length data"
    using u32_at_le_bytes [of "key_bytes key" "of_nat (length data)" "data @ tail"] kb assms(4)
    by (simp add: msg_bytes_def sizeof_std_event_key_t_def unat_of_nat take_bit_nat_eq_self)
  have lm: "length ?msg = 72 + length data" using kb by (simp add: msg_bytes_def)
  let ?fds = "recipients (m_reg_tree p) (key_path key)"
  have msg: "length ?msg + 4 < 2 ^ 31" using lm assms(4) by simp
  have pub: "tree_publish (publish_send env ?msg) publish_close ?key (m_reg_tree p) (Some (kernel p, [])) =
      Some (fold (deliver (publish_send env ?msg) publish_close) ?fds (Some (kernel p, [])))"
    "distinct ?fds" "set ?fds = {x. \<exists>q. q \<noteq> [] \<and> prefix q (key_path key) \<and> (q, x) \<in> registrations (m_reg_tree p)}"
    by (rule tree_publish_delivers [OF longer(1), unfolded longer(2)])+
  obtain w' more where sent: "fold (deliver (publish_send env ?msg) publish_close) ?fds (Some (kernel p, [])) = Some (w', [] @ more)"
      "published (accepted (kernel p)) (accepted w') (frame (op_code event_serv_msg_t_PUBLISH) ?msg) (set ?fds) more"
      "willing env \<longrightarrow> more = []"
    using deliver_sent [OF assms(1) msg pub(2), of "kernel p" "[]"] by blast
  have key: "key_of_bytes (?msg @ tail) = Some ?key" using key_of_key_bytes [of key ?tail] by (simp add: msg_bytes_def)
  have "server_publish env ?key ?msg p = Some (p\<lparr>kernel := w'\<rparr>, more)" using pub(1) sent(1) by (simp add: server_publish_def)
  then have "handle_message env fd (le_bytes 4 (op_code event_serv_msg_t_PUBLISH) @ ?msg @ tail) p = Some (p\<lparr>kernel := w'\<rparr>, more, True)"
    using len lm key by (simp add: handle_message_def Let_def u32_at_front sizeof_event_serv_msg_t_def sizeof_std_event_msg_t_def)
  then show ?thesis using sent(2,3) pub(3)
    by (intro exI [of _ "p\<lparr>kernel := w'\<rparr>"] exI [of _ more]) simp
qed

section \<open>A concrete environment\<close>

text \<open>
  A kernel with one stream that is read and one stream for each descriptor that is written. A read
  returns at most two bytes at a time, a send takes at most five.
\<close>

type_synonym demo_kernel = "u8 list \<times> (int \<Rightarrow> u8 list)"

definition demo_read :: "demo_kernel fo" where
  "demo_read w fd bs = (case pipe_read 1 (fst w) fd bs of (r, b, n, e) \<Rightarrow> ((r, snd w), b, n, e))"

definition demo_send :: "demo_kernel msg_call" where
  "demo_send w fd iov flags = (case pipe_send 4 (snd w) fd iov flags of (a, v, n, e) \<Rightarrow> ((fst w, a), v, n, e))"

definition demo_env :: "demo_kernel event_env" where
  "demo_env = \<lparr>ev_read = demo_read, ev_recvmsg = demo_send, ev_sendmsg = demo_send, ev_select = ready_select,
     ev_setbuf = (\<lambda>_ _ w. (w, STD_ERR_OK)), ev_junk = replicate 16 0, ev_mem = (\<lambda>_. True)\<rparr>"

interpretation demo_source: reliable_source "ev_read demo_env" fd fst for fd
  by standard (auto simp: demo_env_def demo_read_def pipe_read_def Let_def min_def split: if_splits)

interpretation demo_sink: byte_sink "ev_sendmsg demo_env" "ev_select demo_env" snd "\<lambda>_. 0"
  by standard (auto simp: demo_env_def demo_send_def pipe_send_def ready_select_def total_len_concat Let_def)

definition full_key :: "u32 list \<Rightarrow> std_event_key_t" where
  "full_key ks = \<lparr>key_len = of_nat (length ks), event_key = ks @ replicate (STD_EVENT_KEY_MAX - length ks) 0\<rparr>"

text \<open>Client 7 is connected, clients 5 and 7 are registered for [1], and a message is on the stream.\<close>

definition demo_server :: "u8 list \<Rightarrow> demo_kernel std_socket_event_server_t" where
  "demo_server bs = \<lparr>m_event_clients = (\<lambda>_. None)(5 \<mapsto> [], 7 \<mapsto> [9, 9]), m_reg_tree = Std_node [] [(1, Std_node [5, 7] [])],
     kernel = (bs, \<lambda>_. [])\<rparr>"

text \<open>Client 5 is connected and has sent data; while its job is due, client 6 is accepted and announced.\<close>

lemma event_run_overlap:
  "\<exists>s. service_reachable regular (std_event_server_init demo_env) (new_event_server ([], \<lambda>_. [])) s \<and>
    in_work s = [(At_some_data, 5), (At_new_client, 6)] \<and> handlers_overlap 0 s"
proof -
  let ?R = "\<lambda>s. service_reachable regular (std_event_server_init demo_env) (new_event_server ([], \<lambda>_. [])) s"
  obtain a where "new_client (std_event_server_init demo_env) 5 (new_event_server ([], \<lambda>_. [])) = Some (a, [], True)"
    by (simp add: std_event_server_init_def server_init_def event_new_client_def new_event_server_def
        new_client_connection_def demo_env_def Let_def)
  then have "?R (run_state a [5] {3, 4} [] 5 2 [] [(At_some_data, 5)] {3, 4, 5} S_top)"
    by (intro run_data_job) simp_all
  then have "?R (run_state a [5] {3, 4} [] 5 2 [] [(At_some_data, 5)] {3, 4, 5} (S_ready {3}))"
    by (rule run_ready [OF run_head]) simp_all
  then have "?R (run_state a (insort_insert 6 [5]) {3, 4} [] 5 2 [(Queue_and_add_socket, 6)] [(At_some_data, 5)] (insert 6 {3, 4, 5}) (S_clients {3} None))"
    by (rule run_accept) (simp_all add: looks_up_def)
  then have "?R (run_state a (insort_insert 6 [5]) {3, 4} [] 5 2 [] ([(At_some_data, 5)] @ [(job_start Queue_and_add_socket, 6)])
      (insert 6 {3, 4, 5}) (S_clients {3} None))" (is "service_reachable _ _ _ ?s")
    by (rule run_take) simp_all
  moreover have "in_work ?s = [(At_some_data, 5), (At_new_client, 6)] \<and> handlers_overlap 0 ?s"
    by (simp add: run_state_def handlers_overlap_def handlers_conflict_def upt_rec)
  ultimately show ?thesis by blast
qed

section \<open>Properties\<close>

text \<open> C16: The socket service and the event service keep the protocol between them: in a regular run, in which
  no handler for data meets one that announces or takes away a client, the handler for
  data and the one for a closed connection are only called for a client that has its buffer, the one
  for a new connection only for a descriptor that has none; always, every client that is registered for a
  key is connected, and every connected one is a client of the socket service. Nothing in the code keeps those
  handlers apart: a run of the service leads to a state where the handler for data, which takes no lock,
  looks into the map of the clients while the handler for a new connection may change it.
\<close>

theorem event_server_protocol:
  assumes "service_reachable regular (std_event_server_init env) (new_event_server w) s"
  shows "(\<forall>(pc, fd)\<in>set (in_work s). (pc = At_new_client \<longrightarrow> m_event_clients (app s) fd = None) \<and>
      (pc \<in> {At_some_data, At_del_client} \<longrightarrow> m_event_clients (app s) fd \<noteq> None)) \<and>
    registered (m_reg_tree (app s)) \<subseteq> dom (m_event_clients (app s)) \<and> dom (m_event_clients (app s)) \<subseteq> set (m_clients s) \<and>
    (\<exists>s. service_reachable regular (std_event_server_init demo_env) (new_event_server ([], \<lambda>_. [])) s \<and>
      in_work s = [(At_some_data, 5), (At_new_client, 6)] \<and> handlers_overlap 0 s)"
proof -
  have "event_server_ok (app s)"
    using event_handlers.agrees_reachable [OF assms new_event_server_ok] by (simp add: agrees_def)
  then show ?thesis using event_handlers.handlers_called [OF assms new_event_server_ok] event_run_overlap
    unfolding connected_clients_def event_server_ok_def by (auto simp: domIff)
qed

text \<open>A run up to the announcement of a connection, descriptor 5.\<close>

theorem event_server_protocol_witness:
  "m_event_clients (app (run_state (new_event_server ()) [5] {3, 4} [] 4 0 [] [(At_new_client, 5)] {3, 4, 5} (S_clients {3} None))) 5 = None"
proof -
  let ?c = "new_event_server ()"
  have "service_reachable regular (std_event_server_init env) ?c
      (run_state ?c (insort_insert 5 []) {3, 4} [] 4 0 [] ([] @ [(job_start Queue_and_add_socket, 5)]) (insert 5 {3, 4}) (S_clients {3} None))" for env
    by (rule run_take [OF run_accept [OF run_ready [OF run_head [OF run_start]]]]) simp_all
  from event_server_protocol [OF this] show ?thesis by (simp add: run_state_def insert_commute insort_insert_key_def)
qed

text \<open> C17: A registration arrives: registering keys puts one message for each key on the stream, all of them when
  it reports success, and a message of this kind that is next on the stream of a connected client
  makes the service record, or drop, exactly the pair of the key and this client, consume the message
  and keep the connection. Bytes of an earlier, longer message in the buffer do not matter. Assumed are memory for
  the nodes of the tree, keys of at most 16 elements (a longer \<open>key_len\<close> makes the code read beyond the key), and
  reads that do not fail.
\<close>

theorem event_registration_arrives:
  assumes "byte_sink (ev_sendmsg env) (ev_select env) accepted hiccups" and "reliable_source (ev_read env) fd pend"
    and "length (ev_junk env) = 16" "\<forall>i. ev_mem env i" and "m_event_clients p fd = Some b" "node_ok (m_reg_tree p)"
    and "\<forall>key\<in>set keys. length (event_key key) = STD_EVENT_KEY_MAX" and "key \<in> set keys" "unat (key_len key) \<le> STD_EVENT_KEY_MAX"
  shows "(\<exists>w' rc k. std_client_register_interest env h keys w = Some (w', rc) \<and>
      accepted w' = (accepted w)(h := accepted w h @ take k (key_frames event_serv_msg_t_ADD_REG keys)) \<and>
      (rc = STD_ERR_OK \<longrightarrow> k = length (key_frames event_serv_msg_t_ADD_REG keys))) \<and>
    (pend (kernel p) = frame (op_code event_serv_msg_t_ADD_REG) (key_bytes key) @ rest \<longrightarrow>
      (\<exists>p'. event_some_data env fd p = Some (p', [], True) \<and> pend (kernel p') = rest \<and> m_event_clients p' fd \<noteq> None \<and>
        registrations (m_reg_tree p') = insert (key_path key, fd) (registrations (m_reg_tree p)))) \<and>
    (pend (kernel p) = frame (op_code event_serv_msg_t_DEL_REG) (key_bytes key) @ rest \<longrightarrow>
      (\<exists>p'. event_some_data env fd p = Some (p', [], True) \<and> pend (kernel p') = rest \<and> m_event_clients p' fd \<noteq> None \<and>
        registrations (m_reg_tree p') = registrations (m_reg_tree p) - {(key_path key, fd)}))"
proof (intro conjI impI)
  show "\<exists>w' rc k. std_client_register_interest env h keys w = Some (w', rc) \<and>
      accepted w' = (accepted w)(h := accepted w h @ take k (key_frames event_serv_msg_t_ADD_REG keys)) \<and>
      (rc = STD_ERR_OK \<longrightarrow> k = length (key_frames event_serv_msg_t_ADD_REG keys))"
    unfolding std_client_register_interest_def by (rule client_send_key_op_frames [OF assms(1,7)])
next
  have len: "length (event_key key) = STD_EVENT_KEY_MAX" using assms(7,8) by blast
  have ok: "key_ok key" using len assms(9) by (simp add: key_ok_def)
  have small: "4 + length (key_bytes key) < 2 ^ 31" using len by (simp add: length_key_bytes STD_EVENT_KEY_MAX_def)
  note arrive = event_some_data_frame [OF assms(2,3,5) _ small]
  show "\<exists>p'. event_some_data env fd p = Some (p', [], True) \<and> pend (kernel p') = rest \<and> m_event_clients p' fd \<noteq> None \<and>
        registrations (m_reg_tree p') = insert (key_path key, fd) (registrations (m_reg_tree p))"
    if frame: "pend (kernel p) = frame (op_code event_serv_msg_t_ADD_REG) (key_bytes key) @ rest"
  proof -
    obtain v tail where v: "pend v = rest" "event_some_data env fd p = handle_message env fd
          (le_bytes 4 (op_code event_serv_msg_t_ADD_REG) @ key_bytes key @ tail)
          (p\<lparr>m_event_clients := (m_event_clients p)(fd \<mapsto> le_bytes 4 (op_code event_serv_msg_t_ADD_REG) @ key_bytes key @ tail), kernel := v\<rparr>)"
      using arrive [OF frame] by blast
    let ?p = "p\<lparr>m_event_clients := (m_event_clients p)(fd \<mapsto> le_bytes 4 (op_code event_serv_msg_t_ADD_REG) @ key_bytes key @ tail), kernel := v\<rparr>"
    have "node_ok (m_reg_tree ?p)" using assms(6) by simp
    from handle_registration(1) [OF this ok assms(4), of fd tail] v show ?thesis by auto
  qed
  show "\<exists>p'. event_some_data env fd p = Some (p', [], True) \<and> pend (kernel p') = rest \<and> m_event_clients p' fd \<noteq> None \<and>
        registrations (m_reg_tree p') = registrations (m_reg_tree p) - {(key_path key, fd)}"
    if frame: "pend (kernel p) = frame (op_code event_serv_msg_t_DEL_REG) (key_bytes key) @ rest"
  proof -
    obtain v tail where v: "pend v = rest" "event_some_data env fd p = handle_message env fd
          (le_bytes 4 (op_code event_serv_msg_t_DEL_REG) @ key_bytes key @ tail)
          (p\<lparr>m_event_clients := (m_event_clients p)(fd \<mapsto> le_bytes 4 (op_code event_serv_msg_t_DEL_REG) @ key_bytes key @ tail), kernel := v\<rparr>)"
      using arrive [OF frame] by blast
    let ?p = "p\<lparr>m_event_clients := (m_event_clients p)(fd \<mapsto> le_bytes 4 (op_code event_serv_msg_t_DEL_REG) @ key_bytes key @ tail), kernel := v\<rparr>"
    have "node_ok (m_reg_tree ?p)" using assms(6) by simp
    from handle_registration(2) [OF this ok assms(4), of fd tail] v show ?thesis by auto
  qed
qed

text \<open>Client 7 registers for [2].\<close>

theorem event_registration_arrives_witness:
  "\<exists>p'. event_some_data demo_env 7 (demo_server (frame 0 (key_bytes (full_key [2])))) = Some (p', [], True) \<and>
    registrations (m_reg_tree p') = insert ([2], 7) (registrations (m_reg_tree (demo_server [])))"
proof -
  let ?p = "demo_server (frame 0 (key_bytes (full_key [2])))"
  have "length (ev_junk demo_env) = 16" "\<forall>i. ev_mem demo_env i" "m_event_clients ?p 7 = Some [9, 9]" "node_ok (m_reg_tree ?p)"
    "\<forall>key\<in>set [full_key [2]]. length (event_key key) = STD_EVENT_KEY_MAX" "full_key [2] \<in> set [full_key [2]]"
    "unat (key_len (full_key [2])) \<le> STD_EVENT_KEY_MAX"
    by (simp_all add: demo_env_def demo_server_def full_key_def STD_EVENT_KEY_MAX_def)
  from event_registration_arrives [OF demo_sink.byte_sink_axioms demo_source.reliable_source_axioms this, of _ undefined "[]"]
  show ?thesis by (simp add: demo_server_def key_path_def full_key_def) blast
qed

text \<open> C18: A published event arrives: a message from a connected client is received and sent on, unchanged, to every
  client that is registered for a prefix of its key other than the empty one, once, and to nobody else. Those
  that do not get all of it, and no others, are given to the socket service to be closed; when every call of
  \<open>sendmsg\<close> accepts something, nobody is.
\<close>

theorem event_publish_arrives:
  assumes "byte_sink (ev_sendmsg env) (ev_select env) accepted hiccups" and "reliable_source (ev_read env) fd pend"
    and "\<forall>w h bs. accepted (fst (ev_read env w h bs)) = accepted w"
    and "length (ev_junk env) = 16" and "m_event_clients p fd = Some b"
    and "length (event_key key) = STD_EVENT_KEY_MAX" "unat (key_len key) \<le> STD_EVENT_KEY_MAX" "length data + 76 < 2 ^ 31"
    and "pend (kernel p) = frame (op_code event_serv_msg_t_PUBLISH) (msg_bytes key data) @ rest"
    and "R = {x. \<exists>q. q \<noteq> [] \<and> prefix q (key_path key) \<and> (q, x) \<in> registrations (m_reg_tree p)}"
    and "msg = frame (op_code event_serv_msg_t_PUBLISH) (msg_bytes key data)"
  shows "\<exists>p' closes. event_some_data env fd p = Some (p', closes, True) \<and> m_reg_tree p' = m_reg_tree p \<and> set closes \<subseteq> R \<and>
    (\<forall>x. x \<notin> R \<longrightarrow> accepted (kernel p') x = accepted (kernel p) x) \<and>
    (\<forall>x\<in>R. \<exists>k \<le> length msg. accepted (kernel p') x = accepted (kernel p) x @ take k msg \<and>
      (x \<in> set closes \<longleftrightarrow> k < length msg)) \<and>
    ((\<forall>w h iov flags. concat iov \<noteq> [] \<longrightarrow> 0 < fst (snd (snd (ev_sendmsg env w h iov flags)))) \<longrightarrow> closes = [])"
proof -
  have small: "4 + length (msg_bytes key data) < 2 ^ 31"
    using assms(6,8) by (simp add: msg_bytes_def length_key_bytes STD_EVENT_KEY_MAX_def)
  obtain v tail where v: "accepted v = accepted (kernel p)" "event_some_data env fd p = handle_message env fd
        (le_bytes 4 (op_code event_serv_msg_t_PUBLISH) @ msg_bytes key data @ tail)
        (p\<lparr>m_event_clients := (m_event_clients p)(fd \<mapsto> le_bytes 4 (op_code event_serv_msg_t_PUBLISH) @ msg_bytes key data @ tail), kernel := v\<rparr>)"
    using event_some_data_frame [OF assms(2,4,5,9) small] assms(3) by blast
  let ?p = "p\<lparr>m_event_clients := (m_event_clients p)(fd \<mapsto> le_bytes 4 (op_code event_serv_msg_t_PUBLISH) @ msg_bytes key data @ tail), kernel := v\<rparr>"
  have fields: "m_reg_tree ?p = m_reg_tree p" "kernel ?p = v" by simp_all
  show ?thesis
    using handle_publish [OF assms(1,6,7,8), of fd tail ?p]
    unfolding fields v assms(10) [symmetric] assms(11) [symmetric] published_def willing_def by blast
qed

text \<open>Client 7 publishes two bytes for [1, 4]; clients 5 and 7, registered for [1], get the message, and none is closed.\<close>

theorem event_publish_arrives_witness:
  "\<exists>p'. event_some_data demo_env 7 (demo_server (frame 2 (msg_bytes (full_key [1, 4]) [6, 6]))) = Some (p', [], True) \<and>
    snd (kernel p') 5 = frame 2 (msg_bytes (full_key [1, 4]) [6, 6]) \<and> snd (kernel p') 7 = frame 2 (msg_bytes (full_key [1, 4]) [6, 6])"
proof -
  let ?p = "demo_server (frame 2 (msg_bytes (full_key [1, 4]) [6, 6]))"
  have "\<forall>w h bs. snd (fst (ev_read demo_env w h bs)) = snd w" "length (ev_junk demo_env) = 16" "m_event_clients ?p 7 = Some [9, 9]"
    "length (event_key (full_key [1, 4])) = STD_EVENT_KEY_MAX" "unat (key_len (full_key [1, 4])) \<le> STD_EVENT_KEY_MAX"
    "length [6, 6 :: u8] + 76 < 2 ^ 31"
    "fst (kernel ?p) = frame (op_code event_serv_msg_t_PUBLISH) (msg_bytes (full_key [1, 4]) [6, 6]) @ []"
    by (simp_all add: demo_env_def demo_read_def demo_server_def full_key_def STD_EVENT_KEY_MAX_def split: prod.split)
  note arrive = event_publish_arrives [OF demo_sink.byte_sink_axioms demo_source.reliable_source_axioms this refl refl]
  have k: "key_path (full_key [1, 4]) = [1, 4]" by (simp add: key_path_def full_key_def)
  have "([1], 5) \<in> registrations (m_reg_tree ?p)" "([1], 7) \<in> registrations (m_reg_tree ?p)"
    by (simp_all add: demo_server_def registrations_Cons registrations_Nil node_find_def)
  then have R: "{5, 7} \<subseteq> {x. \<exists>q. q \<noteq> [] \<and> prefix q [1, 4] \<and> (q, x) \<in> registrations (m_reg_tree ?p)}"
    by (auto intro!: exI [of _ "[1 :: u32]"])
  have "0 < fst (snd (snd (ev_sendmsg demo_env w h iov flags)))" if "concat iov \<noteq> []" for w h iov flags
    using that by (auto simp: demo_env_def demo_send_def pipe_send_def Let_def split: prod.split)
  then have send: "\<forall>w h iov flags. concat iov \<noteq> [] \<longrightarrow> 0 < fst (snd (snd (ev_sendmsg demo_env w h iov flags)))" by blast
  let ?R = "{x. \<exists>q. q \<noteq> [] \<and> prefix q [1, 4] \<and> (q, x) \<in> registrations (m_reg_tree ?p)}"
  let ?m = "frame (op_code event_serv_msg_t_PUBLISH) (msg_bytes (full_key [1, 4]) [6, 6])"
  obtain p' closes where p': "event_some_data demo_env 7 ?p = Some (p', closes, True)"
      "\<forall>x\<in>?R. \<exists>k \<le> length ?m. snd (kernel p') x = snd (kernel ?p) x @ take k ?m \<and> (x \<in> set closes \<longleftrightarrow> k < length ?m)"
      "(\<forall>w h iov flags. concat iov \<noteq> [] \<longrightarrow> 0 < fst (snd (snd (ev_sendmsg demo_env w h iov flags)))) \<longrightarrow> closes = []"
    using arrive unfolding k by (elim exE conjE) (rule that)
  have none: "closes = []" by (rule p'(3) [THEN mp, OF send])
  have full: "snd (kernel p') x = ?m" if mem: "x \<in> ?R" for x
  proof -
    obtain j where "j \<le> length ?m" "snd (kernel p') x = snd (kernel ?p) x @ take j ?m" "\<not> j < length ?m"
      using bspec [OF p'(2) mem] none by auto
    then show ?thesis by (simp add: demo_server_def)
  qed
  have "5 \<in> ?R" "7 \<in> ?R" using R by blast+
  from full [OF this(1)] full [OF this(2)] show ?thesis using p'(1) none by simp
qed

text \<open> C19: What follows a failed delivery: the socket service closes the descriptor without telling the event
  service, which keeps the client and its registrations, so that a new connection that gets the same
  number is refused.
\<close>

theorem event_failed_delivery_blocks:
  assumes "fd \<in> set (m_pending_close s)" "m_event_clients (app s) fd = Some b"
  shows "fd \<notin> open_fds (loop_head s) \<and> fd \<notin> set (m_clients (loop_head s)) \<and> fd \<notin> pending (loop_head s) \<and>
    m_event_clients (app (loop_head s)) fd = Some b \<and>
    registrations (m_reg_tree (app (loop_head s))) = registrations (m_reg_tree (app s)) \<and>
    (\<exists>p. event_new_client env fd (app (loop_head s)) = Some (p, [], False))"
proof -
  have "loop_head s = (process_closed s)\<lparr>server := server (loop_head s)\<rparr>" by (simp add: loop_head_def Let_def)
  moreover have "app (process_closed s) = app s" "open_fds (process_closed s) = open_fds s - set (m_pending_close s)"
      "set (m_clients (process_closed s)) = set (m_clients s) - set (m_pending_close s)"
      "pending (process_closed s) = pending s - set (m_pending_close s)"
    using assms(1) by (auto simp: process_closed_def setup_max_fd_def close_loop_eq)
  ultimately have "app (loop_head s) = app s" "fd \<notin> open_fds (loop_head s)" "fd \<notin> set (m_clients (loop_head s))" "fd \<notin> pending (loop_head s)"
    using assms(1) by (metis (no_types, lifting) DiffD2 std_socket_service_data_t.select_convs std_socket_service_data_t.surjective
        std_socket_service_data_t.update_convs(12))+
  then show ?thesis using assms(2) by (simp add: event_new_client_def)
qed

theorem event_failed_delivery_blocks_witness:
  "\<exists>p. event_new_client demo_env 7 (app (loop_head (run_state (demo_server []) [7] {3, 4, 7} [7] 7 0 [] [] {3, 4, 7} S_top))) = Some (p, [], False)"
  using event_failed_delivery_blocks [of 7 "run_state (demo_server []) [7] {3, 4, 7} [7] 7 0 [] [] {3, 4, 7} S_top" "[9, 9]" demo_env]
  by (simp add: run_state_def demo_server_def)

end
