(* ===== verification/ThreadPool.thy ===== *)
theory ThreadPool
  imports ErrorCodes "HOL-Library.Multiset"
begin

text \<open>
  The pool of worker threads of \<open>src/std_thread_pool.cpp\<close> as a state machine. What a thread does
  while it holds \<open>m_lock\<close> is cut at the tests of \<open>shutdown\<close>, which is written without the lock; the
  sections of the other threads are one step each. A signal wakes one of the waiting threads, which
  one is the argument \<open>pick\<close>; threads may also wake up for no reason. The fields \<open>added\<close>, \<open>started\<close>
  and \<open>finished\<close> are the history of the jobs.
\<close>

section \<open>The pool\<close>

text \<open>
  Where a worker is: about to lock (at its start or at the end of the wait), at the test of the loop,
  at the start of \<open>dequeue\<close>, in a job, about to lock behind a job, waiting for the condition, gone.
\<close>

datatype 'j worker = Wants_lock | At_test | At_dequeue | Running 'j | Relock | Waiting | Exited

record 'j std_thread_pool_context_t =
  m_lock :: "nat option"
  workers :: "'j worker list"
  jobs :: "'j list"
  shutdown :: bool
  signals_left :: nat
  destroyed :: bool
  added :: "'j list"
  started :: "'j list"
  finished :: "'j list"

definition put_worker :: "nat \<Rightarrow> 'j worker \<Rightarrow> 'j std_thread_pool_context_t \<Rightarrow> 'j std_thread_pool_context_t" where
  "put_worker w s p = p\<lparr>workers := (workers p)[w := s]\<rparr>"

fun is_waiting :: "'j worker \<Rightarrow> bool" where
  "is_waiting Waiting = True"
| "is_waiting _ = False"

definition waiters :: "'j std_thread_pool_context_t \<Rightarrow> nat list" where
  "waiters p = filter (\<lambda>w. is_waiting (workers p ! w)) [0..<length (workers p)]"

definition cond_signal :: "nat \<Rightarrow> 'j std_thread_pool_context_t \<Rightarrow> 'j std_thread_pool_context_t" where
  "cond_signal pick p =
    (if waiters p = [] then p else put_worker (waiters p ! (pick mod length (waiters p))) Wants_lock p)"

section \<open>Jobs and workers\<close>

text \<open>A step that is blocked, or is not the next one of the thread, is None.\<close>

definition std_thread_pool_job_add :: "nat \<Rightarrow> bool \<Rightarrow> 'j \<Rightarrow> 'j std_thread_pool_context_t \<Rightarrow>
    ('j std_thread_pool_context_t \<times> t_std_error) option" where
  "std_thread_pool_job_add pick mem_ok job p =
    (if m_lock p \<noteq> None then None
     else if \<not> mem_ok then Some (p, STD_ERR e_std_err_COM e_std_err_code_FAIL 0)
     else Some (cond_signal pick (p\<lparr>jobs := jobs p @ [job], added := added p @ [job]\<rparr>), STD_ERR_OK))"

definition cond_wait :: "nat \<Rightarrow> 'j std_thread_pool_context_t \<Rightarrow> 'j std_thread_pool_context_t" where
  "cond_wait w p = put_worker w Waiting (p\<lparr>m_lock := None\<rparr>)"

text \<open>\<open>dequeue\<close> up to the job or to its result false, upon which the worker waits.\<close>

definition dequeue :: "nat \<Rightarrow> nat \<Rightarrow> 'j std_thread_pool_context_t \<Rightarrow> 'j std_thread_pool_context_t" where
  "dequeue pick w p =
    (if shutdown p then cond_wait w (cond_signal pick p)
     else
       (case jobs p of
          [] \<Rightarrow> cond_wait w p
        | job # rest \<Rightarrow>
            (let p = p\<lparr>jobs := rest, started := started p @ [job]\<rparr>;
                 p = (if length rest + 1 > 1 then cond_signal pick p else p)
             in put_worker w (Running job) (p\<lparr>m_lock := None\<rparr>))))"

definition worker_step :: "nat \<Rightarrow> nat \<Rightarrow> 'j std_thread_pool_context_t \<Rightarrow> 'j std_thread_pool_context_t option" where
  "worker_step pick w p =
    (if w \<ge> length (workers p) then None
     else
       (case workers p ! w of
          Wants_lock \<Rightarrow> if m_lock p \<noteq> None then None else Some (put_worker w At_test (p\<lparr>m_lock := Some w\<rparr>))
        | At_test \<Rightarrow>
            if \<not> shutdown p then Some (put_worker w At_dequeue p)
            else Some (put_worker w Exited (p\<lparr>m_lock := None\<rparr>))
        | At_dequeue \<Rightarrow> Some (dequeue pick w p)
        | Running job \<Rightarrow> Some (put_worker w Relock (p\<lparr>finished := finished p @ [job]\<rparr>))
        | Relock \<Rightarrow>
            if m_lock p \<noteq> None then None
            else if length (jobs p) > 0 then Some (put_worker w At_test (p\<lparr>m_lock := Some w\<rparr>))
            else Some (cond_wait w p)
        | Waiting \<Rightarrow> None
        | Exited \<Rightarrow> None))"

section \<open>Creation and shutdown\<close>

fun create_loop :: "(nat \<Rightarrow> bool) \<Rightarrow> nat \<Rightarrow> nat \<Rightarrow> 'j std_thread_pool_context_t \<Rightarrow> 'j std_thread_pool_context_t \<times> bool" where
  "create_loop thread_create ix 0 p = (p, True)"
| "create_loop thread_create ix (Suc left) p =
     (if thread_create ix then create_loop thread_create (Suc ix) left (p\<lparr>workers := workers p @ [Wants_lock]\<rparr>)
      else (p, False))"

definition new_pool :: "'j std_thread_pool_context_t" where
  "new_pool = \<lparr>m_lock = None, workers = [], jobs = [], shutdown = False, signals_left = 0, destroyed = False,
     added = [], started = [], finished = []\<rparr>"

text \<open>\<open>do_shutdown\<close>: the flag, one signal for each thread, each under the lock, and the end of the objects.\<close>

definition shutdown_begin :: "'j std_thread_pool_context_t \<Rightarrow> 'j std_thread_pool_context_t" where
  "shutdown_begin p = p\<lparr>shutdown := True, signals_left := length (workers p)\<rparr>"

definition shutdown_signal :: "nat \<Rightarrow> 'j std_thread_pool_context_t \<Rightarrow> 'j std_thread_pool_context_t option" where
  "shutdown_signal pick p =
    (if signals_left p = 0 then Some (p\<lparr>destroyed := True\<rparr>)
     else if m_lock p \<noteq> None then None
     else Some ((cond_signal pick p)\<lparr>signals_left := signals_left p - 1\<rparr>))"

definition std_thread_pool_create :: "(nat \<Rightarrow> bool) \<Rightarrow> nat \<Rightarrow> 'j std_thread_pool_context_t \<times> t_std_error" where
  "std_thread_pool_create thread_create thread_pool_size =
    (case create_loop thread_create 0 thread_pool_size new_pool of
       (p, True) \<Rightarrow> (p, STD_ERR_OK)
     | (p, False) \<Rightarrow> (shutdown_begin p, STD_ERR e_std_err_COM e_std_err_code_FAIL 0))"

section \<open>Steps\<close>

inductive pool_step :: "'j std_thread_pool_context_t \<Rightarrow> 'j std_thread_pool_context_t \<Rightarrow> bool" where
  worker: "worker_step pick w p = Some p' \<Longrightarrow> pool_step p p'"
| spurious: "w < length (workers p) \<Longrightarrow> workers p ! w = Waiting \<Longrightarrow> pool_step p (put_worker w Wants_lock p)"
| add: "\<not> shutdown p \<Longrightarrow> std_thread_pool_job_add pick mem_ok job p = Some (p', rc) \<Longrightarrow> pool_step p p'"
| begin_shutdown: "\<not> shutdown p \<Longrightarrow> pool_step p (shutdown_begin p)"
| do_shutdown: "shutdown p \<Longrightarrow> \<not> destroyed p \<Longrightarrow> shutdown_signal pick p = Some p' \<Longrightarrow> pool_step p p'"

inductive pool_reachable :: "nat \<Rightarrow> 'j std_thread_pool_context_t \<Rightarrow> bool" for n where
  created: "std_thread_pool_create thread_create n = (p, STD_ERR_OK) \<Longrightarrow> pool_reachable n p"
| step: "pool_reachable n p \<Longrightarrow> pool_step p p' \<Longrightarrow> pool_reachable n p'"

text \<open>The steps of the workers alone, without the ends of jobs.\<close>

inductive dispatch :: "'j std_thread_pool_context_t \<Rightarrow> 'j std_thread_pool_context_t \<Rightarrow> bool" where
  refl: "dispatch p p"
| step: "worker_step pick w p = Some p' \<Longrightarrow> finished p' = finished p \<Longrightarrow> dispatch p' p'' \<Longrightarrow> dispatch p p''"

section \<open>The invariant\<close>

definition holds_lock :: "'j worker \<Rightarrow> bool" where
  "holds_lock s \<longleftrightarrow> s = At_test \<or> s = At_dequeue"

text \<open>A worker on its way to the queue.\<close>

definition awake :: "'j worker \<Rightarrow> bool" where
  "awake s \<longleftrightarrow> s \<in> {Wants_lock, At_test, At_dequeue, Relock}"

fun job_of :: "'j worker \<Rightarrow> 'j list" where
  "job_of (Running j) = [j]"
| "job_of _ = []"

definition running :: "'j std_thread_pool_context_t \<Rightarrow> 'j list" where
  "running p = concat (map job_of (workers p))"

definition lock_ok :: "'j std_thread_pool_context_t \<Rightarrow> bool" where
  "lock_ok p \<longleftrightarrow> (\<forall>w. m_lock p = Some w \<longleftrightarrow> w < length (workers p) \<and> holds_lock (workers p ! w))"

definition history_ok :: "'j std_thread_pool_context_t \<Rightarrow> bool" where
  "history_ok p \<longleftrightarrow> added p = started p @ jobs p \<and> mset (started p) = mset (finished p) + mset (running p)"

definition wakeup_ok :: "'j std_thread_pool_context_t \<Rightarrow> bool" where
  "wakeup_ok p \<longleftrightarrow> (\<not> shutdown p \<and> jobs p \<noteq> [] \<and> Waiting \<in> set (workers p) \<longrightarrow> (\<exists>s\<in>set (workers p). awake s)) \<and>
     (\<not> shutdown p \<longrightarrow> Exited \<notin> set (workers p))"

lemma is_waiting_iff: "is_waiting s \<longleftrightarrow> s = Waiting"
  by (cases s) simp_all

lemma set_waiters: "set (waiters p) = {w. w < length (workers p) \<and> workers p ! w = Waiting}"
  by (auto simp: waiters_def is_waiting_iff)

text \<open>A signal changes nothing when nobody waits, and otherwise wakes one worker.\<close>

lemma cond_signal_cases:
  obtains (nobody) "Waiting \<notin> set (workers p)" "cond_signal pick p = p"
  | (woken) w where "w < length (workers p)" "workers p ! w = Waiting" "cond_signal pick p = put_worker w Wants_lock p"
proof (cases "waiters p = []")
  case True
  then have "{w. w < length (workers p) \<and> workers p ! w = Waiting} = {}" using set_waiters [of p] by simp
  then show ?thesis using nobody True by (auto simp: cond_signal_def in_set_conv_nth)
next
  case False
  then have "waiters p ! (pick mod length (waiters p)) \<in> set (waiters p)" by simp
  then show ?thesis using False unfolding set_waiters by (intro woken) (simp_all add: cond_signal_def)
qed

lemma put_worker_fields [simp]:
  "m_lock (put_worker w s p) = m_lock p" "workers (put_worker w s p) = (workers p)[w := s]"
  "jobs (put_worker w s p) = jobs p" "shutdown (put_worker w s p) = shutdown p"
  "added (put_worker w s p) = added p" "started (put_worker w s p) = started p" "finished (put_worker w s p) = finished p"
  "signals_left (put_worker w s p) = signals_left p" "destroyed (put_worker w s p) = destroyed p"
  by (simp_all add: put_worker_def)

lemma cond_signal_fields [simp]:
  "m_lock (cond_signal pick p) = m_lock p" "length (workers (cond_signal pick p)) = length (workers p)"
  "jobs (cond_signal pick p) = jobs p" "shutdown (cond_signal pick p) = shutdown p"
  "added (cond_signal pick p) = added p" "started (cond_signal pick p) = started p" "finished (cond_signal pick p) = finished p"
  "signals_left (cond_signal pick p) = signals_left p" "destroyed (cond_signal pick p) = destroyed p"
  by (simp_all add: cond_signal_def)

lemma lock_okI:
  assumes "\<And>w. m_lock p = Some w \<longleftrightarrow> w < length (workers p) \<and> holds_lock (workers p ! w)"
  shows "lock_ok p"
  using assms by (simp add: lock_ok_def)

lemma lock_okD: "lock_ok p \<Longrightarrow> m_lock p = Some w \<longleftrightarrow> w < length (workers p) \<and> holds_lock (workers p ! w)"
  by (simp add: lock_ok_def)

lemma lock_ok_same:
  assumes "lock_ok p" "w < length (workers p)" "holds_lock s = holds_lock (workers p ! w)"
  shows "lock_ok (put_worker w s p)"
proof (rule lock_okI)
  fix v
  show "m_lock (put_worker w s p) = Some v \<longleftrightarrow> v < length (workers (put_worker w s p)) \<and> holds_lock (workers (put_worker w s p) ! v)"
    using lock_okD [OF assms(1), of v] assms(2,3) by (cases "v = w") auto
qed

lemma lock_ok_unlock:
  assumes "lock_ok p" "w < length (workers p)" "holds_lock (workers p ! w)" "\<not> holds_lock s"
  shows "lock_ok (put_worker w s (p\<lparr>m_lock := None\<rparr>))"
proof (rule lock_okI)
  fix v
  have "v = w" if "v < length (workers p)" "holds_lock (workers p ! v)"
    using lock_okD [OF assms(1), of v] lock_okD [OF assms(1), of w] assms(2,3) that by simp
  then show "m_lock (put_worker w s (p\<lparr>m_lock := None\<rparr>)) = Some v \<longleftrightarrow>
      v < length (workers (put_worker w s (p\<lparr>m_lock := None\<rparr>))) \<and> holds_lock (workers (put_worker w s (p\<lparr>m_lock := None\<rparr>)) ! v)"
    using assms(4) by (cases "v = w") auto
qed

lemma lock_ok_lock:
  assumes "lock_ok p" "w < length (workers p)" "m_lock p = None" "holds_lock s"
  shows "lock_ok (put_worker w s (p\<lparr>m_lock := Some w\<rparr>))"
proof (rule lock_okI)
  fix v
  show "m_lock (put_worker w s (p\<lparr>m_lock := Some w\<rparr>)) = Some v \<longleftrightarrow>
      v < length (workers (put_worker w s (p\<lparr>m_lock := Some w\<rparr>))) \<and> holds_lock (workers (put_worker w s (p\<lparr>m_lock := Some w\<rparr>)) ! v)"
    using lock_okD [OF assms(1), of v] assms(2-4) by (cases "v = w") auto
qed

lemma lock_ok_cong: "m_lock p = m_lock q \<Longrightarrow> workers p = workers q \<Longrightarrow> lock_ok p = lock_ok q"
  by (simp add: lock_ok_def)

lemma lock_ok_signal: "lock_ok p \<Longrightarrow> lock_ok (cond_signal pick p)"
  by (rule cond_signal_cases [of p pick]) (simp_all add: lock_ok_same holds_lock_def)

lemma running_put:
  assumes "w < length (workers p)"
  shows "mset (running (put_worker w s p)) + mset (job_of (workers p ! w)) = mset (running p) + mset (job_of s)"
proof -
  have "mset (concat (map job_of (xs[w := s]))) + mset (job_of (xs ! w)) = mset (concat (map job_of xs)) + mset (job_of s)"
    if "w < length xs" for xs :: "'a worker list"
    using that by (induction xs arbitrary: w) (auto simp: less_Suc_eq_0_disj ac_simps)
  from this [OF assms] show ?thesis by (simp add: running_def)
qed

lemma running_signal: "mset (running (cond_signal pick p)) = mset (running p)"
proof (rule cond_signal_cases [of p pick])
  fix w assume "w < length (workers p)" "workers p ! w = Waiting" "cond_signal pick p = put_worker w Wants_lock p"
  then show ?thesis using running_put [of w p Wants_lock] by simp
qed simp

lemma cond_signal_nth: "w < length (workers p) \<Longrightarrow> workers p ! w \<noteq> Waiting \<Longrightarrow> workers (cond_signal pick p) ! w = workers p ! w"
  by (rule cond_signal_cases [of p pick]) (auto simp: nth_list_update)

text \<open>Locking: each step of a worker keeps the owner of the lock in agreement with the threads.\<close>

lemma lock_ok_dequeue:
  assumes "lock_ok p" "w < length (workers p)" "workers p ! w = At_dequeue"
  shows "lock_ok (dequeue pick w p)"
proof -
  let ?r = "\<lambda>j rest. p\<lparr>jobs := rest, started := started p @ [j]\<rparr>"
  have r: "lock_ok (?r j rest)" for j rest using assms(1) by (simp add: lock_ok_def)
  have unlock: "lock_ok (put_worker w s (q\<lparr>m_lock := None\<rparr>))"
    if "lock_ok q" "length (workers q) = length (workers p)" "workers q ! w = At_dequeue" "\<not> holds_lock s" for q s
    using that assms(2) by (intro lock_ok_unlock) (simp_all add: holds_lock_def)
  have sig: "workers (cond_signal pick q) ! w = At_dequeue" if "workers q = workers p" for q
    using cond_signal_nth [of w q pick] that assms by simp
  show ?thesis
    by (cases "jobs p") (auto simp: dequeue_def cond_wait_def Let_def holds_lock_def assms r sig lock_ok_signal intro!: unlock)
qed

lemma worker_step_lock:
  assumes "lock_ok p" "worker_step pick w p = Some p'"
  shows "lock_ok p'"
proof -
  have w: "w < length (workers p)" using assms(2) by (simp add: worker_step_def split: if_splits)
  note rules = lock_ok_same [OF _ w] lock_ok_unlock [OF _ w] lock_ok_lock [OF _ w]
  show ?thesis
  proof (cases "workers p ! w")
    case At_dequeue
    then show ?thesis using assms w lock_ok_dequeue by (auto simp: worker_step_def)
  next
    case (Running j)
    have "lock_ok (p\<lparr>finished := finished p @ [j]\<rparr>)" using assms(1) by (simp add: lock_ok_def)
    then show ?thesis using assms w Running lock_ok_same [of "p\<lparr>finished := finished p @ [j]\<rparr>" w Relock]
      by (auto simp: worker_step_def holds_lock_def)
  next
    case Relock
    have eq: "p\<lparr>m_lock := None\<rparr> = p" if "m_lock p = None" using that by (cases p) simp
    have "lock_ok (put_worker w Waiting (p\<lparr>m_lock := None\<rparr>))" if "m_lock p = None"
      unfolding eq [OF that] using Relock lock_ok_same [OF assms(1) w, of Waiting] by (simp add: holds_lock_def)
    then show ?thesis using assms w Relock rules
      by (auto simp: worker_step_def cond_wait_def holds_lock_def split: if_splits)
  qed (use assms w rules in \<open>auto simp: worker_step_def holds_lock_def split: if_splits\<close>)
qed

text \<open>The history: no job is lost, started twice or out of order.\<close>

lemma history_ok_put:
  assumes "history_ok p" "w < length (workers p)" "job_of s = job_of (workers p ! w)"
  shows "history_ok (put_worker w s p)"
  using running_put [OF assms(2), of s] assms(1,3) by (simp add: history_ok_def)

lemma history_ok_lock [simp]: "history_ok (p\<lparr>m_lock := l\<rparr>) = history_ok p"
  by (simp add: history_ok_def running_def)

lemma history_ok_signal: "history_ok p \<Longrightarrow> history_ok (cond_signal pick p)"
  by (simp add: history_ok_def running_signal)

lemma history_ok_dequeue:
  fixes p :: "'j std_thread_pool_context_t"
  assumes "history_ok p" "w < length (workers p)" "workers p ! w = At_dequeue"
  shows "history_ok (dequeue pick w p)"
proof (cases "shutdown p \<or> jobs p = []")
  case True
  have "history_ok (cond_wait w q)" if "history_ok q" "length (workers q) = length (workers p)" "workers q ! w = At_dequeue"
    for q :: "'j std_thread_pool_context_t"
    using history_ok_put [of "q\<lparr>m_lock := None\<rparr>" w Waiting] that assms(2) by (simp add: cond_wait_def)
  then show ?thesis using True assms cond_signal_nth [of w p pick]
    by (cases "shutdown p") (simp_all add: dequeue_def history_ok_signal)
next
  case False
  then obtain j rest where j: "jobs p = j # rest" by (cases "jobs p") auto
  define q where "q = (let q = p\<lparr>jobs := rest, started := started p @ [j]\<rparr> in if rest \<noteq> [] then cond_signal pick q else q)"
  have q: "mset (running q) = mset (running p)" "workers q ! w = At_dequeue" "w < length (workers q)" "jobs q = rest"
      "added q = added p" "started q = started p @ [j]" "finished q = finished p"
    using assms cond_signal_nth [of w "p\<lparr>jobs := rest, started := started p @ [j]\<rparr>" pick]
    by (simp_all add: q_def running_signal Let_def) (simp_all add: running_def)
  have "dequeue pick w p = put_worker w (Running j) (q\<lparr>m_lock := None\<rparr>)"
    using False j by (simp add: dequeue_def q_def Let_def)
  moreover have "mset (running (put_worker w (Running j) (q\<lparr>m_lock := None\<rparr>))) = mset (running q) + {#j#}"
    using running_put [of w "q\<lparr>m_lock := None\<rparr>" "Running j"] q by (simp add: running_def)
  ultimately show ?thesis using assms(1) q j by (simp add: history_ok_def)
qed

lemma worker_step_history:
  assumes "history_ok p" "worker_step pick w p = Some p'"
  shows "history_ok p'"
proof -
  have w: "w < length (workers p)" using assms(2) by (simp add: worker_step_def split: if_splits)
  have put: "history_ok (put_worker w s (p\<lparr>m_lock := l\<rparr>))" if "job_of s = job_of (workers p ! w)" for s l
    using history_ok_put [of "p\<lparr>m_lock := l\<rparr>" w s] assms(1) w that by simp
  have same: "history_ok (put_worker w s p)" if "job_of s = job_of (workers p ! w)" for s
    using history_ok_put [OF assms(1) w that] .
  show ?thesis
  proof (cases "workers p ! w")
    case At_dequeue
    then show ?thesis using assms w history_ok_dequeue by (auto simp: worker_step_def)
  next
    case (Running j)
    then have "mset (running p) = mset (running (put_worker w Relock p)) + {#j#}" using running_put [OF w, of Relock] by simp
    then show ?thesis using assms w Running by (auto simp: worker_step_def history_ok_def running_def)
  qed (use assms w put same in \<open>auto simp: worker_step_def cond_wait_def split: if_splits\<close>)
qed

text \<open>Waking up: while there are jobs and somebody waits, somebody is on the way to the queue.\<close>

lemma wakeup_okI:
  assumes "\<not> shutdown p \<Longrightarrow> Exited \<notin> set (workers p)"
    and "\<not> shutdown p \<Longrightarrow> jobs p = [] \<or> Waiting \<notin> set (workers p) \<or> (\<exists>v<length (workers p). awake (workers p ! v))"
  shows "wakeup_ok p"
  using assms unfolding wakeup_ok_def by (metis nth_mem)

lemma exited_update: "s \<noteq> Exited \<Longrightarrow> Exited \<notin> set ws \<Longrightarrow> Exited \<notin> set (ws[w := s])"
  using set_update_subset_insert [of ws w s] by auto

lemma exited_signal: "Exited \<notin> set (workers p) \<Longrightarrow> Exited \<notin> set (workers (cond_signal pick p))"
  by (rule cond_signal_cases [of p pick]) (simp_all add: exited_update)

lemma wakeup_put:
  assumes "wakeup_ok p" "w < length (workers p)" "shutdown p \<or> awake s" "s \<noteq> Exited"
  shows "wakeup_ok (put_worker w s p)"
proof (rule wakeup_okI)
  assume run: "\<not> shutdown (put_worker w s p)"
  then show "Exited \<notin> set (workers (put_worker w s p))" using assms(1,4) by (simp add: wakeup_ok_def exited_update)
  show "jobs (put_worker w s p) = [] \<or> Waiting \<notin> set (workers (put_worker w s p)) \<or>
      (\<exists>v<length (workers (put_worker w s p)). awake (workers (put_worker w s p) ! v))"
    using assms(2,3) run by (intro disjI2 exI [of _ w]) simp
qed

lemma wakeup_lock [simp]: "wakeup_ok (p\<lparr>m_lock := l\<rparr>) = wakeup_ok p"
  by (simp add: wakeup_ok_def)

text \<open>A signal restores the condition, whatever jobs there are and whatever a thread that is not waiting does next.\<close>

lemma wakeup_signal:
  assumes "\<not> shutdown p \<Longrightarrow> Exited \<notin> set (workers p)"
  shows "wakeup_ok (cond_signal pick p)"
proof (rule cond_signal_cases [of p pick])
  assume "Waiting \<notin> set (workers p)" "cond_signal pick p = p"
  then show ?thesis using assms by (auto intro: wakeup_okI)
next
  fix v assume v: "v < length (workers p)" "workers p ! v = Waiting" "cond_signal pick p = put_worker v Wants_lock p"
  show ?thesis
  proof (rule wakeup_okI)
    show "Exited \<notin> set (workers (cond_signal pick p))" if "\<not> shutdown (cond_signal pick p)"
      using exited_signal assms that by auto
    show "jobs (cond_signal pick p) = [] \<or> Waiting \<notin> set (workers (cond_signal pick p)) \<or>
        (\<exists>u<length (workers (cond_signal pick p)). awake (workers (cond_signal pick p) ! u))"
      using v by (intro disjI2 exI [of _ v]) (simp add: awake_def)
  qed
qed

lemma wakeup_take:
  assumes "wakeup_ok p" "w < length (workers p)" "workers p ! w = At_dequeue" "\<not> shutdown p" "jobs p = j # rest"
  shows "wakeup_ok (dequeue pick w p)"
proof -
  define q where "q = p\<lparr>jobs := rest, started := started p @ [j]\<rparr>"
  define r where "r = (if rest \<noteq> [] then cond_signal pick q else q)"
  have d: "dequeue pick w p = put_worker w (Running j) (r\<lparr>m_lock := None\<rparr>)"
    using assms(4,5) by (simp add: dequeue_def r_def q_def Let_def)
  have ex: "Exited \<notin> set (workers p)" using assms(1,4) by (simp add: wakeup_ok_def)
  then have r: "Exited \<notin> set (workers r)" "length (workers r) = length (workers p)" "jobs r = rest"
    using exited_signal [of q pick] by (simp_all add: r_def q_def)
  show ?thesis
  proof (rule wakeup_okI)
    show "Exited \<notin> set (workers (dequeue pick w p))" unfolding d using r by (simp add: exited_update)
    have "Waiting \<notin> set ((workers r)[w := Running j]) \<or> (\<exists>v<length (workers r). awake ((workers r)[w := Running j] ! v))" if "rest \<noteq> []"
    proof (rule cond_signal_cases [of q pick])
      assume "Waiting \<notin> set (workers q)" "cond_signal pick q = q"
      then show ?thesis using that set_update_subset_insert [of "workers q" w "Running j"] by (auto simp: r_def)
    next
      fix v assume v: "v < length (workers q)" "workers q ! v = Waiting" "cond_signal pick q = put_worker v Wants_lock q"
      then have "v \<noteq> w" using assms(3) by (auto simp: q_def)
      then have "awake ((workers r)[w := Running j] ! v)" using v that by (simp add: r_def awake_def)
      then show ?thesis using v(1) r(2) by (auto simp: q_def)
    qed
    then show "jobs (dequeue pick w p) = [] \<or> Waiting \<notin> set (workers (dequeue pick w p)) \<or>
        (\<exists>v<length (workers (dequeue pick w p)). awake (workers (dequeue pick w p) ! v))"
      unfolding d using r by auto
  qed
qed

lemma worker_step_wakeup:
  assumes "wakeup_ok p" "worker_step pick w p = Some p'"
  shows "wakeup_ok p'"
proof -
  have w: "w < length (workers p)" using assms(2) by (simp add: worker_step_def split: if_splits)
  have put: "wakeup_ok (put_worker w s (p\<lparr>m_lock := l\<rparr>))" if "awake s" for s l
    using wakeup_put [of "p\<lparr>m_lock := l\<rparr>" w s] assms(1) w that by (auto simp: awake_def)
  have idle: "wakeup_ok (put_worker w s (q\<lparr>m_lock := l\<rparr>))" if "shutdown p \<or> (jobs p = [] \<and> s = Waiting \<and> q = p)" "shutdown q = shutdown p" for s q l
    using that assms(1) by (intro wakeup_okI) (auto simp: wakeup_ok_def exited_update)
  show ?thesis
  proof (cases "workers p ! w")
    case At_dequeue
    show ?thesis
    proof (cases "shutdown p \<or> jobs p = []")
      case True
      then show ?thesis using assms w At_dequeue idle [of Waiting p] idle [of Waiting "cond_signal pick p"]
        by (cases "shutdown p") (auto simp: worker_step_def dequeue_def cond_wait_def)
    next
      case False
      then obtain j rest where "jobs p = j # rest" by (cases "jobs p") auto
      then show ?thesis using assms w At_dequeue False wakeup_take by (auto simp: worker_step_def)
    qed
  next
    case (Running j)
    have "wakeup_ok (p\<lparr>finished := finished p @ [j]\<rparr>)" using assms(1) by (simp add: wakeup_ok_def)
    then show ?thesis using assms w Running wakeup_put [of "p\<lparr>finished := finished p @ [j]\<rparr>" w Relock]
      by (auto simp: worker_step_def awake_def)
  next
    case At_test
    then show ?thesis using assms w put [of At_dequeue "m_lock p"] idle [of Exited p] by (auto simp: worker_step_def awake_def split: if_splits)
  next
    case Relock
    then show ?thesis using assms w put [of At_test "Some w"] idle [of Waiting p]
      by (auto simp: worker_step_def awake_def cond_wait_def split: if_splits)
  qed (use assms w put in \<open>auto simp: worker_step_def awake_def split: if_splits\<close>)
qed

section \<open>Reachable states\<close>

definition pool_ok :: "'j std_thread_pool_context_t \<Rightarrow> bool" where
  "pool_ok p \<longleftrightarrow> lock_ok p \<and> history_ok p \<and> wakeup_ok p"

lemma create_loop_workers:
  "create_loop thread_create ix left p = (p', ok) \<Longrightarrow>
    \<exists>k\<le>left. p' = p\<lparr>workers := workers p @ replicate k Wants_lock\<rparr> \<and> (ok \<longrightarrow> k = left)"
proof (induction left arbitrary: ix p)
  case 0
  then show ?case by auto
next
  case (Suc left)
  show ?case
  proof (cases "thread_create ix")
    case True
    then have "create_loop thread_create (Suc ix) left (p\<lparr>workers := workers p @ [Wants_lock]\<rparr>) = (p', ok)" using Suc.prems by simp
    from Suc.IH [OF this] obtain k where "k \<le> left" "p' = p\<lparr>workers := workers p @ Wants_lock # replicate k Wants_lock\<rparr>" "ok \<longrightarrow> k = left"
      by auto
    then show ?thesis by (intro exI [of _ "Suc k"]) simp
  next
    case False
    then show ?thesis using Suc.prems by auto
  qed
qed

lemma created_workers:
  fixes p :: "'a std_thread_pool_context_t"
  assumes "std_thread_pool_create thread_create n = (p, STD_ERR_OK)"
  shows "p = new_pool\<lparr>workers := replicate n Wants_lock\<rparr>"
proof -
  have err: "STD_ERR e_std_err_COM e_std_err_code_FAIL 0 \<noteq> STD_ERR_OK"
    unfolding STD_ERR_def by (rule std_err_mk_is_err [unfolded STD_IS_ERR_def])
  obtain q :: "'a std_thread_pool_context_t" and ok where q: "create_loop thread_create 0 n new_pool = (q, ok)" by fastforce
  have "ok \<and> p = q"
    using assms q err by (cases ok) (simp_all add: std_thread_pool_create_def)
  then show ?thesis using create_loop_workers [OF q] by (auto simp: new_pool_def)
qed

lemma pool_ok_created: "pool_ok (new_pool\<lparr>workers := replicate n Wants_lock\<rparr>)"
  by (simp add: pool_ok_def new_pool_def lock_ok_def history_ok_def wakeup_ok_def running_def holds_lock_def)

lemma pool_ok_signal: "pool_ok p \<Longrightarrow> pool_ok (cond_signal pick p)"
  using wakeup_signal [of p pick] by (simp add: pool_ok_def lock_ok_signal history_ok_signal wakeup_ok_def)

lemma pool_ok_step: "pool_step (p :: 'a std_thread_pool_context_t) p' \<Longrightarrow> pool_ok p \<Longrightarrow> pool_ok p'"
proof (induction rule: pool_step.induct)
  case (worker pick w p p')
  then show ?case using worker_step_lock worker_step_history worker_step_wakeup by (auto simp: pool_ok_def)
next
  case (spurious w p)
  then show ?case
    by (simp add: pool_ok_def lock_ok_same holds_lock_def history_ok_put wakeup_put awake_def)
next
  case (add p pick mem_ok job p' rc)
  let ?q = "p\<lparr>jobs := jobs p @ [job], added := added p @ [job]\<rparr>"
  have "lock_ok ?q" "history_ok ?q" "Exited \<notin> set (workers ?q)"
    using add by (simp_all add: pool_ok_def lock_ok_def history_ok_def running_def wakeup_ok_def)
  then have "pool_ok (cond_signal pick ?q)"
    by (simp add: pool_ok_def lock_ok_signal history_ok_signal wakeup_signal)
  then show ?case using add by (auto simp: std_thread_pool_job_add_def split: if_splits)
next
  case (begin_shutdown p)
  then show ?case
    by (simp add: pool_ok_def shutdown_begin_def lock_ok_def history_ok_def running_def wakeup_ok_def)
next
  case (do_shutdown p pick p')
  have "pool_ok (q\<lparr>destroyed := d\<rparr>) = pool_ok q" "pool_ok (q\<lparr>signals_left := k\<rparr>) = pool_ok q"
    for q :: "'a std_thread_pool_context_t" and d k
    by (simp_all add: pool_ok_def lock_ok_def history_ok_def running_def wakeup_ok_def)
  then show ?case using do_shutdown pool_ok_signal by (auto simp: shutdown_signal_def split: if_splits)
qed

lemma pool_reachable_ok: "pool_reachable n p \<Longrightarrow> pool_ok p"
  by (induction rule: pool_reachable.induct) (use created_workers pool_ok_created pool_ok_step in blast)+

section \<open>The next job is started\<close>

lemma dispatch_trans: "dispatch p q \<Longrightarrow> dispatch q r \<Longrightarrow> dispatch p r"
  by (induction rule: dispatch.induct) (auto intro: dispatch.step)

lemma dispatch_one: "worker_step pick w p = Some p' \<Longrightarrow> finished p' = finished p \<Longrightarrow> dispatch p p'"
  by (rule dispatch.step [OF _ _ dispatch.refl])

lemma start_from_dequeue:
  assumes "w < length (workers p)" "workers p ! w = At_dequeue" "\<not> shutdown p" "jobs p = j # rest"
  shows "\<exists>p'. dispatch p p' \<and> started p' = started p @ [j]"
proof -
  have "worker_step 0 w p = Some (dequeue 0 w p)" using assms by (simp add: worker_step_def)
  moreover have "finished (dequeue 0 w p) = finished p" "started (dequeue 0 w p) = started p @ [j]"
    using assms by (simp_all add: dequeue_def Let_def)
  ultimately show ?thesis using dispatch_one by blast
qed

lemma start_from_test:
  assumes "w < length (workers p)" "workers p ! w = At_test" "\<not> shutdown p" "jobs p = j # rest"
  shows "\<exists>p'. dispatch p p' \<and> started p' = started p @ [j]"
proof -
  let ?q = "put_worker w At_dequeue p"
  have "dispatch p ?q" by (rule dispatch_one [of 0 w]) (use assms in \<open>simp_all add: worker_step_def\<close>)
  moreover obtain r where "dispatch ?q r" "started r = started p @ [j]"
    using start_from_dequeue [of w ?q j rest] assms by auto
  ultimately show ?thesis using dispatch_trans by blast
qed

lemma start_from_lock:
  assumes "w < length (workers p)" "awake (workers p ! w)" "m_lock p = None" "\<not> holds_lock (workers p ! w)"
    "\<not> shutdown p" "jobs p = j # rest"
  shows "\<exists>p'. dispatch p p' \<and> started p' = started p @ [j]"
proof -
  let ?q = "put_worker w At_test (p\<lparr>m_lock := Some w\<rparr>)"
  have "workers p ! w = Wants_lock \<or> workers p ! w = Relock" using assms(2,4) by (auto simp: awake_def holds_lock_def)
  then have "worker_step 0 w p = Some ?q" using assms by (auto simp: worker_step_def)
  then have "dispatch p ?q" by (rule dispatch_one) simp
  moreover obtain r where "dispatch ?q r" "started r = started p @ [j]"
    using start_from_test [of w ?q j rest] assms by auto
  ultimately show ?thesis using dispatch_trans by blast
qed

lemma next_job_started:
  assumes "pool_ok p" "\<not> shutdown p" "jobs p = j # rest" "s \<in> set (workers p)" "\<And>j. s \<noteq> Running j"
  shows "\<exists>p'. dispatch p p' \<and> started p' = started p @ [j]"
proof (cases "m_lock p")
  case (Some w)
  then have w: "w < length (workers p)" "holds_lock (workers p ! w)" using assms(1) by (simp_all add: pool_ok_def lock_okD)
  then show ?thesis using start_from_test [OF w(1)] start_from_dequeue [OF w(1)] assms(2,3) unfolding holds_lock_def by metis
next
  case None
  have wake: "wakeup_ok p" and lock: "lock_ok p" using assms(1) by (simp_all add: pool_ok_def)
  have "\<exists>s\<in>set (workers p). awake s"
  proof (cases "Waiting \<in> set (workers p)")
    case True
    then show ?thesis using wake assms(2,3) by (simp add: wakeup_ok_def)
  next
    case False
    then have "s \<noteq> Waiting" "s \<noteq> Exited" using assms(2,4) wake by (auto simp: wakeup_ok_def)
    then have "awake s" using assms(5) by (cases s) (auto simp: awake_def)
    then show ?thesis using assms(4) by blast
  qed
  then obtain w where w: "w < length (workers p)" "awake (workers p ! w)" by (metis in_set_conv_nth)
  moreover have "\<not> holds_lock (workers p ! w)" using lock_okD [OF lock, of w] None w(1) by simp
  ultimately show ?thesis using start_from_lock [OF w None _ assms(2,3)] by simp
qed

section \<open>Shutdown\<close>

definition waiting_count :: "'j std_thread_pool_context_t \<Rightarrow> nat" where
  "waiting_count p = length (filter is_waiting (workers p))"

text \<open>A shutdown whose signals reach every worker: none is at the queue or in a job.\<close>

definition closing :: "'j std_thread_pool_context_t \<Rightarrow> bool" where
  "closing p \<longleftrightarrow> shutdown p \<and> set (workers p) \<subseteq> {Waiting, Wants_lock, At_test, Exited} \<and>
     (if destroyed p then waiting_count p = 0 else waiting_count p \<le> signals_left p)"

lemma count_update:
  "w < length ws \<Longrightarrow> length (filter P (ws[w := s])) + (if P (ws ! w) then 1 else 0) = length (filter P ws) + (if P s then 1 else 0)"
proof (induction ws arbitrary: w)
  case (Cons a ws)
  then show ?case
  proof (cases w)
    case (Suc v)
    then show ?thesis using Cons.IH [of v] Cons.prems by auto
  qed auto
qed simp

lemma waiting_put:
  "w < length (workers p) \<Longrightarrow> waiting_count (put_worker w s p) + (if workers p ! w = Waiting then 1 else 0) =
    waiting_count p + (if s = Waiting then 1 else 0)"
  using count_update [of w "workers p" is_waiting s] by (simp add: waiting_count_def is_waiting_iff)

lemma closing_put:
  assumes "closing p" "w < length (workers p)" "s \<in> {Wants_lock, At_test, Exited}"
  shows "closing (put_worker w s p)"
proof -
  have "waiting_count (put_worker w s p) \<le> waiting_count p" using waiting_put [OF assms(2), of s] assms(3) by auto
  moreover have "set (workers (put_worker w s p)) \<subseteq> {Waiting, Wants_lock, At_test, Exited}"
    using assms set_update_subset_insert [of "workers p" w s] by (auto simp: closing_def)
  ultimately show ?thesis using assms(1) by (auto simp: closing_def split: if_splits)
qed

lemma closing_signal: "closing p \<Longrightarrow> closing (cond_signal pick p)"
  by (rule cond_signal_cases [of p pick]) (simp_all add: closing_put)

lemma waiting_signal: "waiting_count (cond_signal pick p) = waiting_count p - 1"
proof (rule cond_signal_cases [of p pick])
  assume "Waiting \<notin> set (workers p)" "cond_signal pick p = p"
  moreover from this(1) have "filter is_waiting (workers p) = []" by (auto simp: is_waiting_iff filter_empty_conv)
  ultimately show ?thesis by (simp add: waiting_count_def)
next
  fix w assume "w < length (workers p)" "workers p ! w = Waiting" "cond_signal pick p = put_worker w Wants_lock p"
  then show ?thesis using waiting_put [of w p Wants_lock] by simp
qed

lemma closing_lock [simp]: "closing (p\<lparr>m_lock := l\<rparr>) = closing p"
  by (simp add: closing_def waiting_count_def)

lemma closing_step:
  assumes "pool_step p p'" "closing p"
  shows "closing p'"
  using assms
proof (induction rule: pool_step.induct)
  case (worker pick w p p')
  have w: "w < length (workers p)" using worker by (simp add: worker_step_def split: if_splits)
  then have "workers p ! w \<in> {Waiting, Wants_lock, At_test, Exited}" using worker(2) nth_mem [OF w] unfolding closing_def by blast
  then consider "workers p ! w = Waiting \<or> workers p ! w = Exited" | "workers p ! w = Wants_lock" | "workers p ! w = At_test"
    by blast
  then show ?case
  proof cases
    case 1
    then show ?thesis using worker(1) w by (elim disjE) (simp_all add: worker_step_def)
  next
    case 2
    then have "p' = put_worker w At_test (p\<lparr>m_lock := Some w\<rparr>)" using worker(1) w by (simp add: worker_step_def split: if_splits)
    then show ?thesis using closing_put [of "p\<lparr>m_lock := Some w\<rparr>" w At_test] worker(2) w by simp
  next
    case 3
    then have "p' = put_worker w Exited (p\<lparr>m_lock := None\<rparr>)"
      using worker(1,2) w by (simp add: worker_step_def closing_def split: if_splits)
    then show ?thesis using closing_put [of "p\<lparr>m_lock := None\<rparr>" w Exited] worker(2) w by simp
  qed
next
  case (spurious w p)
  then show ?case by (simp add: closing_put)
next
  case (do_shutdown p pick p')
  then show ?case
  proof (cases "signals_left p = 0")
    case False
    then have "p' = (cond_signal pick p)\<lparr>signals_left := signals_left p - 1\<rparr>" using do_shutdown by (simp add: shutdown_signal_def split: if_splits)
    then show ?thesis using closing_signal [OF \<open>closing p\<close>, of pick] waiting_signal [of pick p] do_shutdown
      by (auto simp: closing_def waiting_count_def split: if_splits)
  qed (auto simp: shutdown_signal_def closing_def waiting_count_def)
qed (simp_all add: closing_def)

section \<open>Properties\<close>

text \<open> C23: Jobs are started in the order in which they were added, none is lost and none is started twice: in
  every state the jobs added are those started, in this order, and then the queue; those started are
  those finished and those a worker runs. At most one worker holds the lock.
\<close>

theorem pool_jobs_in_order:
  assumes "pool_reachable n p"
  shows "added p = started p @ jobs p \<and> mset (started p) = mset (finished p) + mset (running p) \<and>
    (\<forall>v<length (workers p). \<forall>w<length (workers p). holds_lock (workers p ! v) \<and> holds_lock (workers p ! w) \<longrightarrow> v = w)"
proof -
  have ok: "lock_ok p" "history_ok p" using pool_reachable_ok [OF assms] by (simp_all add: pool_ok_def)
  have "v = w" if "v < length (workers p)" "w < length (workers p)" "holds_lock (workers p ! v)" "holds_lock (workers p ! w)" for v w
    using lock_okD [OF ok(1), of v] lock_okD [OF ok(1), of w] that by simp
  with ok(2) show ?thesis by (auto simp: history_ok_def)
qed

text \<open>A pool of two workers with a job in the queue and one that runs.\<close>

definition demo_pool :: "nat std_thread_pool_context_t" where
  "demo_pool = new_pool\<lparr>workers := [Running 7, Wants_lock], jobs := [8], added := [7, 8], started := [7]\<rparr>"

lemmas pool_run = worker_step_def std_thread_pool_job_add_def dequeue_def cond_signal_def cond_wait_def waiters_def put_worker_def
  new_pool_def shutdown_begin_def shutdown_signal_def

lemma create_loop_ok: "snd (create_loop (\<lambda>_. True) ix left p)"
  by (induction left arbitrary: ix p) auto

lemma new_pool_reachable: "pool_reachable n (new_pool\<lparr>workers := replicate n Wants_lock\<rparr>)"
proof -
  obtain q :: "'a std_thread_pool_context_t" and ok where q: "create_loop (\<lambda>_. True) 0 n new_pool = (q, ok)" by fastforce
  moreover have "ok" using create_loop_ok [of 0 n "new_pool :: 'a std_thread_pool_context_t"] q by simp
  ultimately have "std_thread_pool_create (\<lambda>_. True) n = (q, STD_ERR_OK)" by (simp add: std_thread_pool_create_def)
  with created_workers pool_reachable.created show ?thesis by metis
qed

lemma pool_add: "pool_reachable n p \<Longrightarrow> \<not> shutdown p \<Longrightarrow> std_thread_pool_job_add 0 True job p = Some (p', STD_ERR_OK) \<Longrightarrow> pool_reachable n p'"
  by (blast intro: pool_reachable.step pool_step.add)

lemma pool_work: "pool_reachable n p \<Longrightarrow> worker_step 0 w p = Some p' \<Longrightarrow> pool_reachable n p'"
  by (blast intro: pool_reachable.step pool_step.worker)

text \<open>The queue holds 8 and one worker runs 7: the other one has not locked yet.\<close>

lemma demo_pool_reachable: "pool_reachable 2 demo_pool"
proof -
  let ?p = "\<lambda>l ws js ad st. \<lparr>m_lock = l, workers = ws, jobs = js, shutdown = False, signals_left = 0, destroyed = False,
    added = ad, started = st, finished = []\<rparr> :: nat std_thread_pool_context_t"
  have "pool_reachable 2 (?p None [Wants_lock, Wants_lock] [] [] [])"
    using new_pool_reachable [where n = 2 and ?'a = nat] by (simp add: new_pool_def numeral_2_eq_2)
  then have "pool_reachable 2 (?p None [Wants_lock, Wants_lock] [7] [7] [])"
    by (rule pool_add) (simp_all add: pool_run upt_rec)
  then have "pool_reachable 2 (?p (Some 0) [At_test, Wants_lock] [7] [7] [])"
    by (rule pool_work [where w = 0]) (simp add: pool_run)
  then have "pool_reachable 2 (?p (Some 0) [At_dequeue, Wants_lock] [7] [7] [])"
    by (rule pool_work [where w = 0]) (simp add: pool_run)
  then have "pool_reachable 2 (?p None [Running 7, Wants_lock] [] [7] [7])"
    by (rule pool_work [where w = 0]) (simp add: pool_run)
  then have "pool_reachable 2 (?p None [Running 7, Wants_lock] [8] [7, 8] [7])"
    by (rule pool_add) (simp_all add: pool_run upt_rec)
  then show ?thesis by (simp add: demo_pool_def new_pool_def)
qed

theorem pool_jobs_in_order_witness: "added demo_pool = started demo_pool @ jobs demo_pool \<and> jobs demo_pool = [8]"
  using pool_jobs_in_order [OF demo_pool_reachable] by (simp add: demo_pool_def new_pool_def)

text \<open> C22: No wake-up is lost: as long as the pool is not shut down, there is a job and some worker is not in a
  job, the workers come to start the first job of the queue by steps of their own, without the end of
  a running job, another signal or a wake-up for no reason.
\<close>

theorem pool_no_lost_wakeup:
  assumes "pool_reachable n p" "\<not> shutdown p" "jobs p = job # rest" "s \<in> set (workers p)" "\<And>j. s \<noteq> Running j"
  shows "\<exists>p'. dispatch p p' \<and> started p' = started p @ [job]"
  by (rule next_job_started [OF pool_reachable_ok [OF assms(1)] assms(2-5)])

theorem pool_no_lost_wakeup_witness: "\<exists>p'. dispatch demo_pool p' \<and> started p' = [7, 8]"
  using pool_no_lost_wakeup [OF demo_pool_reachable, of 8 "[]" Wants_lock] by (simp add: demo_pool_def new_pool_def)

text \<open> C24: A shutdown of a pool whose workers all wait wakes every one of them: when the objects are destroyed
  none waits any more. A worker that is in a job when its signal is sent is different: with an empty
  queue it then waits on the condition that has been destroyed, without a look at the flag.
\<close>

theorem pool_shutdown:
  assumes "set (workers p) \<subseteq> {Waiting}" "\<not> destroyed p"
  shows "(pool_step\<^sup>*\<^sup>* (shutdown_begin p) q \<longrightarrow> destroyed q \<longrightarrow> Waiting \<notin> set (workers q)) \<and>
    (\<exists>q :: nat std_thread_pool_context_t. pool_reachable 1 q \<and> destroyed q \<and> workers q = [Waiting])"
proof
  have start: "closing (shutdown_begin p)"
    using assms by (auto simp: closing_def shutdown_begin_def waiting_count_def)
  have "closing q" if "pool_step\<^sup>*\<^sup>* (shutdown_begin p) q"
    using that start by (induction rule: rtranclp_induct) (auto intro: closing_step)
  then show "pool_step\<^sup>*\<^sup>* (shutdown_begin p) q \<longrightarrow> destroyed q \<longrightarrow> Waiting \<notin> set (workers q)"
    by (auto simp: closing_def waiting_count_def is_waiting_iff filter_empty_conv)
next
  let ?p = "\<lambda>l ws js sd k ds ad st fi. \<lparr>m_lock = l, workers = ws, jobs = js, shutdown = sd, signals_left = k, destroyed = ds,
    added = ad, started = st, finished = fi\<rparr> :: nat std_thread_pool_context_t"
  have "pool_reachable 1 (?p None [Wants_lock] [] False 0 False [] [] [])"
    using new_pool_reachable [where n = 1 and ?'a = nat] by (simp add: new_pool_def)
  then have "pool_reachable 1 (?p None [Wants_lock] [7] False 0 False [7] [] [])"
    by (rule pool_add) (simp_all add: pool_run)
  then have "pool_reachable 1 (?p (Some 0) [At_test] [7] False 0 False [7] [] [])"
    by (rule pool_work [where w = 0]) (simp add: pool_run)
  then have "pool_reachable 1 (?p (Some 0) [At_dequeue] [7] False 0 False [7] [] [])"
    by (rule pool_work [where w = 0]) (simp add: pool_run)
  then have "pool_reachable 1 (?p None [Running 7] [] False 0 False [7] [7] [])"
    by (rule pool_work [where w = 0]) (simp add: pool_run)
  then have "pool_reachable 1 (shutdown_begin (?p None [Running 7] [] False 0 False [7] [7] []))"
    by (rule pool_reachable.step [OF _ pool_step.begin_shutdown]) simp
  then have "pool_reachable 1 (?p None [Running 7] [] True 0 False [7] [7] [])"
    by (rule pool_reachable.step [OF _ pool_step.do_shutdown [where pick = 0]]) (simp_all add: pool_run)
  then have "pool_reachable 1 (?p None [Running 7] [] True 0 True [7] [7] [])"
    by (rule pool_reachable.step [OF _ pool_step.do_shutdown [where pick = 0]]) (simp_all add: pool_run)
  then have "pool_reachable 1 (?p None [Relock] [] True 0 True [7] [7] [7])"
    by (rule pool_work [where w = 0]) (simp add: pool_run)
  then have "pool_reachable 1 (?p None [Waiting] [] True 0 True [7] [7] [7])"
    by (rule pool_work [where w = 0]) (simp add: pool_run)
  then show "\<exists>q :: nat std_thread_pool_context_t. pool_reachable 1 q \<and> destroyed q \<and> workers q = [Waiting]"
    by (intro exI [of _ "?p None [Waiting] [] True 0 True [7] [7] [7]"]) simp
qed

text \<open>Two idle workers; the shutdown ends with both woken.\<close>

theorem pool_shutdown_witness:
  "\<not> (\<exists>q :: nat std_thread_pool_context_t. pool_step\<^sup>*\<^sup>* (shutdown_begin (new_pool\<lparr>workers := [Waiting, Waiting]\<rparr>)) q \<and> destroyed q \<and>
     Waiting \<in> set (workers q))"
  using pool_shutdown [of "new_pool\<lparr>workers := [Waiting, Waiting]\<rparr> :: nat std_thread_pool_context_t"] by (auto simp: new_pool_def)

end
