(* ===== verification/PtrTree.thy ===== *)
theory PtrTree
  imports Prelude "HOL-Library.Tree"
begin

text \<open>
  Binary trees in a C heap, shared by the red-black tree and the radix tree. A struct
  pointer is a natural number; each pointer field of the struct is a function from the
  node's address, so \<open>x->left = v\<close> is the update \<open>L(x := v)\<close>. Address 0 is the
  pointer that ends a chain: the NULL pointer of the radix tree, the address of the
  sentinel node \<open>nil\<close> of the red-black tree.

  \<open>linked\<close> says that the three fields left, right and parent spell out a tree of
  addresses; \<open>heap_tree\<close> adds that the table's root field points to it and that no
  node occurs twice. A loop that holds a pointer into the middle of the tree is described
  by a focus: the subtree below the pointer and the list of frames from there up to the root.
\<close>

section \<open>Trees of addresses\<close>

type_synonym ptr = nat
type_synonym ptr_field = "ptr \<Rightarrow> ptr"

fun root_ptr :: "ptr tree \<Rightarrow> ptr" where
  "root_ptr Leaf = 0"
| "root_ptr (Node l a r) = a"

fun linked :: "ptr_field \<Rightarrow> ptr_field \<Rightarrow> ptr_field \<Rightarrow> ptr \<Rightarrow> ptr tree \<Rightarrow> bool" where
  "linked L R P q Leaf \<longleftrightarrow> True"
| "linked L R P q (Node l a r) \<longleftrightarrow> a \<noteq> 0 \<and> P a = q \<and> L a = root_ptr l \<and> R a = root_ptr r
     \<and> linked L R P a l \<and> linked L R P a r"

lemma linked_nonzero: "linked L R P q t \<Longrightarrow> a \<in> set_tree t \<Longrightarrow> a \<noteq> 0"
  by (induction t arbitrary: q) auto

lemma linked_root_zero [simp]: "linked L R P q t \<Longrightarrow> root_ptr t = 0 \<longleftrightarrow> t = Leaf"
  by (cases t) auto

lemma root_ptr_in_set: "t \<noteq> Leaf \<Longrightarrow> root_ptr t \<in> set_tree t"
  by (cases t) auto

lemma root_ptr_NodeI: "root_ptr t = a \<Longrightarrow> a \<noteq> 0 \<Longrightarrow> \<exists>l r. t = Node l a r"
  by (cases t) auto

subsection \<open>Updates outside the footprint\<close>

lemma linked_upd [frame_simps]:
  "a \<notin> set_tree t \<Longrightarrow> linked (L(a := v)) R P q t = linked L R P q t"
  "a \<notin> set_tree t \<Longrightarrow> linked L (R(a := v)) P q t = linked L R P q t"
  "a \<notin> set_tree t \<Longrightarrow> linked L R (P(a := v)) q t = linked L R P q t"
  by (induction t arbitrary: q) auto

lemma linked_cong:
  assumes "\<And>a. a \<in> set_tree t \<Longrightarrow> L a = L' a \<and> R a = R' a \<and> P a = P' a"
  shows "linked L R P q t = linked L' R' P' q t"
  using assms by (induction t arbitrary: q) auto

text \<open>Redirecting the parent pointer of a subtree's root moves the subtree under another node.\<close>

lemma linked_reparent:
  assumes "linked L R P q t" and "distinct (inorder t)"
  shows "linked L R (if root_ptr t \<noteq> 0 then P(root_ptr t := q') else P) q' t"
  using assms by (cases t) (auto simp: linked_upd)

lemma linked_reparent_upd:
  "linked L R P q t \<Longrightarrow> distinct (inorder t) \<Longrightarrow> linked L R (P(root_ptr t := q')) q' t"
  by (cases t) (auto simp: linked_upd)

section \<open>A pointer into a tree: focus and context\<close>

text \<open>
  \<open>WentLeft a r\<close>: the focus is the left child of \<open>a\<close>, whose right subtree is \<open>r\<close>;
  \<open>WentRight l a\<close> is the mirror image. The innermost frame comes first.
\<close>

datatype frame = WentLeft ptr "ptr tree" | WentRight "ptr tree" ptr

fun up :: "frame list \<Rightarrow> ptr" where
  "up [] = 0"
| "up (WentLeft a r # k) = a"
| "up (WentRight l a # k) = a"

fun plug :: "ptr tree \<Rightarrow> frame list \<Rightarrow> ptr tree" where
  "plug t [] = t"
| "plug t (WentLeft a r # k) = plug (Node t a r) k"
| "plug t (WentRight l a # k) = plug (Node l a t) k"

fun before :: "frame list \<Rightarrow> ptr list" where
  "before [] = []"
| "before (WentLeft a r # k) = before k"
| "before (WentRight l a # k) = before k @ inorder l @ [a]"

fun after :: "frame list \<Rightarrow> ptr list" where
  "after [] = []"
| "after (WentLeft a r # k) = a # inorder r @ after k"
| "after (WentRight l a # k) = after k"

definition ctxt_set :: "frame list \<Rightarrow> ptr set" where
  "ctxt_set k = set (before k) \<union> set (after k)"

lemma ctxt_set_simps [simp]:
  "ctxt_set [] = {}"
  "ctxt_set (WentLeft a r # k) = insert a (set_tree r \<union> ctxt_set k)"
  "ctxt_set (WentRight l a # k) = insert a (set_tree l \<union> ctxt_set k)"
  by (auto simp: ctxt_set_def)

lemma inorder_plug: "inorder (plug t k) = before k @ inorder t @ after k"
  by (induction t k rule: plug.induct) auto

lemma set_tree_plug: "set_tree (plug t k) = set_tree t \<union> ctxt_set k"
  by (induction t k rule: plug.induct) auto

lemma distinct_plug:
  "distinct (inorder (plug t k)) \<longleftrightarrow>
     distinct (inorder t) \<and> distinct (before k @ after k) \<and> set_tree t \<inter> ctxt_set k = {}"
  by (auto simp: inorder_plug ctxt_set_def)

lemma plug_Leaf [simp]: "plug t k = Leaf \<longleftrightarrow> t = Leaf \<and> k = []"
  by (induction t k rule: plug.induct) auto

lemma plug_append: "plug t (k @ k') = plug (plug t k) k'"
  by (induction t k rule: plug.induct) auto

fun klinked :: "ptr_field \<Rightarrow> ptr_field \<Rightarrow> ptr_field \<Rightarrow> ptr \<Rightarrow> ptr \<Rightarrow> frame list \<Rightarrow> bool" where
  "klinked L R P rt q [] \<longleftrightarrow> rt = q"
| "klinked L R P rt q (WentLeft a r # k) \<longleftrightarrow> a \<noteq> 0 \<and> P a = up k \<and> L a = q \<and> R a = root_ptr r
     \<and> linked L R P a r \<and> klinked L R P rt a k"
| "klinked L R P rt q (WentRight l a # k) \<longleftrightarrow> a \<noteq> 0 \<and> P a = up k \<and> R a = q \<and> L a = root_ptr l
     \<and> linked L R P a l \<and> klinked L R P rt a k"

lemma klinked_upd [frame_simps]:
  "a \<notin> ctxt_set k \<Longrightarrow> klinked (L(a := v)) R P rt q k = klinked L R P rt q k"
  "a \<notin> ctxt_set k \<Longrightarrow> klinked L (R(a := v)) P rt q k = klinked L R P rt q k"
  "a \<notin> ctxt_set k \<Longrightarrow> klinked L R (P(a := v)) rt q k = klinked L R P rt q k"
  by (induction L R P rt q k rule: klinked.induct) (auto simp: linked_upd)

lemma klinked_cong:
  assumes "\<And>a. a \<in> ctxt_set k \<Longrightarrow> L a = L' a \<and> R a = R' a \<and> P a = P' a"
  shows "klinked L R P rt q k = klinked L' R' P' rt q k"
  using assms
proof (induction L R P rt q k rule: klinked.induct)
  case (2 L R P rt q a r k)
  then show ?case using linked_cong [of r L L' R R' P P' a] by auto
next
  case (3 L R P rt q l a k)
  then show ?case using linked_cong [of l L L' R R' P P' a] by auto
qed simp

lemma klinked_nonzero: "klinked L R P rt q k \<Longrightarrow> 0 \<notin> ctxt_set k"
  by (induction L R P rt q k rule: klinked.induct) (auto dest: linked_nonzero)

lemma before_append: "before (k @ k') = before k' @ before k"
  by (induction k rule: before.induct) auto

lemma after_append: "after (k @ k') = after k @ after k'"
  by (induction k rule: after.induct) auto

lemma klinked_up_nonzero: "klinked L R P rt q k \<Longrightarrow> up k = 0 \<longleftrightarrow> k = []"
  by (cases k rule: up.cases) auto

lemma klinked_up_in: "k \<noteq> [] \<Longrightarrow> up k \<in> ctxt_set k"
  by (cases k rule: up.cases) auto

lemma root_plug_in: "k \<noteq> [] \<Longrightarrow> root_ptr (plug t k) \<in> ctxt_set k"
proof (induction t k rule: plug.induct)
  case (2 t a r k)
  then show ?case by (cases k) auto
next
  case (3 t l a k)
  then show ?case by (cases k) auto
qed simp

text \<open>A tree in the heap: the root field points to it and no node occurs twice.\<close>

definition heap_tree :: "ptr_field \<Rightarrow> ptr_field \<Rightarrow> ptr_field \<Rightarrow> ptr \<Rightarrow> ptr tree \<Rightarrow> bool" where
  "heap_tree L R P rt t \<longleftrightarrow> linked L R P 0 t \<and> rt = root_ptr t \<and> distinct (inorder t)"

lemma linked_plug:
  "linked L R P 0 (plug t k) \<and> rt = root_ptr (plug t k) \<longleftrightarrow>
     linked L R P (up k) t \<and> klinked L R P rt (root_ptr t) k"
  by (induction t k rule: plug.induct) auto

lemma heap_tree_plug:
  "heap_tree L R P rt (plug t k) \<longleftrightarrow>
     linked L R P (up k) t \<and> klinked L R P rt (root_ptr t) k \<and> distinct (inorder (plug t k))"
  using linked_plug [of L R P t k rt] by (auto simp: heap_tree_def)

text \<open>Every node of the tree can be brought into focus.\<close>

lemma focus_exists: "a \<in> set_tree t \<Longrightarrow> \<exists>l r k. t = plug (Node l a r) k"
proof (induction t)
  case Leaf
  then show ?case by simp
next
  case (Node t1 b t2)
  consider "a = b" | "a \<in> set_tree t1" | "a \<in> set_tree t2" using Node.prems by auto
  then show ?case
  proof cases
    case 1
    then show ?thesis by (intro exI [of _ t1] exI [of _ t2] exI [of _ "[]"]) simp
  next
    case 2
    then obtain l r k where "t1 = plug (Node l a r) k" using Node.IH(1) by blast
    then show ?thesis
      by (intro exI [of _ l] exI [of _ r] exI [of _ "k @ [WentLeft b t2]"]) (simp add: plug_append)
  next
    case 3
    then obtain l r k where "t2 = plug (Node l a r) k" using Node.IH(2) by blast
    then show ?thesis
      by (intro exI [of _ l] exI [of _ r] exI [of _ "k @ [WentRight t1 b]"]) (simp add: plug_append)
  qed
qed

lemma focus_at:
  assumes "inorder t = xs @ x # ys" and "distinct (inorder t)"
  obtains l r k where "t = plug (Node l x r) k" "xs = before k @ inorder l" "ys = inorder r @ after k"
proof -
  have "x \<in> set_tree t" using assms(1) set_inorder [of t] by auto
  then obtain l r k where f: "t = plug (Node l x r) k" using focus_exists by blast
  have d: "x \<notin> set xs" "x \<notin> set ys" using assms by auto
  have e: "xs @ x # ys = (before k @ inorder l) @ x # (inorder r @ after k)"
    using assms(1) f by (simp add: inorder_plug)
  have "xs = before k @ inorder l" "ys = inorder r @ after k"
    using e unfolding append_Cons_eq_iff [OF d] by simp_all
  with f show ?thesis by (rule that)
qed

text \<open>
  Replacing the child pointer that leads to the focus: what the C code writes as a test on
  the parent's left pointer, with the root field as the case of no parent.
\<close>

lemma klinked_replace:
  assumes "klinked L R P rt q k" and "q \<noteq> 0" and "q \<notin> ctxt_set k" and "distinct (before k @ after k)"
    and "q' \<notin> ctxt_set k"
  shows "klinked (if up k \<noteq> 0 \<and> L (up k) = q then L(up k := q') else L)
                 (if up k \<noteq> 0 \<and> L (up k) \<noteq> q then R(up k := q') else R) P
                 (if up k = 0 then q' else rt) q' k"
proof (cases k rule: up.cases)
  case 1
  then show ?thesis by simp
next
  case (2 a r k')
  then show ?thesis using assms by (auto simp: frame_simps ctxt_set_def)
next
  case (3 l a k')
  have "L a \<noteq> q"
  proof
    assume "L a = q"
    with assms(1) 3 have "root_ptr l = q" by simp
    with assms(2) have "q \<in> set_tree l" using root_ptr_in_set [of l] by (cases l) auto
    with assms(3) 3 show False by simp
  qed
  with 3 assms show ?thesis by (auto simp: frame_simps ctxt_set_def)
qed

text \<open>The mirror image, where the C code tests the parent's right pointer.\<close>

lemma klinked_replace_right:
  assumes "klinked L R P rt q k" and "q \<noteq> 0" and "q \<notin> ctxt_set k" and "distinct (before k @ after k)"
    and "q' \<notin> ctxt_set k"
  shows "klinked (if up k \<noteq> 0 \<and> R (up k) \<noteq> q then L(up k := q') else L)
                 (if up k \<noteq> 0 \<and> R (up k) = q then R(up k := q') else R) P
                 (if up k = 0 then q' else rt) q' k"
proof (cases k rule: up.cases)
  case 1
  then show ?thesis by simp
next
  case (3 l a k')
  then show ?thesis using assms by (auto simp: frame_simps ctxt_set_def)
next
  case (2 a r k')
  have "R a \<noteq> q"
  proof
    assume "R a = q"
    with assms(1) 2 have "root_ptr r = q" by simp
    with assms(2) have "q \<in> set_tree r" using root_ptr_in_set [of r] by (cases r) auto
    with assms(3) 2 show False by simp
  qed
  with 2 assms show ?thesis by (auto simp: frame_simps ctxt_set_def)
qed

end
