(* ===== verification/KeyOrder.thy ===== *)
theory KeyOrder
  imports Prelude
begin

text \<open>
  The contract of a comparison function: negative, zero or positive like \<open>memcmp\<close>, a total
  preorder on the keys. The sorted containers of the library (the red-black tree, the sorted
  list, the merge sort) rely on it; the built-in comparison functions satisfy it. The sequence
  operations the containers implement are stated here once, on lists.
\<close>

section \<open>Sequences ordered by a comparison function\<close>

definition key_sorted :: "('k \<Rightarrow> 'k \<Rightarrow> int) \<Rightarrow> 'k list \<Rightarrow> bool" where
  "key_sorted cmp xs \<longleftrightarrow> sorted_wrt (\<lambda>a b. cmp a b \<le> 0) xs"

text \<open>Insertion behind every key that is not greater: equal keys stay in order of arrival.\<close>

definition insert_after :: "('k \<Rightarrow> 'k \<Rightarrow> int) \<Rightarrow> 'k \<Rightarrow> 'k list \<Rightarrow> 'k list" where
  "insert_after cmp d xs = takeWhile (\<lambda>x. 0 \<le> cmp d x) xs @ d # dropWhile (\<lambda>x. 0 \<le> cmp d x) xs"

text \<open>What a search may answer: an equal key if there is one, else the nearest neighbour.\<close>

definition is_exact :: "('k \<Rightarrow> 'k \<Rightarrow> int) \<Rightarrow> 'k \<Rightarrow> 'k list \<Rightarrow> 'k option \<Rightarrow> bool" where
  "is_exact cmp d xs r = (case r of
     None \<Rightarrow> (\<forall>x\<in>set xs. cmp d x \<noteq> 0)
   | Some x \<Rightarrow> x \<in> set xs \<and> cmp d x = 0)"

definition is_exact_or_next :: "('k \<Rightarrow> 'k \<Rightarrow> int) \<Rightarrow> 'k \<Rightarrow> 'k list \<Rightarrow> 'k option \<Rightarrow> bool" where
  "is_exact_or_next cmp d xs r \<longleftrightarrow> r \<noteq> None \<and> is_exact cmp d xs r
     \<or> (\<forall>x\<in>set xs. cmp d x \<noteq> 0) \<and> r = find (\<lambda>x. cmp d x < 0) xs"

definition is_exact_or_prev :: "('k \<Rightarrow> 'k \<Rightarrow> int) \<Rightarrow> 'k \<Rightarrow> 'k list \<Rightarrow> 'k option \<Rightarrow> bool" where
  "is_exact_or_prev cmp d xs r \<longleftrightarrow> r \<noteq> None \<and> is_exact cmp d xs r
     \<or> (\<forall>x\<in>set xs. cmp d x \<noteq> 0) \<and> r = find (\<lambda>x. 0 < cmp d x) (rev xs)"

lemma insert_after_split:
  assumes "\<forall>x\<in>set xs. 0 \<le> cmp d x" and "\<forall>y\<in>set ys. cmp d y < 0"
  shows "insert_after cmp d (xs @ ys) = xs @ d # ys"
proof -
  have "takeWhile (\<lambda>x. 0 \<le> cmp d x) ys = []" "dropWhile (\<lambda>x. 0 \<le> cmp d x) ys = ys"
    using assms(2) by (cases ys; simp; fail)+
  then show ?thesis using assms(1) by (simp add: insert_after_def)
qed

lemma insert_after_simps [simp]:
  "insert_after cmp d [] = [d]"
  "insert_after cmp d (x # xs) = (if 0 \<le> cmp d x then x # insert_after cmp d xs else d # x # xs)"
  by (simp_all add: insert_after_def)

lemma set_insert_after [simp]: "set (insert_after cmp d xs) = insert d (set xs)"
  by (induction xs) auto

lemma length_insert_after [simp]: "length (insert_after cmp d xs) = Suc (length xs)"
  by (induction xs) auto

section \<open>The contract\<close>

locale key_order =
  fixes K :: "'k set" and cmp :: "'k \<Rightarrow> 'k \<Rightarrow> int"
  assumes cmp_anti: "a \<in> K \<Longrightarrow> b \<in> K \<Longrightarrow> cmp a b < 0 \<longleftrightarrow> 0 < cmp b a"
    and cmp_trans: "a \<in> K \<Longrightarrow> b \<in> K \<Longrightarrow> c \<in> K \<Longrightarrow> cmp a b \<le> 0 \<Longrightarrow> cmp b c \<le> 0 \<Longrightarrow> cmp a c \<le> 0"
begin

lemma cmp_le_iff: "a \<in> K \<Longrightarrow> b \<in> K \<Longrightarrow> cmp a b \<le> 0 \<longleftrightarrow> 0 \<le> cmp b a"
  using cmp_anti [of b a] by linarith

lemma cmp_refl: "a \<in> K \<Longrightarrow> cmp a a = 0"
  using cmp_anti [of a a] by linarith

lemma cmp_eq_sym: "a \<in> K \<Longrightarrow> b \<in> K \<Longrightarrow> cmp a b = 0 \<longleftrightarrow> cmp b a = 0"
  using cmp_anti [of a b] cmp_anti [of b a] by linarith

lemma cmp_less_le: "a \<in> K \<Longrightarrow> b \<in> K \<Longrightarrow> c \<in> K \<Longrightarrow> cmp a b < 0 \<Longrightarrow> cmp b c \<le> 0 \<Longrightarrow> cmp a c < 0"
  using cmp_trans [of b c a] cmp_anti [of a b] cmp_anti [of c a] cmp_le_iff [of c a] by linarith

lemma cmp_greater_ge: "a \<in> K \<Longrightarrow> b \<in> K \<Longrightarrow> c \<in> K \<Longrightarrow> 0 \<le> cmp a b \<Longrightarrow> cmp c b \<le> 0 \<Longrightarrow> 0 \<le> cmp a c"
  using cmp_trans [of c b a] cmp_le_iff [of b a] cmp_le_iff [of c a] by blast

lemma cmp_greater_less: "a \<in> K \<Longrightarrow> b \<in> K \<Longrightarrow> c \<in> K \<Longrightarrow> 0 < cmp a b \<Longrightarrow> cmp c b \<le> 0 \<Longrightarrow> 0 < cmp a c"
  using cmp_less_le [of c b a] cmp_anti [of b a] cmp_anti [of c a] cmp_trans [of a c b] by linarith

lemma sorted_insert_after:
  assumes "set xs \<subseteq> K" and "d \<in> K" and "key_sorted cmp xs"
  shows "key_sorted cmp (insert_after cmp d xs)"
  using assms
proof (induction xs)
  case Nil
  then show ?case by (simp add: key_sorted_def)
next
  case (Cons x xs)
  show ?case
  proof (cases "0 \<le> cmp d x")
    case True
    with Cons show ?thesis by (auto simp: key_sorted_def cmp_le_iff)
  next
    case False
    with Cons show ?thesis
      using cmp_less_le [of d x] by (fastforce simp: key_sorted_def)
  qed
qed

text \<open>A key inside a sorted sequence splits it for every search.\<close>

lemma sorted_mid:
  assumes "set (xs @ x # ys) \<subseteq> K" and "d \<in> K" and "key_sorted cmp (xs @ x # ys)"
  shows "cmp d x < 0 \<Longrightarrow> y \<in> set ys \<Longrightarrow> cmp d y < 0"
    and "0 < cmp d x \<Longrightarrow> y \<in> set xs \<Longrightarrow> 0 < cmp d y"
    and "0 \<le> cmp d x \<Longrightarrow> y \<in> set xs \<Longrightarrow> 0 \<le> cmp d y"
  using assms cmp_less_le [of d x y] cmp_greater_less [of d x y] cmp_greater_ge [of d x y]
  by (auto simp: key_sorted_def sorted_wrt_append)

end

section \<open>Byte strings and integers\<close>

text \<open>\<open>memcmp\<close>: the difference of the first two bytes that differ, compared as unsigned.\<close>

fun memcmp :: "u8 list \<Rightarrow> u8 list \<Rightarrow> int" where
  "memcmp (x # xs) (y # ys) = (if x = y then memcmp xs ys else uint x - uint y)"
| "memcmp _ _ = 0"

lemma key_order_via:
  fixes f :: "'k \<Rightarrow> 'a :: linorder"
  assumes "\<And>a b. a \<in> K \<Longrightarrow> b \<in> K \<Longrightarrow> cmp a b = (if f a = f b then 0 else if f a < f b then -1 else 1)"
  shows "key_order K cmp"
proof
  fix a b c assume K: "a \<in> K" "b \<in> K"
  show "cmp a b < 0 \<longleftrightarrow> 0 < cmp b a" using assms [OF K] assms [OF K(2,1)] by auto
  assume "c \<in> K" "cmp a b \<le> 0" "cmp b c \<le> 0"
  then show "cmp a c \<le> 0"
    using assms [of a b] assms [of b c] assms [of a c] K by (auto split: if_splits)
qed

lemma memcmp_anti: "length xs = length ys \<Longrightarrow> memcmp xs ys < 0 \<longleftrightarrow> 0 < memcmp ys xs"
  by (induction xs ys rule: memcmp.induct) auto

lemma memcmp_trans:
  assumes "length xs = length ys" "length ys = length zs" "memcmp xs ys \<le> 0" "memcmp ys zs \<le> 0"
  shows "memcmp xs zs \<le> 0"
  using assms
proof (induction xs ys arbitrary: zs rule: memcmp.induct)
  case (1 x xs y ys)
  then obtain z zs' where zs: "zs = z # zs'" by (cases zs) auto
  have "uint x \<noteq> uint y \<or> x = y" by (metis word_uint_eq_iff)
  moreover have "uint y \<noteq> uint z \<or> y = z" by (metis word_uint_eq_iff)
  ultimately show ?case using 1 zs by (auto split: if_splits)
qed auto

lemma memcmp_eq_iff: "length xs = length ys \<Longrightarrow> memcmp xs ys = 0 \<longleftrightarrow> xs = ys"
  by (induction xs ys rule: memcmp.induct) (auto simp: word_uint_eq_iff)

interpretation bytes: key_order "{bs :: u8 list. length bs = n}" memcmp for n
  by unfold_locales (simp add: memcmp_anti, metis (mono_tags, lifting) memcmp_trans mem_Collect_eq)

end
