(* ===== verification/LList.thy ===== *)
theory LList
  imports KeyOrder
begin

text \<open>
  The doubly linked list of \<open>src/std_llist.c\<close>. The nodes live in memory: \<open>dll_next\<close> and
  \<open>dll_back\<close> give the two pointers of a node, \<open>contents\<close> the bytes of the structures the
  nodes are embedded in. The head structure holds two sentinel nodes, whose addresses are
  \<open>head_node\<close> and \<open>tail_node\<close>. Address 0 is the null pointer. \<open>dll\<close> abstracts a list in
  memory to the sequence of its nodes; every operation is a list operation on it.
\<close>

section \<open>Nodes and head\<close>

type_synonym node = nat

record dll_mem =
  dll_next :: "node \<Rightarrow> node"
  dll_back :: "node \<Rightarrow> node"
  contents :: "nat \<Rightarrow> u8"

type_synonym std_compare_function = "(nat \<Rightarrow> u8) \<Rightarrow> nat \<Rightarrow> nat \<Rightarrow> u32 \<Rightarrow> int"

record std_dll_head =
  dll_magic :: u64
  head_node :: node
  tail_node :: node
  key_offset :: u32
  key_len :: u32
  dll_compare :: "std_compare_function option"

definition DLL_MAGIC :: u64 where "DLL_MAGIC = 0xF10D1F10"

text \<open>Assignments to the fields of a node.\<close>

abbreviation set_next :: "node \<Rightarrow> node \<Rightarrow> dll_mem \<Rightarrow> dll_mem" where
  "set_next a v m \<equiv> m\<lparr>dll_next := (dll_next m)(a := v)\<rparr>"
abbreviation set_back :: "node \<Rightarrow> node \<Rightarrow> dll_mem \<Rightarrow> dll_mem" where
  "set_back a v m \<equiv> m\<lparr>dll_back := (dll_back m)(a := v)\<rparr>"

definition std_dll_islinked :: "dll_mem \<Rightarrow> node \<Rightarrow> bool" where
  "std_dll_islinked m item \<longleftrightarrow> dll_next m item \<noteq> 0 \<and> dll_back m item \<noteq> 0"

section \<open>Operations\<close>

definition std_dll_init :: "std_dll_head \<Rightarrow> dll_mem \<Rightarrow> std_dll_head \<times> dll_mem" where
  "std_dll_init head m =
    (let m = set_next (head_node head) (tail_node head) m;
         m = set_back (head_node head) 0 m;
         m = set_back (tail_node head) (head_node head) m;
         m = set_next (tail_node head) 0 m
     in (head\<lparr>dll_magic := DLL_MAGIC, dll_compare := None, key_len := 0, key_offset := 0\<rparr>, m))"

definition std_dll_init_sort ::
    "std_dll_head \<Rightarrow> std_compare_function option \<Rightarrow> u32 \<Rightarrow> u32 \<Rightarrow> dll_mem \<Rightarrow> std_dll_head \<times> dll_mem" where
  "std_dll_init_sort head compare offset len m =
    (case std_dll_init head m of (head, m) \<Rightarrow>
       (head\<lparr>dll_compare := compare, key_offset := offset, key_len := len\<rparr>, m))"

definition std_dll_getfirst :: "std_dll_head \<Rightarrow> dll_mem \<Rightarrow> node" where
  "std_dll_getfirst head m =
    (if dll_next m (head_node head) \<noteq> tail_node head then dll_next m (head_node head) else 0)"

definition std_dll_getlast :: "std_dll_head \<Rightarrow> dll_mem \<Rightarrow> node" where
  "std_dll_getlast head m =
    (if dll_back m (tail_node head) \<noteq> head_node head then dll_back m (tail_node head) else 0)"

definition std_dll_getnext :: "std_dll_head \<Rightarrow> dll_mem \<Rightarrow> node \<Rightarrow> node" where
  "std_dll_getnext head m aft = (if dll_next m aft \<noteq> tail_node head then dll_next m aft else 0)"

definition std_dll_getprev :: "std_dll_head \<Rightarrow> dll_mem \<Rightarrow> node \<Rightarrow> node" where
  "std_dll_getprev head m bef = (if dll_back m bef \<noteq> head_node head then dll_back m bef else 0)"

definition offset_ptr :: "nat \<Rightarrow> u32 \<Rightarrow> nat" where
  "offset_ptr ptr len = ptr + unat len"

text \<open>The comparison functions for the keys of a sorted list (printing is left out).\<close>

definition std_compare_int_function :: std_compare_function where
  "std_compare_int_function mem current node len =
    (if sint (load_u32 mem current) = sint (load_u32 mem node) then 0
     else if sint (load_u32 mem current) < sint (load_u32 mem node) then -1 else 1)"

definition std_compare_uint32_function :: std_compare_function where
  "std_compare_uint32_function mem current node len =
    (if load_u32 mem current = load_u32 mem node then 0
     else if load_u32 mem current < load_u32 mem node then -1 else 1)"

definition std_compare_binary_function :: std_compare_function where
  "std_compare_binary_function mem current node len =
     memcmp (bytes_at mem current (unat len)) (bytes_at mem node (unat len))"

definition std_dll_insertatfront :: "std_dll_head \<Rightarrow> node \<Rightarrow> dll_mem \<Rightarrow> dll_mem" where
  "std_dll_insertatfront head new m =
    (let m = set_next new (dll_next m (head_node head)) m;
         m = set_back new (head_node head) m;
         m = set_back (dll_next m (head_node head)) new m
     in set_next (head_node head) new m)"

definition std_dll_insertatback :: "std_dll_head \<Rightarrow> node \<Rightarrow> dll_mem \<Rightarrow> dll_mem" where
  "std_dll_insertatback head new m =
    (let m = set_next new (tail_node head) m;
         m = set_back new (dll_back m (tail_node head)) m;
         m = set_next (dll_back m (tail_node head)) new m
     in set_back (tail_node head) new m)"

text \<open>None is the failed assertion on a null pointer.\<close>

definition std_dll_insertafter :: "std_dll_head \<Rightarrow> node \<Rightarrow> node \<Rightarrow> dll_mem \<Rightarrow> dll_mem option" where
  "std_dll_insertafter head aft new m =
    (if aft = 0 then None
     else let m = set_next new (dll_next m aft) m;
              m = set_back new aft m;
              m = set_back (dll_next m aft) new m
          in Some (set_next aft new m))"

definition std_dll_insertbefore :: "std_dll_head \<Rightarrow> node \<Rightarrow> node \<Rightarrow> dll_mem \<Rightarrow> dll_mem option" where
  "std_dll_insertbefore head bef new m =
    (if bef = 0 then None
     else let m = set_next new bef m;
              m = set_back new (dll_back m bef) m;
              m = set_next (dll_back m bef) new m
          in Some (set_back bef new m))"

definition std_dll_remove :: "std_dll_head \<Rightarrow> node \<Rightarrow> dll_mem \<Rightarrow> dll_mem" where
  "std_dll_remove head item m =
    (let front = dll_back m item;
         back = dll_next m item;
         m = set_next front back m;
         m = set_back back front m;
         m = set_back item 0 m
     in set_next item 0 m)"

text \<open>The comparison of the keys of two nodes that a sorted list makes.\<close>

definition node_compare :: "std_dll_head \<Rightarrow> std_compare_function \<Rightarrow> dll_mem \<Rightarrow> node \<Rightarrow> node \<Rightarrow> int" where
  "node_compare head compare m a b =
     compare (contents m) (offset_ptr a (key_offset head)) (offset_ptr b (key_offset head)) (key_len head)"

partial_function (option) insert_walk ::
    "std_dll_head \<Rightarrow> std_compare_function \<Rightarrow> node \<Rightarrow> node \<Rightarrow> dll_mem \<Rightarrow> dll_mem option" where
  "insert_walk head compare new walk m =
    (if dll_next m walk = tail_node head \<or> node_compare head compare m new (dll_next m walk) < 0
     then std_dll_insertafter head walk new m
     else insert_walk head compare new (dll_next m walk) m)"

definition std_dll_insert :: "std_dll_head \<Rightarrow> node \<Rightarrow> dll_mem \<Rightarrow> dll_mem option" where
  "std_dll_insert head new m =
    (case dll_compare head of
       None \<Rightarrow> Some (std_dll_insertatback head new m)
     | Some compare \<Rightarrow>
         if std_dll_getfirst head m = 0
            \<or> node_compare head compare m new (dll_next m (head_node head)) < 0
         then Some (std_dll_insertatfront head new m)
         else insert_walk head compare new (dll_next m (head_node head)) m)"

section \<open>A list in memory\<close>

fun chain :: "(node \<Rightarrow> node) \<Rightarrow> (node \<Rightarrow> node) \<Rightarrow> node list \<Rightarrow> bool" where
  "chain n b (x # y # zs) \<longleftrightarrow> n x = y \<and> b y = x \<and> chain n b (y # zs)"
| "chain n b _ \<longleftrightarrow> True"

definition dll :: "std_dll_head \<Rightarrow> dll_mem \<Rightarrow> node list \<Rightarrow> bool" where
  "dll h m ns \<longleftrightarrow> chain (dll_next m) (dll_back m) (head_node h # ns @ [tail_node h])
     \<and> distinct (head_node h # ns @ [tail_node h]) \<and> 0 \<notin> set (head_node h # ns @ [tail_node h])
     \<and> dll_back m (head_node h) = 0 \<and> dll_next m (tail_node h) = 0"

lemma chain_split:
  "chain n b (xs @ x # y # ys) \<longleftrightarrow> chain n b (xs @ [x]) \<and> n x = y \<and> b y = x \<and> chain n b (y # ys)"
proof (induction xs)
  case Nil
  then show ?case by simp
next
  case (Cons z xs)
  show ?case
  proof (cases xs)
    case Nil
    then show ?thesis by simp
  next
    case (Cons a as)
    with Cons.IH show ?thesis by simp
  qed
qed

lemma chain_cong:
  assumes "\<And>x. x \<in> set (butlast xs) \<Longrightarrow> n x = n' x" and "\<And>x. x \<in> set (tl xs) \<Longrightarrow> b x = b' x"
  shows "chain n b xs = chain n' b' xs"
  using assms
proof (induction xs)
  case Nil
  then show ?case by simp
next
  case (Cons x xs)
  show ?case
  proof (cases xs)
    case Nil
    then show ?thesis by simp
  next
    case (Cons y ys)
    have "chain n b xs = chain n' b' xs"
      by (rule Cons.IH) (use Cons.prems Cons in auto)
    then show ?thesis using Cons.prems(1) [of x] Cons.prems(2) [of y] Cons by simp
  qed
qed

lemma in_set_tl_snoc: "z \<in> set (tl (xs @ [x])) \<Longrightarrow> z = x \<or> z \<in> set xs"
  by (cases xs) auto

text \<open>Linking a new node between two neighbours, and unlinking a node.\<close>

lemma chain_link:
  assumes "chain n b (xs @ x # y # ys)" and d: "distinct (xs @ x # y # ys)" "new \<notin> set (xs @ x # y # ys)"
  shows "chain (n(new := y, x := new)) (b(new := x, y := new)) (xs @ x # new # y # ys)"
proof -
  let ?n = "n(new := y, x := new)" and ?b = "b(new := x, y := new)"
  have c: "chain n b (xs @ [x])" "chain n b (y # ys)" using assms(1) by (simp_all add: chain_split)
  have "chain n b (xs @ [x]) = chain ?n ?b (xs @ [x])"
    by (rule chain_cong) (use d in \<open>auto simp: butlast_append dest!: in_set_tl_snoc split: if_splits\<close>)
  moreover have "chain n b (y # ys) = chain ?n ?b (y # ys)"
    by (rule chain_cong) (use d in \<open>auto dest: in_set_butlastD split: if_splits\<close>)
  ultimately show ?thesis using c d by (simp add: chain_split [of _ _ xs x new])
qed

lemma chain_unlink:
  assumes "chain n b (xs @ x # item # y # ys)" and d: "distinct (xs @ x # item # y # ys)"
  shows "chain (n(x := y, item := v)) (b(y := x, item := w)) (xs @ x # y # ys)"
proof -
  let ?n = "n(x := y, item := v)" and ?b = "b(y := x, item := w)"
  have c: "chain n b (xs @ [x])" "chain n b (y # ys)"
    using assms(1) by (simp_all add: chain_split [of n b xs x item])
  have "chain n b (xs @ [x]) = chain ?n ?b (xs @ [x])"
    by (rule chain_cong) (use d in \<open>auto simp: butlast_append dest!: in_set_tl_snoc split: if_splits\<close>)
  moreover have "chain n b (y # ys) = chain ?n ?b (y # ys)"
    by (rule chain_cong) (use d in \<open>auto dest: in_set_butlastD split: if_splits\<close>)
  ultimately show ?thesis using c d by (simp add: chain_split [of _ _ xs x y])
qed

text \<open>A list opened between two neighbours.\<close>

lemma dll_links:
  assumes "dll h m ns" and "head_node h # ns @ [tail_node h] = xs @ x # y # ys"
  shows "dll_next m x = y" "dll_back m y = x" "x \<noteq> y" "x \<noteq> 0" "y \<noteq> 0"
  using assms chain_split [of "dll_next m" "dll_back m" xs x y ys] by (auto simp: dll_def)

text \<open>The memory after linking \<open>new\<close> between \<open>x\<close> and \<open>y\<close>, whatever the order of the assignments.\<close>

definition linked_in :: "node \<Rightarrow> node \<Rightarrow> node \<Rightarrow> dll_mem \<Rightarrow> dll_mem" where
  "linked_in x new y m =
     m\<lparr>dll_next := (dll_next m)(new := y, x := new), dll_back := (dll_back m)(new := x, y := new)\<rparr>"

lemma dll_linked_in:
  assumes l: "dll h m ns" and s: "head_node h # ns @ [tail_node h] = xs @ x # y # ys"
    and new: "new \<notin> set (head_node h # ns @ [tail_node h])" "new \<noteq> 0"
    and s': "head_node h # ns' @ [tail_node h] = xs @ x # new # y # ys"
  shows "dll h (linked_in x new y m) ns'"
proof -
  have d: "distinct (xs @ x # y # ys)" "0 \<notin> set (xs @ x # y # ys)" "new \<notin> set (xs @ x # y # ys)"
    using l new(1) unfolding dll_def s by simp_all
  have "chain (dll_next m) (dll_back m) (xs @ x # y # ys)" using l unfolding dll_def s by simp
  note chain_link [OF this d(1,3)]
  moreover have "y \<noteq> head_node h" "x \<noteq> tail_node h" "head_node h \<noteq> new" "tail_node h \<noteq> new"
  proof -
    show "y \<noteq> head_node h" using s d(1) by (cases xs) auto
    have "last (xs @ x # y # ys) = tail_node h" using s by (metis last_ConsR last_snoc snoc_eq_iff_butlast)
    then have "tail_node h \<in> set (y # ys)" by (metis last_appendR last_ConsR last_in_set list.distinct(1))
    then show "x \<noteq> tail_node h" using d(1) by auto
    show "head_node h \<noteq> new" "tail_node h \<noteq> new" using new(1) by auto
  qed
  ultimately show ?thesis
    using l d new unfolding dll_def s' by (auto simp: linked_in_def dll_def)
qed

section \<open>The operations on the abstract list\<close>

text \<open>A node that may be linked in: not null and not a node of the list.\<close>

definition fresh :: "std_dll_head \<Rightarrow> node list \<Rightarrow> node \<Rightarrow> bool" where
  "fresh h ns new \<longleftrightarrow> new \<notin> set (head_node h # ns @ [tail_node h]) \<and> new \<noteq> 0"

lemma insertatfront_linked_in:
  "new \<noteq> head_node h \<Longrightarrow>
   std_dll_insertatfront h new m = linked_in (head_node h) new (dll_next m (head_node h)) m"
  by (simp add: std_dll_insertatfront_def linked_in_def)

lemma insertatback_linked_in:
  "new \<noteq> tail_node h \<Longrightarrow>
   std_dll_insertatback h new m = linked_in (dll_back m (tail_node h)) new (tail_node h) m"
  by (simp add: std_dll_insertatback_def linked_in_def Let_def)

lemma insertafter_linked_in:
  "a \<noteq> 0 \<Longrightarrow> new \<noteq> a \<Longrightarrow>
   std_dll_insertafter h a new m = Some (linked_in a new (dll_next m a) m)"
  by (simp add: std_dll_insertafter_def linked_in_def Let_def)

lemma insertbefore_linked_in:
  "a \<noteq> 0 \<Longrightarrow> new \<noteq> a \<Longrightarrow>
   std_dll_insertbefore h a new m = Some (linked_in (dll_back m a) new a m)"
  by (simp add: std_dll_insertbefore_def linked_in_def Let_def)

lemma contents_linked_in [simp]: "contents (linked_in x new y m) = contents m"
  by (simp add: linked_in_def)

lemma dll_insertatfront:
  assumes "dll h m ns" and "fresh h ns new"
  shows "dll h (std_dll_insertatfront h new m) (new # ns)"
proof -
  obtain y ys where y: "ns @ [tail_node h] = y # ys" by (cases ns) auto
  have "dll_next m (head_node h) = y" using dll_links [OF assms(1), of "[]"] y by simp
  with assms y show ?thesis
    using dll_linked_in [OF assms(1), of "[]" "head_node h" y ys new "new # ns"]
    by (simp add: fresh_def insertatfront_linked_in)
qed

lemma dll_insertatback:
  assumes "dll h m ns" and "fresh h ns new"
  shows "dll h (std_dll_insertatback h new m) (ns @ [new])"
proof -
  obtain xs x where x: "head_node h # ns = xs @ [x]" by (cases ns rule: rev_cases) auto
  have s: "head_node h # ns @ [tail_node h] = xs @ x # tail_node h # []"
    "head_node h # (ns @ [new]) @ [tail_node h] = xs @ x # new # tail_node h # []"
    using x by (metis append_Cons append_Nil append_assoc)+
  have "dll_back m (tail_node h) = x" using dll_links [OF assms(1) s(1)] by simp
  with assms show ?thesis
    using dll_linked_in [OF assms(1) s(1) _ _ s(2)] by (simp add: fresh_def insertatback_linked_in)
qed

lemma dll_insertafter:
  assumes "dll h m (xs @ a # ys)" and "fresh h (xs @ a # ys) new"
  shows "\<exists>m'. std_dll_insertafter h a new m = Some m' \<and> dll h m' (xs @ a # new # ys)
           \<and> contents m' = contents m"
proof -
  obtain y zs where y: "ys @ [tail_node h] = y # zs" by (cases ys) auto
  have s: "head_node h # (xs @ a # ys) @ [tail_node h] = (head_node h # xs) @ a # y # zs"
    "head_node h # (xs @ a # new # ys) @ [tail_node h] = (head_node h # xs) @ a # new # y # zs"
    using y by simp_all
  have "dll_next m a = y" "a \<noteq> 0" using dll_links [OF assms(1) s(1)] by simp_all
  with assms show ?thesis
    using dll_linked_in [OF assms(1) s(1) _ _ s(2)] insertafter_linked_in [of a new h m]
    by (simp add: fresh_def)
qed

lemma dll_insertbefore:
  assumes "dll h m (xs @ a # ys)" and "fresh h (xs @ a # ys) new"
  shows "\<exists>m'. std_dll_insertbefore h a new m = Some m' \<and> dll h m' (xs @ new # a # ys)
           \<and> contents m' = contents m"
proof -
  obtain zs x where x: "head_node h # xs = zs @ [x]" by (cases xs rule: rev_cases) auto
  have s: "head_node h # (xs @ a # ys) @ [tail_node h] = zs @ x # a # (ys @ [tail_node h])"
    "head_node h # (xs @ new # a # ys) @ [tail_node h] = zs @ x # new # a # (ys @ [tail_node h])"
    using x by (simp_all flip: append_Cons)
  have "dll_back m a = x" "a \<noteq> 0" using dll_links [OF assms(1) s(1)] by simp_all
  with assms show ?thesis
    using dll_linked_in [OF assms(1) s(1) _ _ s(2)] insertbefore_linked_in [of a new h m]
    by (simp add: fresh_def)
qed

lemma dll_remove:
  assumes "dll h m (xs @ item # ys)"
  shows "dll h (std_dll_remove h item m) (xs @ ys)"
    and "\<not> std_dll_islinked (std_dll_remove h item m) item"
    and "contents (std_dll_remove h item m) = contents m"
proof -
  obtain zs x where x: "head_node h # xs = zs @ [x]" by (cases xs rule: rev_cases) auto
  obtain y us where y: "ys @ [tail_node h] = y # us" by (cases ys) auto
  have s: "head_node h # (xs @ item # ys) @ [tail_node h] = zs @ x # item # y # us"
    "head_node h # (xs @ ys) @ [tail_node h] = zs @ x # y # us"
    using x y by (metis append_Cons append_Nil append_assoc)+
  have d: "distinct (zs @ x # item # y # us)" "0 \<notin> set (zs @ x # item # y # us)"
    and c: "chain (dll_next m) (dll_back m) (zs @ x # item # y # us)"
    using assms unfolding dll_def s by simp_all
  have l: "dll_back m item = x" "dll_next m item = y"
    using dll_links [OF assms s(1)] dll_links [OF assms, of "zs @ [x]" item y us] s(1) by simp_all
  have i: "item \<noteq> head_node h" "item \<noteq> tail_node h" using assms by (auto simp: dll_def)
  have "x \<noteq> tail_node h" "y \<noteq> head_node h"
  proof -
    show "x \<noteq> tail_node h" using x assms by (cases xs rule: rev_cases) (auto simp: dll_def)
    show "y \<noteq> head_node h" using y assms by (cases ys) (auto simp: dll_def)
  qed
  then show "dll h (std_dll_remove h item m) (xs @ ys)"
    using chain_unlink [OF c d(1), of 0 0] d assms i l unfolding dll_def s
    by (simp add: std_dll_remove_def Let_def fun_upd_twist)
  show "\<not> std_dll_islinked (std_dll_remove h item m) item"
    by (simp add: std_dll_islinked_def std_dll_remove_def Let_def)
  show "contents (std_dll_remove h item m) = contents m"
    by (simp add: std_dll_remove_def Let_def)
qed

lemma dll_init:
  assumes "head_node h \<noteq> tail_node h" "head_node h \<noteq> 0" "tail_node h \<noteq> 0"
  shows "case std_dll_init h m of (h', m') \<Rightarrow> dll h' m' [] \<and> dll_compare h' = None \<and> dll_magic h' = DLL_MAGIC"
  using assms by (simp add: std_dll_init_def dll_def Let_def)

section \<open>Iteration\<close>

text \<open>A position of a node list as the pointer the iteration functions return.\<close>

definition first_node :: "node list \<Rightarrow> node" where
  "first_node ns = (case ns of [] \<Rightarrow> 0 | x # _ \<Rightarrow> x)"

lemma dll_getnext:
  assumes "dll h m (xs @ a # ys)"
  shows "std_dll_getnext h m a = first_node ys"
proof -
  obtain y zs where y: "ys @ [tail_node h] = y # zs" by (cases ys) auto
  have "dll_next m a = y" using dll_links [OF assms, of "head_node h # xs" a y zs] y by simp
  moreover have "ys \<noteq> [] \<Longrightarrow> y \<noteq> tail_node h" using assms y by (cases ys) (auto simp: dll_def)
  ultimately show ?thesis using y by (cases ys) (auto simp: std_dll_getnext_def first_node_def)
qed

lemma dll_getfirst:
  assumes "dll h m ns"
  shows "std_dll_getfirst h m = first_node ns"
proof -
  obtain y zs where y: "ns @ [tail_node h] = y # zs" by (cases ns) auto
  have "dll_next m (head_node h) = y" using dll_links [OF assms, of "[]" "head_node h" y zs] y by simp
  moreover have "ns \<noteq> [] \<Longrightarrow> y \<noteq> tail_node h" using assms y by (cases ns) (auto simp: dll_def)
  ultimately show ?thesis using y by (cases ns) (auto simp: std_dll_getfirst_def first_node_def)
qed

lemma dll_getprev:
  assumes "dll h m (xs @ a # ys)"
  shows "std_dll_getprev h m a = first_node (rev xs)"
proof (cases xs rule: rev_cases)
  case Nil
  then have "dll_back m a = head_node h" using dll_links [OF assms, of "[]" "head_node h" a] by simp
  with Nil show ?thesis by (simp add: std_dll_getprev_def first_node_def)
next
  case (snoc zs x)
  then have "dll_back m a = x" using dll_links [OF assms, of "head_node h # zs" x a] by simp
  moreover have "x \<noteq> head_node h" using assms snoc by (auto simp: dll_def)
  ultimately show ?thesis using snoc by (simp add: std_dll_getprev_def first_node_def)
qed

lemma dll_getlast:
  assumes "dll h m ns"
  shows "std_dll_getlast h m = first_node (rev ns)"
proof (cases ns rule: rev_cases)
  case Nil
  then have "dll_back m (tail_node h) = head_node h"
    using dll_links [OF assms, of "[]" "head_node h" "tail_node h"] by simp
  with Nil show ?thesis by (simp add: std_dll_getlast_def first_node_def)
next
  case (snoc zs x)
  then have "dll_back m (tail_node h) = x"
    using dll_links [OF assms, of "head_node h # zs" x "tail_node h"] by simp
  moreover have "x \<noteq> head_node h" using assms snoc by (auto simp: dll_def)
  ultimately show ?thesis using snoc by (simp add: std_dll_getlast_def first_node_def)
qed

lemma dll_member_islinked:
  assumes "dll h m ns" and "a \<in> set ns"
  shows "std_dll_islinked m a"
proof -
  obtain xs ys where ns: "ns = xs @ a # ys" using assms(2) by (metis split_list)
  obtain y zs where y: "ys @ [tail_node h] = y # zs" by (cases ys) auto
  obtain us x where x: "head_node h # xs = us @ [x]" by (cases xs rule: rev_cases) auto
  have "head_node h # ns @ [tail_node h] = us @ x # a # ys @ [tail_node h]"
    using ns x by (metis append_Cons append_Nil append_assoc)
  from dll_links [OF assms(1) this] have b: "dll_back m a \<noteq> 0" by simp
  have "head_node h # ns @ [tail_node h] = (head_node h # xs) @ a # y # zs" using ns y by simp
  from dll_links [OF assms(1) this] b show ?thesis by (simp add: std_dll_islinked_def)
qed

section \<open>Sorted insertion\<close>

lemma first_node_Cons [simp]: "first_node (x # xs) = x" "first_node [] = 0"
  by (simp_all add: first_node_def)

lemma insert_walk_sorted:
  assumes "dll h m (xs @ w # ys)" and "fresh h (xs @ w # ys) new"
  shows "\<exists>m'. insert_walk h c new w m = Some m' \<and> contents m' = contents m
           \<and> dll h m' (xs @ w # insert_after (node_compare h c m) new ys)"
  using assms
proof (induction ys arbitrary: xs w)
  case Nil
  have "dll_next m w = tail_node h" using dll_links [OF Nil(1), of "head_node h # xs" w] by simp
  then show ?case using dll_insertafter [OF Nil] by (auto simp: insert_walk.simps)
next
  case (Cons y ys)
  have n: "dll_next m w = y" using dll_links [OF Cons.prems(1), of "head_node h # xs" w y] by simp
  have t: "y \<noteq> tail_node h" using Cons.prems(1) by (auto simp: dll_def)
  show ?case
  proof (cases "node_compare h c m new y < 0")
    case True
    then show ?thesis using dll_insertafter [OF Cons.prems] n by (auto simp: insert_walk.simps)
  next
    case False
    then show ?thesis
      using Cons.IH [of "xs @ [w]" y] Cons.prems n t by (simp add: insert_walk.simps)
  qed
qed

lemma dll_insert_sorted:
  assumes l: "dll h m ns" and f: "fresh h ns new" and c: "dll_compare h = Some c"
  shows "\<exists>m'. std_dll_insert h new m = Some m' \<and> contents m' = contents m
           \<and> dll h m' (insert_after (node_compare h c m) new ns)"
proof (cases ns)
  case Nil
  then show ?thesis
    using c dll_getfirst [OF l] dll_insertatfront [OF l f]
    by (simp add: std_dll_insert_def std_dll_insertatfront_def)
next
  case (Cons y ys)
  have n: "dll_next m (head_node h) = y" using dll_links [OF l, of "[]" "head_node h" y] Cons by simp
  have y: "y \<noteq> 0" using l Cons by (auto simp: dll_def)
  show ?thesis
  proof (cases "node_compare h c m new y < 0")
    case True
    then show ?thesis
      using c n dll_insertatfront [OF l f] Cons
      by (simp add: std_dll_insert_def std_dll_insertatfront_def)
  next
    case False
    then show ?thesis
      using c n y dll_getfirst [OF l] insert_walk_sorted [of h m "[]" y ys new c] l f Cons
      by (simp add: std_dll_insert_def)
  qed
qed

text \<open>The comparison functions of the header keep the contract on every node.\<close>

interpretation dll_int: key_order UNIV "node_compare h std_compare_int_function m" for h m
  by (rule key_order_via [where f = "\<lambda>a. sint (load_u32 (contents m) (offset_ptr a (key_offset h)))"])
    (simp add: node_compare_def std_compare_int_function_def)

interpretation dll_uint32: key_order UNIV "node_compare h std_compare_uint32_function m" for h m
  by (rule key_order_via [where f = "\<lambda>a. load_u32 (contents m) (offset_ptr a (key_offset h))"])
    (simp add: node_compare_def std_compare_uint32_function_def)

interpretation dll_binary: key_order UNIV "node_compare h std_compare_binary_function m" for h m
proof
  fix a b c :: node
  show "node_compare h std_compare_binary_function m a b < 0 \<longleftrightarrow>
      0 < node_compare h std_compare_binary_function m b a"
    by (simp add: node_compare_def std_compare_binary_function_def memcmp_anti)
  assume "node_compare h std_compare_binary_function m a b \<le> 0"
    "node_compare h std_compare_binary_function m b c \<le> 0"
  then show "node_compare h std_compare_binary_function m a c \<le> 0"
    unfolding node_compare_def std_compare_binary_function_def
    by (rule memcmp_trans [rotated 2]) simp_all
qed

definition header_compare :: "std_compare_function \<Rightarrow> bool" where
  "header_compare c \<longleftrightarrow> c = std_compare_int_function \<or> c = std_compare_uint32_function
     \<or> c = std_compare_binary_function"

lemma header_compare_sorted_insert:
  assumes "header_compare c" and "key_sorted (node_compare h c m) ns"
  shows "key_sorted (node_compare h c m) (insert_after (node_compare h c m) new ns)"
  using assms dll_int.sorted_insert_after [OF subset_UNIV UNIV_I]
    dll_uint32.sorted_insert_after [OF subset_UNIV UNIV_I]
    dll_binary.sorted_insert_after [OF subset_UNIV UNIV_I]
  by (auto simp: header_compare_def)

lemma node_compare_contents: "contents m' = contents m \<Longrightarrow> node_compare h c m' = node_compare h c m"
  by (intro ext) (simp add: node_compare_def)

section \<open>Properties\<close>

text \<open> C28: Every editing operation of the linked list is the corresponding operation on the
  sequence of its nodes, the empty list included: inserting a node at the front or at the back;
  \<open>std_dll_insert\<close>, at the back of a list without a comparison function and before the first node with a
  greater key of a list with one; inserting a node after or before a given node, and
  removing a node, after which that node no longer counts as linked. \<close>

theorem dll_edits:
  assumes "dll h m ns" and "fresh h ns new"
  shows "dll h (std_dll_insertatfront h new m) (new # ns) \<and>
    dll h (std_dll_insertatback h new m) (ns @ [new]) \<and>
    (\<exists>m'. std_dll_insert h new m = Some m' \<and>
       dll h m' (case dll_compare h of None \<Rightarrow> ns @ [new] | Some c \<Rightarrow> insert_after (node_compare h c m) new ns)) \<and>
    (\<forall>xs a ys. ns = xs @ a # ys \<longrightarrow>
      (\<exists>m1. std_dll_insertafter h a new m = Some m1 \<and> dll h m1 (xs @ a # new # ys)) \<and>
      (\<exists>m2. std_dll_insertbefore h a new m = Some m2 \<and> dll h m2 (xs @ new # a # ys)) \<and>
      dll h (std_dll_remove h a m) (xs @ ys) \<and> \<not> std_dll_islinked (std_dll_remove h a m) a)"
proof (intro conjI allI impI)
  show "dll h (std_dll_insertatfront h new m) (new # ns)" by (rule dll_insertatfront [OF assms])
  show atb: "dll h (std_dll_insertatback h new m) (ns @ [new])" by (rule dll_insertatback [OF assms])
  show "\<exists>m'. std_dll_insert h new m = Some m' \<and>
      dll h m' (case dll_compare h of None \<Rightarrow> ns @ [new] | Some c \<Rightarrow> insert_after (node_compare h c m) new ns)"
    using atb dll_insert_sorted [OF assms] by (auto simp: std_dll_insert_def split: option.split)
  fix xs a ys assume "ns = xs @ a # ys"
  note a = assms [unfolded this]
  show "\<exists>m1. std_dll_insertafter h a new m = Some m1 \<and> dll h m1 (xs @ a # new # ys)"
    "\<exists>m2. std_dll_insertbefore h a new m = Some m2 \<and> dll h m2 (xs @ new # a # ys)"
    "dll h (std_dll_remove h a m) (xs @ ys)" "\<not> std_dll_islinked (std_dll_remove h a m) a"
    using dll_insertafter [OF a] dll_insertbefore [OF a] dll_remove(1,2) [OF a(1)] by auto
qed

text \<open>Iteration visits the nodes in order, in both directions: the first and last node, and
  the neighbours of every node, with the null pointer past either end; every node on the list
  counts as linked. \<close>

theorem dll_iteration:
  assumes "dll h m (xs @ a # ys)"
  shows "std_dll_getfirst h m = hd (xs @ [a]) \<and> std_dll_getlast h m = last (a # ys) \<and>
    std_dll_getnext h m a = (if ys = [] then 0 else hd ys) \<and>
    std_dll_getprev h m a = (if xs = [] then 0 else last xs) \<and>
    std_dll_islinked m a"
proof -
  have "first_node (xs @ a # ys) = hd (xs @ [a])" by (cases xs) auto
  moreover have "first_node (rev (xs @ a # ys)) = last (a # ys)" by (cases ys rule: rev_cases) auto
  moreover have "first_node ys = (if ys = [] then 0 else hd ys)" by (cases ys) auto
  moreover have "first_node (rev xs) = (if xs = [] then 0 else last xs)" by (cases xs rule: rev_cases) auto
  ultimately show ?thesis
    using dll_getfirst [OF assms] dll_getlast [OF assms] dll_getnext [OF assms] dll_getprev [OF assms]
      dll_member_islinked [OF assms]
    by simp
qed

text \<open>Insertion into a list created with one of the comparison functions of the header
  returns, and puts the node behind every node whose key is not greater (so nodes with equal
  keys stay in order of arrival); a sorted list stays sorted. \<close>

theorem dll_insert_keeps_order:
  assumes "dll h m ns" and "fresh h ns new" and "dll_compare h = Some c" and "header_compare c"
    and "key_sorted (node_compare h c m) ns"
  shows "\<exists>m'. std_dll_insert h new m = Some m' \<and> contents m' = contents m
    \<and> dll h m' (insert_after (node_compare h c m) new ns)
    \<and> key_sorted (node_compare h c m') (insert_after (node_compare h c m) new ns)"
proof -
  obtain m' where m': "std_dll_insert h new m = Some m'" "contents m' = contents m"
    "dll h m' (insert_after (node_compare h c m) new ns)"
    using dll_insert_sorted [OF assms(1-3)] by auto
  with header_compare_sorted_insert [OF assms(4,5)] node_compare_contents [OF m'(2)] show ?thesis
    by auto
qed

text \<open>A list of two nodes at addresses 100 and 200, whose keys are 5 and 9.\<close>

definition demo_head :: std_dll_head where
  "demo_head = \<lparr>dll_magic = DLL_MAGIC, head_node = 8, tail_node = 16, key_offset = 16,
     key_len = 4, dll_compare = Some std_compare_uint32_function\<rparr>"

definition demo_mem :: dll_mem where
  "demo_mem = \<lparr>dll_next = (\<lambda>_. 0)(8 := 100, 100 := 200, 200 := 16),
     dll_back = (\<lambda>_. 0)(100 := 8, 200 := 100, 16 := 200),
     contents = (\<lambda>_. 0)(116 := 5, 216 := 9, 316 := 7)\<rparr>"

lemma demo_dll: "dll demo_head demo_mem [100, 200]"
  by (simp add: dll_def demo_head_def demo_mem_def)

lemma demo_fresh: "fresh demo_head [100, 200] 300"
  by (simp add: fresh_def demo_head_def)

lemma demo_compare:
  "node_compare demo_head std_compare_uint32_function demo_mem 100 200 = -1"
  "node_compare demo_head std_compare_uint32_function demo_mem 300 200 = -1"
  "node_compare demo_head std_compare_uint32_function demo_mem 300 100 = 1"
  by (simp_all add: node_compare_def std_compare_uint32_function_def demo_head_def demo_mem_def
      offset_ptr_def load_u32_def bytes_at_def upt_rec word_rcat_def)

lemma dll_edits_witness:
  "(\<exists>m. std_dll_insert demo_head 300 demo_mem = Some m) \<and>
   dll demo_head (std_dll_insertatback demo_head 300 demo_mem) [100, 200, 300]
   \<and> \<not> std_dll_islinked (std_dll_remove demo_head 100 demo_mem) 100"
  using dll_edits [OF demo_dll demo_fresh] by (metis append_Cons append_Nil)

lemma dll_iteration_witness:
  "std_dll_getfirst demo_head demo_mem = 100 \<and> std_dll_getnext demo_head demo_mem 100 = 200"
  using dll_iteration [of demo_head demo_mem "[]" 100 "[200]"] demo_dll by simp

lemma dll_insert_keeps_order_witness:
  "\<exists>m'. std_dll_insert demo_head 300 demo_mem = Some m' \<and> dll demo_head m' [100, 300, 200]"
  using dll_insert_keeps_order [of demo_head demo_mem "[100, 200]" 300 std_compare_uint32_function]
    demo_dll demo_fresh demo_compare
  by (auto simp: header_compare_def key_sorted_def demo_head_def)

end
