(* ===== verification/RadixTree.thy ===== *)
theory RadixTree
  imports PtrTree LList
begin

text \<open>
  The radix tree of \<open>src/std_radix.c\<close>: the table, its nodes, the lookups. Every struct pointer is
  an address, 0 the null pointer; a field of a struct is a function from the address. Keys are
  byte strings in the client's memory, the \<open>contents\<close> of the memory of the change list, whose
  nodes are embedded in the user heads. A loop that follows pointers is a \<open>partial_function\<close>:
  None is a failed \<open>RDX_ASSERT\<close> or no return. Bit lengths (\<open>ushort\<close>) are natural numbers.
\<close>

section \<open>Node, head and table\<close>

text \<open>
  \<open>rtn_*\<close> are the fields of \<open>rt_node\<close>, \<open>rth_*\<close>, \<open>rdx_rth_addr\<close> and \<open>rdcl_flags\<close> those of a user head,
  the others those of the table. \<open>rtt_rmfree\<close> says whether the client has given a routine that
  frees a user head; \<open>rt_freed_heads\<close> are the heads passed to it, \<open>rt_freed_nodes\<close> the nodes passed
  to \<open>rtt_free\<close>. \<open>rtt_convert\<close> gives the bytes the client's conversion writes for a key.
\<close>

record std_rt_table =
  rtn_left :: "ptr \<Rightarrow> ptr"
  rtn_right :: "ptr \<Rightarrow> ptr"
  rtn_parent :: "ptr \<Rightarrow> ptr"
  rtn_bit :: "ptr \<Rightarrow> nat"
  rtn_tbit :: "ptr \<Rightarrow> u8"
  rtn_flags :: "ptr \<Rightarrow> u8"
  rtn_lock :: "ptr \<Rightarrow> u8"
  rtn_version :: "ptr \<Rightarrow> u64"
  rtn_rth :: "ptr \<Rightarrow> ptr"
  rth_rtn :: "ptr \<Rightarrow> ptr"
  rth_addr :: "ptr \<Rightarrow> ptr"
  rth_version :: "ptr \<Rightarrow> u64"
  rdx_rth_addr :: "ptr \<Rightarrow> ptr"
  rth_magic :: "ptr \<Rightarrow> u64"
  rdcl_flags :: "ptr \<Rightarrow> u32"
  rt_mem :: dll_mem
  rtt_magic :: u64
  rtt_name :: string
  rtt_root :: ptr
  rtt_inodes :: u64
  rtt_routes :: u64
  rtt_ninserts :: u64
  rtt_nremoves :: u64
  rtt_nmalloc :: u64
  rtt_nfree :: u64
  rtt_nusrfrees :: u64
  rtt_nwraps :: u64
  rtt_version :: u64
  rtt_maxaddrlen :: nat
  rtt_debug :: bool
  rtt_temp :: ptr
  rtt_rmfree :: bool
  rtt_convert :: "((ptr \<Rightarrow> u8) \<Rightarrow> ptr \<Rightarrow> nat \<Rightarrow> u8 list) option"
  rtt_radicalinuse :: int
  rtt_radicalused :: bool
  rtt_carused :: bool
  rtt_clhead :: std_dll_head
  rt_freed_heads :: "ptr list"
  rt_freed_nodes :: "ptr set"

definition RDX_MAGIC :: u64 where "RDX_MAGIC = 0xdeadbeef"
definition RDX_INITIALVER :: u64 where "RDX_INITIALVER = 0"
definition RT_RTH_ADDR_MAGIC :: u64 where "RT_RTH_ADDR_MAGIC = 0xCAFEBABE"
definition RDX_NAME_MAX_LEN :: nat where "RDX_NAME_MAX_LEN = 50"
definition DIVISOR :: nat where "DIVISOR = 8"
definition RNBBY :: nat where "RNBBY = 8"

datatype rdx_dir = RDX_WALKDOWN | RDX_WALKUP | RDX_WALKRIGHT

definition RNBYTE :: "nat \<Rightarrow> nat" where "RNBYTE x = x div 8"
definition RNBIT :: "nat \<Rightarrow> u8" where "RNBIT x = drop_bit (x mod RNBBY) 0x80"
definition BIT_TEST :: "u8 \<Rightarrow> u8 \<Rightarrow> bool" where "BIT_TEST f b \<longleftrightarrow> f AND b \<noteq> 0"

definition RDX_RN_DELE_BIT :: nat where "RDX_RN_DELE_BIT = 1"

definition RDX_TEST_BIT :: "u8 \<Rightarrow> nat \<Rightarrow> bool" where
  "RDX_TEST_BIT flag n \<longleftrightarrow> flag AND push_bit n 1 \<noteq> 0"
definition RDX_SET_BIT :: "u8 \<Rightarrow> nat \<Rightarrow> u8" where
  "RDX_SET_BIT flag n = flag OR push_bit n 1"
definition RDX_CLEAR_BIT :: "u8 \<Rightarrow> nat \<Rightarrow> u8" where
  "RDX_CLEAR_BIT flag n = flag AND NOT (push_bit n 1)"

text \<open>The byte \<open>i\<close> of the key at an address.\<close>

abbreviation rt_byte :: "std_rt_table \<Rightarrow> ptr \<Rightarrow> nat \<Rightarrow> u8" where
  "rt_byte rtt ap i \<equiv> contents (rt_mem rtt) (ap + i)"

text \<open>Assignments to a field.\<close>

abbreviation set_rtn_left :: "ptr \<Rightarrow> ptr \<Rightarrow> std_rt_table \<Rightarrow> std_rt_table" where
  "set_rtn_left x v s \<equiv> s\<lparr>rtn_left := (rtn_left s)(x := v)\<rparr>"
abbreviation set_rtn_right :: "ptr \<Rightarrow> ptr \<Rightarrow> std_rt_table \<Rightarrow> std_rt_table" where
  "set_rtn_right x v s \<equiv> s\<lparr>rtn_right := (rtn_right s)(x := v)\<rparr>"
abbreviation set_rtn_parent :: "ptr \<Rightarrow> ptr \<Rightarrow> std_rt_table \<Rightarrow> std_rt_table" where
  "set_rtn_parent x v s \<equiv> s\<lparr>rtn_parent := (rtn_parent s)(x := v)\<rparr>"
abbreviation set_rtn_rth :: "ptr \<Rightarrow> ptr \<Rightarrow> std_rt_table \<Rightarrow> std_rt_table" where
  "set_rtn_rth x v s \<equiv> s\<lparr>rtn_rth := (rtn_rth s)(x := v)\<rparr>"
abbreviation set_rth_rtn :: "ptr \<Rightarrow> ptr \<Rightarrow> std_rt_table \<Rightarrow> std_rt_table" where
  "set_rth_rtn x v s \<equiv> s\<lparr>rth_rtn := (rth_rtn s)(x := v)\<rparr>"

definition RN_SETBIT :: "ptr \<Rightarrow> nat \<Rightarrow> std_rt_table \<Rightarrow> std_rt_table" where
  "RN_SETBIT rtn bitlen s =
     s\<lparr>rtn_bit := (rtn_bit s)(rtn := bitlen), rtn_tbit := (rtn_tbit s)(rtn := RNBIT bitlen)\<rparr>"

definition RN_LOCK :: "ptr \<Rightarrow> std_rt_table \<Rightarrow> std_rt_table" where
  "RN_LOCK rtn s = s\<lparr>rtn_lock := (rtn_lock s)(rtn := rtn_lock s rtn + 1)\<rparr>"
definition RN_UNLOCK :: "ptr \<Rightarrow> std_rt_table \<Rightarrow> std_rt_table" where
  "RN_UNLOCK rtn s = s\<lparr>rtn_lock := (rtn_lock s)(rtn := rtn_lock s rtn - 1)\<rparr>"
definition RN_IFLOCK :: "std_rt_table \<Rightarrow> ptr \<Rightarrow> bool" where
  "RN_IFLOCK s rtn \<longleftrightarrow> rtn_lock s rtn \<noteq> 0"

text \<open>A node marked for deletion.\<close>

definition rtn_dele :: "std_rt_table \<Rightarrow> ptr \<Rightarrow> bool" where
  "rtn_dele s rtn \<longleftrightarrow> RDX_TEST_BIT (rtn_flags s rtn) RDX_RN_DELE_BIT"

text \<open>The position of the most significant set bit of a byte, counted from the left.\<close>

definition first_bit_set :: "nat list" where
  "first_bit_set =
     [8, 7, 6, 6, 5, 5, 5, 5, 4, 4, 4, 4, 4, 4, 4, 4] @ replicate 16 3 @ replicate 32 2 @
     replicate 64 1 @ replicate 128 0"

text \<open>Keys are compared up to the tested bit: the bits above it in its byte, and the bytes before.\<close>

definition rdx_compare_address :: "std_rt_table \<Rightarrow> ptr \<Rightarrow> ptr \<Rightarrow> nat \<Rightarrow> u8 \<Rightarrow> bool" where
  "rdx_compare_address s ap1 ap2 tbyte tbit =
    (let mask = NOT (tbit OR (tbit - 1)) in
     if (rt_byte s ap1 tbyte XOR rt_byte s ap2 tbyte) AND mask \<noteq> 0 then True
     else tbyte \<noteq> 0 \<and> memcmp (bytes_at (contents (rt_mem s)) ap1 tbyte) (bytes_at (contents (rt_mem s)) ap2 tbyte) \<noteq> 0)"

text \<open>
  The conversion of a key to bytes in the table's buffer, when the client has set one: the buffer
  is cleared and written, and its address takes the place of the key's.
\<close>

definition poke :: "(ptr \<Rightarrow> u8) \<Rightarrow> ptr \<Rightarrow> u8 list \<Rightarrow> ptr \<Rightarrow> u8" where
  "poke mem a bs = (\<lambda>x. if a \<le> x \<and> x < a + length bs then bs ! (x - a) else mem x)"

definition rtt_keybytes :: "std_rt_table \<Rightarrow> nat" where
  "rtt_keybytes s = (rtt_maxaddrlen s + (DIVISOR - 1)) div DIVISOR"

definition rdx_convert :: "std_rt_table \<Rightarrow> ptr \<Rightarrow> std_rt_table \<times> ptr" where
  "rdx_convert s addr =
    (case rtt_convert s of
       None \<Rightarrow> (s, addr)
     | Some f \<Rightarrow>
         (let mem = poke (contents (rt_mem s)) (rtt_temp s) (replicate (rtt_keybytes s) 0);
              mem = poke mem (rtt_temp s) (f mem addr (rtt_maxaddrlen s))
          in (s\<lparr>rt_mem := (rt_mem s)\<lparr>contents := mem\<rparr>\<rparr>, rtt_temp s)))"

text \<open>
  \<open>RDX_DEBUG_START ... RDX_DEBUG_END\<close>: the magic number is asserted always; what stands in between
  is done only when the table's debug flag is on.
\<close>

definition RDX_VALIDATE_HANDLE :: "std_rt_table \<Rightarrow> bool" where
  "RDX_VALIDATE_HANDLE s \<longleftrightarrow> rtt_magic s = RDX_MAGIC"

section \<open>Lookups\<close>

text \<open>The search down the tree for a node whose bit number is at least the length.\<close>

partial_function (option) rdx_search :: "std_rt_table \<Rightarrow> ptr \<Rightarrow> nat \<Rightarrow> ptr \<Rightarrow> ptr option" where
  "rdx_search s ap bitlen rtn =
    (if rtn \<noteq> 0 \<and> rtn_bit s rtn < bitlen then
       if BIT_TEST (rt_byte s ap (RNBYTE (rtn_bit s rtn))) (rtn_tbit s rtn) then
         (if rtn_right s rtn = 0 then Some rtn else rdx_search s ap bitlen (rtn_right s rtn))
       else
         (if rtn_left s rtn = 0 then Some rtn else rdx_search s ap bitlen (rtn_left s rtn))
     else Some rtn)"

text \<open>The way back to the root, to the first node whose head matches the address.\<close>

partial_function (option) rdx_backtrack :: "std_rt_table \<Rightarrow> ptr \<Rightarrow> nat \<Rightarrow> ptr \<Rightarrow> ptr option" where
  "rdx_backtrack s addr bitlen rtn =
    (if rtn = 0 then Some 0
     else if rtn_bit s rtn > bitlen then rdx_backtrack s addr bitlen (rtn_parent s rtn)
     else if rtn_rth s rtn = 0 then rdx_backtrack s addr bitlen (rtn_parent s rtn)
     else if \<not> rdx_compare_address s addr (rdx_rth_addr s (rtn_rth s rtn)) (RNBYTE (rtn_bit s rtn)) (rtn_tbit s rtn)
     then Some rtn
     else rdx_backtrack s addr bitlen (rtn_parent s rtn))"

definition std_radix_nodeisleaf :: "std_rt_table \<Rightarrow> ptr \<Rightarrow> int" where
  "std_radix_nodeisleaf s rth =
    (if rth = 0 then -1
     else let rtn = rth_rtn s rth in
       if rtn_left s rtn \<noteq> 0 \<or> rtn_right s rtn \<noteq> 0 then 0 else 1)"

partial_function (option) first_head_up :: "std_rt_table \<Rightarrow> ptr \<Rightarrow> ptr option" where
  "first_head_up s rtn =
    (if rtn \<noteq> 0 then
       (if rtn_rth s rtn \<noteq> 0 then Some rtn else first_head_up s (rtn_parent s rtn))
     else Some 0)"

definition std_radix_getparent :: "std_rt_table \<Rightarrow> ptr \<Rightarrow> ptr option" where
  "std_radix_getparent s rth =
    (if \<not> RDX_VALIDATE_HANDLE s \<or> rtt_debug s \<and> rth = 0 then None
     else (case first_head_up s (rtn_parent s (rth_rtn s rth)) of
             None \<Rightarrow> None
           | Some rtn \<Rightarrow> Some (if rtn \<noteq> 0 then rtn_rth s rtn else 0)))"

definition std_radix_getbest :: "std_rt_table \<Rightarrow> ptr \<Rightarrow> nat \<Rightarrow> (std_rt_table \<times> ptr) option" where
  "std_radix_getbest s addr bitlen =
    (if addr = 0 then Some (s, 0)
     else
       (case rdx_convert s addr of (s, addr) \<Rightarrow>
          if \<not> RDX_VALIDATE_HANDLE s then None
          else if rtt_debug s \<and> bitlen > rtt_maxaddrlen s then Some (s, 0)
          else if rtt_root s = 0 then Some (s, 0)
          else
            (case rdx_search s addr bitlen (rtt_root s) of
               None \<Rightarrow> None
             | Some rtn \<Rightarrow>
                 (case rdx_backtrack s addr bitlen rtn of
                    None \<Rightarrow> None
                  | Some rtn \<Rightarrow> Some (s, if rtn \<noteq> 0 \<and> \<not> rtn_dele s rtn then rtn_rth s rtn else 0)))))"

text \<open>The result is the best match and what is written to \<open>lessbest\<close> (None: nothing).\<close>

definition std_radix_getbestandprev ::
    "std_rt_table \<Rightarrow> ptr \<Rightarrow> nat \<Rightarrow> (std_rt_table \<times> ptr \<times> ptr option) option" where
  "std_radix_getbestandprev s addr bitlen =
    (if addr = 0 then Some (s, 0, None)
     else
       (case rdx_convert s addr of (s, addr) \<Rightarrow>
          if \<not> RDX_VALIDATE_HANDLE s then None
          else if rtt_debug s \<and> bitlen > rtt_maxaddrlen s then Some (s, 0, None)
          else if rtt_root s = 0 then Some (s, 0, None)
          else
            (case rdx_search s addr bitlen (rtt_root s) of
               None \<Rightarrow> None
             | Some rtn \<Rightarrow>
                 (case rdx_backtrack s addr bitlen rtn of
                    None \<Rightarrow> None
                  | Some rtn \<Rightarrow>
                      if rtn \<noteq> 0 \<and> \<not> rtn_dele s rtn then
                        (let best = rtn_rth s rtn in
                         case rdx_backtrack s addr bitlen (rtn_parent s rtn) of
                           None \<Rightarrow> None
                         | Some rtn \<Rightarrow>
                             if rtn \<noteq> 0 \<and> \<not> rtn_dele s rtn then Some (s, best, Some (rtn_rth s rtn))
                             else Some (s, best, Some 0))
                      else Some (s, 0, Some 0)))))"

definition std_radix_getnextbest :: "std_rt_table \<Rightarrow> ptr \<Rightarrow> nat \<Rightarrow> (std_rt_table \<times> ptr) option" where
  "std_radix_getnextbest s addr bitlen =
    (if addr = 0 then Some (s, 0)
     else
       (case rdx_convert s addr of (s, addr) \<Rightarrow>
          if \<not> RDX_VALIDATE_HANDLE s then None
          else if rtt_debug s \<and> bitlen > rtt_maxaddrlen s then Some (s, 0)
          else if rtt_root s = 0 then Some (s, 0)
          else
            (case rdx_search s addr bitlen (rtt_root s) of
               None \<Rightarrow> None
             | Some rtn \<Rightarrow>
                 (case rdx_backtrack s addr bitlen rtn of
                    None \<Rightarrow> None
                  | Some rtn \<Rightarrow>
                      if rtn \<noteq> 0 \<and> \<not> rtn_dele s rtn then
                        (case rdx_backtrack s addr bitlen (rtn_parent s rtn) of
                           None \<Rightarrow> None
                         | Some rtn \<Rightarrow>
                             Some (s, if rtn \<noteq> 0 \<and> \<not> rtn_dele s rtn then rtn_rth s rtn else 0))
                      else Some (s, 0)))))"

text \<open>The check for a null address, the conversion and the length check are all debugging aids here.\<close>

definition std_radix_getexact :: "std_rt_table \<Rightarrow> ptr \<Rightarrow> nat \<Rightarrow> (std_rt_table \<times> ptr) option" where
  "std_radix_getexact s addr bitlen =
    (if \<not> RDX_VALIDATE_HANDLE s then None
     else if rtt_debug s \<and> addr = 0 then Some (s, 0)
     else
       (case (if rtt_debug s then rdx_convert s addr else (s, addr)) of (s, ap) \<Rightarrow>
          if rtt_debug s \<and> bitlen > rtt_maxaddrlen s then Some (s, 0)
          else if rtt_root s = 0 then Some (s, 0)
          else
            (case rdx_search s ap bitlen (rtt_root s) of
               None \<Rightarrow> None
             | Some rtn \<Rightarrow>
                 Some (s,
                   if rtn = 0 \<or> rtn_bit s rtn \<noteq> bitlen \<or> rtn_rth s rtn = 0 then 0
                   else if rdx_compare_address s ap (rdx_rth_addr s (rtn_rth s rtn))
                             (RNBYTE (rtn_bit s rtn)) (rtn_tbit s rtn) then 0
                   else if rtn_dele s rtn then 0
                   else rtn_rth s rtn))))"

section \<open>The next head in order\<close>

text \<open>The search down to a node with a head; \<open>std_radix_getnext\<close> and \<open>std_radix_insert\<close> share it.\<close>

partial_function (option) rdx_search_head :: "std_rt_table \<Rightarrow> ptr \<Rightarrow> nat \<Rightarrow> ptr \<Rightarrow> ptr option" where
  "rdx_search_head s ap bitlen rtn =
    (if rtn_bit s rtn < bitlen \<or> rtn_rth s rtn = 0 then
       if BIT_TEST (rt_byte s ap (RNBYTE (rtn_bit s rtn))) (rtn_tbit s rtn) then
         (if rtn_right s rtn = 0 then Some rtn else rdx_search_head s ap bitlen (rtn_right s rtn))
       else
         (if rtn_left s rtn = 0 then Some rtn else rdx_search_head s ap bitlen (rtn_left s rtn))
     else Some rtn)"

text \<open>The first bit that differs, byte by byte; at least \<open>bits2chk\<close> when none does.\<close>

function first_diff :: "std_rt_table \<Rightarrow> ptr \<Rightarrow> ptr \<Rightarrow> nat \<Rightarrow> nat \<Rightarrow> nat" where
  "first_diff s ap ap2 bits2chk dbit =
    (if dbit < bits2chk then
       (let i = dbit div 8 in
        if rt_byte s ap i \<noteq> rt_byte s ap2 i
        then dbit + first_bit_set ! unat (rt_byte s ap i XOR rt_byte s ap2 i)
        else first_diff s ap ap2 bits2chk (dbit + RNBBY))
     else dbit)"
  by pat_completeness auto
termination
  by (relation "measure (\<lambda>(s, ap, ap2, bits2chk, dbit). bits2chk - dbit)") (auto simp: RNBBY_def)

declare first_diff.simps [simp del]

partial_function (option) next_subtree :: "std_rt_table \<Rightarrow> ptr \<Rightarrow> ptr option" where
  "next_subtree s rn_next =
    (let rtn = rtn_parent s rn_next in
     if rtn = 0 then Some 0
     else if rtn_right s rtn = 0 \<or> rtn_right s rtn = rn_next then next_subtree s rtn
     else Some (rtn_right s rtn))"

partial_function (option) next_subtree_below :: "std_rt_table \<Rightarrow> nat \<Rightarrow> ptr \<Rightarrow> ptr option" where
  "next_subtree_below s dbit rn_next =
    (let rtn = rtn_parent s rn_next in
     if rtn = 0 then Some 0
     else if rtn_bit s rtn = dbit then None
     else if rtn_bit s rtn > dbit \<or> rtn_right s rtn = 0 \<or> rtn_right s rtn = rn_next
     then next_subtree_below s dbit rtn
     else Some (rtn_right s rtn))"

partial_function (option) climb_above :: "std_rt_table \<Rightarrow> nat \<Rightarrow> ptr \<Rightarrow> ptr option" where
  "climb_above s dbit rtn =
    (let rn_next = rtn_parent s rtn in
     if rn_next \<noteq> 0 \<and> rtn_bit s rn_next > dbit then climb_above s dbit rn_next else Some rtn)"

partial_function (option) first_head_down :: "std_rt_table \<Rightarrow> ptr \<Rightarrow> ptr option" where
  "first_head_down s rtn =
    (if rtn_rth s rtn \<noteq> 0 then Some (rtn_rth s rtn)
     else if rtn_left s rtn \<noteq> 0 then first_head_down s (rtn_left s rtn)
     else if rtn_right s rtn \<noteq> 0 then first_head_down s (rtn_right s rtn)
     else (case next_subtree s rtn of
             None \<Rightarrow> None
           | Some rtn \<Rightarrow> if rtn = 0 then Some 0 else first_head_down s rtn))"

text \<open>The subtree from which the next head is looked for; 0 when the address is behind every key.\<close>

definition getnext_start :: "std_rt_table \<Rightarrow> ptr \<Rightarrow> nat \<Rightarrow> ptr option" where
  "getnext_start s dest bitlen =
    (case rdx_search_head s dest bitlen (rtt_root s) of
       None \<Rightarrow> None
     | Some rtn \<Rightarrow>
         if rtn_rth s rtn = 0 then None else
         (let bits2chk = min (rtn_bit s rtn) bitlen;
              ap2 = rdx_rth_addr s (rtn_rth s rtn);
              dbit = first_diff s dest ap2 bits2chk 0
          in if dbit \<ge> bits2chk then
               if rtn_bit s rtn \<le> bitlen then
                 if rtn_left s rtn \<noteq> 0 then Some (rtn_left s rtn)
                 else if rtn_right s rtn \<noteq> 0 then Some (rtn_right s rtn)
                 else next_subtree s rtn
               else Some rtn
             else if rt_byte s dest (RNBYTE dbit) AND RNBIT dbit \<noteq> 0
             then next_subtree_below s dbit rtn
             else climb_above s dbit rtn))"

definition std_radix_getnext :: "std_rt_table \<Rightarrow> ptr \<Rightarrow> nat \<Rightarrow> (std_rt_table \<times> ptr) option" where
  "std_radix_getnext s dest bitlen =
    (case (if dest \<noteq> 0 then rdx_convert s dest else (s, dest)) of (s, dest) \<Rightarrow>
       if \<not> RDX_VALIDATE_HANDLE s then None
       else if rtt_debug s \<and> bitlen > rtt_maxaddrlen s then Some (s, 0)
       else if rtt_root s = 0 then Some (s, 0)
       else
         (case (if dest \<noteq> 0 then getnext_start s dest bitlen else Some (rtt_root s)) of
            None \<Rightarrow> None
          | Some rtn \<Rightarrow>
              if rtn = 0 then Some (s, 0)
              else map_option (Pair s) (first_head_down s rtn)))"

partial_function (option) climb_within :: "std_rt_table \<Rightarrow> nat \<Rightarrow> ptr \<Rightarrow> ptr option" where
  "climb_within s bitlen rtn =
    (if rtn_parent s rtn \<noteq> 0 \<and> rtn_bit s (rtn_parent s rtn) \<ge> bitlen
     then climb_within s bitlen (rtn_parent s rtn) else Some rtn)"

definition std_radix_getsubtree :: "std_rt_table \<Rightarrow> ptr \<Rightarrow> nat \<Rightarrow> (std_rt_table \<times> ptr) option" where
  "std_radix_getsubtree s addr bitlen =
    (if \<not> RDX_VALIDATE_HANDLE s then None
     else if rtt_debug s \<and> (bitlen > rtt_maxaddrlen s \<or> addr = 0) then Some (s, 0)
     else if rtt_root s = 0 then Some (s, 0)
     else
       (case std_radix_getexact s addr bitlen of
          None \<Rightarrow> None
        | Some (s, rth) \<Rightarrow>
            if rth \<noteq> 0 then Some (s, rth_rtn s rth)
            else
              (case std_radix_getnext s addr bitlen of
                 None \<Rightarrow> None
               | Some (s, rth) \<Rightarrow>
                   if rth = 0 then Some (s, 0)
                   else
                     (case rdx_convert s addr of (s, addr) \<Rightarrow>
                        if rdx_compare_address s addr (rdx_rth_addr s rth) (RNBYTE bitlen) (RNBIT bitlen)
                        then Some (s, 0)
                        else map_option (Pair s) (climb_within s bitlen (rth_rtn s rth))))))"

end
