(* ===== verification/RadixInv.thy ===== *)
theory RadixInv
  imports RadixTree "HOL-Library.Sublist"
begin

text \<open>
  The invariant of the radix tree and the lookups. \<open>key_bit\<close> reads the bits of a key; the byte
  operations of the code are read as operations on these bits. \<open>rdx_ok\<close> is the shape of the tree:
  bit numbers grow downwards, all heads of a subtree agree on the bits above its root and the bit
  of the root tells left from right. A search follows the key, so that the nodes whose prefix
  matches the key lie on its path, the longest first on the way back.
\<close>

section \<open>The bits of a key\<close>

definition key_bit :: "std_rt_table \<Rightarrow> ptr \<Rightarrow> nat \<Rightarrow> bool" where
  "key_bit s ap i \<longleftrightarrow> bit (rt_byte s ap (i div 8)) (7 - i mod 8)"

definition agree :: "std_rt_table \<Rightarrow> ptr \<Rightarrow> ptr \<Rightarrow> nat \<Rightarrow> bool" where
  "agree s ap1 ap2 n \<longleftrightarrow> (\<forall>i<n. key_bit s ap1 i = key_bit s ap2 i)"

lemma RNBIT_push: "RNBIT x = push_bit (7 - x mod 8) 1"
proof -
  have "x mod 8 \<in> {0, 1, 2, 3, 4, 5, 6, 7}" by (simp, arith)
  then show ?thesis unfolding RNBIT_def RNBBY_def by (elim insertE) simp_all
qed

lemma bit_RNBIT: "bit (RNBIT x) n \<longleftrightarrow> n = 7 - x mod 8"
  unfolding RNBIT_push by (auto simp: bit_simps dest: bit_imp_le_length)

lemma and_RNBIT: "b AND RNBIT i \<noteq> 0 \<longleftrightarrow> bit b (7 - i mod 8)"
proof -
  have "b AND RNBIT i = 0 \<longleftrightarrow> (\<forall>n<8. bit b n \<longrightarrow> n \<noteq> 7 - i mod 8)"
    by (simp add: bit_eq_iff [of "b AND RNBIT i" 0] bit_and_iff bit_RNBIT)
  moreover have "7 - i mod 8 < 8" by simp
  ultimately show ?thesis by blast
qed

lemma BIT_TEST_key [simp]: "BIT_TEST (rt_byte s ap (RNBYTE i)) (RNBIT i) \<longleftrightarrow> key_bit s ap i"
  by (simp add: BIT_TEST_def and_RNBIT key_bit_def RNBYTE_def)

text \<open>The mask of a comparison keeps the bits of the byte that come before the tested one.\<close>

lemma compare_mask:
  "bit (NOT (RNBIT x OR (RNBIT x - 1))) n \<longleftrightarrow> n < 8 \<and> 7 - x mod 8 < n"
proof -
  have "(push_bit k 1 - 1 :: u8) = mask k" if "k < 8" for k by (simp add: mask_eq_exp_minus_1)
  then have "RNBIT x - 1 = mask (7 - x mod 8)" unfolding RNBIT_push by simp
  then show ?thesis by (auto simp: bit_simps bit_RNBIT dest: bit_imp_le_length)
qed

lemma word8_eq_iff: "(a :: u8) = b \<longleftrightarrow> (\<forall>j<8. bit a (7 - j) = bit b (7 - j))"
proof -
  have "bit a n = bit b n" if "\<forall>j<8. bit a (7 - j) = bit b (7 - j)" "n < 8" for n
    using that(1) [rule_format, of "7 - n"] that(2) by simp
  then show ?thesis by (auto simp: bit_eq_iff dest: bit_imp_le_length)
qed

lemma bytes_key_bits:
  "bytes_at (contents (rt_mem s)) ap1 n = bytes_at (contents (rt_mem s)) ap2 n \<longleftrightarrow> agree s ap1 ap2 (8 * n)"
proof
  assume e: "bytes_at (contents (rt_mem s)) ap1 n = bytes_at (contents (rt_mem s)) ap2 n"
  have "rt_byte s ap1 j = rt_byte s ap2 j" if "j < n" for j
    using arg_cong [OF e, of "\<lambda>xs. xs ! j"] that by (simp add: bytes_at_def)
  then show "agree s ap1 ap2 (8 * n)" by (simp add: agree_def key_bit_def less_mult_imp_div_less mult.commute)
next
  assume a: "agree s ap1 ap2 (8 * n)"
  have "rt_byte s ap1 j = rt_byte s ap2 j" if "j < n" for j
  proof -
    have "key_bit s ap1 (8 * j + i) = key_bit s ap2 (8 * j + i)" if "i < 8" for i
      using a \<open>j < n\<close> that by (simp add: agree_def)
    then show ?thesis unfolding word8_eq_iff by (simp add: key_bit_def)
  qed
  then show "bytes_at (contents (rt_mem s)) ap1 n = bytes_at (contents (rt_mem s)) ap2 n"
    by (intro nth_equalityI) (simp_all add: bytes_at_def)
qed

lemma agree_split:
  "agree s ap1 ap2 n \<longleftrightarrow> agree s ap1 ap2 (8 * (n div 8)) \<and>
     (\<forall>j<n mod 8. bit (rt_byte s ap1 (n div 8)) (7 - j) = bit (rt_byte s ap2 (n div 8)) (7 - j))"
proof -
  have k: "key_bit s ap (8 * (n div 8) + j) = bit (rt_byte s ap (n div 8)) (7 - j)" if "j < n mod 8" for ap j
    using that by (simp add: key_bit_def)
  have "i < 8 * (n div 8) \<or> (\<exists>j<n mod 8. i = 8 * (n div 8) + j)" if "i < n" for i
  proof (cases "i < 8 * (n div 8)")
    case False
    moreover have "n = 8 * (n div 8) + n mod 8" by simp
    ultimately have "i - 8 * (n div 8) < n mod 8" "i = 8 * (n div 8) + (i - 8 * (n div 8))" using that by linarith+
    then show ?thesis by blast
  qed simp
  moreover have "8 * (n div 8) + j < n" if "j < n mod 8" for j
    using that by (metis add_less_cancel_left mult_div_mod_eq)
  moreover have "8 * (n div 8) \<le> n" by simp
  ultimately show ?thesis unfolding agree_def using k order_less_le_trans
    by (smt (verit))
qed

text \<open>The comparison of two addresses compares the bits before the tested one.\<close>

lemma rdx_compare_address_agree:
  "rdx_compare_address s ap1 ap2 (RNBYTE n) (RNBIT n) \<longleftrightarrow> \<not> agree s ap1 ap2 n"
proof -
  let ?a = "rt_byte s ap1 (n div 8)" and ?b = "rt_byte s ap2 (n div 8)"
  let ?m = "NOT (RNBIT n OR (RNBIT n - 1))"
  have "(?a XOR ?b) AND ?m = 0 \<longleftrightarrow> (\<forall>k. bit ((?a XOR ?b) AND ?m) k \<longleftrightarrow> False)"
    by (metis bit_0_eq bot_apply bot_bool_def bit_eqI)
  also have "\<dots> \<longleftrightarrow> (\<forall>k. k < 8 \<and> 7 - n mod 8 < k \<longrightarrow> bit ?a k = bit ?b k)"
    unfolding bit_and_iff bit_xor_iff compare_mask by blast
  also have "\<dots> \<longleftrightarrow> (\<forall>j<n mod 8. bit ?a (7 - j) = bit ?b (7 - j))"
  proof
    assume l: "\<forall>k. k < 8 \<and> 7 - n mod 8 < k \<longrightarrow> bit ?a k = bit ?b k"
    show "\<forall>j<n mod 8. bit ?a (7 - j) = bit ?b (7 - j)"
    proof (intro allI impI)
      fix j assume "j < n mod 8"
      moreover have "n mod 8 < 8" by simp
      ultimately show "bit ?a (7 - j) = bit ?b (7 - j)" by (intro l [rule_format]) linarith
    qed
  next
    assume r: "\<forall>j<n mod 8. bit ?a (7 - j) = bit ?b (7 - j)"
    show "\<forall>k. k < 8 \<and> 7 - n mod 8 < k \<longrightarrow> bit ?a k = bit ?b k"
    proof (intro allI impI)
      fix k assume "k < 8 \<and> 7 - n mod 8 < k"
      then show "bit ?a k = bit ?b k" using r [rule_format, of "7 - k"] by (simp add: less_diff_conv2)
    qed
  qed
  finally have x: "(?a XOR ?b) AND ?m \<noteq> 0 \<longleftrightarrow> \<not> (\<forall>j<n mod 8. bit ?a (7 - j) = bit ?b (7 - j))" by simp
  have y: "(n div 8 \<noteq> 0 \<and> memcmp (bytes_at (contents (rt_mem s)) ap1 (n div 8))
      (bytes_at (contents (rt_mem s)) ap2 (n div 8)) \<noteq> 0) \<longleftrightarrow> \<not> agree s ap1 ap2 (8 * (n div 8))"
    unfolding bytes_key_bits [symmetric] by (cases "n div 8 = 0") (simp_all add: memcmp_eq_iff bytes_at_def)
  show ?thesis
    unfolding rdx_compare_address_def Let_def RNBYTE_def x y agree_split [of s ap1 ap2 n] by auto
qed

text \<open>The table gives the first set bit, and the search the first bit that differs.\<close>

lemma first_bit_set_table:
  "first_bit_set = map (\<lambda>b. case find (\<lambda>j. odd (b div 2 ^ (7 - j))) [0..<8] of None \<Rightarrow> 8 | Some j \<Rightarrow> j) [0..<256]"
proof -
  have "replicate n x = map (\<lambda>_. x) [0..<n]" for n and x :: nat by (simp add: map_replicate_const)
  then show ?thesis unfolding first_bit_set_def by (simp only:) (simp add: upt_rec)
qed

lemma first_bit_set_nth:
  fixes b :: u8
  assumes "b \<noteq> 0"
  shows "first_bit_set ! unat b < 8" "bit b (7 - first_bit_set ! unat b)"
    "j < first_bit_set ! unat b \<Longrightarrow> \<not> bit b (7 - j)"
proof -
  have u: "unat b < 256" using unsigned_less [of b, where 'a = nat] by simp
  have e: "first_bit_set ! unat b = (case find (\<lambda>j. bit b (7 - j)) [0..<8] of None \<Rightarrow> 8 | Some j \<Rightarrow> j)"
    unfolding first_bit_set_table using u by (simp add: bit_unsigned_iff del: upt_Suc flip: bit_iff_odd)
  have "\<exists>j<8. bit b (7 - j)" using assms word8_eq_iff [of b 0] by simp
  then obtain k where k: "find (\<lambda>j. bit b (7 - j)) [0..<8] = Some k"
    by (cases "find (\<lambda>j. bit b (7 - j)) [0..<8]") (auto simp: find_None_iff simp del: upt_Suc)
  then have f: "k < 8" "bit b (7 - k)" "\<forall>j<k. \<not> bit b (7 - j)"
    by (auto simp: find_Some_iff simp del: upt_Suc)
  have e: "first_bit_set ! unat b = k" using e k by (simp del: upt_Suc)
  show "first_bit_set ! unat b < 8" "bit b (7 - first_bit_set ! unat b)"
    "j < first_bit_set ! unat b \<Longrightarrow> \<not> bit b (7 - j)"
    unfolding e using f by simp_all
qed

lemma key_bit_byte: "j < 8 \<Longrightarrow> key_bit s ap (8 * q + j) = bit (rt_byte s ap q) (7 - j)"
  by (simp add: key_bit_def)

lemma first_diff_spec:
  assumes "agree s ap ap2 dbit" "dbit mod 8 = 0"
  shows "first_diff s ap ap2 n dbit < n \<Longrightarrow>
           agree s ap ap2 (first_diff s ap ap2 n dbit) \<and>
           key_bit s ap (first_diff s ap ap2 n dbit) \<noteq> key_bit s ap2 (first_diff s ap ap2 n dbit)"
    and "n \<le> first_diff s ap ap2 n dbit \<Longrightarrow> agree s ap ap2 n"
proof -
  let ?P = "\<lambda>d. (d < n \<longrightarrow> agree s ap ap2 d \<and> key_bit s ap d \<noteq> key_bit s ap2 d) \<and> (n \<le> d \<longrightarrow> agree s ap ap2 n)"
  have "?P (first_diff s ap ap2 n dbit)" using assms
  proof (induction s ap ap2 n dbit rule: first_diff.induct)
    case (1 s ap ap2 n dbit)
    let ?q = "dbit div 8"
    let ?x = "rt_byte s ap ?q XOR rt_byte s ap2 ?q"
    have d: "dbit = 8 * ?q" using 1(3) by auto
    show ?case
    proof (cases "dbit < n")
      case False
      then show ?thesis using 1(2) by (subst first_diff.simps) (auto simp: agree_def first_diff.simps)
    next
      case less: True
      show ?thesis
      proof (cases "rt_byte s ap ?q = rt_byte s ap2 ?q")
        case True
        have "agree s ap ap2 (dbit + 8)"
          unfolding agree_def
        proof (intro allI impI)
          fix i assume i: "i < dbit + 8"
          show "key_bit s ap i = key_bit s ap2 i"
          proof (cases "i < dbit")
            case ge: False
            then have "i = 8 * ?q + (i - dbit)" "i - dbit < 8" using d i by linarith+
            then show ?thesis using key_bit_byte True by metis
          qed (use 1(2) in \<open>simp add: agree_def\<close>)
        qed
        moreover have "first_diff s ap ap2 n dbit = first_diff s ap ap2 n (dbit + 8)"
          using True less by (subst first_diff.simps) (simp add: RNBBY_def)
        ultimately show ?thesis using 1(1) [OF less refl] 1(3) True by (simp add: RNBBY_def)
      next
        case False
        then have x: "?x \<noteq> 0" by (auto simp: bit_eq_iff bit_xor_iff)
        define j where "j = first_bit_set ! unat ?x"
        have "first_diff s ap ap2 n dbit = dbit + j"
          using False less by (subst first_diff.simps) (simp add: j_def Let_def)
        with d have e: "first_diff s ap ap2 n dbit = 8 * ?q + j" by simp
        note f = first_bit_set_nth [OF x, folded j_def, unfolded bit_xor_iff]
        have "key_bit s ap (8 * ?q + j) \<noteq> key_bit s ap2 (8 * ?q + j)"
          using f(1,2) by (simp add: key_bit_byte)
        moreover have a: "agree s ap ap2 (8 * ?q + j)"
          unfolding agree_def
        proof (intro allI impI)
          fix i assume i: "i < 8 * ?q + j"
          show "key_bit s ap i = key_bit s ap2 i"
          proof (cases "i < dbit")
            case ge: False
            then have "i = 8 * ?q + (i - dbit)" "i - dbit < j" using d i by linarith+
            then show ?thesis using key_bit_byte f(1) f(3) [of "i - dbit"] by (metis (full_types) order_less_trans)
          qed (use 1(2) in \<open>simp add: agree_def\<close>)
        qed
        ultimately show ?thesis unfolding e by (auto simp: agree_def)
      qed
    qed
  qed
  then show "first_diff s ap ap2 n dbit < n \<Longrightarrow>
           agree s ap ap2 (first_diff s ap ap2 n dbit) \<and>
           key_bit s ap (first_diff s ap ap2 n dbit) \<noteq> key_bit s ap2 (first_diff s ap ap2 n dbit)"
    "n \<le> first_diff s ap ap2 n dbit \<Longrightarrow> agree s ap ap2 n" by simp_all
qed

lemma first_diff_min:
  assumes "d = min (first_diff s ap ap2 n 0) n"
  shows "agree s ap ap2 d" "d < n \<Longrightarrow> key_bit s ap d \<noteq> key_bit s ap2 d"
proof -
  have a: "agree s ap ap2 0" by (simp add: agree_def)
  show "agree s ap ap2 d"
  proof (cases "first_diff s ap ap2 n 0 < n")
    case True
    then show ?thesis using first_diff_spec(1) [OF a _ True] assms by simp
  next
    case False
    then show ?thesis using first_diff_spec(2) [OF a, of n] assms by simp
  qed
  show "key_bit s ap d \<noteq> key_bit s ap2 d" if "d < n"
    using first_diff_spec(1) [OF a, of n] that assms by simp
qed

section \<open>The invariant\<close>

text \<open>The key of a node with a head, its prefix, and the table as a set of prefixes with their heads.\<close>

definition nkey :: "std_rt_table \<Rightarrow> ptr \<Rightarrow> nat \<Rightarrow> bool" where
  "nkey s x = key_bit s (rdx_rth_addr s (rtn_rth s x))"

definition heads :: "std_rt_table \<Rightarrow> ptr tree \<Rightarrow> ptr set" where
  "heads s t = {x \<in> set_tree t. rtn_rth s x \<noteq> 0}"

definition key_prefix :: "std_rt_table \<Rightarrow> ptr \<Rightarrow> nat \<Rightarrow> bool list" where
  "key_prefix s ap len = map (key_bit s ap) [0..<len]"

definition node_prefix :: "std_rt_table \<Rightarrow> ptr \<Rightarrow> bool list" where
  "node_prefix s x = map (nkey s x) [0..<rtn_bit s x]"

definition routes :: "std_rt_table \<Rightarrow> ptr tree \<Rightarrow> (bool list \<times> ptr) set" where
  "routes s t = (\<lambda>x. (node_prefix s x, rtn_rth s x)) ` {x \<in> heads s t. \<not> rtn_dele s x}"

definition heads_agree :: "std_rt_table \<Rightarrow> ptr tree \<Rightarrow> nat \<Rightarrow> bool" where
  "heads_agree s t n \<longleftrightarrow> (\<forall>x\<in>heads s t. \<forall>y\<in>heads s t. \<forall>i<n. nkey s x i = nkey s y i)"

fun rdx_ok :: "std_rt_table \<Rightarrow> ptr tree \<Rightarrow> bool" where
  "rdx_ok s Leaf \<longleftrightarrow> True"
| "rdx_ok s (Node l a r) \<longleftrightarrow>
     rtn_tbit s a = RNBIT (rtn_bit s a) \<and>
     (rtn_rth s a = 0 \<longrightarrow> l \<noteq> Leaf \<and> r \<noteq> Leaf) \<and>
     (\<forall>x\<in>set_tree l \<union> set_tree r. rtn_bit s a < rtn_bit s x) \<and>
     (\<forall>x\<in>heads s l. \<not> nkey s x (rtn_bit s a)) \<and> (\<forall>x\<in>heads s r. nkey s x (rtn_bit s a)) \<and>
     heads_agree s (Node l a r) (rtn_bit s a) \<and>
     rdx_ok s l \<and> rdx_ok s r"

definition rdx_table :: "std_rt_table \<Rightarrow> ptr tree \<Rightarrow> bool" where
  "rdx_table s t \<longleftrightarrow>
     heap_tree (rtn_left s) (rtn_right s) (rtn_parent s) (rtt_root s) t \<and> rdx_ok s t \<and>
     (\<forall>x\<in>heads s t. rth_rtn s (rtn_rth s x) = x) \<and>
     rtt_magic s = RDX_MAGIC \<and> rtt_convert s = None \<and> rtt_inodes s = of_nat (size t)"

lemma heads_simps [simp]:
  "heads s Leaf = {}"
  "heads s (Node l a r) = (if rtn_rth s a = 0 then {} else {a}) \<union> heads s l \<union> heads s r"
  by (auto simp: heads_def)

lemma map_upt_eq: "map f [0..<m] = map g [0..<n] \<longleftrightarrow> m = n \<and> (\<forall>i<m. f i = g i)"
  by (auto simp: list_eq_iff_nth_eq)

lemma map_upt_prefix: "prefix (map f [0..<m]) (map g [0..<n]) \<longleftrightarrow> m \<le> n \<and> (\<forall>i<m. f i = g i)"
proof
  assume p: "prefix (map f [0..<m]) (map g [0..<n])"
  then have "m \<le> n" using prefix_length_le by fastforce
  moreover have "take m (map g [0..<n]) = map f [0..<m]"
    using p by (metis append_eq_conv_conj length_map length_upt minus_nat.diff_0 prefix_def)
  ultimately show "m \<le> n \<and> (\<forall>i<m. f i = g i)" by (simp add: take_map map_upt_eq)
next
  assume "m \<le> n \<and> (\<forall>i<m. f i = g i)"
  then have "map f [0..<m] = take m (map g [0..<n])" by (simp add: take_map)
  then show "prefix (map f [0..<m]) (map g [0..<n])" by (simp add: take_is_prefix)
qed

lemma node_prefix_eq: "node_prefix s x = node_prefix s y \<longleftrightarrow>
    rtn_bit s x = rtn_bit s y \<and> (\<forall>i<rtn_bit s x. nkey s x i = nkey s y i)"
  unfolding node_prefix_def by (rule map_upt_eq)

lemma node_prefix_match: "prefix (node_prefix s x) (key_prefix s ap len) \<longleftrightarrow>
    rtn_bit s x \<le> len \<and> (\<forall>i<rtn_bit s x. nkey s x i = key_bit s ap i)"
  unfolding node_prefix_def key_prefix_def by (rule map_upt_prefix)

lemma node_prefix_exact: "node_prefix s x = key_prefix s ap len \<longleftrightarrow>
    rtn_bit s x = len \<and> (\<forall>i<rtn_bit s x. nkey s x i = key_bit s ap i)"
  unfolding node_prefix_def key_prefix_def by (rule map_upt_eq)

text \<open>A subtree has a head, and all its heads agree on the bits above its root.\<close>

lemma heads_nonempty: "rdx_ok s t \<Longrightarrow> t \<noteq> Leaf \<Longrightarrow> heads s t \<noteq> {}"
  by (induction t) auto

lemma rdx_ok_distinct_prefix:
  assumes "rdx_ok s t" "x \<in> heads s t" "y \<in> heads s t" "node_prefix s x = node_prefix s y"
  shows "x = y"
  using assms
proof (induction t)
  case (Node l a r)
  have b: "rtn_bit s x = rtn_bit s y" "\<forall>i<rtn_bit s x. nkey s x i = nkey s y i"
    using Node.prems(4) unfolding node_prefix_eq by auto
  have sub: "z \<in> heads s l \<union> heads s r \<Longrightarrow> rtn_bit s a < rtn_bit s z" for z
    using Node.prems(1) by (auto simp: heads_def)
  have side: "z \<in> heads s l \<Longrightarrow> \<not> nkey s z (rtn_bit s a)" "z \<in> heads s r \<Longrightarrow> nkey s z (rtn_bit s a)" for z
    using Node.prems(1) by auto
  consider "x = a" | "x \<in> heads s l" | "x \<in> heads s r" using Node.prems(2) by (auto split: if_splits)
  then show ?case
  proof cases
    case 1
    have "y \<notin> heads s l \<union> heads s r" using sub [of y] b(1) 1 by auto
    then show ?thesis using Node.prems(3) 1 by (auto split: if_splits)
  next
    case 2
    then have "y \<noteq> a" "y \<notin> heads s r" using sub [of x] b side [of y] side(1) [OF 2] by auto
    then show ?thesis using Node 2 by (auto split: if_splits)
  next
    case 3
    then have "y \<noteq> a" "y \<notin> heads s l" using sub [of x] b side [of y] side(2) [OF 3] by auto
    then show ?thesis using Node 3 by (auto split: if_splits)
  qed
qed simp

lemma routes_unique:
  "rdx_ok s t \<Longrightarrow> (k, h) \<in> routes s t \<Longrightarrow> (k, h') \<in> routes s t \<Longrightarrow> h = h'"
  unfolding routes_def using rdx_ok_distinct_prefix [of s t] by auto

section \<open>The search path\<close>

text \<open>The nodes that a search passes, the deepest first.\<close>

fun search_path :: "std_rt_table \<Rightarrow> ptr \<Rightarrow> nat \<Rightarrow> ptr tree \<Rightarrow> ptr list" where
  "search_path s ap len Leaf = []"
| "search_path s ap len (Node l a r) =
     (if rtn_bit s a < len then search_path s ap len (if key_bit s ap (rtn_bit s a) then r else l) else []) @ [a]"

fun parent_chain :: "(ptr \<Rightarrow> ptr) \<Rightarrow> ptr list \<Rightarrow> bool" where
  "parent_chain P [] \<longleftrightarrow> True"
| "parent_chain P (x # xs) \<longleftrightarrow> x \<noteq> 0 \<and> P x = first_node xs \<and> parent_chain P xs"

lemma search_path_chain:
  "linked L R P (first_node ps) t \<Longrightarrow> parent_chain P ps \<Longrightarrow> parent_chain P (search_path s ap len t @ ps)"
proof (induction t arbitrary: ps)
  case (Node l a r)
  have "parent_chain P (search_path s ap len u @ (a # ps))" if "u \<in> {l, r}" for u
    using Node.IH(1) [of "a # ps"] Node.IH(2) [of "a # ps"] Node.prems that by (auto split: list.splits)
  then show ?case using Node.prems by auto
qed simp

lemma search_path_set: "set (search_path s ap len t) \<subseteq> set_tree t"
  by (induction t) auto

lemma search_path_sorted:
  "rdx_ok s t \<Longrightarrow> sorted_wrt (\<lambda>x y. rtn_bit s x > rtn_bit s y) (search_path s ap len t)"
proof (induction t)
  case (Node l a r)
  then show ?case using search_path_set [of s ap len l] search_path_set [of s ap len r]
    by (auto simp: sorted_wrt_append)
qed simp

lemma search_path_complete:
  "rdx_ok s t \<Longrightarrow> x \<in> heads s t \<Longrightarrow> prefix (node_prefix s x) (key_prefix s ap len) \<Longrightarrow> x \<in> set (search_path s ap len t)"
proof (induction t)
  case (Node l a r)
  have m: "rtn_bit s x \<le> len" "\<forall>i<rtn_bit s x. nkey s x i = key_bit s ap i"
    using Node.prems(3) unfolding node_prefix_match by auto
  have sub: "x \<in> heads s l \<union> heads s r \<Longrightarrow> rtn_bit s a < rtn_bit s x"
    using Node.prems(1) by (auto simp: heads_def)
  have side: "x \<in> heads s l \<Longrightarrow> \<not> nkey s x (rtn_bit s a)" "x \<in> heads s r \<Longrightarrow> nkey s x (rtn_bit s a)"
    using Node.prems(1) by auto
  consider "x = a" | "x \<in> heads s l" | "x \<in> heads s r" using Node.prems(2) by (auto split: if_splits)
  then show ?case
  proof cases
    case 2
    then show ?thesis using Node sub side m by auto
  next
    case 3
    then show ?thesis using Node sub side m by auto
  qed simp
qed simp

lemma search_path_root: "t \<noteq> Leaf \<Longrightarrow> search_path s ap len t \<noteq> []"
  by (cases t) auto

lemma rdx_search_path:
  "linked (rtn_left s) (rtn_right s) P q t \<Longrightarrow> rdx_ok s t \<Longrightarrow> t \<noteq> Leaf \<Longrightarrow>
    rdx_search s ap len (root_ptr t) = Some (first_node (search_path s ap len t))"
proof (induction t arbitrary: q)
  case (Node l a r)
  have lk: "a \<noteq> 0" "rtn_left s a = root_ptr l" "rtn_right s a = root_ptr r"
    "linked (rtn_left s) (rtn_right s) P a l" "linked (rtn_left s) (rtn_right s) P a r"
    using Node.prems(1) by simp_all
  have ok: "rdx_ok s l" "rdx_ok s r" "rtn_tbit s a = RNBIT (rtn_bit s a)" using Node.prems(2) by simp_all
  have z: "root_ptr l = 0 \<longleftrightarrow> l = Leaf" "root_ptr r = 0 \<longleftrightarrow> r = Leaf" using lk(4,5) by simp_all
  have f: "first_node (xs @ [a]) = (if xs = [] then a else first_node xs)" for xs
    by (cases xs) simp_all
  have e: "search_path s ap len u = [] \<longleftrightarrow> u = Leaf" for u by (cases u) simp_all
  show ?case
    using Node.IH(1) [OF lk(4) ok(1)] Node.IH(2) [OF lk(5) ok(2)]
    by (subst rdx_search.simps) (simp add: lk(1,2,3) ok(3) z f e)
qed simp

lemma rdx_backtrack_chain:
  assumes "parent_chain (rtn_parent s) xs" "\<forall>x\<in>set xs. rtn_tbit s x = RNBIT (rtn_bit s x)"
  shows "rdx_backtrack s ap len (first_node xs) =
    Some (first_node (dropWhile (\<lambda>x. \<not> (rtn_rth s x \<noteq> 0 \<and> prefix (node_prefix s x) (key_prefix s ap len))) xs))"
  using assms
proof (induction xs)
  case Nil
  then show ?case by (subst rdx_backtrack.simps) simp
next
  case (Cons x xs)
  then show ?case
    by (subst rdx_backtrack.simps)
       (auto simp: rdx_compare_address_agree node_prefix_match agree_def nkey_def)
qed

end
