(* ===== verification/RadixLookup.thy ===== *)
theory RadixLookup
  imports RadixInv
begin

text \<open>
  The lookups on a tree with the invariant: the exact match, the longest matching prefix and the
  one after it, and the heads above a head.
\<close>

section \<open>Matching prefixes\<close>

definition matches :: "std_rt_table \<Rightarrow> ptr \<Rightarrow> nat \<Rightarrow> ptr \<Rightarrow> bool" where
  "matches s ap len x \<longleftrightarrow> rtn_rth s x \<noteq> 0 \<and> prefix (node_prefix s x) (key_prefix s ap len)"

text \<open>The head of a node, 0 when the node is marked as deleted.\<close>

definition live_head :: "std_rt_table \<Rightarrow> ptr \<Rightarrow> ptr" where
  "live_head s x = (if x \<noteq> 0 \<and> \<not> rtn_dele s x then rtn_rth s x else 0)"

lemma rdx_table_tree:
  assumes "rdx_table s t"
  shows "linked (rtn_left s) (rtn_right s) (rtn_parent s) 0 t" "rtt_root s = root_ptr t" "distinct (inorder t)"
    "rdx_ok s t" "rtt_magic s = RDX_MAGIC" "rtt_convert s = None"
    "x \<in> heads s t \<Longrightarrow> rth_rtn s (rtn_rth s x) = x"
  using assms by (simp_all add: rdx_table_def heap_tree_def)

lemma rdx_table_handle: "rdx_table s t \<Longrightarrow> RDX_VALIDATE_HANDLE s"
  by (simp add: rdx_table_def RDX_VALIDATE_HANDLE_def)

lemma rdx_table_convert: "rdx_table s t \<Longrightarrow> rdx_convert s ap = (s, ap)"
  by (simp add: rdx_table_def rdx_convert_def)

lemma rdx_table_root_zero: "rdx_table s t \<Longrightarrow> rtt_root s = 0 \<longleftrightarrow> t = Leaf"
  using rdx_table_tree(1,2) linked_root_zero by metis

lemma rdx_ok_tbit: "rdx_ok s t \<Longrightarrow> x \<in> set_tree t \<Longrightarrow> rtn_tbit s x = RNBIT (rtn_bit s x)"
  by (induction t) auto

lemma rdx_table_path:
  assumes "rdx_table s t"
  shows "parent_chain (rtn_parent s) (search_path s ap len t)"
    "\<forall>x\<in>set (search_path s ap len t). rtn_tbit s x = RNBIT (rtn_bit s x)"
proof -
  show "parent_chain (rtn_parent s) (search_path s ap len t)"
    using search_path_chain [of _ _ "rtn_parent s" "[]" t] rdx_table_tree(1) [OF assms] by fastforce
  show "\<forall>x\<in>set (search_path s ap len t). rtn_tbit s x = RNBIT (rtn_bit s x)"
    using rdx_ok_tbit [OF rdx_table_tree(4) [OF assms]] search_path_set [of s ap len t] by blast
qed

lemma first_node_filter: "first_node (dropWhile (\<lambda>x. \<not> P x) xs) = first_node (filter P xs)"
  by (induction xs) simp_all

lemma parent_chain_filter:
  assumes "parent_chain (rtn_parent s) xs" "filter P xs = x # ys"
  shows "\<exists>zs. rtn_parent s x = first_node zs \<and> parent_chain (rtn_parent s) zs \<and> filter P zs = ys \<and> set zs \<subseteq> set xs"
  using assms by (induction xs) (auto split: if_splits)

lemma backtrack_filter:
  assumes "parent_chain (rtn_parent s) xs" "\<forall>x\<in>set xs. rtn_tbit s x = RNBIT (rtn_bit s x)"
  shows "rdx_backtrack s ap len (first_node xs) = Some (first_node (filter (matches s ap len) xs))"
  using rdx_backtrack_chain [OF assms, of ap len]
  unfolding first_node_filter by (simp add: matches_def [abs_def])

lemma backtrack_again:
  assumes "parent_chain (rtn_parent s) xs" "\<forall>x\<in>set xs. rtn_tbit s x = RNBIT (rtn_bit s x)"
    and "filter (matches s ap len) xs = x # ys"
  shows "rdx_backtrack s ap len (rtn_parent s x) = Some (first_node ys)"
proof -
  obtain zs where zs: "rtn_parent s x = first_node zs" "parent_chain (rtn_parent s) zs"
    "filter (matches s ap len) zs = ys" "set zs \<subseteq> set xs"
    using parent_chain_filter [OF assms(1,3)] by blast
  then show ?thesis using backtrack_filter [OF zs(2)] assms(2) by (metis subsetD)
qed

text \<open>The matching nodes of the table, the longest prefix first.\<close>

definition match_list :: "std_rt_table \<Rightarrow> ptr tree \<Rightarrow> ptr \<Rightarrow> nat \<Rightarrow> ptr list" where
  "match_list s t ap len = filter (matches s ap len) (search_path s ap len t)"

lemma match_list_set:
  "rdx_table s t \<Longrightarrow> set (match_list s t ap len) = {x \<in> heads s t. prefix (node_prefix s x) (key_prefix s ap len)}"
  using search_path_complete [OF rdx_table_tree(4)] search_path_set [of s ap len t]
  by (auto simp: match_list_def matches_def heads_def)

lemma match_list_sorted:
  "rdx_table s t \<Longrightarrow> sorted_wrt (\<lambda>x y. rtn_bit s x > rtn_bit s y) (match_list s t ap len)"
  unfolding match_list_def by (intro sorted_wrt_filter search_path_sorted rdx_table_tree(4))

definition length_ok :: "std_rt_table \<Rightarrow> nat \<Rightarrow> bool" where
  "length_ok s len \<longleftrightarrow> \<not> (rtt_debug s \<and> len > rtt_maxaddrlen s)"

lemma length_okD: "length_ok s len \<Longrightarrow> (rtt_debug s \<and> rtt_maxaddrlen s < len) = False"
  by (simp add: length_ok_def)

lemma match_list_Leaf [simp]: "match_list s Leaf ap len = []"
  by (simp add: match_list_def)

lemma live_head_0 [simp]: "live_head s 0 = 0"
  by (simp add: live_head_def)

lemma table_search:
  assumes "rdx_table s t" "t \<noteq> Leaf"
  shows "rtt_root s \<noteq> 0"
    "rdx_search s ap len (rtt_root s) = Some (first_node (search_path s ap len t))"
    "rdx_backtrack s ap len (first_node (search_path s ap len t)) = Some (first_node (match_list s t ap len))"
    "match_list s t ap len = x # ys \<Longrightarrow> rdx_backtrack s ap len (rtn_parent s x) = Some (first_node ys)"
  using assms rdx_table_tree [OF assms(1)] rdx_table_root_zero [OF assms(1)] rdx_search_path
    backtrack_filter [OF rdx_table_path [OF assms(1)]] backtrack_again [OF rdx_table_path [OF assms(1)]]
  by (auto simp: match_list_def)

lemma getbest_ok:
  assumes "rdx_table s t" "ap \<noteq> 0" "length_ok s len"
  shows "std_radix_getbest s ap len = Some (s, live_head s (first_node (match_list s t ap len)))"
proof (cases "t = Leaf")
  case True
  with assms rdx_table_root_zero [OF assms(1)] show ?thesis
    by (simp add: std_radix_getbest_def rdx_table_convert [OF assms(1)] rdx_table_handle [OF assms(1)])
next
  case False
  show ?thesis
    using assms(2) table_search [OF assms(1) False]
    unfolding std_radix_getbest_def
    by (simp add: length_okD [OF assms(3)] rdx_table_convert [OF assms(1)] rdx_table_handle [OF assms(1)] live_head_def)
qed

lemma getnextbest_ok:
  assumes "rdx_table s t" "ap \<noteq> 0" "length_ok s len" and "ms = match_list s t ap len"
  shows "std_radix_getnextbest s ap len =
    Some (s, if live_head s (first_node ms) = 0 then 0 else live_head s (first_node (tl ms)))"
proof (cases "t = Leaf")
  case True
  with assms rdx_table_root_zero [OF assms(1)] show ?thesis
    by (simp add: std_radix_getnextbest_def rdx_table_convert [OF assms(1)] rdx_table_handle [OF assms(1)])
next
  case False
  have r: "(rtn_rth s (first_node ms) = 0) = False" if "ms \<noteq> []"
    using that assms(4) filter_is_subset [of "matches s ap len" "search_path s ap len t"]
    by (cases ms) (auto simp: match_list_def matches_def dest: Cons_eq_filterD)
  show ?thesis
    using assms(2) table_search(1) [OF assms(1) False] table_search(2-4) [OF assms(1) False, where ap = ap and len = len] r
    unfolding std_radix_getnextbest_def assms(4) [symmetric]
    by (cases ms) (auto simp: length_okD [OF assms(3)] rdx_table_convert [OF assms(1)] rdx_table_handle [OF assms(1)] live_head_def)
qed

lemma getbestandprev_ok:
  assumes "rdx_table s t" "ap \<noteq> 0" "length_ok s len" and "ms = match_list s t ap len"
  shows "std_radix_getbestandprev s ap len =
    Some (s, live_head s (first_node ms),
      if t = Leaf then None
      else Some (if live_head s (first_node ms) = 0 then 0 else live_head s (first_node (tl ms))))"
proof (cases "t = Leaf")
  case True
  with assms rdx_table_root_zero [OF assms(1)] show ?thesis
    by (simp add: std_radix_getbestandprev_def rdx_table_convert [OF assms(1)] rdx_table_handle [OF assms(1)])
next
  case False
  have r: "(rtn_rth s (first_node ms) = 0) = False" if "ms \<noteq> []"
    using that assms(4) filter_is_subset [of "matches s ap len" "search_path s ap len t"]
    by (cases ms) (auto simp: match_list_def matches_def dest: Cons_eq_filterD)
  show ?thesis
    using assms(2) table_search(1) [OF assms(1) False] table_search(2-4) [OF assms(1) False, where ap = ap and len = len] r False
    unfolding std_radix_getbestandprev_def assms(4) [symmetric]
    by (cases ms) (auto simp: length_okD [OF assms(3)] rdx_table_convert [OF assms(1)] rdx_table_handle [OF assms(1)] live_head_def Let_def)
qed

section \<open>The exact match\<close>

lemma first_path_exact:
  assumes "rdx_ok s t" "x \<in> heads s t" "node_prefix s x = key_prefix s ap len"
  shows "first_node (search_path s ap len t) = x"
proof -
  have b: "rtn_bit s x = len" using assms(3) unfolding node_prefix_exact by simp
  have i: "x \<in> set (search_path s ap len t)" using search_path_complete [OF assms(1,2)] assms(3) by simp
  have "rtn_bit s y < len" if "y \<in> set (tl (search_path s ap len t))" for y
    using that by (induction t) (auto split: if_splits simp: tl_append split: list.splits)
  with i b show ?thesis by (cases "search_path s ap len t") auto
qed

lemma getexact_ok:
  assumes "rdx_table s t" "ap \<noteq> 0" "length_ok s len"
  shows "\<exists>h. std_radix_getexact s ap len = Some (s, h) \<and>
    {h'. (key_prefix s ap len, h') \<in> routes s t} = (if h = 0 then {} else {h})"
proof (cases "t = Leaf")
  case True
  with assms rdx_table_root_zero [OF assms(1)] show ?thesis
    by (simp add: std_radix_getexact_def rdx_table_convert [OF assms(1)] rdx_table_handle [OF assms(1)] routes_def)
next
  case False
  let ?x = "first_node (search_path s ap len t)"
  note t = rdx_table_tree [OF assms(1)]
  have x: "?x \<in> set_tree t"
    using search_path_set [of s ap len t] search_path_root [OF False, of s ap len]
    by (cases "search_path s ap len t") auto
  have nz: "?x \<noteq> 0" using linked_nonzero [OF t(1) x] .
  define h where "h = (if rtn_rth s ?x \<noteq> 0 \<and> \<not> rtn_dele s ?x \<and> node_prefix s ?x = key_prefix s ap len then rtn_rth s ?x else 0)"
  have c: "rdx_compare_address s ap (rdx_rth_addr s (rtn_rth s ?x)) (RNBYTE (rtn_bit s ?x)) (rtn_tbit s ?x) \<longleftrightarrow>
      \<not> (\<forall>i<rtn_bit s ?x. nkey s ?x i = key_bit s ap i)"
    unfolding rdx_ok_tbit [OF t(4) x] rdx_compare_address_agree by (auto simp: agree_def nkey_def)
  have "std_radix_getexact s ap len = Some (s, h)"
    using assms(2) table_search(1,2) [OF assms(1) False] nz c
    unfolding std_radix_getexact_def h_def node_prefix_exact
    using assms(3) [unfolded length_ok_def]
    by (cases "rtn_bit s ?x = len") (auto simp: rdx_table_convert [OF assms(1)] rdx_table_handle [OF assms(1)])
  moreover have "(key_prefix s ap len, h') \<in> routes s t \<longleftrightarrow> h \<noteq> 0 \<and> h' = h" for h'
  proof
    assume "(key_prefix s ap len, h') \<in> routes s t"
    then obtain y where y: "y \<in> heads s t" "\<not> rtn_dele s y" "node_prefix s y = key_prefix s ap len" "h' = rtn_rth s y"
      by (auto simp: routes_def)
    then have "?x = y" using first_path_exact [OF t(4)] by blast
    with y show "h \<noteq> 0 \<and> h' = h" by (auto simp: h_def heads_def)
  next
    assume "h \<noteq> 0 \<and> h' = h"
    then show "(key_prefix s ap len, h') \<in> routes s t"
      using x unfolding routes_def heads_def by (intro image_eqI [of _ _ ?x]) (auto simp: h_def split: if_splits)
  qed
  ultimately show ?thesis by (intro exI [of _ h]) auto
qed

end
