(* ===== verification/RadixOps.thy ===== *)
theory RadixOps
  imports RadixTree
begin

text \<open>
  The operations of \<open>src/std_radix.c\<close> that change the tree: insertion, removal, the walks (whose
  callbacks may change it), creation and the version of a head. What an allocator returns is an
  argument, 0 for failure.
\<close>

section \<open>Insertion\<close>

text \<open>
  The key of the new head: a copy of the converted key, or the client's own. The second component
  is False when the allocation fails and the insertion gives up.
\<close>

definition radix_insert_key :: "std_rt_table \<Rightarrow> ptr \<Rightarrow> ptr \<Rightarrow> (std_rt_table \<times> bool) option" where
  "radix_insert_key s rth key_alloc =
    (if rtt_convert s \<noteq> None \<and> rth_addr s rth \<noteq> 0 then
       (let (s, temp) = rdx_convert s (rth_addr s rth); n = rtt_keybytes s in
        if rdx_rth_addr s rth = 0 then
          (if key_alloc = 0 then Some (s, False)
           else
             (let mem = poke (contents (rt_mem s)) key_alloc (bytes_at (contents (rt_mem s)) temp n)
              in Some (s\<lparr>rdx_rth_addr := (rdx_rth_addr s)(rth := key_alloc),
                         rt_mem := (rt_mem s)\<lparr>contents := mem\<rparr>,
                         rth_magic := (rth_magic s)(rth := RT_RTH_ADDR_MAGIC)\<rparr>, True)))
        else if rth_magic s rth = RT_RTH_ADDR_MAGIC then
          (if memcmp (bytes_at (contents (rt_mem s)) (rdx_rth_addr s rth) n)
                     (bytes_at (contents (rt_mem s)) temp n) \<noteq> 0
           then None else Some (s, True))
        else None)
     else if rth_addr s rth = 0 then None
     else Some (s\<lparr>rdx_rth_addr := (rdx_rth_addr s)(rth := rth_addr s rth)\<rparr>, True))"

text \<open>\<open>rdcl_cl\<close> is the list node inside a user head.\<close>

definition RDCL_DLLOFFSET :: nat where "RDCL_DLLOFFSET = 48"

definition rdcl_cl :: "ptr \<Rightarrow> node" where "rdcl_cl rth = rth + RDCL_DLLOFFSET"

text \<open>The fields of the new head are cleared, and the length checked, only when debugging.\<close>

definition radix_insert_clear :: "std_rt_table \<Rightarrow> ptr \<Rightarrow> std_rt_table" where
  "radix_insert_clear s rth =
    (let s = s\<lparr>rth_rtn := (rth_rtn s)(rth := 0), rth_version := (rth_version s)(rth := 0)\<rparr> in
     if rtt_radicalused s \<or> rtt_carused s
     then s\<lparr>rdcl_flags := (rdcl_flags s)(rth := 0),
            rt_mem := set_back (rdcl_cl rth) 0 (set_next (rdcl_cl rth) 0 (rt_mem s))\<rparr>
     else s)"

text \<open>A node from the allocator, cleared by \<open>memset\<close>, with a bit number.\<close>

definition rdx_new_node :: "ptr \<Rightarrow> nat \<Rightarrow> std_rt_table \<Rightarrow> std_rt_table" where
  "rdx_new_node rtn bitlen s =
     RN_SETBIT rtn bitlen
       (s\<lparr>rtn_left := (rtn_left s)(rtn := 0), rtn_right := (rtn_right s)(rtn := 0),
          rtn_parent := (rtn_parent s)(rtn := 0), rtn_flags := (rtn_flags s)(rtn := 0),
          rtn_lock := (rtn_lock s)(rtn := 0), rtn_version := (rtn_version s)(rtn := 0),
          rtn_rth := (rtn_rth s)(rtn := 0),
          rtt_inodes := rtt_inodes s + 1, rtt_nmalloc := rtt_nmalloc s + 1\<rparr>)"

partial_function (option) climb_split :: "std_rt_table \<Rightarrow> nat \<Rightarrow> ptr \<Rightarrow> ptr option" where
  "climb_split s dbit rtn =
    (let rtn_prev = rtn_parent s rtn in
     if rtn_prev \<noteq> 0 \<and> rtn_bit s rtn_prev \<ge> dbit then climb_split s dbit rtn_prev else Some rtn)"

text \<open>A user head leaves its node: its key is dropped and the client's routine called.\<close>

definition release_head :: "ptr \<Rightarrow> std_rt_table \<Rightarrow> std_rt_table" where
  "release_head rth s =
    (if rth \<noteq> 0 then
       (let s = s\<lparr>rdx_rth_addr := (rdx_rth_addr s)(rth := 0)\<rparr> in
        if rtt_rmfree s
        then s\<lparr>rt_freed_heads := rth # rt_freed_heads s, rtt_nusrfrees := rtt_nusrfrees s + 1\<rparr>
        else s)
     else s)"

text \<open>The node for the key exists: an attached head is returned, a deleted one replaced.\<close>

definition insert_attach :: "std_rt_table \<Rightarrow> ptr \<Rightarrow> ptr \<Rightarrow> std_rt_table \<times> ptr" where
  "insert_attach s rtn rth =
    (if \<not> rtn_dele s rtn \<and> rtn_rth s rtn \<noteq> 0 then (s, rtn_rth s rtn)
     else
       (let s = release_head (rtn_rth s rtn) s;
            s = set_rth_rtn rth rtn (set_rtn_rth rtn rth s);
            s = s\<lparr>rtn_flags := (rtn_flags s)(rtn := RDX_CLEAR_BIT (rtn_flags s rtn) RDX_RN_DELE_BIT),
                  rtt_routes := rtt_routes s + 1\<rparr>
        in (s, rth)))"

text \<open>The new node becomes a child of \<open>rtn\<close>.\<close>

definition insert_child :: "std_rt_table \<Rightarrow> ptr \<Rightarrow> ptr \<Rightarrow> ptr \<Rightarrow> std_rt_table option" where
  "insert_child s rtn rtn_add addr =
    (let s = set_rtn_parent rtn_add rtn s in
     if BIT_TEST (rt_byte s addr (RNBYTE (rtn_bit s rtn))) (rtn_tbit s rtn)
     then (if rtn_right s rtn \<noteq> 0 then None else Some (set_rtn_right rtn rtn_add s))
     else (if rtn_left s rtn \<noteq> 0 then None else Some (set_rtn_left rtn rtn_add s)))"

text \<open>\<open>rtn_new\<close> takes the place of \<open>rtn\<close> below \<open>rtn_prev\<close>.\<close>

definition insert_above :: "std_rt_table \<Rightarrow> ptr \<Rightarrow> ptr \<Rightarrow> ptr \<Rightarrow> std_rt_table option" where
  "insert_above s rtn_prev rtn rtn_new =
    (let s = set_rtn_parent rtn rtn_new s;
         s = s\<lparr>rtn_version := (rtn_version s)(rtn_new := rtn_version s rtn)\<rparr>;
         s = set_rtn_parent rtn_new rtn_prev s
     in if rtn_prev = 0 then Some (s\<lparr>rtt_root := rtn_new\<rparr>)
        else if rtn_right s rtn_prev = rtn then Some (set_rtn_right rtn_prev rtn_new s)
        else if rtn_left s rtn_prev = rtn then Some (set_rtn_left rtn_prev rtn_new s)
        else None)"

text \<open>The new node \<open>rtn_add\<close> goes between \<open>rtn\<close> and its parent.\<close>

definition insert_between :: "std_rt_table \<Rightarrow> ptr \<Rightarrow> ptr \<Rightarrow> ptr \<Rightarrow> std_rt_table option" where
  "insert_between s rtn rtn_add his_addr =
    (let rtn_prev = rtn_parent s rtn;
         s = (if BIT_TEST (rt_byte s his_addr (RNBYTE (rtn_bit s rtn_add))) (rtn_tbit s rtn_add)
              then set_rtn_right rtn_add rtn s else set_rtn_left rtn_add rtn s)
     in insert_above s rtn_prev rtn rtn_add)"

text \<open>A split node \<open>rtn_new\<close> above \<open>rtn\<close> gets the new node on one side and \<open>rtn\<close> on the other.\<close>

definition insert_split :: "std_rt_table \<Rightarrow> ptr \<Rightarrow> ptr \<Rightarrow> ptr \<Rightarrow> nat \<Rightarrow> ptr \<Rightarrow> std_rt_table option" where
  "insert_split s rtn rtn_add rtn_new dbit addr =
    (let rtn_prev = rtn_parent s rtn;
         s = rdx_new_node rtn_new dbit s;
         s = set_rtn_parent rtn_add rtn_new s;
         s = (if BIT_TEST (rt_byte s addr (RNBYTE (rtn_bit s rtn_new))) (rtn_tbit s rtn_new)
              then set_rtn_left rtn_new rtn (set_rtn_right rtn_new rtn_add s)
              else set_rtn_right rtn_new rtn (set_rtn_left rtn_new rtn_add s))
     in insert_above s rtn_prev rtn rtn_new)"

text \<open>The insertion below the root, once the key of the head is in place.\<close>

definition radix_insert_node ::
    "std_rt_table \<Rightarrow> ptr \<Rightarrow> nat \<Rightarrow> ptr \<Rightarrow> ptr \<Rightarrow> (std_rt_table \<times> ptr) option" where
  "radix_insert_node s rth bitlen alloc1 alloc2 =
    (let addr = rdx_rth_addr s rth in
     case rdx_search_head s addr bitlen (rtt_root s) of
       None \<Rightarrow> None
     | Some rtn \<Rightarrow>
         if rtn_rth s rtn = 0 then None else
         (let bits2chk = min (rtn_bit s rtn) bitlen;
              his_addr = rdx_rth_addr s (rtn_rth s rtn);
              dbit = min (first_diff s addr his_addr bits2chk 0) bits2chk
          in case climb_split s dbit rtn of
               None \<Rightarrow> None
             | Some rtn \<Rightarrow>
                 if dbit = bitlen \<and> rtn_bit s rtn = bitlen then Some (insert_attach s rtn rth)
                 else if alloc1 = 0 then Some (s, 0)
                 else
                   (let s = rdx_new_node alloc1 bitlen s;
                        s = set_rth_rtn rth alloc1 (set_rtn_rth alloc1 rth s)
                    in if rtn_bit s rtn = dbit then
                         (if \<not> dbit < bitlen then None
                          else (case insert_child s rtn alloc1 addr of
                                  None \<Rightarrow> None
                                | Some s \<Rightarrow> Some (s\<lparr>rtt_routes := rtt_routes s + 1\<rparr>, rth)))
                       else if dbit = bitlen then
                         (case insert_between s rtn alloc1 his_addr of
                            None \<Rightarrow> None
                          | Some s \<Rightarrow> Some (s\<lparr>rtt_routes := rtt_routes s + 1\<rparr>, rth))
                       else if alloc2 = 0 then
                         Some (s\<lparr>rt_freed_nodes := insert alloc1 (rt_freed_nodes s),
                                 rtt_nfree := rtt_nfree s + 1, rtt_inodes := rtt_inodes s - 1\<rparr>, 0)
                       else
                         (case insert_split s rtn alloc1 alloc2 dbit addr of
                            None \<Rightarrow> None
                          | Some s \<Rightarrow> Some (s\<lparr>rtt_routes := rtt_routes s + 1\<rparr>, rth)))))"

definition std_radix_insert ::
    "std_rt_table \<Rightarrow> ptr \<Rightarrow> nat \<Rightarrow> ptr \<Rightarrow> ptr \<Rightarrow> ptr \<Rightarrow> (std_rt_table \<times> ptr) option" where
  "std_radix_insert s rth bitlen key_alloc alloc1 alloc2 =
    (case radix_insert_key s rth key_alloc of
       None \<Rightarrow> None
     | Some (s, ok) \<Rightarrow>
         if \<not> ok then Some (s, 0)
         else if \<not> RDX_VALIDATE_HANDLE s then None
         else
           (let s = (if rtt_debug s then radix_insert_clear s rth else s) in
            if rtt_debug s \<and> bitlen > rtt_maxaddrlen s then Some (s, 0)
            else
              (let s = s\<lparr>rtt_ninserts := rtt_ninserts s + 1\<rparr> in
               if rtt_root s = 0 then
                 (if alloc1 = 0 then Some (s, 0)
                  else
                    (let s = rdx_new_node alloc1 bitlen s;
                         s = s\<lparr>rtt_root := alloc1\<rparr>;
                         s = set_rtn_rth alloc1 rth (set_rth_rtn rth alloc1 s)
                     in Some (s\<lparr>rtt_routes := rtt_routes s + 1\<rparr>, rth)))
               else radix_insert_node s rth bitlen alloc1 alloc2)))"

section \<open>Removal\<close>

definition free_node :: "ptr \<Rightarrow> std_rt_table \<Rightarrow> std_rt_table" where
  "free_node rn s =
     s\<lparr>rt_freed_nodes := insert rn (rt_freed_nodes s), rtt_nfree := rtt_nfree s + 1,
       rtt_inodes := rtt_inodes s - 1\<rparr>"

text \<open>A node with one child at most and no head (any more) is replaced by that child.\<close>

definition remove_promote :: "std_rt_table \<Rightarrow> ptr \<Rightarrow> (std_rt_table \<times> ptr \<times> rdx_dir) option" where
  "remove_promote s rn =
    (if RN_IFLOCK s rn then None
     else if rtn_left s rn \<noteq> 0 \<and> rtn_right s rn \<noteq> 0 then None
     else
       (let rn_prev = rtn_parent s rn;
            (rn_next, rn_ret, dir) =
              (if rtn_left s rn \<noteq> 0 then (rtn_left s rn, rn_prev, RDX_WALKRIGHT)
               else (rtn_right s rn, rtn_right s rn, RDX_WALKDOWN));
            s = set_rtn_parent rn_next rn_prev s
        in if rn_next = 0 then None else
           case (if rn_prev = 0 then Some (s\<lparr>rtt_root := rn_next\<rparr>)
                 else if rtn_left s rn_prev = rn then Some (set_rtn_left rn_prev rn_next s)
                 else if rtn_right s rn_prev = rn then Some (set_rtn_right rn_prev rn_next s)
                 else None) of
             None \<Rightarrow> None
           | Some s \<Rightarrow> Some (free_node rn (release_head (rtn_rth s rn) s), rn_ret, dir)))"

text \<open>The result is the table, the node to go on from and the direction; \<open>dir\<close> comes in unset.\<close>

definition radix_remove_node :: "std_rt_table \<Rightarrow> ptr \<Rightarrow> rdx_dir \<Rightarrow> (std_rt_table \<times> ptr \<times> rdx_dir) option" where
  "radix_remove_node s rn dir =
    (if rn = 0 \<or> RN_IFLOCK s rn then None
     else
       (let s = s\<lparr>rtt_routes := rtt_routes s - 1\<rparr> in
        if rtn_left s rn \<noteq> 0 \<and> rtn_right s rn \<noteq> 0 then
          (let s = set_rtn_rth rn 0 (release_head (rtn_rth s rn) s)
           in Some (s, rtn_parent s rn, RDX_WALKUP))
        else if rtn_left s rn = 0 \<and> rtn_right s rn = 0 then
          (let rn_prev = rtn_parent s rn;
               s = free_node rn (release_head (rtn_rth s rn) s)
           in if rn_prev = 0 then Some (s\<lparr>rtt_root := 0\<rparr>, 0, dir)
              else
                (case (if rtn_left s rn_prev = rn then Some (set_rtn_left rn_prev 0 s, RDX_WALKRIGHT)
                       else if rtn_right s rn_prev = rn then Some (set_rtn_right rn_prev 0 s, RDX_WALKUP)
                       else None) of
                   None \<Rightarrow> None
                 | Some (s, dir) \<Rightarrow>
                     if rtn_rth s rn_prev \<noteq> 0 then Some (s, rn_prev, dir)
                     else remove_promote s rn_prev))
        else remove_promote s rn))"

definition RDCL_INCL :: u32 where "RDCL_INCL = 1"
definition RDCL_DUMMY :: u32 where "RDCL_DUMMY = 2"

text \<open>Was the head passed to \<open>rtt_rmfree\<close> between the tables \<open>s0\<close> and \<open>s\<close>?\<close>

definition head_freed_since :: "std_rt_table \<Rightarrow> std_rt_table \<Rightarrow> ptr \<Rightarrow> bool" where
  "head_freed_since s0 s rth \<longleftrightarrow>
    rth \<in> set (take (length (rt_freed_heads s) - length (rt_freed_heads s0)) (rt_freed_heads s))"

text \<open>
  With RADICAL in use the last step reads and writes the list node inside the head. The value \<open>None\<close>
  is also the access to a head that the removal has just passed to \<open>rtt_rmfree\<close>.
\<close>

definition std_radix_remove :: "std_rt_table \<Rightarrow> ptr \<Rightarrow> std_rt_table option" where
  "std_radix_remove s rth =
    (if \<not> RDX_VALIDATE_HANDLE s \<or> rtt_debug s \<and> rth = 0 then None
     else
       (let s = s\<lparr>rtt_nremoves := rtt_nremoves s + 1\<rparr>; rn = rth_rtn s rth in
        if rn = 0 then None
        else if RN_IFLOCK s rn then
          (let s = s\<lparr>rtn_flags := (rtn_flags s)(rn := RDX_SET_BIT (rtn_flags s rn) RDX_RN_DELE_BIT)\<rparr>
           in if rtt_rmfree s then Some s else None)
        else
          (case radix_remove_node s rn RDX_WALKUP of
             None \<Rightarrow> None
           | Some (s', _, _) \<Rightarrow>
               if rtt_radicalused s' then
                 (if head_freed_since s s' rth then None
                  else if std_dll_islinked (rt_mem s') (rdcl_cl rth) then
                    Some (s'\<lparr>rt_mem := std_dll_remove (rtt_clhead s') (rdcl_cl rth) (rt_mem s'),
                             rdcl_flags := (rdcl_flags s')(rth := rdcl_flags s' rth AND NOT RDCL_INCL)\<rparr>)
                  else Some s')
               else Some s')))"

section \<open>Walks\<close>

text \<open>
  A callback may change the table; it returns the new table and the code's \<open>int\<close>. \<open>lcnt\<close> is an
  \<open>unsigned long\<close>. The result of a loop is the table and the node it stands at, 0 at the end.
\<close>

type_synonym rdx_walk_fn = "std_rt_table \<Rightarrow> ptr \<Rightarrow> std_rt_table \<times> int"

definition RDXUSERCALLBACK :: "rdx_walk_fn option \<Rightarrow> std_rt_table \<Rightarrow> u64 \<Rightarrow> ptr \<Rightarrow> std_rt_table \<times> u64" where
  "RDXUSERCALLBACK walk_fn s lcnt x =
    (let lcnt = lcnt - 1 in
     case walk_fn of
       None \<Rightarrow> (s, lcnt)
     | Some f \<Rightarrow> (case f s x of (s, r) \<Rightarrow> (s, if r \<noteq> 0 then 0 else lcnt)))"

definition walk_cnt :: "int \<Rightarrow> u64" where
  "walk_cnt cnt = (if cnt = 0 then 0xffffffff else of_int cnt)"

partial_function (option) radix_walk_loop ::
    "rdx_walk_fn option \<Rightarrow> std_rt_table \<Rightarrow> u64 \<Rightarrow> rdx_dir \<Rightarrow> ptr \<Rightarrow> (std_rt_table \<times> ptr) option" where
  "radix_walk_loop walk_fn s lcnt dir rtn =
    (if lcnt \<noteq> 0 \<and> rtn \<noteq> 0 then
       (case dir of
          RDX_WALKDOWN \<Rightarrow>
            (case (if rtn_rth s rtn \<noteq> 0 then RDXUSERCALLBACK walk_fn s lcnt (rtn_rth s rtn) else (s, lcnt)) of
               (s, lcnt) \<Rightarrow>
                 if rtn_left s rtn \<noteq> 0 then radix_walk_loop walk_fn s lcnt RDX_WALKDOWN (rtn_left s rtn)
                 else radix_walk_loop walk_fn s lcnt RDX_WALKRIGHT rtn)
        | RDX_WALKRIGHT \<Rightarrow>
            if rtn_right s rtn = 0 then radix_walk_loop walk_fn s lcnt RDX_WALKUP rtn
            else radix_walk_loop walk_fn s lcnt RDX_WALKDOWN (rtn_right s rtn)
        | RDX_WALKUP \<Rightarrow>
            (let y = rtn; rtn = rtn_parent s rtn in
             if rtn = 0 then Some (s, 0)
             else if y = rtn_left s rtn then radix_walk_loop walk_fn s lcnt RDX_WALKRIGHT rtn
             else radix_walk_loop walk_fn s lcnt RDX_WALKUP rtn))
     else Some (s, rtn))"

text \<open>Where a walk starts: at the root, or behind a head.\<close>

definition walk_start :: "std_rt_table \<Rightarrow> ptr \<Rightarrow> rdx_dir \<times> ptr" where
  "walk_start s rth = (if rth = 0 then (RDX_WALKDOWN, rtt_root s) else (RDX_WALKRIGHT, rth_rtn s rth))"

definition std_radix_walk ::
    "rdx_walk_fn option \<Rightarrow> std_rt_table \<Rightarrow> ptr \<Rightarrow> int \<Rightarrow> (std_rt_table \<times> ptr) option" where
  "std_radix_walk walk_fn s rth cnt =
    (if \<not> RDX_VALIDATE_HANDLE s then None
     else
       (case walk_start s rth of (dir, rtn) \<Rightarrow>
          if rth \<noteq> 0 \<and> rtn = 0 then Some (s, 0)
          else
            (case radix_walk_loop walk_fn s (walk_cnt cnt) dir rtn of
               None \<Rightarrow> None
             | Some (s, rtn) \<Rightarrow> Some (s, if rtn = 0 then 0 else rtn_rth s rtn))))"

text \<open>
  The walk over the versions of a range. A node is locked while its callback runs, so a removal
  inside the callback only marks it; marked nodes are removed on the way up.
\<close>

partial_function (option) versionwalk_loop ::
    "rdx_walk_fn option \<Rightarrow> u64 \<Rightarrow> u64 \<Rightarrow> std_rt_table \<Rightarrow> u64 \<Rightarrow> rdx_dir \<Rightarrow> ptr \<Rightarrow> (std_rt_table \<times> ptr \<times> rdx_dir) option" where
  "versionwalk_loop walk_fn min_ver max_ver s lcnt dir rtn =
    (if lcnt \<noteq> 0 \<and> rtn \<noteq> 0 then
       (case dir of
          RDX_WALKDOWN \<Rightarrow>
            if rtn_version s rtn < min_ver then versionwalk_loop walk_fn min_ver max_ver s lcnt RDX_WALKUP rtn
            else
              (let t_rth = rtn_rth s rtn;
                   (s, lcnt) =
                     (case walk_fn of
                        Some f \<Rightarrow>
                          if t_rth \<noteq> 0 \<and> rth_version s t_rth \<ge> min_ver \<and> rth_version s t_rth \<le> max_ver
                          then (case f (RN_LOCK rtn s) t_rth of (s, r) \<Rightarrow>
                                  (RN_UNLOCK rtn s, if r \<noteq> 0 then 0 else lcnt - 1))
                          else (s, lcnt)
                      | None \<Rightarrow> (s, lcnt))
               in if rtn_left s rtn \<noteq> 0
                  then versionwalk_loop walk_fn min_ver max_ver s lcnt RDX_WALKDOWN (rtn_left s rtn)
                  else versionwalk_loop walk_fn min_ver max_ver s lcnt RDX_WALKRIGHT rtn)
        | RDX_WALKRIGHT \<Rightarrow>
            if rtn_right s rtn = 0 then versionwalk_loop walk_fn min_ver max_ver s lcnt RDX_WALKUP rtn
            else versionwalk_loop walk_fn min_ver max_ver s lcnt RDX_WALKDOWN (rtn_right s rtn)
        | RDX_WALKUP \<Rightarrow>
            (let y = rtn; rtn = rtn_parent s rtn in
             if \<not> RN_IFLOCK s y \<and> rtn_dele s y then
               (case radix_remove_node s y dir of
                  None \<Rightarrow> None
                | Some (s, rtn, dir) \<Rightarrow> versionwalk_loop walk_fn min_ver max_ver s lcnt dir rtn)
             else if rtn \<noteq> 0 \<and> y = rtn_left s rtn
             then versionwalk_loop walk_fn min_ver max_ver s lcnt RDX_WALKRIGHT rtn
             else versionwalk_loop walk_fn min_ver max_ver s lcnt RDX_WALKUP rtn))
     else Some (s, rtn, dir))"

partial_function (option) versionwalk_cleanup :: "std_rt_table \<Rightarrow> rdx_dir \<Rightarrow> ptr \<Rightarrow> std_rt_table option" where
  "versionwalk_cleanup s dir y =
    (case (if \<not> RN_IFLOCK s y \<and> rtn_dele s y then radix_remove_node s y dir
           else Some (s, rtn_parent s y, dir)) of
       None \<Rightarrow> None
     | Some (s, y, dir) \<Rightarrow> if y \<noteq> 0 then versionwalk_cleanup s dir y else Some s)"

text \<open>The last read is a fault when the clean-up has freed the node.\<close>

definition std_radix_versionwalk ::
    "rdx_walk_fn option \<Rightarrow> std_rt_table \<Rightarrow> ptr \<Rightarrow> int \<Rightarrow> u64 \<Rightarrow> u64 \<Rightarrow> (std_rt_table \<times> ptr) option" where
  "std_radix_versionwalk walk_fn s rth cnt min_ver max_ver =
    (if \<not> RDX_VALIDATE_HANDLE s then None
     else
       (case walk_start s rth of (dir, rtn) \<Rightarrow>
          if rth \<noteq> 0 \<and> rtn = 0 then Some (s, 0)
          else
            (case versionwalk_loop walk_fn min_ver max_ver s (walk_cnt cnt) dir rtn of
               None \<Rightarrow> None
             | Some (s, rtn, dir) \<Rightarrow>
                 if rtn = 0 then Some (s, 0)
                 else
                   (case versionwalk_cleanup s dir rtn of
                      None \<Rightarrow> None
                    | Some s \<Rightarrow> if rtn \<in> rt_freed_nodes s then None else Some (s, rtn_rth s rtn)))))"

section \<open>Creation and versions\<close>

text \<open>
  \<open>raw\<close> is the uninitialised memory of the table, None when \<open>malloc\<close> fails; \<open>temp\<close> the key buffer,
  0 when its allocation fails.
\<close>

definition std_radix_create ::
    "std_rt_table option \<Rightarrow> ptr \<Rightarrow> string option \<Rightarrow> nat \<Rightarrow> bool \<Rightarrow> std_rt_table option option" where
  "std_radix_create raw temp name maxaddrlen rmfree =
    (case name of
       None \<Rightarrow> None
     | Some name \<Rightarrow>
         (case raw of
            None \<Rightarrow> Some None
          | Some s \<Rightarrow>
              if temp = 0 then Some None
              else
                (let s = s\<lparr>rtt_root := 0, rtt_inodes := 0, rtt_routes := 0, rtt_ninserts := 0,
                           rtt_nremoves := 0, rtt_nmalloc := 0, rtt_nfree := 0, rtt_nusrfrees := 0,
                           rtt_nwraps := 0, rtt_debug := False, rtt_radicalinuse := 0\<rparr>;
                     mem = poke (contents (rt_mem s)) temp (replicate ((maxaddrlen + (DIVISOR - 1)) div DIVISOR) 0);
                     s = s\<lparr>rtt_temp := temp, rt_mem := (rt_mem s)\<lparr>contents := mem\<rparr>, rtt_magic := RDX_MAGIC,
                           rtt_name := take RDX_NAME_MAX_LEN name, rtt_version := RDX_INITIALVER,
                           rtt_maxaddrlen := maxaddrlen, rtt_rmfree := rmfree, rtt_radicalused := False,
                           rtt_carused := False, rtt_convert := None\<rparr>;
                     (h, m) = std_dll_init (rtt_clhead s) (rt_mem s)
                 in Some (Some (s\<lparr>rtt_clhead := h, rt_mem := m\<rparr>)))))"

definition std_radix_destroy :: "std_rt_table option \<Rightarrow> std_rt_table option option" where
  "std_radix_destroy rtt =
    (case rtt of
       None \<Rightarrow> None
     | Some s \<Rightarrow>
         if \<not> RDX_VALIDATE_HANDLE s \<or> rtt_root s \<noteq> 0 then None
         else Some (Some (s\<lparr>rtt_magic := 0, rtt_temp := 0\<rparr>)))"

definition std_radix_init :: "std_rt_table \<Rightarrow> std_rt_table option" where
  "std_radix_init s =
    (if \<not> RDX_VALIDATE_HANDLE s then None
     else
       (let s = s\<lparr>rtt_root := 0, rtt_inodes := 0, rtt_routes := 0, rtt_ninserts := 0, rtt_nremoves := 0,
                  rtt_nmalloc := 0, rtt_nfree := 0, rtt_nusrfrees := 0, rtt_nwraps := 0,
                  rtt_version := RDX_INITIALVER\<rparr>;
            (h, m) = std_dll_init (rtt_clhead s) (rt_mem s)
        in Some (s\<lparr>rtt_clhead := h, rt_mem := m\<rparr>)))"

partial_function (option) setversion_loop :: "std_rt_table \<Rightarrow> u64 \<Rightarrow> ptr \<Rightarrow> std_rt_table option" where
  "setversion_loop s ver rtn =
    (if rtn \<noteq> 0 then
       (let s = s\<lparr>rtn_version := (rtn_version s)(rtn := ver)\<rparr> in setversion_loop s ver (rtn_parent s rtn))
     else Some s)"

definition std_radix_setversion :: "std_rt_table \<Rightarrow> ptr \<Rightarrow> (std_rt_table \<times> u64) option" where
  "std_radix_setversion s rth =
    (if \<not> RDX_VALIDATE_HANDLE s \<or> rtt_debug s \<and> rth = 0 \<or> rth_rtn s rth = 0 then None
     else
       (let rtn = rth_rtn s rth; ver = rtt_version s + 1;
            s = s\<lparr>rtt_version := ver, rth_version := (rth_version s)(rth := ver)\<rparr>
        in case setversion_loop s ver rtn of
             None \<Rightarrow> None
           | Some s \<Rightarrow> Some (if ver = 0 then s\<lparr>rtt_nwraps := rtt_nwraps s + 1\<rparr> else s, ver)))"

definition std_radix_getlessspecific :: "std_rt_table \<Rightarrow> ptr \<Rightarrow> ptr option" where
  "std_radix_getlessspecific s rth =
    (if \<not> RDX_VALIDATE_HANDLE s \<or> rtt_debug s \<and> rth = 0 \<or> rth_rtn s rth = 0 then None
     else
       (case first_head_up s (rtn_parent s (rth_rtn s rth)) of
          None \<Rightarrow> None
        | Some rtn \<Rightarrow> Some (if rtn \<noteq> 0 then rtn_rth s rtn else 0)))"

end
