(* ===== verification/RadixInsert.thy ===== *)
theory RadixInsert
  imports RadixLookup RadixOps
begin

text \<open>
  Insertion into the radix tree: the invariant is kept and the prefix is added to the routes of the
  table, unless it is there already. The place of the new node is a focus of the tree; every case of
  the insertion replaces the subtree in focus by one whose heads agree with it on the bits that the
  nodes above test (\<open>rdx_ok_replug\<close>).
\<close>

section \<open>Replacing a subtree\<close>

text \<open>The nodes of a set have the same bit numbers, heads and keys in two tables.\<close>

definition same_nodes :: "std_rt_table \<Rightarrow> std_rt_table \<Rightarrow> ptr set \<Rightarrow> bool" where
  "same_nodes s s' A \<longleftrightarrow> (\<forall>a\<in>A. rtn_bit s' a = rtn_bit s a \<and> rtn_tbit s' a = rtn_tbit s a \<and>
     rtn_rth s' a = rtn_rth s a \<and> rtn_flags s' a = rtn_flags s a \<and> (rtn_rth s a \<noteq> 0 \<longrightarrow> nkey s' a = nkey s a))"

lemma same_nodes_mono: "same_nodes s s' A \<Longrightarrow> B \<subseteq> A \<Longrightarrow> same_nodes s s' B"
  by (auto simp: same_nodes_def)

lemma same_nodes_heads: "same_nodes s s' (set_tree t) \<Longrightarrow> heads s' t = heads s t"
  by (auto simp: same_nodes_def heads_def)

lemma same_nodes_nkey: "same_nodes s s' (set_tree t) \<Longrightarrow> x \<in> heads s t \<Longrightarrow> nkey s' x = nkey s x"
  by (auto simp: same_nodes_def heads_def)

lemma rdx_ok_cong: "same_nodes s s' (set_tree t) \<Longrightarrow> rdx_ok s' t = rdx_ok s t"
proof (induction t)
  case (Node l a r)
  have sl: "same_nodes s s' (set_tree l)" and sr: "same_nodes s s' (set_tree r)"
    using same_nodes_mono [OF Node.prems] by auto
  have a: "rtn_bit s' a = rtn_bit s a" "rtn_tbit s' a = rtn_tbit s a" "rtn_rth s' a = rtn_rth s a"
    using Node.prems by (auto simp: same_nodes_def)
  have h: "heads s' l = heads s l" "heads s' r = heads s r" "heads s' (Node l a r) = heads s (Node l a r)"
    using same_nodes_heads sl sr Node.prems by blast+
  have k: "nkey s' x = nkey s x" if "x \<in> heads s (Node l a r)" for x
    using same_nodes_nkey [OF Node.prems that] .
  then have g: "heads_agree s' (Node l a r) n = heads_agree s (Node l a r) n" for n
    unfolding heads_agree_def h by (intro ball_cong) (simp_all only:)
  have b: "rtn_bit s' x = rtn_bit s x" if "x \<in> set_tree l \<union> set_tree r" for x
    using that Node.prems by (auto simp: same_nodes_def)
  have k': "x \<in> heads s l \<Longrightarrow> nkey s' x = nkey s x" "x \<in> heads s r \<Longrightarrow> nkey s' x = nkey s x" for x
    using k by auto
  show ?case
    unfolding rdx_ok.simps g h a using Node.IH(1) [OF sl] Node.IH(2) [OF sr] b k'
    by (intro conj_cong ball_cong) simp_all
qed simp

lemma rdx_ok_focus: "rdx_ok s (plug t k) \<Longrightarrow> rdx_ok s t"
proof (induction t k rule: plug.induct)
  case (2 t a r k)
  from 2(1) [OF 2(2) [unfolded plug.simps]] show ?case by simp
next
  case (3 t l a k)
  from 3(1) [OF 3(2) [unfolded plug.simps]] show ?case by simp
qed simp

text \<open>The nodes above the focus.\<close>

fun ups :: "frame list \<Rightarrow> ptr list" where
  "ups [] = []"
| "ups (WentLeft a r # k) = a # ups k"
| "ups (WentRight l a # k) = a # ups k"

lemma ups_append: "ups (k @ k') = ups k @ ups k'"
  by (induction k rule: ups.induct) simp_all

lemma heads_mirror: "heads s (Node l a r) = heads s (Node r a l)"
  by (auto simp: heads_def)

lemma heads_replaced:
  assumes "same_nodes s s' ({a} \<union> set_tree u)"
    and "\<forall>y\<in>heads s' t'. \<exists>x\<in>heads s t. \<forall>i<d. nkey s' y i = nkey s x i"
  shows "\<forall>y\<in>heads s' (Node t' a u). \<exists>x\<in>heads s (Node t a u). \<forall>i<d. nkey s' y i = nkey s x i"
    and "\<forall>y\<in>heads s' (Node u a t'). \<exists>x\<in>heads s (Node u a t). \<forall>i<d. nkey s' y i = nkey s x i"
proof -
  show *: "\<forall>y\<in>heads s' (Node t' a u). \<exists>x\<in>heads s (Node t a u). \<forall>i<d. nkey s' y i = nkey s x i"
  proof
    fix y assume "y \<in> heads s' (Node t' a u)"
    then consider "y \<in> heads s' t'" | "y \<in> {a} \<union> set_tree u" "rtn_rth s' y \<noteq> 0"
      by (auto simp: heads_def)
    then show "\<exists>x\<in>heads s (Node t a u). \<forall>i<d. nkey s' y i = nkey s x i"
    proof cases
      case 1
      then show ?thesis using assms(2) by (auto split: if_splits)
    next
      case 2
      then have "rtn_rth s y \<noteq> 0" "nkey s' y = nkey s y"
        using bspec [OF assms(1) [unfolded same_nodes_def] 2(1)] by simp_all
      with 2 show ?thesis by (intro bexI [of _ y]) (auto simp: heads_def)
    qed
  qed
  show "\<forall>y\<in>heads s' (Node u a t'). \<exists>x\<in>heads s (Node u a t). \<forall>i<d. nkey s' y i = nkey s x i"
    using * unfolding heads_mirror [of s' t' a u] heads_mirror [of s t a u] .
qed

lemma agree_via:
  assumes "\<forall>y\<in>heads s' t'. \<exists>x\<in>heads s t. \<forall>i<d. nkey s' y i = nkey s x i" "heads_agree s t b" "b < d"
  shows "heads_agree s' t' b"
  unfolding heads_agree_def
proof (intro ballI allI impI)
  fix y z i assume *: "y \<in> heads s' t'" "z \<in> heads s' t'" "i < b"
  have i: "i < d" using *(3) assms(3) by simp
  obtain x where "x \<in> heads s t" "nkey s' y i = nkey s x i" using assms(1) *(1) i by blast
  moreover obtain x' where "x' \<in> heads s t" "nkey s' z i = nkey s x' i" using assms(1) *(2) i by blast
  ultimately show "nkey s' y i = nkey s' z i" using assms(2) *(3) unfolding heads_agree_def by metis
qed

lemma side_via:
  assumes "\<forall>y\<in>B. \<exists>x\<in>A. \<forall>i<d. g y i = f x i" "\<forall>x\<in>A. f x b = v" "(b :: nat) < d"
  shows "\<forall>y\<in>B. g y b = (v :: bool)"
  using assms by metis

lemma rdx_ok_NodeD:
  assumes "rdx_ok s (Node l a r)"
  shows "rtn_tbit s a = RNBIT (rtn_bit s a)" "rtn_rth s a = 0 \<Longrightarrow> l \<noteq> Leaf \<and> r \<noteq> Leaf"
    "\<forall>x\<in>set_tree l. rtn_bit s a < rtn_bit s x" "\<forall>x\<in>set_tree r. rtn_bit s a < rtn_bit s x"
    "\<forall>x\<in>heads s l. nkey s x (rtn_bit s a) = False" "\<forall>x\<in>heads s r. nkey s x (rtn_bit s a) = True"
    "heads_agree s (Node l a r) (rtn_bit s a)"
    "rdx_ok s l" "rdx_ok s r"
  using assms unfolding rdx_ok.simps by simp_all

lemma rdx_ok_NodeI:
  assumes "rtn_tbit s a = RNBIT (rtn_bit s a)" "rtn_rth s a = 0 \<Longrightarrow> l \<noteq> Leaf \<and> r \<noteq> Leaf"
    "\<forall>x\<in>set_tree l. rtn_bit s a < rtn_bit s x" "\<forall>x\<in>set_tree r. rtn_bit s a < rtn_bit s x"
    "\<forall>x\<in>heads s l. nkey s x (rtn_bit s a) = False" "\<forall>x\<in>heads s r. nkey s x (rtn_bit s a) = True"
    "heads_agree s (Node l a r) (rtn_bit s a)"
    "rdx_ok s l" "rdx_ok s r"
  shows "rdx_ok s (Node l a r)"
  unfolding rdx_ok.simps using assms by auto

lemma rdx_ok_replace_child:
  assumes "rdx_ok s (Node l a r)" and "same_nodes s s' ({a} \<union> set_tree u)" and "rtn_bit s a < d"
    and "rdx_ok s' t'" and "t \<noteq> Leaf" and "t' \<noteq> Leaf"
    and "\<forall>y\<in>set_tree t'. y \<in> set_tree t \<and> rtn_bit s' y = rtn_bit s y \<or> d \<le> rtn_bit s' y"
    and "\<forall>y\<in>heads s' t'. \<exists>x\<in>heads s t. \<forall>i<d. nkey s' y i = nkey s x i"
  shows "l = t \<Longrightarrow> r = u \<Longrightarrow> rdx_ok s' (Node t' a r)"
    and "r = t \<Longrightarrow> l = u \<Longrightarrow> rdx_ok s' (Node l a t')"
proof -
  have su: "same_nodes s s' (set_tree u)" using assms(2) by (rule same_nodes_mono) blast
  have a: "rtn_bit s' a = rtn_bit s a" "rtn_tbit s' a = rtn_tbit s a" "rtn_rth s' a = rtn_rth s a"
    "rtn_rth s a \<noteq> 0 \<Longrightarrow> nkey s' a = nkey s a"
    using assms(2) by (auto simp: same_nodes_def)
  have hu: "heads s' u = heads s u" and ou: "rdx_ok s' u = rdx_ok s u"
    using same_nodes_heads [OF su] rdx_ok_cong [OF su] .
  have bu: "\<forall>x\<in>set_tree u. rtn_bit s' x = rtn_bit s x" using su by (simp add: same_nodes_def)
  have ku: "\<forall>x\<in>heads s u. nkey s' x = nkey s x" using same_nodes_nkey [OF su] by blast
  have bt: "\<forall>x\<in>set_tree t'. rtn_bit s a < rtn_bit s' x" if "\<forall>x\<in>set_tree t. rtn_bit s a < rtn_bit s x"
    using that assms(3,7) by (metis order_less_le_trans)
  { assume lr: "l = t" "r = u"
    note o = rdx_ok_NodeD [OF assms(1), unfolded lr]
    show "rdx_ok s' (Node t' a r)"
      unfolding lr
    proof (rule rdx_ok_NodeI, unfold a hu ou)
      show "heads_agree s' (Node t' a u) (rtn_bit s a)"
        by (rule agree_via [OF heads_replaced(1) [OF assms(2,8)] o(7) assms(3)])
      show "\<forall>x\<in>heads s' t'. nkey s' x (rtn_bit s a) = False"
        by (rule side_via [OF assms(8) o(5) assms(3)])
      show "\<forall>x\<in>set_tree t'. rtn_bit s a < rtn_bit s' x" by (rule bt [OF o(3)])
    qed (use o assms(4,6) bu ku in simp_all) }
  { assume lr: "r = t" "l = u"
    note o = rdx_ok_NodeD [OF assms(1), unfolded lr]
    show "rdx_ok s' (Node l a t')"
      unfolding lr
    proof (rule rdx_ok_NodeI, unfold a hu ou)
      show "heads_agree s' (Node u a t') (rtn_bit s a)"
        by (rule agree_via [OF heads_replaced(2) [OF assms(2,8)] o(7) assms(3)])
      show "\<forall>x\<in>heads s' t'. nkey s' x (rtn_bit s a) = True"
        by (rule side_via [OF assms(8) o(6) assms(3)])
      show "\<forall>x\<in>set_tree t'. rtn_bit s a < rtn_bit s' x" by (rule bt [OF o(4)])
    qed (use o assms(4,6) bu ku in simp_all) }
qed

lemma rdx_ok_replug:
  assumes "rdx_ok s (plug t k)" and "rdx_ok s' t'" and "t \<noteq> Leaf" and "t' \<noteq> Leaf"
    and "same_nodes s s' (ctxt_set k)" and "\<forall>a\<in>set (ups k). rtn_bit s a < d"
    and "\<forall>y\<in>set_tree t'. y \<in> set_tree t \<and> rtn_bit s' y = rtn_bit s y \<or> d \<le> rtn_bit s' y"
    and "\<forall>y\<in>heads s' t'. \<exists>x\<in>heads s t. \<forall>i<d. nkey s' y i = nkey s x i"
  shows "rdx_ok s' (plug t' k)"
  using assms
proof (induction k arbitrary: t t' rule: ups.induct)
  case (2 a r k)
  have o: "rdx_ok s (Node t a r)" using rdx_ok_focus 2(2) by fastforce
  have sa: "same_nodes s s' ({a} \<union> set_tree r)" and sk: "same_nodes s s' (ctxt_set k)"
    using 2(6) by (auto intro: same_nodes_mono)
  have "rdx_ok s' (Node t' a r)"
    using rdx_ok_replace_child(1) [OF o sa _ 2(3,4,5,8,9) refl refl] 2(7) by simp
  moreover have "\<forall>y\<in>set_tree (Node t' a r). y \<in> set_tree (Node t a r) \<and> rtn_bit s' y = rtn_bit s y \<or> d \<le> rtn_bit s' y"
    using 2(8) sa by (auto simp: same_nodes_def)
  moreover have "\<forall>y\<in>heads s' (Node t' a r). \<exists>x\<in>heads s (Node t a r). \<forall>i<d. nkey s' y i = nkey s x i"
    by (rule heads_replaced(1) [OF sa 2(9)])
  ultimately show ?case using 2(1) [of "Node t a r" "Node t' a r"] 2(2,7) sk by simp
next
  case (3 l a k)
  have o: "rdx_ok s (Node l a t)" using rdx_ok_focus 3(2) by fastforce
  have sa: "same_nodes s s' ({a} \<union> set_tree l)" and sk: "same_nodes s s' (ctxt_set k)"
    using 3(6) by (auto intro: same_nodes_mono)
  have "rdx_ok s' (Node l a t')"
    using rdx_ok_replace_child(2) [OF o sa _ 3(3,4,5,8,9) refl refl] 3(7) by simp
  moreover have "\<forall>y\<in>set_tree (Node l a t'). y \<in> set_tree (Node l a t) \<and> rtn_bit s' y = rtn_bit s y \<or> d \<le> rtn_bit s' y"
    using 3(8) sa by (auto simp: same_nodes_def)
  moreover have "\<forall>y\<in>heads s' (Node l a t'). \<exists>x\<in>heads s (Node l a t). \<forall>i<d. nkey s' y i = nkey s x i"
    by (rule heads_replaced(2) [OF sa 3(9)])
  ultimately show ?case using 3(1) [of "Node l a t" "Node l a t'"] 3(2,7) sk by simp
qed simp

section \<open>The focus of an insertion\<close>

text \<open>The way of a key to the focus.\<close>

fun key_way :: "std_rt_table \<Rightarrow> ptr \<Rightarrow> frame list \<Rightarrow> bool" where
  "key_way s ap [] \<longleftrightarrow> True"
| "key_way s ap (WentLeft a r # k) \<longleftrightarrow> \<not> key_bit s ap (rtn_bit s a) \<and> key_way s ap k"
| "key_way s ap (WentRight l a # k) \<longleftrightarrow> key_bit s ap (rtn_bit s a) \<and> key_way s ap k"

lemma key_way_append: "key_way s ap (k @ k') \<longleftrightarrow> key_way s ap k \<and> key_way s ap k'"
  by (induction s ap k rule: key_way.induct) auto

lemma search_head_focus:
  "linked (rtn_left s) (rtn_right s) P q t \<Longrightarrow> rdx_ok s t \<Longrightarrow> t \<noteq> Leaf \<Longrightarrow>
   \<exists>l x r k. t = plug (Node l x r) k \<and> rdx_search_head s ap len (root_ptr t) = Some x \<and> rtn_rth s x \<noteq> 0 \<and>
     key_way s ap k \<and> (rtn_bit s x < len \<longrightarrow> (if key_bit s ap (rtn_bit s x) then r else l) = Leaf)"
proof (induction t arbitrary: q)
  case (Node l a r)
  have lk: "a \<noteq> 0" "rtn_left s a = root_ptr l" "rtn_right s a = root_ptr r"
    "linked (rtn_left s) (rtn_right s) P a l" "linked (rtn_left s) (rtn_right s) P a r"
    using Node.prems(1) by simp_all
  note ok = rdx_ok_NodeD [OF Node.prems(2)]
  have z: "root_ptr l = 0 \<longleftrightarrow> l = Leaf" "root_ptr r = 0 \<longleftrightarrow> r = Leaf" using lk(4,5) by simp_all
  let ?c = "if key_bit s ap (rtn_bit s a) then r else l"
  have e: "rdx_search_head s ap len a =
    (if (rtn_bit s a < len \<or> rtn_rth s a = 0) \<and> ?c \<noteq> Leaf then rdx_search_head s ap len (root_ptr ?c) else Some a)"
    by (subst rdx_search_head.simps) (simp add: lk(2,3) ok(1) z)
  show ?case
  proof (cases "(rtn_bit s a < len \<or> rtn_rth s a = 0) \<and> ?c \<noteq> Leaf")
    case False
    then have "rtn_rth s a \<noteq> 0" "rtn_bit s a < len \<longrightarrow> ?c = Leaf" using ok(2) by (auto split: if_splits)
    moreover have "rdx_search_head s ap len a = Some a" unfolding e if_not_P [OF False] ..
    ultimately show ?thesis
      by - (rule exI [of _ l], rule exI [of _ a], rule exI [of _ r], rule exI [of _ "[]"], simp)
  next
    case True
    show ?thesis
    proof (cases "key_bit s ap (rtn_bit s a)")
      case b: True
      with True obtain l' x r' k where
        "r = plug (Node l' x r') k" "rdx_search_head s ap len (root_ptr r) = Some x" "rtn_rth s x \<noteq> 0"
        "key_way s ap k" "rtn_bit s x < len \<longrightarrow> (if key_bit s ap (rtn_bit s x) then r' else l') = Leaf"
        using Node.IH(2) [OF lk(5) ok(9)] by auto
      with b True show ?thesis
        by (intro exI [of _ l'] exI [of _ x] exI [of _ r'] exI [of _ "k @ [WentRight l a]"])
           (simp add: e plug_append key_way_append)
    next
      case b: False
      with True obtain l' x r' k where
        "l = plug (Node l' x r') k" "rdx_search_head s ap len (root_ptr l) = Some x" "rtn_rth s x \<noteq> 0"
        "key_way s ap k" "rtn_bit s x < len \<longrightarrow> (if key_bit s ap (rtn_bit s x) then r' else l') = Leaf"
        using Node.IH(1) [OF lk(4) ok(8)] by auto
      with b True show ?thesis
        by (intro exI [of _ l'] exI [of _ x] exI [of _ r'] exI [of _ "k @ [WentLeft a r]"])
           (simp add: e plug_append key_way_append)
    qed
  qed
qed simp

text \<open>Bit numbers fall on the way up.\<close>

lemma ups_sorted:
  "rdx_ok s (plug t k) \<Longrightarrow> t \<noteq> Leaf \<Longrightarrow>
    (\<forall>a\<in>set (ups k). rtn_bit s a < rtn_bit s (root_ptr t)) \<and> sorted_wrt (\<lambda>a b. rtn_bit s a > rtn_bit s b) (ups k)"
proof (induction k arbitrary: t rule: ups.induct)
  case (2 a r k)
  have "rdx_ok s (Node t a r)" using rdx_ok_focus 2(2) by fastforce
  then have "rtn_bit s a < rtn_bit s (root_ptr t)" using rdx_ok_NodeD(3) root_ptr_in_set [OF 2(3)] by blast
  with 2(1) [of "Node t a r"] 2(2) show ?case by auto
next
  case (3 l a k)
  have "rdx_ok s (Node l a t)" using rdx_ok_focus 3(2) by fastforce
  then have "rtn_bit s a < rtn_bit s (root_ptr t)" using rdx_ok_NodeD(4) root_ptr_in_set [OF 3(3)] by blast
  with 3(1) [of "Node l a t"] 3(2) show ?case by auto
qed simp

lemma climb_split_focus:
  assumes "linked L R (rtn_parent s) (up k) (Node l x r)" "klinked L R (rtn_parent s) rt x k"
    and "rdx_ok s (plug (Node l x r) k)" "d \<le> rtn_bit s x"
  shows "\<exists>l' y r' k1 k2. k = k1 @ k2 \<and> plug (Node l x r) k1 = Node l' y r' \<and> climb_split s d x = Some y \<and>
     d \<le> rtn_bit s y \<and> (\<forall>a\<in>set (ups k2). rtn_bit s a < d)"
  using assms
proof (induction k arbitrary: l x r rule: ups.induct)
  case 1
  then show ?case by (subst climb_split.simps) auto
next
  case (2 a u k)
  have p: "rtn_parent s x = a" "a \<noteq> 0" using 2(2,3) by simp_all
  show ?case
  proof (cases "d \<le> rtn_bit s a")
    case True
    have c: "climb_split s d x = climb_split s d a" using True p by (subst climb_split.simps) (simp add: Let_def)
    obtain l' y r' k1 k2 where "k = k1 @ k2" "plug (Node (Node l x r) a u) k1 = Node l' y r'"
        "climb_split s d a = Some y" "d \<le> rtn_bit s y" "\<forall>a\<in>set (ups k2). rtn_bit s a < d"
      using 2(1) [of "Node l x r" a u] 2(2-4) True by auto
    then show ?thesis
      by (intro exI [of _ l'] exI [of _ y] exI [of _ r'] exI [of _ "WentLeft a u # k1"] exI [of _ k2]) (simp add: c)
  next
    case False
    have "climb_split s d x = Some x" using False p by (subst climb_split.simps) (simp add: Let_def)
    moreover have "\<forall>b\<in>set (ups (WentLeft a u # k)). rtn_bit s b < d"
      using ups_sorted [OF 2(4)] False by auto
    ultimately show ?thesis using 2(5)
      by (intro exI [of _ l] exI [of _ x] exI [of _ r] exI [of _ "[]"] exI [of _ "WentLeft a u # k"]) simp
  qed
next
  case (3 u a k)
  have p: "rtn_parent s x = a" "a \<noteq> 0" using 3(2,3) by simp_all
  show ?case
  proof (cases "d \<le> rtn_bit s a")
    case True
    have c: "climb_split s d x = climb_split s d a" using True p by (subst climb_split.simps) (simp add: Let_def)
    obtain l' y r' k1 k2 where "k = k1 @ k2" "plug (Node u a (Node l x r)) k1 = Node l' y r'"
        "climb_split s d a = Some y" "d \<le> rtn_bit s y" "\<forall>a\<in>set (ups k2). rtn_bit s a < d"
      using 3(1) [of u a "Node l x r"] 3(2-4) True by auto
    then show ?thesis
      by (intro exI [of _ l'] exI [of _ y] exI [of _ r'] exI [of _ "WentRight u a # k1"] exI [of _ k2]) (simp add: c)
  next
    case False
    have "climb_split s d x = Some x" using False p by (subst climb_split.simps) (simp add: Let_def)
    moreover have "\<forall>b\<in>set (ups (WentRight u a # k)). rtn_bit s b < d"
      using ups_sorted [OF 3(4)] False by auto
    ultimately show ?thesis using 3(5)
      by (intro exI [of _ l] exI [of _ x] exI [of _ r] exI [of _ "[]"] exI [of _ "WentRight u a # k"]) simp
  qed
qed

lemma size_plug: "size (plug t k) = size t + length (before k @ after k)"
  using length_inorder [of "plug t k"] length_inorder [of t] by (simp add: inorder_plug)

definition routes_on :: "std_rt_table \<Rightarrow> ptr set \<Rightarrow> (bool list \<times> ptr) set" where
  "routes_on s A = (\<lambda>x. (node_prefix s x, rtn_rth s x)) ` {x \<in> A. rtn_rth s x \<noteq> 0 \<and> \<not> rtn_dele s x}"

lemma routes_routes_on: "routes s t = routes_on s (set_tree t)"
  by (simp add: routes_def routes_on_def heads_def)

lemma routes_on_Un [simp]: "routes_on s (A \<union> B) = routes_on s A \<union> routes_on s B"
  unfolding routes_on_def by blast

lemma routes_on_empty [simp]: "routes_on s {} = {}"
  by (simp add: routes_on_def)

lemma routes_on_insert [simp]: "routes_on s (insert a A) =
    (if rtn_rth s a \<noteq> 0 \<and> \<not> rtn_dele s a then {(node_prefix s a, rtn_rth s a)} else {}) \<union> routes_on s A"
  by (auto simp: routes_on_def)

lemma routes_on_cong: "same_nodes s s' A \<Longrightarrow> routes_on s' A = routes_on s A"
  unfolding routes_on_def
  by (intro image_cong) (auto simp: same_nodes_def rtn_dele_def node_prefix_def)

lemma rdx_table_replug:
  assumes T: "rdx_table s (plug u k)"
    and heap: "heap_tree (rtn_left s') (rtn_right s') (rtn_parent s') (rtt_root s') (plug u' k)"
    and ok: "rdx_ok s' u'" and ne: "u \<noteq> Leaf" "u' \<noteq> Leaf"
    and same: "same_nodes s s' (ctxt_set k)" and ups: "\<forall>a\<in>set (ups k). rtn_bit s a < d"
    and bits: "\<forall>y\<in>set_tree u'. y \<in> set_tree u \<and> rtn_bit s' y = rtn_bit s y \<or> d \<le> rtn_bit s' y"
    and hds: "\<forall>y\<in>heads s' u'. \<exists>x\<in>heads s u. \<forall>i<d. nkey s' y i = nkey s x i"
    and bk: "\<forall>x\<in>heads s' u'. rth_rtn s' (rtn_rth s' x) = x"
    and bkk: "\<forall>x\<in>ctxt_set k. rtn_rth s x \<noteq> 0 \<longrightarrow> rth_rtn s' (rtn_rth s x) = rth_rtn s (rtn_rth s x)"
    and rest: "rtt_magic s' = rtt_magic s" "rtt_convert s' = rtt_convert s"
    and inodes: "rtt_inodes s' + of_nat (size u) = rtt_inodes s + of_nat (size u')"
  shows "rdx_table s' (plug u' k)"
    and "routes s' (plug u' k) = routes_on s' (set_tree u') \<union> routes_on s (ctxt_set k)"
proof -
  note t = rdx_table_tree [OF T]
  have "rth_rtn s' (rtn_rth s' x) = x" if "x \<in> heads s' (plug u' k)" for x
  proof -
    have "x \<in> heads s' u' \<or> x \<in> ctxt_set k \<and> rtn_rth s' x \<noteq> 0" using that by (auto simp: heads_def set_tree_plug)
    then show ?thesis
    proof
      assume x: "x \<in> ctxt_set k \<and> rtn_rth s' x \<noteq> 0"
      then have "rtn_rth s' x = rtn_rth s x" using same by (simp add: same_nodes_def)
      moreover have "x \<in> heads s (plug u k)" using x calculation by (simp add: heads_def set_tree_plug)
      ultimately show ?thesis using bkk t(7) x by simp
    qed (use bk in blast)
  qed
  moreover have "rdx_ok s' (plug u' k)" by (rule rdx_ok_replug [OF t(4) ok ne same ups bits hds])
  moreover have "rtt_inodes s = of_nat (size (plug u k))" using T by (simp add: rdx_table_def)
  then have "rtt_inodes s' = of_nat (size (plug u' k))" using inodes by (simp add: size_plug)
  ultimately show "rdx_table s' (plug u' k)" using heap rest t(5,6) by (simp add: rdx_table_def)
  show "routes s' (plug u' k) = routes_on s' (set_tree u') \<union> routes_on s (ctxt_set k)"
    by (simp add: routes_routes_on set_tree_plug routes_on_cong [OF same])
qed

text \<open>
  What a search with the key at \<open>addr\<close> finds: the focus on \<open>y\<close>, whose heads all share the first
  \<open>d\<close> bits with the key, below nodes that test earlier bits.
\<close>

definition insert_place ::
    "std_rt_table \<Rightarrow> ptr \<Rightarrow> nat \<Rightarrow> ptr \<Rightarrow> ptr tree \<Rightarrow> ptr \<Rightarrow> ptr tree \<Rightarrow> frame list \<Rightarrow> nat \<Rightarrow> bool" where
  "insert_place s addr len x l y r k d \<longleftrightarrow>
     rdx_table s (plug (Node l y r) k) \<and> x \<in> heads s (Node l y r) \<and> d \<le> len \<and> d \<le> rtn_bit s y \<and>
     (\<forall>a\<in>set (ups k). rtn_bit s a < d) \<and> (\<forall>i<d. nkey s x i = key_bit s addr i) \<and>
     (d < len \<longrightarrow> d < rtn_bit s y \<longrightarrow> nkey s x d \<noteq> key_bit s addr d) \<and>
     (d < len \<longrightarrow> rtn_bit s y = d \<longrightarrow> (if key_bit s addr d then r else l) = Leaf)"

lemma focus_root_bit:
  "rdx_ok s (plug t k) \<Longrightarrow> t \<noteq> Leaf \<Longrightarrow> x \<in> set_tree t \<Longrightarrow> plug t k = Node l y r \<Longrightarrow> k \<noteq> [] \<Longrightarrow>
    rtn_bit s y < rtn_bit s x \<and> (x \<in> set_tree l \<or> x \<in> set_tree r) \<and>
    (key_way s ap k \<longrightarrow> (if key_bit s ap (rtn_bit s y) then x \<in> set_tree r else x \<in> set_tree l))"
proof (induction k arbitrary: t rule: ups.induct)
  case (2 a u k)
  show ?case
  proof (cases "k = []")
    case True
    with 2(2-5) show ?thesis by auto
  next
    case False
    then show ?thesis using 2(1) [of "Node t a u"] 2(2-5) by simp
  qed
next
  case (3 u a k)
  show ?case
  proof (cases "k = []")
    case True
    with 3(2-5) show ?thesis by auto
  next
    case False
    then show ?thesis using 3(1) [of "Node u a t"] 3(2-5) by simp
  qed
qed simp

lemma insert_place_exists:
  assumes T: "rdx_table s t" and ne: "t \<noteq> Leaf"
  obtains x l y r k where
    "rdx_search_head s addr len (rtt_root s) = Some x" "rtn_rth s x \<noteq> 0"
    "climb_split s (min (first_diff s addr (rdx_rth_addr s (rtn_rth s x)) (min (rtn_bit s x) len) 0) (min (rtn_bit s x) len)) x = Some y"
    "t = plug (Node l y r) k"
    "insert_place s addr len x l y r k (min (first_diff s addr (rdx_rth_addr s (rtn_rth s x)) (min (rtn_bit s x) len) 0) (min (rtn_bit s x) len))"
proof -
  note t = rdx_table_tree [OF T]
  obtain l0 x r0 k0 where f: "t = plug (Node l0 x r0) k0" "rdx_search_head s addr len (root_ptr t) = Some x"
      "rtn_rth s x \<noteq> 0" "key_way s addr k0"
      "rtn_bit s x < len \<longrightarrow> (if key_bit s addr (rtn_bit s x) then r0 else l0) = Leaf"
    using search_head_focus [OF t(1,4) ne] by blast
  define b2c where "b2c = min (rtn_bit s x) len"
  define d where "d = min (first_diff s addr (rdx_rth_addr s (rtn_rth s x)) b2c 0) b2c"
  have fd: "\<forall>i<d. nkey s x i = key_bit s addr i" "d < b2c \<longrightarrow> nkey s x d \<noteq> key_bit s addr d"
    using first_diff_min [OF d_def] by (auto simp: agree_def nkey_def)
  have db: "d \<le> rtn_bit s x" "d \<le> len" by (simp_all add: d_def b2c_def)
  have lk: "linked (rtn_left s) (rtn_right s) (rtn_parent s) (up k0) (Node l0 x r0)"
      "klinked (rtn_left s) (rtn_right s) (rtn_parent s) (rtt_root s) x k0"
    using t(1-3) heap_tree_plug [of "rtn_left s" "rtn_right s" "rtn_parent s" "rtt_root s" "Node l0 x r0" k0] f(1)
    by (simp_all add: heap_tree_def)
  obtain l y r k1 k2 where c: "k0 = k1 @ k2" "plug (Node l0 x r0) k1 = Node l y r" "climb_split s d x = Some y"
      "d \<le> rtn_bit s y" "\<forall>a\<in>set (ups k2). rtn_bit s a < d"
    using climb_split_focus [OF lk _ db(1)] t(4) f(1) by auto
  have tp: "t = plug (Node l y r) k2" using f(1) c(1,2) by (simp add: plug_append)
  have o: "rdx_ok s (Node l y r)" using t(4) tp rdx_ok_focus by metis
  have xin: "x \<in> set_tree (Node l y r)" using c(2) set_tree_plug [of "Node l0 x r0" k1] by simp
  have below: "rtn_bit s y < rtn_bit s x \<and> (if key_bit s addr (rtn_bit s y) then x \<in> set_tree r else x \<in> set_tree l)"
    if "k1 \<noteq> []"
    using focus_root_bit [of s "Node l0 x r0" k1 x l y r addr] o c(2) that f(4) by (simp add: c(1) key_way_append)
  have self: "x = y \<and> l0 = l \<and> r0 = r" if "k1 = []" using c(2) that by simp
  have yx: "rtn_bit s y \<le> rtn_bit s x" using below self by (cases "k1 = []") auto
  have slot: "(if key_bit s addr d then r else l) = Leaf" if h: "d < len" "rtn_bit s y = d"
  proof (cases "k1 = []")
    case True
    then show ?thesis using self f(5) h by auto
  next
    case False
    have "d < b2c" using below [OF False] h by (simp add: b2c_def)
    then have n: "nkey s x d \<noteq> key_bit s addr d" using fd(2) by simp
    show ?thesis
    proof (cases "key_bit s addr d")
      case True
      then have "x \<in> heads s r" using below [OF False] h f(3) by (simp add: heads_def)
      then show ?thesis using rdx_ok_NodeD(6) [OF o] n True h by auto
    next
      case F: False
      then have "x \<in> heads s l" using below [OF False] h f(3) by (simp add: heads_def)
      then show ?thesis using rdx_ok_NodeD(5) [OF o] n F h by auto
    qed
  qed
  have "insert_place s addr len x l y r k2 d"
    unfolding insert_place_def
  proof (intro conjI)
    show "x \<in> heads s (Node l y r)" using xin f(3) by (auto simp: heads_def)
    show "d < len \<longrightarrow> d < rtn_bit s y \<longrightarrow> nkey s x d \<noteq> key_bit s addr d"
      using fd(2) yx by (simp add: b2c_def)
  qed (use T tp db c fd slot in auto)
  with that [of x y l r k2] f(2,3) c(3) tp t(2) show ?thesis by (simp add: d_def b2c_def)
qed

end
