(* ===== verification/RadixInsertOk.thy ===== *)
theory RadixInsertOk
  imports RadixInsert
begin

text \<open>
  The cases of an insertion: the head is attached to an existing node, or its node becomes a child,
  goes between a node and its parent, or beside a node below a new split node.
\<close>

section \<open>The deletion mark\<close>

lemma RDX_TEST_BIT_bit: "RDX_TEST_BIT f n \<longleftrightarrow> bit f n"
  by (simp add: RDX_TEST_BIT_def push_bit_eq_mult and_exp_eq_0_iff_not_bit)

lemma rtn_dele_bit: "rtn_dele s x \<longleftrightarrow> bit (rtn_flags s x) 1"
  by (simp add: rtn_dele_def RDX_TEST_BIT_bit RDX_RN_DELE_BIT_def)

lemma dele_marks: "\<not> bit (RDX_CLEAR_BIT f RDX_RN_DELE_BIT) (Suc 0)" "bit (RDX_SET_BIT f RDX_RN_DELE_BIT) (Suc 0)"
  by (simp_all add: RDX_CLEAR_BIT_def RDX_SET_BIT_def RDX_RN_DELE_BIT_def bit_simps)

section \<open>Changes of the links\<close>

definition links_only :: "std_rt_table \<Rightarrow> std_rt_table \<Rightarrow> bool" where
  "links_only s s' \<longleftrightarrow> rtn_bit s' = rtn_bit s \<and> rtn_tbit s' = rtn_tbit s \<and> rtn_rth s' = rtn_rth s \<and>
     rtn_flags s' = rtn_flags s \<and> rdx_rth_addr s' = rdx_rth_addr s \<and> contents (rt_mem s') = contents (rt_mem s) \<and>
     rth_rtn s' = rth_rtn s \<and> rtt_magic s' = rtt_magic s \<and> rtt_convert s' = rtt_convert s \<and>
     rtt_inodes s' = rtt_inodes s"

lemma links_only_trans [trans]: "links_only s s' \<Longrightarrow> links_only s' s'' \<Longrightarrow> links_only s s''"
  by (simp add: links_only_def)

lemma key_bit_cong: "contents (rt_mem s') = contents (rt_mem s) \<Longrightarrow> key_bit s' = key_bit s"
  by (simp add: key_bit_def fun_eq_iff)

lemma links_only_nkey: "links_only s s' \<Longrightarrow> nkey s' = nkey s"
  using key_bit_cong [of s' s] by (simp add: links_only_def nkey_def fun_eq_iff)

lemma same_fields:
  "rtn_bit s' = rtn_bit s \<Longrightarrow> rtn_tbit s' = rtn_tbit s \<Longrightarrow> rtn_rth s' = rtn_rth s \<Longrightarrow> rtn_flags s' = rtn_flags s \<Longrightarrow>
    rdx_rth_addr s' = rdx_rth_addr s \<Longrightarrow> contents (rt_mem s') = contents (rt_mem s) \<Longrightarrow> same_nodes s s' A"
  using key_bit_cong [of s' s] by (simp add: same_nodes_def nkey_def)

lemma links_only_same: "links_only s s' \<Longrightarrow> same_nodes s s' A"
  by (simp add: same_fields links_only_def)

lemma links_only_ok: "links_only s s' \<Longrightarrow> rdx_ok s' t = rdx_ok s t"
  by (rule rdx_ok_cong [OF links_only_same])

lemma links_only_heads: "links_only s s' \<Longrightarrow> heads s' t = heads s t"
  by (rule same_nodes_heads [OF links_only_same])

lemma links_only_routes: "links_only s s' \<Longrightarrow> routes_on s' A = routes_on s A"
  by (rule routes_on_cong [OF links_only_same])

lemma insert_above_ok:
  assumes "klinked (rtn_left s) (rtn_right s) (rtn_parent s) (rtt_root s) y k"
    and "y \<noteq> 0" "y \<notin> ctxt_set k" "n \<notin> ctxt_set k" "distinct (before k @ after k)"
  shows "\<exists>s'. insert_above s (up k) y n = Some s' \<and> links_only s s' \<and>
     klinked (rtn_left s') (rtn_right s') (rtn_parent s') (rtt_root s') n k \<and>
     (\<forall>a. a \<notin> ctxt_set k \<longrightarrow> rtn_left s' a = rtn_left s a \<and> rtn_right s' a = rtn_right s a) \<and>
     rtn_parent s' = (rtn_parent s)(y := n, n := up k)"
proof -
  let ?s = "set_rtn_parent n (up k) ((set_rtn_parent y n s)\<lparr>rtn_version := (rtn_version s)(n := rtn_version s y)\<rparr>)"
  have k1: "klinked (rtn_left s) (rtn_right s) ((rtn_parent s)(y := n, n := up k)) (rtt_root s) y k"
    using assms(1,3,4) by (simp add: frame_simps)
  note kr = klinked_replace_right [OF k1 assms(2,3,5,4)]
  show ?thesis
  proof (cases k rule: up.cases)
    case 1
    then show ?thesis by (simp add: insert_above_def Let_def links_only_def)
  next
    case (2 a r k')
    have a: "a \<noteq> 0" "rtn_left s a = y" "rtn_right s a = root_ptr r" using assms(1) 2 by simp_all
    have "rtn_right s a \<noteq> y" using assms(2,3) 2 a root_ptr_in_set [of r] by (cases r) auto
    then show ?thesis using kr a 2 by (auto simp: insert_above_def Let_def links_only_def)
  next
    case (3 l a k')
    have "a \<noteq> 0" "rtn_right s a = y" using assms(1) 3 by simp_all
    then show ?thesis using kr 3 by (auto simp: insert_above_def Let_def links_only_def)
  qed
qed

section \<open>New nodes\<close>

lemma rdx_new_node_same: "n \<notin> A \<Longrightarrow> same_nodes s (rdx_new_node n b s) A"
  by (auto simp: same_nodes_def rdx_new_node_def RN_SETBIT_def nkey_def key_bit_def fun_eq_iff)

lemma attach_new_same:
  "n \<notin> A \<Longrightarrow> same_nodes s (set_rth_rtn rth n (set_rtn_rth n rth (rdx_new_node n b s))) A"
  by (auto simp: same_nodes_def rdx_new_node_def RN_SETBIT_def nkey_def key_bit_def fun_eq_iff)

lemma same_nodes_trans [trans]: "same_nodes s s' A \<Longrightarrow> same_nodes s' s'' A \<Longrightarrow> same_nodes s s'' A"
  by (simp add: same_nodes_def)

section \<open>The focus with its new nodes\<close>

lemma insert_placeD:
  assumes "insert_place s addr len x l y r k d"
  shows "rdx_table s (plug (Node l y r) k)" "x \<in> heads s (Node l y r)" "d \<le> len" "d \<le> rtn_bit s y"
    "\<forall>a\<in>set (ups k). rtn_bit s a < d" "rdx_ok s (Node l y r)"
    "d < len \<Longrightarrow> d < rtn_bit s y \<Longrightarrow> nkey s x d \<noteq> key_bit s addr d"
    "d < len \<Longrightarrow> rtn_bit s y = d \<Longrightarrow> (if key_bit s addr d then r else l) = Leaf"
    "z \<in> heads s (Node l y r) \<Longrightarrow> i < d \<Longrightarrow> nkey s z i = key_bit s addr i"
    "z \<in> heads s (Node l y r) \<Longrightarrow> i < rtn_bit s y \<Longrightarrow> nkey s z i = nkey s x i"
proof -
  show T: "rdx_table s (plug (Node l y r) k)" and x: "x \<in> heads s (Node l y r)" and "d \<le> len"
    and d: "d \<le> rtn_bit s y" and "\<forall>a\<in>set (ups k). rtn_bit s a < d"
    and "d < len \<Longrightarrow> d < rtn_bit s y \<Longrightarrow> nkey s x d \<noteq> key_bit s addr d"
    and "d < len \<Longrightarrow> rtn_bit s y = d \<Longrightarrow> (if key_bit s addr d then r else l) = Leaf"
    using assms unfolding insert_place_def by simp_all
  show o: "rdx_ok s (Node l y r)" using rdx_ok_focus rdx_table_tree(4) [OF T] by blast
  show a: "z \<in> heads s (Node l y r) \<Longrightarrow> i < rtn_bit s y \<Longrightarrow> nkey s z i = nkey s x i" for z i
    using rdx_ok_NodeD(7) [OF o] x unfolding heads_agree_def by blast
  have "\<forall>i<d. nkey s x i = key_bit s addr i" using assms unfolding insert_place_def by blast
  then show "z \<in> heads s (Node l y r) \<Longrightarrow> i < d \<Longrightarrow> nkey s z i = key_bit s addr i"
    using a [of z i] d by simp
qed

lemma node_prefix_key: "nkey s' n = key_bit s addr \<Longrightarrow> rtn_bit s' n = len \<Longrightarrow> node_prefix s' n = key_prefix s addr len"
  by (simp add: node_prefix_def key_prefix_def)

lemma insert_finish:
  assumes P: "insert_place s addr len x l y r k d" and u: "u = Node l y r"
    and heap: "heap_tree (rtn_left s') (rtn_right s') (rtn_parent s') (rtt_root s') (plug u' k)"
    and ok: "rdx_ok s' u'" and same: "same_nodes s s' (set_tree u \<union> ctxt_set k)"
    and nodes: "set_tree u' = set_tree u \<union> N" "\<forall>n\<in>N. d \<le> rtn_bit s' n"
    and new: "\<forall>n\<in>N. rtn_rth s' n \<noteq> 0 \<longrightarrow> nkey s' n = key_bit s addr \<and> rth_rtn s' (rtn_rth s' n) = n"
    and old: "\<forall>z\<in>heads s (plug u k). rth_rtn s' (rtn_rth s z) = rth_rtn s (rtn_rth s z)"
    and rest: "rtt_magic s' = rtt_magic s" "rtt_convert s' = rtt_convert s"
      "rtt_inodes s' + of_nat (size u) = rtt_inodes s + of_nat (size u')"
  shows "rdx_table s' (plug u' k)" and "routes s' (plug u' k) = routes_on s' N \<union> routes s (plug u k)"
proof -
  note p = insert_placeD [OF P, folded u] and t = rdx_table_tree [OF insert_placeD(1) [OF P, folded u]]
  have su: "same_nodes s s' (set_tree u)" and sk: "same_nodes s s' (ctxt_set k)"
    using same by (auto intro: same_nodes_mono)
  have ne: "u \<noteq> Leaf" "u' \<noteq> Leaf" using u nodes(1) by auto
  have bits: "\<forall>z\<in>set_tree u'. z \<in> set_tree u \<and> rtn_bit s' z = rtn_bit s z \<or> d \<le> rtn_bit s' z"
    using nodes su by (auto simp: same_nodes_def)
  have hd: "z \<in> heads s u \<and> nkey s' z = nkey s z \<and> rtn_rth s' z = rtn_rth s z \<or> z \<in> N \<and> rtn_rth s' z \<noteq> 0"
    if "z \<in> heads s' u'" for z
    using that nodes(1) su by (auto simp: heads_def same_nodes_def)
  have hds: "\<forall>z\<in>heads s' u'. \<exists>w\<in>heads s u. \<forall>i<d. nkey s' z i = nkey s w i"
  proof
    fix z assume "z \<in> heads s' u'"
    then show "\<exists>w\<in>heads s u. \<forall>i<d. nkey s' z i = nkey s w i"
      using hd [of z] new p(2,9) by metis
  qed
  have bk: "\<forall>z\<in>heads s' u'. rth_rtn s' (rtn_rth s' z) = z"
  proof
    fix z assume "z \<in> heads s' u'"
    moreover have "z \<in> heads s u \<Longrightarrow> z \<in> heads s (plug u k)" by (simp add: heads_def set_tree_plug)
    ultimately show "rth_rtn s' (rtn_rth s' z) = z" using hd [of z] new old t(7) [of z] by auto
  qed
  have bkk: "\<forall>z\<in>ctxt_set k. rtn_rth s z \<noteq> 0 \<longrightarrow> rth_rtn s' (rtn_rth s z) = rth_rtn s (rtn_rth s z)"
    using old by (simp add: heads_def set_tree_plug)
  note R = rdx_table_replug [OF p(1) heap ok ne sk p(5) bits hds bk bkk rest]
  show "rdx_table s' (plug u' k)" by (rule R(1))
  show "routes s' (plug u' k) = routes_on s' N \<union> routes s (plug u k)"
    unfolding R(2) nodes(1) routes_on_Un routes_on_cong [OF su] routes_routes_on [of s] set_tree_plug by blast
qed

lemma heads_agreeI: "(\<And>z i. z \<in> heads s t \<Longrightarrow> i < b \<Longrightarrow> nkey s z i = f i) \<Longrightarrow> heads_agree s t b"
  by (simp add: heads_agree_def)

text \<open>Subtrees of the focus in a table with other nodes elsewhere.\<close>

lemma same_subtree:
  assumes "same_nodes s s' A" "set_tree t \<subseteq> A"
  shows "rdx_ok s' t = rdx_ok s t" "heads s' t = heads s t" "z \<in> heads s t \<Longrightarrow> nkey s' z = nkey s z"
    "z \<in> set_tree t \<Longrightarrow> rtn_bit s' z = rtn_bit s z"
proof -
  note m = same_nodes_mono [OF assms]
  show "rdx_ok s' t = rdx_ok s t" by (rule rdx_ok_cong [OF m])
  show "heads s' t = heads s t" by (rule same_nodes_heads [OF m])
  show "z \<in> heads s t \<Longrightarrow> nkey s' z = nkey s z" by (rule same_nodes_nkey [OF m])
  show "z \<in> set_tree t \<Longrightarrow> rtn_bit s' z = rtn_bit s z" using m by (simp add: same_nodes_def)
qed

lemma heap_child:
  assumes "heap_tree L R P rt (plug (Node l y r) k)" "n \<noteq> 0" "n \<notin> set_tree (plug (Node l y r) k)"
  shows "r = Leaf \<Longrightarrow>
      heap_tree (L(n := 0)) (R(n := 0, y := n)) (P(n := y)) rt (plug (Node l y (Node Leaf n Leaf)) k)"
    and "l = Leaf \<Longrightarrow>
      heap_tree (L(n := 0, y := n)) (R(n := 0)) (P(n := y)) rt (plug (Node (Node Leaf n Leaf) y r) k)"
  using assms unfolding heap_tree_plug distinct_plug
  by (auto simp: frame_simps set_tree_plug)

text \<open>The state in which the new node \<open>n\<close> (and a split node \<open>m\<close>) are not linked yet.\<close>

definition insert_ready ::
    "std_rt_table \<Rightarrow> std_rt_table \<Rightarrow> ptr \<Rightarrow> nat \<Rightarrow> ptr \<Rightarrow> ptr \<Rightarrow> ptr \<Rightarrow> ptr set \<Rightarrow> bool" where
  "insert_ready s s1 addr len rth n m A \<longleftrightarrow>
     same_nodes s s1 A \<and> key_bit s1 = key_bit s \<and> rtn_bit s1 n = len \<and> rtn_rth s1 n = rth \<and> rtn_tbit s1 n = RNBIT len \<and>
     nkey s1 n = key_bit s addr \<and> \<not> rtn_dele s1 n \<and> rth_rtn s1 = (rth_rtn s)(rth := n) \<and>
     (m = n \<or> rtn_rth s1 m = 0) \<and> rtt_magic s1 = rtt_magic s \<and> rtt_convert s1 = rtt_convert s \<and>
     rtt_inodes s1 = rtt_inodes s + of_nat (card {n, m})"

lemma insert_linked:
  assumes P: "insert_place s addr len x l y r k d" and u: "u = Node l y r"
    and rdy: "insert_ready s s1 addr len rth n m (set_tree u \<union> ctxt_set k)" "d \<le> rtn_bit s1 m"
    and rth: "rth \<noteq> 0" "\<forall>z\<in>heads s (plug u k). rtn_rth s z \<noteq> rth"
    and lo: "links_only s1 s'"
    and heap: "heap_tree (rtn_left s') (rtn_right s') (rtn_parent s') (rtt_root s') (plug u' k)"
    and ok: "rdx_ok s1 u'" and u': "set_tree u' = set_tree u \<union> {n, m}" "size u' = size u + card {n, m}"
  shows "rdx_table s' (plug u' k) \<and>
    routes s' (plug u' k) = insert (key_prefix s addr len, rth) (routes s (plug u k))"
proof -
  note p = insert_placeD [OF P, folded u] and q = rdy(1) [unfolded insert_ready_def] and L = lo [unfolded links_only_def]
  have same: "same_nodes s s' (set_tree u \<union> ctxt_set k)"
    using q links_only_same [OF lo] by (blast intro: same_nodes_trans)
  have F: "rtn_bit s' n = len" "rtn_rth s' n = rth" "rth_rtn s' = (rth_rtn s)(rth := n)" "\<not> rtn_dele s' n"
    "rtt_magic s' = rtt_magic s" "rtt_convert s' = rtt_convert s" "rtt_inodes s' = rtt_inodes s + of_nat (card {n, m})"
    "m = n \<or> rtn_rth s' m = 0" "d \<le> rtn_bit s' m"
    using q L rdy(2) by (simp_all add: rtn_dele_def)
  have nk: "nkey s' n = key_bit s addr" using q links_only_nkey [OF lo] by simp
  have a: "rdx_ok s' u'" using ok links_only_ok [OF lo] by simp
  note I = insert_finish [OF P u heap a same u'(1)]
  have "rdx_table s' (plug u' k)" "routes s' (plug u' k) = routes_on s' {n, m} \<union> routes s (plug u k)"
    using I F nk rth(2) u'(2) p(3) by auto
  then show ?thesis using F rth(1) node_prefix_key [OF nk F(1)] by auto
qed

lemma insert_ready_node:
  assumes "s1 = set_rth_rtn rth n (set_rtn_rth n rth (rdx_new_node n len s))" "n \<notin> A" "rdx_rth_addr s rth = addr"
  shows "insert_ready s s1 addr len rth n n A"
  using attach_new_same [OF assms(2), where s = s and rth = rth and b = len] assms(3) unfolding insert_ready_def assms(1)
  by (simp add: rdx_new_node_def RN_SETBIT_def nkey_def key_bit_def fun_eq_iff rtn_dele_def RDX_TEST_BIT_def)

lemma insert_ready_split:
  assumes "insert_ready s s1 addr len rth n n A" "m \<notin> A" "m \<noteq> n"
  shows "insert_ready s (rdx_new_node m d s1) addr len rth n m A"
proof -
  note q = assms(1) [unfolded insert_ready_def]
  have "same_nodes s (rdx_new_node m d s1) A" using q rdx_new_node_same [OF assms(2)] by (blast intro: same_nodes_trans)
  moreover have "key_bit (rdx_new_node m d s1) = key_bit s1" "nkey (rdx_new_node m d s1) n = nkey s1 n"
    using assms(3) by (simp_all add: rdx_new_node_def RN_SETBIT_def nkey_def key_bit_def fun_eq_iff)
  ultimately show ?thesis
    using q assms(3) by (simp add: insert_ready_def rdx_new_node_def RN_SETBIT_def rtn_dele_def)
qed

lemma insert_child_case:
  assumes P: "insert_place s addr len x l y r k d" and d: "rtn_bit s y = d" "d < len"
    and n: "n \<noteq> 0" "n \<notin> set_tree (plug (Node l y r) k)"
    and rth: "rth \<noteq> 0" "\<forall>z\<in>heads s (plug (Node l y r) k). rtn_rth s z \<noteq> rth" "rdx_rth_addr s rth = addr"
    and s1: "s1 = set_rth_rtn rth n (set_rtn_rth n rth (rdx_new_node n len s))"
  shows "\<exists>s' t'. insert_child s1 y n addr = Some s' \<and> rdx_table s' t' \<and>
     routes s' t' = insert (key_prefix s addr len, rth) (routes s (plug (Node l y r) k))"
proof -
  note p = insert_placeD [OF P] and t = rdx_table_tree [OF insert_placeD(1) [OF P]]
  have h: "heap_tree (rtn_left s) (rtn_right s) (rtn_parent s) (rtt_root s) (plug (Node l y r) k)"
    using p(1) by (simp add: rdx_table_def)
  have yk: "rtn_left s y = root_ptr l" "rtn_right s y = root_ptr r" "y \<noteq> n"
    using h n by (auto simp: heap_tree_plug set_tree_plug)
  have tb: "rtn_tbit s y = RNBIT d" using rdx_ok_NodeD(1) [OF p(6)] d by simp
  have f1: "key_bit s1 = key_bit s" "rtn_bit s1 = (rtn_bit s)(n := len)" "rtn_rth s1 = (rtn_rth s)(n := rth)"
    by (simp_all add: s1 rdx_new_node_def RN_SETBIT_def key_bit_def fun_eq_iff)
  have rdy: "insert_ready s s1 addr len rth n n (set_tree (Node l y r) \<union> ctxt_set k)"
    using insert_ready_node [OF s1 _ rth(3)] n(2) unfolding set_tree_plug by blast
  then have same1: "same_nodes s s1 (set_tree (Node l y r) \<union> ctxt_set k)" and nk: "nkey s1 n = key_bit s addr"
    by (simp_all add: insert_ready_def)
  have step: ?thesis if c: "insert_child s1 y n addr = Some s'" "links_only s1 s'"
      "heap_tree (rtn_left s') (rtn_right s') (rtn_parent s') (rtt_root s') (plug u' k)"
      "rdx_ok s1 u'" "set_tree u' = set_tree (Node l y r) \<union> {n, n}" "size u' = size (Node l y r) + card {n, n}" for s' u'
    using insert_linked [OF P refl rdy _ rth(1,2) c(2-6)] c(1) d(2) by (auto simp: f1)
  have tree: "rdx_ok s1 (Node (if b then l else Node Leaf n Leaf) y (if b then Node Leaf n Leaf else r))"
    (is "rdx_ok s1 (Node ?l y ?r)") if b: "key_bit s addr d = b" "(if b then r else l) = Leaf" for b
  proof -
    have "set_tree l \<subseteq> set_tree (Node l y r) \<union> ctxt_set k" "set_tree r \<subseteq> set_tree (Node l y r) \<union> ctxt_set k" by auto
    note sl = same_subtree [OF same1 this(1)] and sr = same_subtree [OF same1 this(2)] and o = rdx_ok_NodeD [OF p(6)]
    have old: "nkey s1 z = nkey s z" if "z \<in> heads s (Node l y r)" for z
      by (rule same_subtree(3) [OF same1 Un_upper1 that])
    have hn: "z = n \<or> z \<in> heads s (Node l y r)" if "z \<in> heads s1 (Node ?l y ?r)" for z
      using that sl(2) sr(2) yk(3) by (auto simp: f1 split: if_splits)
    have nb: "\<not> rtn_bit s1 n \<le> d" "rtn_bit s1 y = d" "rtn_tbit s1 n = RNBIT len" "rtn_tbit s1 y = RNBIT d"
      using d yk(3) tb by (simp_all add: s1 rdx_new_node_def RN_SETBIT_def)
    have N: "rdx_ok s1 (Node Leaf n Leaf)" "heads s1 (Node Leaf n Leaf) = {n}"
      using rth(1) nk nb(3) by (auto simp: f1 intro: heads_agreeI [of _ _ _ "key_bit s addr"])
    show ?thesis
    proof (rule rdx_ok_NodeI)
      show "heads_agree s1 (Node ?l y ?r) (rtn_bit s1 y)"
      proof (rule heads_agreeI)
        fix z i assume z: "z \<in> heads s1 (Node ?l y ?r)" and i: "i < rtn_bit s1 y"
        show "nkey s1 z i = key_bit s addr i" using hn [OF z]
        proof
          assume "z \<in> heads s (Node l y r)"
          then show ?thesis using old [of z] p(9) [of z i] i nb(2) by simp
        qed (simp add: nk)
      qed
      show "rtn_rth s1 y = 0 \<Longrightarrow> ?l \<noteq> Leaf \<and> ?r \<noteq> Leaf" using o(2) that yk(3) by (auto simp: f1)
      show "\<forall>z\<in>set_tree ?l. rtn_bit s1 y < rtn_bit s1 z" using o(3) sl(4) nb(1,2) d(1) by simp
      show "\<forall>z\<in>set_tree ?r. rtn_bit s1 y < rtn_bit s1 z" using o(4) sr(4) nb(1,2) d(1) by simp
      show "\<forall>z\<in>heads s1 ?l. nkey s1 z (rtn_bit s1 y) = False"
        using o(5) sl(2,3) N(2) nk b(1) nb(2) d(1) by (cases b) simp_all
      show "\<forall>z\<in>heads s1 ?r. nkey s1 z (rtn_bit s1 y) = True"
        using o(6) sr(2,3) N(2) nk b(1) nb(2) d(1) by (cases b) simp_all
    qed (use o(8,9) sl(1) sr(1) N(1) nb in simp_all)
  qed
  show ?thesis
  proof (cases "key_bit s addr d")
    case True
    with p(8) d have r: "r = Leaf" by simp
    let ?u = "Node l y (Node Leaf n Leaf)"
    let ?s = "set_rtn_right y n (set_rtn_parent n y s1)"
    show ?thesis
    proof (rule step)
      show "insert_child s1 y n addr = Some ?s"
        using True d yk tb by (simp add: insert_child_def Let_def s1 rdx_new_node_def RN_SETBIT_def r)
      show "links_only s1 ?s" by (simp add: links_only_def)
      show "heap_tree (rtn_left ?s) (rtn_right ?s) (rtn_parent ?s) (rtt_root ?s) (plug ?u k)"
        using heap_child(1) [OF h n r] by (simp add: s1 rdx_new_node_def RN_SETBIT_def)
      show "rdx_ok s1 ?u" using tree [of True] True r by simp
    qed (simp_all add: r)
  next
    case False
    with p(8) d have l: "l = Leaf" by simp
    let ?u = "Node (Node Leaf n Leaf) y r"
    let ?s = "set_rtn_left y n (set_rtn_parent n y s1)"
    show ?thesis
    proof (rule step)
      show "insert_child s1 y n addr = Some ?s"
        using False d yk tb by (simp add: insert_child_def Let_def s1 rdx_new_node_def RN_SETBIT_def l)
      show "links_only s1 ?s" by (simp add: links_only_def)
      show "heap_tree (rtn_left ?s) (rtn_right ?s) (rtn_parent ?s) (rtt_root ?s) (plug ?u k)"
        using heap_child(2) [OF h n l] by (simp add: s1 rdx_new_node_def RN_SETBIT_def)
      show "rdx_ok s1 ?u" using tree [of False] False l by simp
    qed (auto simp: l)
  qed
qed

text \<open>A node between the focus and its parent.\<close>

lemma heap_above:
  assumes "linked L R P (up k) (Node l y r)" "distinct (inorder (plug (Node l y r) k))"
    and "klinked L' R' P' rt' n k"
    and links: "\<forall>a. a \<notin> ctxt_set k \<longrightarrow> a \<noteq> n \<longrightarrow> a \<noteq> m \<longrightarrow> L' a = L a \<and> R' a = R a"
    and par: "\<forall>a. a \<noteq> n \<longrightarrow> a \<noteq> m \<longrightarrow> P' a = (P(y := n)) a" "P' n = up k"
    and n: "n \<noteq> 0" "n \<notin> set_tree (plug (Node l y r) k)" "m \<notin> set_tree (plug (Node l y r) k)"
    and sub: "L' n = root_ptr u1" "R' n = root_ptr u2"
      "linked L' R' P' n (Node l y r) \<Longrightarrow> linked L' R' P' n u1 \<and> linked L' R' P' n u2"
    and d: "distinct (inorder u1 @ n # inorder u2)" "set_tree u1 \<union> set_tree u2 \<subseteq> insert m (set_tree (Node l y r))"
  shows "heap_tree L' R' P' rt' (plug (Node u1 n u2) k)"
proof -
  have nm: "n \<notin> set_tree (Node l y r)" "m \<notin> set_tree (Node l y r)" "n \<notin> ctxt_set k" "m \<notin> ctxt_set k"
    and dj: "set_tree (Node l y r) \<inter> ctxt_set k = {}" and du: "distinct (inorder (Node l y r))"
    and dk: "distinct (before k @ after k)"
    using assms(2) n(2,3) unfolding distinct_plug set_tree_plug by auto
  have "linked L R (P(y := n)) n (Node l y r)"
    using linked_reparent_upd [OF assms(1) du, of n] by simp
  moreover have "linked L R (P(y := n)) n (Node l y r) = linked L' R' P' n (Node l y r)"
  proof (rule linked_cong)
    fix a assume "a \<in> set_tree (Node l y r)"
    then have "a \<notin> ctxt_set k" "a \<noteq> n" "a \<noteq> m" using nm dj by blast+
    then show "L a = L' a \<and> R a = R' a \<and> (P(y := n)) a = P' a" using links par(1) by simp
  qed
  ultimately have "linked L' R' P' n u1 \<and> linked L' R' P' n u2" using sub(3) by blast
  then have "linked L' R' P' (up k) (Node u1 n u2)" using sub(1,2) n(1) par(2) by simp
  moreover have "set_tree (Node u1 n u2) \<inter> ctxt_set k = {}" using d(2) dj nm by auto
  ultimately show ?thesis unfolding heap_tree_plug distinct_plug using assms(3) d(1) dk by simp
qed

lemma insert_between_case:
  assumes P: "insert_place s addr len x l y r k d" and d: "d = len" "len < rtn_bit s y"
    and n: "n \<noteq> 0" "n \<notin> set_tree (plug (Node l y r) k)"
    and rth: "rth \<noteq> 0" "\<forall>z\<in>heads s (plug (Node l y r) k). rtn_rth s z \<noteq> rth" "rdx_rth_addr s rth = addr"
    and s1: "s1 = set_rth_rtn rth n (set_rtn_rth n rth (rdx_new_node n len s))"
  shows "\<exists>s' t'. insert_between s1 y n (rdx_rth_addr s (rtn_rth s x)) = Some s' \<and> rdx_table s' t' \<and>
     routes s' t' = insert (key_prefix s addr len, rth) (routes s (plug (Node l y r) k))"
proof -
  let ?u = "Node l y r"
  note p = insert_placeD [OF P]
  have h: "heap_tree (rtn_left s) (rtn_right s) (rtn_parent s) (rtt_root s) (plug ?u k)"
    using p(1) by (simp add: rdx_table_def)
  have lk: "linked (rtn_left s) (rtn_right s) (rtn_parent s) (up k) ?u"
      "klinked (rtn_left s) (rtn_right s) (rtn_parent s) (rtt_root s) y k" "distinct (inorder (plug ?u k))"
    using h unfolding heap_tree_plug by simp_all
  have y: "y \<noteq> 0" "y \<noteq> n" "y \<notin> ctxt_set k" "n \<notin> ctxt_set k" "distinct (before k @ after k)" "rtn_parent s y = up k"
    using lk n(2) unfolding distinct_plug set_tree_plug by auto
  have rdy: "insert_ready s s1 addr len rth n n (set_tree ?u \<union> ctxt_set k)"
    using insert_ready_node [OF s1 _ rth(3)] n(2) unfolding set_tree_plug by blast
  note q = rdy [unfolded insert_ready_def]
  define b where "b = nkey s x len"
  define u1 where "u1 = (if b then Leaf else ?u)"
  define u2 where "u2 = (if b then ?u else Leaf)"
  define s2 where "s2 = (if b then set_rtn_right n y s1 else set_rtn_left n y s1)"
  have F: "rtn_left s2 = (rtn_left s)(n := root_ptr u1)" "rtn_right s2 = (rtn_right s)(n := root_ptr u2)"
    "rtn_parent s2 = (rtn_parent s)(n := 0)" "rtt_root s2 = rtt_root s"
    by (simp_all add: s2_def s1 rdx_new_node_def RN_SETBIT_def u1_def u2_def)
  have lo2: "links_only s1 s2" by (simp add: s2_def links_only_def)
  have k2: "klinked (rtn_left s2) (rtn_right s2) (rtn_parent s2) (rtt_root s2) y k"
    using lk(2) y(4) by (simp add: F frame_simps)
  obtain s' where s': "insert_above s2 (up k) y n = Some s'" "links_only s2 s'"
      "klinked (rtn_left s') (rtn_right s') (rtn_parent s') (rtt_root s') n k"
      "\<forall>a. a \<notin> ctxt_set k \<longrightarrow> rtn_left s' a = rtn_left s2 a \<and> rtn_right s' a = rtn_right s2 a"
      "rtn_parent s' = (rtn_parent s2)(y := n, n := up k)"
    using insert_above_ok [OF k2 y(1,3,4,5)] by blast
  have "insert_between s1 y n (rdx_rth_addr s (rtn_rth s x)) = insert_above s2 (up k) y n"
    using q y(2,6) by (simp add: insert_between_def Let_def s2_def b_def nkey_def s1 rdx_new_node_def RN_SETBIT_def)
  then have c: "insert_between s1 y n (rdx_rth_addr s (rtn_rth s x)) = Some s'" using s'(1) by simp
  have heap: "heap_tree (rtn_left s') (rtn_right s') (rtn_parent s') (rtt_root s') (plug (Node u1 n u2) k)"
  proof (rule heap_above [OF lk(1,3) s'(3) _ _ _ n n(2)])
    show "distinct (inorder u1 @ n # inorder u2)" "set_tree u1 \<union> set_tree u2 \<subseteq> insert n (set_tree ?u)"
      using lk(3) n(2) unfolding u1_def u2_def distinct_plug set_tree_plug by auto
  qed (use s'(4,5) y in \<open>auto simp: F u1_def u2_def\<close>)
  have ok: "rdx_ok s1 (Node u1 n u2)"
  proof (rule rdx_ok_NodeI)
    have hu: "rdx_ok s1 ?u" "heads s1 ?u = heads s ?u" and nku: "\<And>z. z \<in> heads s ?u \<Longrightarrow> nkey s1 z = nkey s z"
      and bu: "\<And>z. z \<in> set_tree ?u \<Longrightarrow> rtn_bit s1 z = rtn_bit s z"
      using same_subtree [of s s1 _ ?u] q p(6) by blast+
    have big: "z \<in> set_tree ?u \<Longrightarrow> len < rtn_bit s z" for z
      using rdx_ok_NodeD(3,4) [OF p(6)] d(2) by auto
    have side: "z \<in> heads s ?u \<Longrightarrow> nkey s1 z len = b" for z
      using p(10) [of z len] nku [of z] d(2) by (simp add: b_def)
    show "rdx_ok s1 u1" "rdx_ok s1 u2" using hu by (simp_all add: u1_def u2_def)
    show "\<forall>z\<in>set_tree u1. rtn_bit s1 n < rtn_bit s1 z" "\<forall>z\<in>set_tree u2. rtn_bit s1 n < rtn_bit s1 z"
      using bu big q by (simp_all add: u1_def u2_def)
    show "\<forall>z\<in>heads s1 u1. nkey s1 z (rtn_bit s1 n) = False" "\<forall>z\<in>heads s1 u2. nkey s1 z (rtn_bit s1 n) = True"
      using side hu(2) q by (simp_all add: u1_def u2_def del: heads_simps(2))
    show "heads_agree s1 (Node u1 n u2) (rtn_bit s1 n)"
    proof (rule heads_agreeI)
      fix z i assume z: "z \<in> heads s1 (Node u1 n u2)" and i: "i < rtn_bit s1 n"
      then have "z = n \<or> z \<in> heads s1 u1 \<or> z \<in> heads s1 u2" by (auto split: if_splits)
      then have "z = n \<or> z \<in> heads s ?u" using hu(2) by (cases b) (simp_all add: u1_def u2_def del: heads_simps(2))
      then show "nkey s1 z i = key_bit s addr i"
        using p(9) [of z i] nku [of z] i q d(1) by auto
    qed
  qed (use q rth(1) in simp_all)
  have lo: "links_only s1 s'" using lo2 s'(2) by (rule links_only_trans)
  have "set_tree (Node u1 n u2) = set_tree ?u \<union> {n, n}" "size (Node u1 n u2) = size ?u + card {n, n}"
    by (simp_all add: u1_def u2_def)
  from insert_linked [OF P refl rdy _ rth(1,2) lo heap ok this] q d c show ?thesis by auto
qed

lemma insert_split_case:
  assumes P: "insert_place s addr len x l y r k d" and d: "d < len" "d < rtn_bit s y"
    and n: "n \<noteq> 0" "n \<notin> set_tree (plug (Node l y r) k)"
    and m: "m \<noteq> 0" "m \<notin> set_tree (plug (Node l y r) k)" "m \<noteq> n"
    and rth: "rth \<noteq> 0" "\<forall>z\<in>heads s (plug (Node l y r) k). rtn_rth s z \<noteq> rth" "rdx_rth_addr s rth = addr"
    and s1: "s1 = set_rth_rtn rth n (set_rtn_rth n rth (rdx_new_node n len s))"
  shows "\<exists>s' t'. insert_split s1 y n m d addr = Some s' \<and> rdx_table s' t' \<and>
     routes s' t' = insert (key_prefix s addr len, rth) (routes s (plug (Node l y r) k))"
proof -
  let ?u = "Node l y r" and ?n = "Node Leaf n Leaf"
  note p = insert_placeD [OF P]
  have h: "heap_tree (rtn_left s) (rtn_right s) (rtn_parent s) (rtt_root s) (plug ?u k)"
    using p(1) by (simp add: rdx_table_def)
  have lk: "linked (rtn_left s) (rtn_right s) (rtn_parent s) (up k) ?u"
      "klinked (rtn_left s) (rtn_right s) (rtn_parent s) (rtt_root s) y k" "distinct (inorder (plug ?u k))"
    using h unfolding heap_tree_plug by simp_all
  have y: "y \<noteq> 0" "y \<noteq> n" "y \<noteq> m" "y \<notin> ctxt_set k" "n \<notin> ctxt_set k" "m \<notin> ctxt_set k"
      "distinct (before k @ after k)" "rtn_parent s y = up k"
    using lk n(2) m(2) unfolding distinct_plug set_tree_plug by auto
  have rdy1: "insert_ready s s1 addr len rth n n (set_tree ?u \<union> ctxt_set k)"
    using insert_ready_node [OF s1 _ rth(3)] n(2) unfolding set_tree_plug by blast
  define s2 where "s2 = rdx_new_node m d s1"
  have rdy: "insert_ready s s2 addr len rth n m (set_tree ?u \<union> ctxt_set k)"
    using insert_ready_split [OF rdy1 _ m(3)] m(2) unfolding set_tree_plug s2_def by blast
  note q = rdy [unfolded insert_ready_def]
  have qm: "rtn_rth s2 m = 0" using q m(3) by simp
  have bm: "rtn_bit s2 m = d" "rtn_tbit s2 m = RNBIT d" by (simp_all add: s2_def rdx_new_node_def RN_SETBIT_def)
  define b where "b = key_bit s addr d"
  define u1 where "u1 = (if b then ?u else ?n)"
  define u2 where "u2 = (if b then ?n else ?u)"
  define s3 where "s3 = (if b then set_rtn_left m y (set_rtn_right m n (set_rtn_parent n m s2))
      else set_rtn_right m y (set_rtn_left m n (set_rtn_parent n m s2)))"
  have F: "rtn_left s3 = (rtn_left s)(n := 0, m := root_ptr u1)" "rtn_right s3 = (rtn_right s)(n := 0, m := root_ptr u2)"
    "rtn_parent s3 = (rtn_parent s)(m := 0, n := m)" "rtt_root s3 = rtt_root s"
    using m(3) by (auto simp: s3_def s2_def s1 rdx_new_node_def RN_SETBIT_def u1_def u2_def fun_eq_iff)
  have lo2: "links_only s2 s3" by (simp add: s3_def links_only_def)
  have k2: "klinked (rtn_left s3) (rtn_right s3) (rtn_parent s3) (rtt_root s3) y k"
    using lk(2) y by (simp add: F frame_simps)
  obtain s' where s': "insert_above s3 (up k) y m = Some s'" "links_only s3 s'"
      "klinked (rtn_left s') (rtn_right s') (rtn_parent s') (rtt_root s') m k"
      "\<forall>a. a \<notin> ctxt_set k \<longrightarrow> rtn_left s' a = rtn_left s3 a \<and> rtn_right s' a = rtn_right s3 a"
      "rtn_parent s' = (rtn_parent s3)(y := m, m := up k)"
    using insert_above_ok [OF k2 y(1,4,6,7)] by blast
  have "rtn_parent s1 y = up k" "key_bit s2 = key_bit s"
    using y(2,8) q by (simp_all add: s1 rdx_new_node_def RN_SETBIT_def)
  then have c: "insert_split s1 y n m d addr = Some s'"
    using s'(1) bm by (simp add: insert_split_def Let_def s2_def [symmetric] s3_def b_def)
  have "rtn_parent s' n = m" "rtn_left s' n = 0" "rtn_right s' n = 0" "rtn_left s' m = root_ptr u1"
      "rtn_right s' m = root_ptr u2"
    using s'(4,5) y m(3) by (auto simp: F)
  note G = this
  have heap: "heap_tree (rtn_left s') (rtn_right s') (rtn_parent s') (rtt_root s') (plug (Node u1 m u2) k)"
  proof (rule heap_above [OF lk(1,3) s'(3) _ _ _ m(1,2) n(2)])
    show "distinct (inorder u1 @ m # inorder u2)" "set_tree u1 \<union> set_tree u2 \<subseteq> insert n (set_tree ?u)"
      using lk(3) n(2) m(2,3) unfolding u1_def u2_def distinct_plug set_tree_plug by auto
    show "linked (rtn_left s') (rtn_right s') (rtn_parent s') m u1 \<and> linked (rtn_left s') (rtn_right s') (rtn_parent s') m u2"
      if "linked (rtn_left s') (rtn_right s') (rtn_parent s') m ?u"
      using that G(1-3) n(1) by (simp add: u1_def u2_def)
    show "\<forall>a. a \<notin> ctxt_set k \<longrightarrow> a \<noteq> m \<longrightarrow> a \<noteq> n \<longrightarrow> rtn_left s' a = rtn_left s a \<and> rtn_right s' a = rtn_right s a"
      using s'(4) by (simp add: F)
    show "\<forall>a. a \<noteq> m \<longrightarrow> a \<noteq> n \<longrightarrow> rtn_parent s' a = ((rtn_parent s)(y := m)) a" "rtn_parent s' m = up k"
      using s'(5) by (simp_all add: F)
  qed (use G(4,5) in simp_all)
  have ok: "rdx_ok s2 (Node u1 m u2)"
  proof (rule rdx_ok_NodeI)
    have hu: "rdx_ok s2 ?u" "heads s2 ?u = heads s ?u" and nku: "\<And>z. z \<in> heads s ?u \<Longrightarrow> nkey s2 z = nkey s z"
      and bu: "\<And>z. z \<in> set_tree ?u \<Longrightarrow> rtn_bit s2 z = rtn_bit s z"
      using same_subtree [of s s2 _ ?u] q p(6) by blast+
    have hn: "heads s2 ?n = {n}" using q rth(1) by simp
    have on: "rdx_ok s2 ?n" using q rth(1) by (auto intro: heads_agreeI [of _ _ _ "key_bit s addr"])
    have big: "z \<in> set_tree ?u \<Longrightarrow> d < rtn_bit s z" for z
      using rdx_ok_NodeD(3,4) [OF p(6)] d(2) by auto
    have side: "z \<in> heads s ?u \<Longrightarrow> nkey s2 z d = (\<not> b)" for z
      using p(10) [of z d] nku [of z] d p(7) by (simp add: b_def)
    show "rdx_ok s2 u1" "rdx_ok s2 u2" using hu on by (simp_all add: u1_def u2_def)
    show "\<forall>z\<in>set_tree u1. rtn_bit s2 m < rtn_bit s2 z" "\<forall>z\<in>set_tree u2. rtn_bit s2 m < rtn_bit s2 z"
      using bu big q bm d(1) by (simp_all add: u1_def u2_def)
    show "\<forall>z\<in>heads s2 u1. nkey s2 z (rtn_bit s2 m) = False" "\<forall>z\<in>heads s2 u2. nkey s2 z (rtn_bit s2 m) = True"
      using side hu(2) hn q bm by (cases b; simp add: u1_def u2_def b_def del: heads_simps(2))+
    show "heads_agree s2 (Node u1 m u2) (rtn_bit s2 m)"
    proof (rule heads_agreeI)
      fix z i assume z: "z \<in> heads s2 (Node u1 m u2)" and i: "i < rtn_bit s2 m"
      then have "z \<in> heads s2 u1 \<or> z \<in> heads s2 u2" using qm by auto
      then have "z = n \<or> z \<in> heads s ?u" using hu(2) hn by (cases b) (auto simp: u1_def u2_def simp del: heads_simps(2))
      then show "nkey s2 z i = key_bit s addr i"
        using p(9) [of z i] nku [of z] i q bm(1) by auto
    qed
  qed (use bm u1_def u2_def in simp_all)
  have lo: "links_only s2 s'" using lo2 s'(2) by (rule links_only_trans)
  have "set_tree (Node u1 m u2) = set_tree ?u \<union> {n, m}" "size (Node u1 m u2) = size ?u + card {n, m}"
    using m(3) by (auto simp: u1_def u2_def)
  from insert_linked [OF P refl rdy _ rth(1,2) lo heap ok this] bm(1) c show ?thesis by auto
qed

text \<open>The node exists: its head is returned, or the new head takes the place of a deleted one.\<close>

lemma insert_attach_present:
  assumes P: "insert_place s addr len x l y r k d" and d: "d = len" "rtn_bit s y = len"
    and a: "\<not> rtn_dele s y \<and> rtn_rth s y \<noteq> 0"
  shows "insert_attach s y rth = (s, rtn_rth s y)"
    "(key_prefix s addr len, rtn_rth s y) \<in> routes s (plug (Node l y r) k)"
proof -
  have "node_prefix s y = key_prefix s addr len"
    using insert_placeD(9) [OF P, of y] a d by (simp add: node_prefix_exact)
  then show "(key_prefix s addr len, rtn_rth s y) \<in> routes s (plug (Node l y r) k)"
    using a unfolding routes_routes_on routes_on_def set_tree_plug by (intro image_eqI [of _ _ y]) auto
  show "insert_attach s y rth = (s, rtn_rth s y)" using a by (simp add: insert_attach_def)
qed

lemma insert_attach_case:
  assumes P: "insert_place s addr len x l y r k d" and d: "d = len" "rtn_bit s y = len"
    and a: "\<not> (\<not> rtn_dele s y \<and> rtn_rth s y \<noteq> 0)"
    and rth: "rth \<noteq> 0" "\<forall>z\<in>heads s (plug (Node l y r) k). rtn_rth s z \<noteq> rth" "rdx_rth_addr s rth = addr"
  shows "\<exists>s'. insert_attach s y rth = (s', rth) \<and> rdx_table s' (plug (Node l y r) k) \<and>
     routes s' (plug (Node l y r) k) = insert (key_prefix s addr len, rth) (routes s (plug (Node l y r) k))"
proof -
  let ?u = "Node l y r"
  note p = insert_placeD [OF P] and t = rdx_table_tree [OF insert_placeD(1) [OF P]]
  have "snd (insert_attach s y rth) = rth" using a by (auto simp: insert_attach_def Let_def)
  then obtain s' where s': "insert_attach s y rth = (s', rth)" by (metis prod.collapse)
  have F: "rtn_left s' = rtn_left s" "rtn_right s' = rtn_right s" "rtn_parent s' = rtn_parent s" "rtt_root s' = rtt_root s"
    "rtn_bit s' = rtn_bit s" "rtn_tbit s' = rtn_tbit s" "rtn_rth s' = (rtn_rth s)(y := rth)"
    "rth_rtn s' = (rth_rtn s)(rth := y)" "rt_mem s' = rt_mem s" "rtt_magic s' = rtt_magic s"
    "rtt_convert s' = rtt_convert s" "rtt_inodes s' = rtt_inodes s" "\<not> rtn_dele s' y"
    "z \<noteq> y \<Longrightarrow> rtn_flags s' z = rtn_flags s z"
    "h \<noteq> rtn_rth s y \<Longrightarrow> rdx_rth_addr s' h = rdx_rth_addr s h" "rtn_rth s y = 0 \<Longrightarrow> rdx_rth_addr s' = rdx_rth_addr s" for z h
    using s' a by (auto simp: insert_attach_def release_head_def Let_def rtn_dele_bit dele_marks split: if_splits)
  have kb: "key_bit s' = key_bit s" by (rule key_bit_cong) (simp add: F)
  have yu: "y \<in> set_tree (plug ?u k)" by (simp add: set_tree_plug)
  have other: "rdx_rth_addr s' (rtn_rth s z) = rdx_rth_addr s (rtn_rth s z)"
    if "z \<in> heads s (plug ?u k)" "z \<noteq> y" for z
  proof (cases "rtn_rth s y = 0")
    case False
    then have "rtn_rth s z \<noteq> rtn_rth s y" using t(7) [of z] t(7) [of y] that yu by (auto simp: heads_def)
    then show ?thesis by (rule F(15))
  qed (simp add: F(16))
  have same: "same_nodes s s' A" if "A \<subseteq> set_tree (plug ?u k) - {y}" for A
    using that other by (auto simp: same_nodes_def F nkey_def kb heads_def)
  have d1: "distinct (inorder ?u)" "set_tree ?u \<inter> ctxt_set k = {}" using t(3) unfolding distinct_plug by auto
  have sl: "same_nodes s s' (set_tree l)" and sr: "same_nodes s s' (set_tree r)" and sk: "same_nodes s s' (ctxt_set k)"
    by (rule same; use d1 in \<open>auto simp: set_tree_plug\<close>)+
  have nk: "nkey s' y = key_bit s addr"
  proof -
    have "rtn_rth s y \<noteq> 0 \<Longrightarrow> rth \<noteq> rtn_rth s y" using rth(2) yu by (auto simp: heads_def)
    then have "rdx_rth_addr s' rth = addr" using F(15,16) rth(3) by metis
    then show ?thesis by (simp add: nkey_def F kb)
  qed
  have hu: "z = y \<or> z \<in> heads s ?u \<and> z \<noteq> y \<and> nkey s' z = nkey s z" if "z \<in> heads s' ?u" for z
  proof (cases "z = y")
    case False
    then have "z \<in> heads s ?u" "z \<in> heads s (plug ?u k)" using that by (auto simp: heads_def F set_tree_plug)
    then show ?thesis using other [of z] False by (simp add: nkey_def kb F)
  qed simp
  have ok: "rdx_ok s' ?u"
  proof (rule rdx_ok_NodeI)
    note o = rdx_ok_NodeD [OF p(6)]
    show "rdx_ok s' l" "rdx_ok s' r" using o(8,9) rdx_ok_cong [OF sl] rdx_ok_cong [OF sr] by simp_all
    show "\<forall>z\<in>heads s' l. nkey s' z (rtn_bit s' y) = False" "\<forall>z\<in>heads s' r. nkey s' z (rtn_bit s' y) = True"
      using o(5,6) same_nodes_heads [OF sl] same_nodes_heads [OF sr] same_nodes_nkey [OF sl] same_nodes_nkey [OF sr]
      by (simp_all add: F)
    show "heads_agree s' ?u (rtn_bit s' y)"
    proof (rule heads_agreeI)
      fix z i assume "z \<in> heads s' ?u" "i < rtn_bit s' y"
      then show "nkey s' z i = key_bit s addr i" using hu [of z] nk p(9) [of z i] d by (auto simp: F simp del: heads_simps(2))
    qed
  qed (use rdx_ok_NodeD [OF p(6)] rth(1) in \<open>simp_all add: F\<close>)
  have hds: "\<forall>z\<in>heads s' ?u. \<exists>w\<in>heads s ?u. \<forall>i<d. nkey s' z i = nkey s w i"
  proof
    fix z assume "z \<in> heads s' ?u"
    then show "\<exists>w\<in>heads s ?u. \<forall>i<d. nkey s' z i = nkey s w i" using hu [of z] nk p(2,9) by metis
  qed
  have bk: "\<forall>z\<in>heads s' ?u. rth_rtn s' (rtn_rth s' z) = z"
  proof
    fix z assume "z \<in> heads s' ?u"
    from hu [OF this] show "rth_rtn s' (rtn_rth s' z) = z"
      using t(7) [of z] rth(2) by (auto simp: F heads_def set_tree_plug)
  qed
  have bkk: "\<forall>z\<in>ctxt_set k. rtn_rth s z \<noteq> 0 \<longrightarrow> rth_rtn s' (rtn_rth s z) = rth_rtn s (rtn_rth s z)"
    using rth(2) by (auto simp: F heads_def set_tree_plug)
  have heap: "heap_tree (rtn_left s') (rtn_right s') (rtn_parent s') (rtt_root s') (plug ?u k)"
    using p(1) by (simp add: rdx_table_def F)
  have bits: "\<forall>z\<in>set_tree ?u. z \<in> set_tree ?u \<and> rtn_bit s' z = rtn_bit s z \<or> d \<le> rtn_bit s' z" by (simp add: F)
  note R = rdx_table_replug [OF p(1) heap ok tree.distinct(2) tree.distinct(2) sk p(5) bits hds bk bkk F(10,11)]
  have "node_prefix s' y = key_prefix s addr len" using node_prefix_key [OF nk] d by (simp add: F)
  then have e1: "routes_on s' (set_tree ?u) = insert (key_prefix s addr len, rth) (routes_on s (set_tree l) \<union> routes_on s (set_tree r))"
    using F(7,13) rth(1) routes_on_cong [OF sl] routes_on_cong [OF sr] by simp
  have e2: "routes s (plug ?u k) = routes_on s (set_tree l) \<union> routes_on s (set_tree r) \<union> routes_on s (ctxt_set k)"
    using a by (auto simp: routes_routes_on set_tree_plug)
  have "routes s' (plug ?u k) = insert (key_prefix s addr len, rth) (routes s (plug ?u k))"
    unfolding R(2) [OF arg_cong [OF F(12), of "\<lambda>n. n + _"]] e1 e2 by blast
  with R(1) F(12) s' show ?thesis by simp
qed

section \<open>The whole insertion\<close>

text \<open>A change that leaves the nodes of the tree alone.\<close>

lemma rdx_table_frame:
  assumes T: "rdx_table s t" and same: "same_nodes s s' (set_tree t)"
    and links: "\<And>a. a \<in> set_tree t \<Longrightarrow> rtn_left s' a = rtn_left s a \<and> rtn_right s' a = rtn_right s a \<and> rtn_parent s' a = rtn_parent s a"
    and bk: "\<And>x. x \<in> heads s t \<Longrightarrow> rth_rtn s' (rtn_rth s x) = rth_rtn s (rtn_rth s x)"
    and rest: "rtt_root s' = rtt_root s" "rtt_magic s' = rtt_magic s" "rtt_convert s' = rtt_convert s" "rtt_inodes s' = rtt_inodes s"
  shows "rdx_table s' t" "routes s' t = routes s t"
proof -
  have "linked (rtn_left s) (rtn_right s) (rtn_parent s) 0 t = linked (rtn_left s') (rtn_right s') (rtn_parent s') 0 t"
    by (rule linked_cong) (simp add: links)
  moreover have "rtn_rth s' x = rtn_rth s x" if "x \<in> heads s t" for x
    using same that by (simp add: same_nodes_def heads_def)
  ultimately show "rdx_table s' t"
    using T bk rest by (simp add: rdx_table_def heap_tree_def rdx_ok_cong [OF same] same_nodes_heads [OF same])
  show "routes s' t = routes s t" by (simp add: routes_routes_on routes_on_cong [OF same])
qed

definition fresh_head :: "std_rt_table \<Rightarrow> ptr tree \<Rightarrow> ptr \<Rightarrow> bool" where
  "fresh_head s t rth \<longleftrightarrow> rth \<noteq> 0 \<and> rth_addr s rth \<noteq> 0 \<and> rth \<notin> rtn_rth s ` set_tree t"

text \<open>What the allocator returns: 0, or the address of a node that is not in use.\<close>

definition fresh_alloc :: "ptr tree \<Rightarrow> ptr \<Rightarrow> ptr \<Rightarrow> bool" where
  "fresh_alloc t alloc1 alloc2 \<longleftrightarrow> alloc1 \<notin> set_tree t \<and> alloc2 \<notin> set_tree t \<and> (alloc1 = alloc2 \<longrightarrow> alloc1 = 0)"

text \<open>The outcomes: the prefix is there already, the head is inserted, or memory is short.\<close>

definition insert_outcome ::
    "(bool list \<times> ptr) set \<Rightarrow> (bool list \<times> ptr) set \<Rightarrow> bool list \<Rightarrow> ptr \<Rightarrow> ptr \<Rightarrow> bool \<Rightarrow> bool" where
  "insert_outcome R R' p rth h short \<longleftrightarrow>
     (p, h) \<in> R \<and> R' = R \<or> h = rth \<and> R' = insert (p, rth) R \<or> h = 0 \<and> short \<and> R' = R"

lemma radix_insert_node_ok:
  assumes T: "rdx_table s t" and ne: "t \<noteq> Leaf" and rth: "rth \<noteq> 0" "rth \<notin> rtn_rth s ` set_tree t"
    and fr: "fresh_alloc t alloc1 alloc2"
  shows "\<exists>s' t' h. radix_insert_node s rth len alloc1 alloc2 = Some (s', h) \<and> rdx_table s' t' \<and>
    insert_outcome (routes s t) (routes s' t') (key_prefix s (rdx_rth_addr s rth) len) rth h (alloc1 = 0 \<or> alloc2 = 0)"
proof -
  let ?a = "rdx_rth_addr s rth" and ?p = "key_prefix s (rdx_rth_addr s rth) len"
  let ?r = "radix_insert_node s rth len alloc1 alloc2"
  obtain x l y r k where f: "rdx_search_head s ?a len (rtt_root s) = Some x" "rtn_rth s x \<noteq> 0"
      "climb_split s (min (first_diff s ?a (rdx_rth_addr s (rtn_rth s x)) (min (rtn_bit s x) len) 0) (min (rtn_bit s x) len)) x = Some y"
      "t = plug (Node l y r) k"
      "insert_place s ?a len x l y r k (min (first_diff s ?a (rdx_rth_addr s (rtn_rth s x)) (min (rtn_bit s x) len) 0) (min (rtn_bit s x) len))"
    by (rule insert_place_exists [OF T ne, of ?a len])
  define d where "d = min (first_diff s ?a (rdx_rth_addr s (rtn_rth s x)) (min (rtn_bit s x) len) 0) (min (rtn_bit s x) len)"
  note P = f(5) [folded d_def] and c = f(3) [folded d_def]
  note p = insert_placeD [OF P]
  have rth2: "\<forall>z\<in>heads s (plug (Node l y r) k). rtn_rth s z \<noteq> rth" using rth(2) f(4) by (auto simp: heads_def)
  let ?s1 = "set_rth_rtn rth alloc1 (set_rtn_rth alloc1 rth (rdx_new_node alloc1 len s))"
  have n: "alloc1 \<notin> set_tree (plug (Node l y r) k)" "alloc2 \<notin> set_tree (plug (Node l y r) k)"
    using fr f(4) by (simp_all add: fresh_alloc_def)
  have bit1: "rtn_bit ?s1 y = rtn_bit s y" using n(1) by (auto simp: rdx_new_node_def RN_SETBIT_def set_tree_plug)
  have e: "?r =
    (if d = len \<and> rtn_bit s y = len then Some (insert_attach s y rth)
     else if alloc1 = 0 then Some (s, 0)
     else if rtn_bit s y = d then
       (if \<not> d < len then None else case insert_child ?s1 y alloc1 ?a of None \<Rightarrow> None | Some s \<Rightarrow> Some (s\<lparr>rtt_routes := rtt_routes s + 1\<rparr>, rth))
     else if d = len then
       (case insert_between ?s1 y alloc1 (rdx_rth_addr s (rtn_rth s x)) of None \<Rightarrow> None | Some s \<Rightarrow> Some (s\<lparr>rtt_routes := rtt_routes s + 1\<rparr>, rth))
     else if alloc2 = 0 then
       Some (?s1\<lparr>rt_freed_nodes := insert alloc1 (rt_freed_nodes ?s1), rtt_nfree := rtt_nfree ?s1 + 1, rtt_inodes := rtt_inodes ?s1 - 1\<rparr>, 0)
     else
       (case insert_split ?s1 y alloc1 alloc2 d ?a of None \<Rightarrow> None | Some s \<Rightarrow> Some (s\<lparr>rtt_routes := rtt_routes s + 1\<rparr>, rth)))"
    using f(1,2) unfolding radix_insert_node_def Let_def by (simp only: option.case if_False c d_def [symmetric] bit1)
  have count: "\<exists>s' t' h. Some (s0\<lparr>rtt_routes := rtt_routes s0 + 1\<rparr>, rth) = Some (s', h) \<and> rdx_table s' t' \<and>
      insert_outcome (routes s t) (routes s' t') ?p rth h (alloc1 = 0 \<or> alloc2 = 0)"
    if "rdx_table s0 t'" "routes s0 t' = insert (?p, rth) (routes s t)" for s0 t'
  proof -
    have "rdx_table (s0\<lparr>rtt_routes := rtt_routes s0 + 1\<rparr>) t'" "routes (s0\<lparr>rtt_routes := rtt_routes s0 + 1\<rparr>) t' = routes s0 t'"
      by (rule rdx_table_frame [OF that(1)]; simp add: links_only_same links_only_def)+
    with that(2) show ?thesis by (auto simp: insert_outcome_def)
  qed
  consider (attach) "d = len" "rtn_bit s y = len" | (short) "alloc1 = 0" "\<not> (d = len \<and> rtn_bit s y = len)"
    | (child) "rtn_bit s y = d" "d < len" "alloc1 \<noteq> 0" | (between) "d = len" "len < rtn_bit s y" "alloc1 \<noteq> 0"
    | (split) "d < len" "d < rtn_bit s y" "alloc1 \<noteq> 0"
    using p(3,4) by fastforce
  then show ?thesis
  proof cases
    case attach
    show ?thesis
    proof (cases "\<not> rtn_dele s y \<and> rtn_rth s y \<noteq> 0")
      case True
      show ?thesis using insert_attach_present(1) [OF P attach True, of rth] insert_attach_present(2) [OF P attach True] attach e T f(4)
        by (auto simp: insert_outcome_def)
    next
      case False
      show ?thesis using insert_attach_case [OF P attach False rth(1) rth2 refl] attach e f(4)
        by (auto simp: insert_outcome_def)
    qed
  next
    case short
    then show ?thesis using e T by (auto simp: insert_outcome_def)
  next
    case child
    then show ?thesis
      using insert_child_case [OF P child(1,2,3) n(1) rth(1) rth2 refl refl] e count f(4) by auto
  next
    case between
    then show ?thesis
      using insert_between_case [OF P between(1,2,3) n(1) rth(1) rth2 refl refl] e count f(4) by auto
  next
    case split
    show ?thesis
    proof (cases "alloc2 = 0")
      case True
      let ?s2 = "?s1\<lparr>rt_freed_nodes := insert alloc1 (rt_freed_nodes ?s1), rtt_nfree := rtt_nfree ?s1 + 1, rtt_inodes := rtt_inodes ?s1 - 1\<rparr>"
      have same: "same_nodes s ?s1 (set_tree t)" using attach_new_same n(1) f(4) by blast
      have "same_nodes ?s1 ?s2 (set_tree t)" by (rule same_fields) simp_all
      with same have same2: "same_nodes s ?s2 (set_tree t)" by (rule same_nodes_trans)
      have "rdx_table ?s2 t" "routes ?s2 t = routes s t"
        by (rule rdx_table_frame [OF T same2];
            use n(1) rth(2) f(4) in \<open>auto simp: rdx_new_node_def RN_SETBIT_def heads_def\<close>)+
      then show ?thesis using e split True by (auto simp: insert_outcome_def)
    next
      case False
      then have "alloc2 \<noteq> alloc1" using fr split by (auto simp: fresh_alloc_def)
      then show ?thesis
        using insert_split_case [OF P split(1,2,3) n(1) False n(2) _ rth(1) rth2 refl refl] e count f(4) split False by auto
    qed
  qed
qed

text \<open>The steps before the search: the key, and when debugging the fields of the head.\<close>

lemma insert_prepare:
  assumes T: "rdx_table s t" and h: "fresh_head s t rth"
    and s1: "s1 = s\<lparr>rdx_rth_addr := (rdx_rth_addr s)(rth := rth_addr s rth)\<rparr>"
    and s2: "s2 = (if rtt_debug s1 then radix_insert_clear s1 rth else s1)\<lparr>rtt_ninserts := i\<rparr>"
  shows "rdx_table s2 t" "routes s2 t = routes s t" "key_bit s2 = key_bit s" "rdx_rth_addr s2 rth = rth_addr s rth"
    "rtn_rth s2 = rtn_rth s"
proof -
  have F: "rtn_bit s2 = rtn_bit s" "rtn_tbit s2 = rtn_tbit s" "rtn_rth s2 = rtn_rth s" "rtn_flags s2 = rtn_flags s"
    "rtn_left s2 = rtn_left s" "rtn_right s2 = rtn_right s" "rtn_parent s2 = rtn_parent s"
    "rdx_rth_addr s2 = (rdx_rth_addr s)(rth := rth_addr s rth)" "contents (rt_mem s2) = contents (rt_mem s)"
    "rtt_root s2 = rtt_root s" "rtt_magic s2 = rtt_magic s" "rtt_convert s2 = rtt_convert s" "rtt_inodes s2 = rtt_inodes s"
    "x \<noteq> rth \<Longrightarrow> rth_rtn s2 x = rth_rtn s x" for x
    by (simp_all add: s2 s1 radix_insert_clear_def Let_def)
  have kb: "key_bit s2 = key_bit s" by (rule key_bit_cong) (simp add: F)
  have r: "rtn_rth s x \<noteq> rth" if "x \<in> set_tree t" for x using h that by (auto simp: fresh_head_def)
  have same: "same_nodes s s2 (set_tree t)" using r by (simp add: same_nodes_def F nkey_def kb)
  show "rdx_table s2 t" "routes s2 t = routes s t"
    using rdx_table_frame [OF T same] F r by (simp_all add: heads_def)
  show "key_bit s2 = key_bit s" "rdx_rth_addr s2 rth = rth_addr s rth" "rtn_rth s2 = rtn_rth s" by (simp_all add: kb F)
qed

lemma radix_insert_ok:
  assumes T: "rdx_table s t" and h: "fresh_head s t rth" and fr: "fresh_alloc t alloc1 alloc2" and len: "length_ok s len"
  shows "\<exists>s' t' h. std_radix_insert s rth len key_alloc alloc1 alloc2 = Some (s', h) \<and> rdx_table s' t' \<and>
    insert_outcome (routes s t) (routes s' t') (key_prefix s (rth_addr s rth) len) rth h (alloc1 = 0 \<or> alloc2 = 0)"
proof -
  define s1 where "s1 = s\<lparr>rdx_rth_addr := (rdx_rth_addr s)(rth := rth_addr s rth)\<rparr>"
  define s1' where "s1' = (if rtt_debug s1 then radix_insert_clear s1 rth else s1)"
  define s2 where "s2 = s1'\<lparr>rtt_ninserts := rtt_ninserts s1' + 1\<rparr>"
  have rth: "rth \<noteq> 0" "rth_addr s rth \<noteq> 0" "rth \<notin> rtn_rth s ` set_tree t" using h by (simp_all add: fresh_head_def)
  note p = insert_prepare [OF T h s1_def, of s2 "rtt_ninserts s1' + 1", folded s1'_def, OF s2_def]
  have key: "radix_insert_key s rth key_alloc = Some (s1, True)"
    using rth rdx_table_tree(6) [OF T] by (simp add: radix_insert_key_def s1_def)
  have c: "(rtt_debug s1' \<and> rtt_maxaddrlen s1' < len) = False"
    using len by (auto simp: length_ok_def s1'_def s1_def radix_insert_clear_def Let_def)
  have "RDX_VALIDATE_HANDLE s1" using rdx_table_handle [OF T] by (simp add: s1_def RDX_VALIDATE_HANDLE_def)
  moreover have "rtt_root s2 = rtt_root s1'" by (simp add: s2_def)
  ultimately have e: "std_radix_insert s rth len key_alloc alloc1 alloc2 =
    (if rtt_root s2 = 0 then
       if alloc1 = 0 then Some (s2, 0)
       else Some ((set_rtn_rth alloc1 rth (set_rth_rtn rth alloc1 ((rdx_new_node alloc1 len s2)\<lparr>rtt_root := alloc1\<rparr>)))
         \<lparr>rtt_routes := rtt_routes (rdx_new_node alloc1 len s2) + 1\<rparr>, rth)
     else radix_insert_node s2 rth len alloc1 alloc2)"
    unfolding std_radix_insert_def key option.case prod.case Let_def s1'_def [symmetric] s2_def [symmetric] by (simp add: c)
  have pre: "key_prefix s2 (rdx_rth_addr s2 rth) len = key_prefix s (rth_addr s rth) len"
    using p(3,4) by (simp add: key_prefix_def)
  show ?thesis
  proof (cases "t = Leaf")
    case False
    then have "rtt_root s2 \<noteq> 0" using rdx_table_root_zero [OF p(1)] by simp
    then show ?thesis
      using radix_insert_node_ok [OF p(1) False rth(1) _ fr, of len] rth(3) p(2,5) e pre by simp
  next
    case True
    then have z: "rtt_root s2 = 0" using rdx_table_root_zero [OF p(1)] by simp
    show ?thesis
    proof (cases "alloc1 = 0")
      case True
      then show ?thesis using e z p(1,2) by (auto simp: insert_outcome_def)
    next
      case a: False
      let ?s = "(set_rtn_rth alloc1 rth (set_rth_rtn rth alloc1 ((rdx_new_node alloc1 len s2)\<lparr>rtt_root := alloc1\<rparr>)))
         \<lparr>rtt_routes := rtt_routes (rdx_new_node alloc1 len s2) + 1\<rparr>"
      let ?t = "Node Leaf alloc1 Leaf"
      have in0: "rtt_inodes s2 = 0" "rtt_magic s2 = RDX_MAGIC" "rtt_convert s2 = None"
        using p(1) True by (simp_all add: rdx_table_def)
      have n: "rtn_bit ?s alloc1 = len" "rtn_rth ?s alloc1 = rth" "rtn_tbit ?s alloc1 = RNBIT len" "\<not> rtn_dele ?s alloc1"
        by (simp_all add: rdx_new_node_def RN_SETBIT_def rtn_dele_bit)
      have "nkey ?s alloc1 = key_bit s (rth_addr s rth)"
        using p(3,4) key_bit_cong [of ?s s2] by (simp add: nkey_def rdx_new_node_def RN_SETBIT_def)
      then have "node_prefix ?s alloc1 = key_prefix s (rth_addr s rth) len" using n(1) by (rule node_prefix_key)
      then have "routes ?s ?t = {(key_prefix s (rth_addr s rth) len, rth)}"
        using n(2,4) rth(1) by (simp add: routes_routes_on)
      moreover have "rdx_ok ?s ?t" using n rth(1) by (simp add: heads_agree_def)
      then have "rdx_table ?s ?t"
        using a in0 n(2) by (simp add: rdx_table_def heap_tree_def rdx_new_node_def RN_SETBIT_def)
      moreover have "routes s t = {}" using True by (simp add: routes_routes_on)
      ultimately show ?thesis using e z a by (auto simp: insert_outcome_def)
    qed
  qed
qed

end
