(* ===== verification/RadixRemove.thy ===== *)
theory RadixRemove
  imports RadixInsertOk
begin

text \<open>
  Removal from the radix tree: the invariant is kept and exactly the prefix of the removed head
  leaves the routes. A node with two children stays without its head, a leaf goes, together with its
  parent when that has no head, and a node with one child is replaced by the child.
\<close>

section \<open>What a removal must establish\<close>

definition removed :: "std_rt_table \<Rightarrow> ptr tree \<Rightarrow> ptr \<Rightarrow> std_rt_table \<Rightarrow> ptr tree \<Rightarrow> bool" where
  "removed s t x s' t' \<longleftrightarrow>
     heap_tree (rtn_left s') (rtn_right s') (rtn_parent s') (rtt_root s') t' \<and> rdx_ok s' t' \<and>
     heads s' t' = heads s t - {x} \<and> same_nodes s s' (set_tree t' - {x}) \<and> rth_rtn s' = rth_rtn s \<and>
     rtt_magic s' = rtt_magic s \<and> rtt_convert s' = rtt_convert s \<and> rtt_inodes s' = of_nat (size t')"

lemma image_drop: "(\<And>z. P z \<Longrightarrow> z \<noteq> x \<Longrightarrow> g z \<noteq> g x) \<Longrightarrow> g ` {z. P z \<and> z \<noteq> x} = g ` {z. P z} - {g x}"
  by auto

lemma removed_routes:
  assumes T: "rdx_table s t" and x: "x \<in> heads s t" and R: "removed s t x s' t'"
  shows "rdx_table s' t'" "routes s' t' = routes s t - {(node_prefix s x, rtn_rth s x)}"
proof -
  note t = rdx_table_tree [OF T] and r = R [unfolded removed_def]
  have h: "z \<in> heads s' t' \<Longrightarrow> z \<noteq> x \<and> z \<in> heads s t \<and> rtn_rth s' z = rtn_rth s z \<and> rtn_flags s' z = rtn_flags s z \<and>
      node_prefix s' z = node_prefix s z" for z
  proof -
    assume z: "z \<in> heads s' t'"
    then have "z \<in> set_tree t' - {x}" "z \<in> heads s t" "z \<noteq> x" using r by (auto simp: heads_def)
    moreover have "rtn_rth s z \<noteq> 0" using calculation(2) by (simp add: heads_def)
    ultimately show ?thesis using r by (simp add: same_nodes_def node_prefix_def)
  qed
  show "rdx_table s' t'" using r h t(5-7) by (simp add: rdx_table_def)
  have inj: "z \<in> heads s t \<Longrightarrow> z \<noteq> x \<Longrightarrow> rtn_rth s z \<noteq> rtn_rth s x" for z using t(7) [of z] t(7) [OF x] by metis
  have d: "rtn_dele s' z = rtn_dele s z" if "z \<in> heads s' t'" for z using h [OF that] by (simp add: rtn_dele_def)
  have hh: "heads s' t' = heads s t - {x}" using r by blast
  have "routes s' t' = (\<lambda>z. (node_prefix s z, rtn_rth s z)) ` {z. (z \<in> heads s t \<and> \<not> rtn_dele s z) \<and> z \<noteq> x}"
    unfolding routes_def
  proof (rule image_cong)
    have "z \<in> heads s' t' \<longleftrightarrow> z \<in> heads s t \<and> z \<noteq> x" for z using hh by simp
    then show "{z \<in> heads s' t'. \<not> rtn_dele s' z} = {z. (z \<in> heads s t \<and> \<not> rtn_dele s z) \<and> z \<noteq> x}"
      using d by blast
    fix z assume "z \<in> {z. (z \<in> heads s t \<and> \<not> rtn_dele s z) \<and> z \<noteq> x}"
    then have "z \<in> heads s' t'" using hh by simp
    then show "(node_prefix s' z, rtn_rth s' z) = (node_prefix s z, rtn_rth s z)" using h [of z] by simp
  qed
  also have "\<dots> = routes s t - {(node_prefix s x, rtn_rth s x)}"
    unfolding routes_def by (rule image_drop) (use inj in auto)
  finally show "routes s' t' = routes s t - {(node_prefix s x, rtn_rth s x)}" .
qed

section \<open>The links\<close>

text \<open>What \<open>release_head\<close> leaves alone.\<close>

lemma release_head_fields [simp]:
  "rtn_left (release_head h s) = rtn_left s" "rtn_right (release_head h s) = rtn_right s"
  "rtn_parent (release_head h s) = rtn_parent s" "rtt_root (release_head h s) = rtt_root s"
  "rtn_bit (release_head h s) = rtn_bit s" "rtn_tbit (release_head h s) = rtn_tbit s"
  "rtn_rth (release_head h s) = rtn_rth s" "rtn_flags (release_head h s) = rtn_flags s"
  "rtn_lock (release_head h s) = rtn_lock s" "rth_rtn (release_head h s) = rth_rtn s"
  "rt_mem (release_head h s) = rt_mem s" "rtt_magic (release_head h s) = rtt_magic s"
  "rtt_convert (release_head h s) = rtt_convert s" "rtt_inodes (release_head h s) = rtt_inodes s"
  "rtt_radicalused (release_head h s) = rtt_radicalused s" "rtt_clhead (release_head h s) = rtt_clhead s"
  "rtt_rmfree (release_head h s) = rtt_rmfree s"
  by (simp_all add: release_head_def Let_def)

lemma release_head_addr:
  "rdx_rth_addr (release_head h s) = (if h = 0 then rdx_rth_addr s else (rdx_rth_addr s)(h := 0))"
  by (simp add: release_head_def Let_def)

lemma free_node_fields [simp]:
  "rtn_left (free_node a s) = rtn_left s" "rtn_right (free_node a s) = rtn_right s"
  "rtn_parent (free_node a s) = rtn_parent s" "rtt_root (free_node a s) = rtt_root s"
  "rtn_bit (free_node a s) = rtn_bit s" "rtn_tbit (free_node a s) = rtn_tbit s"
  "rtn_rth (free_node a s) = rtn_rth s" "rtn_flags (free_node a s) = rtn_flags s"
  "rtn_lock (free_node a s) = rtn_lock s" "rth_rtn (free_node a s) = rth_rtn s"
  "rt_mem (free_node a s) = rt_mem s" "rtt_magic (free_node a s) = rtt_magic s"
  "rtt_convert (free_node a s) = rtt_convert s" "rtt_inodes (free_node a s) = rtt_inodes s - 1"
  "rdx_rth_addr (free_node a s) = rdx_rth_addr s"
  "rtt_radicalused (free_node a s) = rtt_radicalused s" "rtt_clhead (free_node a s) = rtt_clhead s"
  by (simp_all add: free_node_def)

lemma heap_focus:
  assumes "heap_tree L R P rt (plug (Node l a r) k)"
  shows "linked L R P (up k) (Node l a r)" "klinked L R P rt a k" "distinct (before k @ after k)"
    "a \<noteq> 0" "L a = root_ptr l" "R a = root_ptr r" "P a = up k" "linked L R P a l" "linked L R P a r"
    "distinct (inorder (Node l a r))" "set_tree (Node l a r) \<inter> ctxt_set k = {}"
  using assms unfolding heap_tree_plug distinct_plug by simp_all

text \<open>The fields that change when the node \<open>a\<close> with the head \<open>h\<close> goes.\<close>

definition node_gone :: "std_rt_table \<Rightarrow> std_rt_table \<Rightarrow> ptr \<Rightarrow> bool" where
  "node_gone s s' h \<longleftrightarrow> rtn_bit s' = rtn_bit s \<and> rtn_tbit s' = rtn_tbit s \<and> rtn_rth s' = rtn_rth s \<and>
     rtn_flags s' = rtn_flags s \<and> rtn_lock s' = rtn_lock s \<and> rt_mem s' = rt_mem s \<and> rth_rtn s' = rth_rtn s \<and>
     rdx_rth_addr s' = (if h = 0 then rdx_rth_addr s else (rdx_rth_addr s)(h := 0)) \<and>
     rtt_magic s' = rtt_magic s \<and> rtt_convert s' = rtt_convert s \<and> rtt_inodes s' = rtt_inodes s - 1 \<and>
     rtt_radicalused s' = rtt_radicalused s \<and> rtt_clhead s' = rtt_clhead s"

lemma remove_promote_ok:
  assumes H: "heap_tree (rtn_left s) (rtn_right s) (rtn_parent s) (rtt_root s) (plug (Node l a r) k)"
    and lock: "rtn_lock s a = 0" and c: "l = Leaf \<and> r \<noteq> Leaf \<and> c = r \<or> r = Leaf \<and> l \<noteq> Leaf \<and> c = l"
  shows "\<exists>s' ret dir. remove_promote s a = Some (s', ret, dir) \<and> node_gone s s' (rtn_rth s a) \<and>
    heap_tree (rtn_left s') (rtn_right s') (rtn_parent s') (rtt_root s') (plug c k)"
proof -
  note f = heap_focus [OF H]
  let ?n = "root_ptr c"
  have cc: "c \<noteq> Leaf" "?n \<noteq> 0" "linked (rtn_left s) (rtn_right s) (rtn_parent s) a c" "distinct (inorder c)"
    "set_tree c \<inter> ctxt_set k = {}" "a \<notin> ctxt_set k" "?n \<notin> ctxt_set k" "a \<notin> set_tree c"
    using c f(4,8-11) root_ptr_in_set [of c] by auto
  have n: "(if rtn_left s a \<noteq> 0 then rtn_left s a else rtn_right s a) = ?n" using c f(5,6) by auto
  define s1 where "s1 = set_rtn_parent ?n (up k) s"
  have k1: "klinked (rtn_left s1) (rtn_right s1) (rtn_parent s1) (rtt_root s1) a k"
    using f(2) cc(7) by (simp add: s1_def frame_simps)
  have l1: "linked (rtn_left s1) (rtn_right s1) (rtn_parent s1) (up k) c"
    using linked_reparent_upd [OF cc(3,4), of "up k"] by (simp add: s1_def)
  note kr = klinked_replace [OF k1 f(4) cc(6) f(3) cc(7)]
  define s2 where "s2 = (if up k = 0 then s1\<lparr>rtt_root := ?n\<rparr>
      else if rtn_left s1 (up k) = a then set_rtn_left (up k) ?n s1 else set_rtn_right (up k) ?n s1)"
  have k2: "klinked (rtn_left s2) (rtn_right s2) (rtn_parent s2) (rtt_root s2) ?n k"
    using kr by (auto simp: s2_def split: if_splits)
  have l2: "linked (rtn_left s2) (rtn_right s2) (rtn_parent s2) (up k) c"
  proof (cases "k = []")
    case False
    then have "up k \<notin> set_tree c" using klinked_up_in [of k] cc(5) by blast
    then show ?thesis using l1 by (auto simp: s2_def frame_simps)
  qed (use l1 in \<open>simp add: s2_def\<close>)
  have "up k = 0 \<or> rtn_left s1 (up k) = a \<or> rtn_right s1 (up k) = a"
    using k1 by (cases k rule: up.cases) simp_all
  then have e: "(if up k = 0 then Some (s1\<lparr>rtt_root := ?n\<rparr>)
      else if rtn_left s1 (up k) = a then Some (set_rtn_left (up k) ?n s1)
      else if rtn_right s1 (up k) = a then Some (set_rtn_right (up k) ?n s1) else None) = Some s2"
    by (auto simp: s2_def)
  let ?s' = "free_node a (release_head (rtn_rth s2 a) s2)"
  have ab: "\<not> (rtn_left s a \<noteq> 0 \<and> rtn_right s a \<noteq> 0)" using c f(5,6) by auto
  obtain ret dir where nx: "(if rtn_left s a \<noteq> 0 then (rtn_left s a, up k, RDX_WALKRIGHT)
      else (rtn_right s a, rtn_right s a, RDX_WALKDOWN)) = (?n, ret, dir)"
    using n by (cases "rtn_left s a \<noteq> 0") auto
  have "\<not> RN_IFLOCK s a" using lock by (simp add: RN_IFLOCK_def)
  then have "remove_promote s a = Some (?s', ret, dir)"
    unfolding remove_promote_def Let_def if_not_P [OF ab] f(7) nx prod.case s1_def [symmetric] e option.case
      if_not_P [OF cc(2)] by simp
  then have "\<exists>ret dir. remove_promote s a = Some (?s', ret, dir)" by blast
  moreover have "node_gone s ?s' (rtn_rth s a)"
    by (simp add: node_gone_def s2_def s1_def release_head_addr)
  moreover have "heap_tree (rtn_left ?s') (rtn_right ?s') (rtn_parent ?s') (rtt_root ?s') (plug c k)"
    unfolding heap_tree_plug distinct_plug using k2 l2 cc(4,5) f(3) by simp
  ultimately show ?thesis by blast
qed

section \<open>The cases\<close>

text \<open>The keys of the other nodes stay when a head is released.\<close>

lemma gone_same:
  assumes T: "rdx_table s t" and x: "x \<in> heads s t" and A: "A \<subseteq> set_tree t - {x}"
    and G: "rtn_bit s' = rtn_bit s" "rtn_tbit s' = rtn_tbit s" "\<And>z. z \<noteq> x \<Longrightarrow> rtn_rth s' z = rtn_rth s z"
      "rtn_flags s' = rtn_flags s" "rt_mem s' = rt_mem s" "rdx_rth_addr s' = (rdx_rth_addr s)(rtn_rth s x := 0)"
  shows "same_nodes s s' A"
proof -
  note t = rdx_table_tree [OF T]
  have kb: "key_bit s' = key_bit s" by (rule key_bit_cong) (simp add: G)
  show ?thesis
    unfolding same_nodes_def
  proof
    fix z assume z: "z \<in> A"
    then have zx: "z \<noteq> x" and zt: "z \<in> set_tree t" using A by auto
    have "nkey s' z = nkey s z" if "rtn_rth s z \<noteq> 0"
    proof -
      have "z \<in> heads s t" using zt that by (simp add: heads_def)
      then have "rtn_rth s z \<noteq> rtn_rth s x" using t(7) [of z] t(7) [OF x] zx by metis
      then show ?thesis by (simp add: nkey_def kb G(3) [OF zx] G(6))
    qed
    then show "rtn_bit s' z = rtn_bit s z \<and> rtn_tbit s' z = rtn_tbit s z \<and> rtn_rth s' z = rtn_rth s z \<and>
        rtn_flags s' z = rtn_flags s z \<and> (rtn_rth s z \<noteq> 0 \<longrightarrow> nkey s' z = nkey s z)"
      using G(3) [OF zx] by (simp add: G(1,2,4))
  qed
qed

text \<open>A focus is replaced by a part of it.\<close>

lemma remove_replug:
  assumes T: "rdx_table s (plug u k)" and x: "x \<in> heads s u"
    and heap: "heap_tree (rtn_left s') (rtn_right s') (rtn_parent s') (rtt_root s') (plug u' k)"
    and G: "rtn_bit s' = rtn_bit s" "rtn_tbit s' = rtn_tbit s" "\<And>z. z \<noteq> x \<Longrightarrow> rtn_rth s' z = rtn_rth s z"
      "rtn_flags s' = rtn_flags s" "rt_mem s' = rt_mem s" "rdx_rth_addr s' = (rdx_rth_addr s)(rtn_rth s x := 0)"
      "rth_rtn s' = rth_rtn s" "rtt_magic s' = rtt_magic s" "rtt_convert s' = rtt_convert s"
      "rtt_inodes s' + of_nat (size u) = rtt_inodes s + of_nat (size u')"
    and u': "u' \<noteq> Leaf" "set_tree u' \<subseteq> set_tree u" "heads s' u' = heads s u - {x}"
    and ok: "rdx_ok s' u'"
  shows "removed s (plug u k) x s' (plug u' k)"
proof -
  note t = rdx_table_tree [OF T]
  have xt: "x \<in> heads s (plug u k)" and xu: "x \<in> set_tree u" using x by (auto simp: heads_def set_tree_plug)
  have dj: "set_tree u \<inter> ctxt_set k = {}" using t(3) unfolding distinct_plug by simp
  have same: "same_nodes s s' (set_tree (plug u' k) - {x})"
    by (rule gone_same [OF T xt _ G(1-6)]) (use u'(2) in \<open>auto simp: set_tree_plug\<close>)
  have sk: "same_nodes s s' (ctxt_set k)" by (rule same_nodes_mono [OF same]) (use dj xu in \<open>auto simp: set_tree_plug\<close>)
  have hd: "z \<in> heads s u \<and> nkey s' z = nkey s z" if "z \<in> heads s' u'" for z
  proof -
    have "z \<in> heads s u" "z \<in> set_tree (plug u' k) - {x}" using that u'(3) by (auto simp: heads_def set_tree_plug)
    then show ?thesis using same by (auto simp: same_nodes_def heads_def)
  qed
  have ne: "u \<noteq> Leaf" using u'(1,2) by (cases u) auto
  have "rdx_ok s' (plug u' k)"
  proof (rule rdx_ok_replug [OF t(4) ok ne u'(1) sk, of "rtn_bit s (root_ptr u)"])
    show "\<forall>a\<in>set (ups k). rtn_bit s a < rtn_bit s (root_ptr u)" using ups_sorted [OF t(4) ne] by blast
    show "\<forall>z\<in>set_tree u'. z \<in> set_tree u \<and> rtn_bit s' z = rtn_bit s z \<or> rtn_bit s (root_ptr u) \<le> rtn_bit s' z"
      using u'(2) G(1) by auto
    show "\<forall>z\<in>heads s' u'. \<exists>w\<in>heads s u. \<forall>i<rtn_bit s (root_ptr u). nkey s' z i = nkey s w i"
    proof
      fix z assume "z \<in> heads s' u'"
      then show "\<exists>w\<in>heads s u. \<forall>i<rtn_bit s (root_ptr u). nkey s' z i = nkey s w i"
        using hd [of z] by (intro bexI [of _ z]) simp_all
    qed
  qed
  moreover have "heads s' (plug u' k) = heads s (plug u k) - {x}"
  proof -
    have "heads s (plug u k) = heads s u \<union> {z \<in> ctxt_set k. rtn_rth s z \<noteq> 0}" for s u
      by (auto simp: heads_def set_tree_plug)
    moreover have "z \<noteq> x \<and> rtn_rth s' z = rtn_rth s z" if "z \<in> ctxt_set k" for z
    proof -
      have "z \<noteq> x" using dj xu that by blast
      then show ?thesis by (simp add: G(3))
    qed
    ultimately show ?thesis using u'(3) by auto
  qed
  moreover have "rtt_inodes s = of_nat (size (plug u k))" using T by (simp add: rdx_table_def)
  then have "rtt_inodes s' = of_nat (size (plug u' k))" using G(10) by (simp add: size_plug)
  ultimately show ?thesis using heap same G(7-9) by (simp add: removed_def)
qed

lemma heads_agree_sub:
  assumes "heads_agree s t n" "\<And>z. z \<in> heads s' t' \<Longrightarrow> z \<in> heads s t \<and> nkey s' z = nkey s z"
  shows "heads_agree s' t' n"
  unfolding heads_agree_def
proof (intro ballI allI impI)
  fix z w i assume *: "z \<in> heads s' t'" "w \<in> heads s' t'" "i < n"
  then have "nkey s z i = nkey s w i" using assms unfolding heads_agree_def by blast
  then show "nkey s' z i = nkey s' w i" using assms(2) [OF *(1)] assms(2) [OF *(2)] by simp
qed

definition list_untouched :: "std_rt_table \<Rightarrow> std_rt_table \<Rightarrow> bool" where
  "list_untouched s s' \<longleftrightarrow> rt_mem s' = rt_mem s \<and> rtt_radicalused s' = rtt_radicalused s \<and> rtt_clhead s' = rtt_clhead s"

lemma remove_inner:
  assumes T: "rdx_table s t" and t: "t = plug (Node l x r) k" and x: "rtn_rth s x \<noteq> 0" and lock: "rtn_lock s x = 0"
    and two: "l \<noteq> Leaf" "r \<noteq> Leaf"
  shows "\<exists>s' t' ret d. radix_remove_node s x dir = Some (s', ret, d) \<and> removed s t x s' t' \<and> list_untouched s s'"
proof -
  let ?u = "Node l x r"
  let ?s1 = "s\<lparr>rtt_routes := rtt_routes s - 1\<rparr>"
  let ?s' = "set_rtn_rth x 0 (release_head (rtn_rth s x) ?s1)"
  note p = rdx_table_tree [OF T] and H = T [unfolded rdx_table_def t, THEN conjunct1]
  note f = heap_focus [OF H]
  have xu: "x \<in> heads s ?u" and xt: "x \<in> heads s t" using x t by (auto simp: heads_def set_tree_plug)
  have nz: "rtn_left s x \<noteq> 0" "rtn_right s x \<noteq> 0" using f(5,6,8,9) two by simp_all
  have e: "radix_remove_node s x dir = Some (?s', rtn_parent s x, RDX_WALKUP)"
    using nz lock f(4) by (simp add: radix_remove_node_def RN_IFLOCK_def Let_def)
  have o: "rdx_ok s ?u" using rdx_ok_focus p(4) t by metis
  have sm: "same_nodes s ?s' (set_tree t - {x})"
    by (rule gone_same [OF T xt subset_refl]) (simp_all add: release_head_addr x)
  have "same_nodes s ?s' (set_tree l)" "same_nodes s ?s' (set_tree r)"
    by (rule same_nodes_mono [OF sm]; use f(10) t in \<open>auto simp: set_tree_plug\<close>)+
  note sl = same_subtree [OF this(1) subset_refl] and sr = same_subtree [OF this(2) subset_refl] and q = rdx_ok_NodeD [OF o]
  have hs: "heads ?s' ?u = heads s ?u - {x}" using sl(2) sr(2) f(10) by (auto simp: heads_def)
  have "heads_agree ?s' ?u (rtn_bit s x)"
  proof (rule heads_agree_sub [OF q(7)])
    fix z assume "z \<in> heads ?s' ?u"
    then have "z \<in> heads s l \<or> z \<in> heads s r" using sl(2) sr(2) by auto
    then show "z \<in> heads s ?u \<and> nkey ?s' z = nkey s z" using sl(3) sr(3) by auto
  qed
  then have "rdx_ok ?s' ?u"
    by (intro rdx_ok_NodeI) (use q two sl sr in simp_all)
  then have "removed s t x ?s' t"
    unfolding t by (intro remove_replug [OF T [unfolded t] xu]) (use H hs x in \<open>simp_all add: release_head_addr\<close>)
  then show ?thesis using e by (auto simp: list_untouched_def)
qed

lemma remove_single:
  assumes T: "rdx_table s t" and t: "t = plug (Node l x r) k" and x: "rtn_rth s x \<noteq> 0" and lock: "rtn_lock s x = 0"
    and c: "l = Leaf \<and> r \<noteq> Leaf \<and> c = r \<or> r = Leaf \<and> l \<noteq> Leaf \<and> c = l"
  shows "\<exists>s' t' ret d. radix_remove_node s x dir = Some (s', ret, d) \<and> removed s t x s' t' \<and> list_untouched s s'"
proof -
  let ?u = "Node l x r"
  let ?s1 = "s\<lparr>rtt_routes := rtt_routes s - 1\<rparr>"
  note p = rdx_table_tree [OF T] and H = T [unfolded rdx_table_def t, THEN conjunct1]
  note f = heap_focus [OF H]
  have xu: "x \<in> heads s ?u" and xt: "x \<in> heads s t" using x t by (auto simp: heads_def set_tree_plug)
  have H1: "heap_tree (rtn_left ?s1) (rtn_right ?s1) (rtn_parent ?s1) (rtt_root ?s1) (plug ?u k)" using H by simp
  obtain s' ret d where s': "remove_promote ?s1 x = Some (s', ret, d)" "node_gone ?s1 s' (rtn_rth ?s1 x)"
      "heap_tree (rtn_left s') (rtn_right s') (rtn_parent s') (rtt_root s') (plug c k)"
    using remove_promote_ok [OF H1 _ c] lock by auto
  note g = s'(2) [unfolded node_gone_def]
  have "rtn_left s x = 0 \<longleftrightarrow> l = Leaf" "rtn_right s x = 0 \<longleftrightarrow> r = Leaf" using f(5,6,8,9) by simp_all
  then have e: "radix_remove_node s x dir = Some (s', ret, d)"
    using c lock f(4) s'(1) by (auto simp: radix_remove_node_def RN_IFLOCK_def Let_def)
  have o: "rdx_ok s ?u" using rdx_ok_focus p(4) t by metis
  have sm: "same_nodes s s' (set_tree t - {x})"
    by (rule gone_same [OF T xt subset_refl]) (use g x in simp_all)
  have sc: "same_nodes s s' (set_tree c)"
    by (rule same_nodes_mono [OF sm]; use f(10) t c in \<open>auto simp: set_tree_plug\<close>)
  have "rdx_ok s c" using rdx_ok_NodeD(8,9) [OF o] c by auto
  then have ok: "rdx_ok s' c" using rdx_ok_cong [OF sc] by simp
  have hs: "heads s' c = heads s ?u - {x}" using same_nodes_heads [OF sc] c f(10) by (auto simp: heads_def)
  have "removed s t x s' (plug c k)"
    unfolding t
  proof (rule remove_replug [OF T [unfolded t] xu s'(3)])
    show "c \<noteq> Leaf" "set_tree c \<subseteq> set_tree ?u" using c by auto
    have "size ?u = Suc (size c)" using c by auto
    then show "rtt_inodes s' + of_nat (size ?u) = rtt_inodes s + of_nat (size c)" using g by simp
    show "heads s' c = heads s ?u - {x}" by (rule hs)
    show "rdx_ok s' c" by (rule ok)
  qed (use g x in simp_all)
  then show ?thesis using e g by (auto simp: list_untouched_def)
qed

text \<open>A leaf goes; its parent goes with it when it has no head.\<close>

lemma heap_unlink:
  assumes "heap_tree L R P rt (plug (Node l a r) k)"
  shows "l = Node Leaf x Leaf \<Longrightarrow> heap_tree (L(a := 0)) R P rt (plug (Node Leaf a r) k)"
    and "r = Node Leaf x Leaf \<Longrightarrow> heap_tree L (R(a := 0)) P rt (plug (Node l a Leaf) k)"
  using assms unfolding heap_tree_plug distinct_plug by (auto simp: frame_simps)

lemma remove_leaf:
  assumes T: "rdx_table s t" and t: "t = plug (Node Leaf x Leaf) k" and x: "rtn_rth s x \<noteq> 0"
    and lock: "\<forall>z\<in>set_tree t. rtn_lock s z = 0"
  shows "\<exists>s' t' ret d. radix_remove_node s x dir = Some (s', ret, d) \<and> removed s t x s' t' \<and> list_untouched s s'"
proof -
  let ?s1 = "free_node x (release_head (rtn_rth s x) (s\<lparr>rtt_routes := rtt_routes s - 1\<rparr>))"
  note p = rdx_table_tree [OF T] and H = T [unfolded rdx_table_def t, THEN conjunct1]
  note f = heap_focus [OF H]
  have xt: "x \<in> heads s t" and lx: "rtn_lock s x = 0" using x t lock by (auto simp: heads_def set_tree_plug)
  have b: "radix_remove_node s x dir =
      (if up k = 0 then Some (?s1\<lparr>rtt_root := 0\<rparr>, 0, dir)
       else case (if rtn_left ?s1 (up k) = x then Some (set_rtn_left (up k) 0 ?s1, RDX_WALKRIGHT)
             else if rtn_right ?s1 (up k) = x then Some (set_rtn_right (up k) 0 ?s1, RDX_WALKUP) else None) of
           None \<Rightarrow> None
         | Some (s, dir) \<Rightarrow> if rtn_rth s (up k) \<noteq> 0 then Some (s, up k, dir) else remove_promote s (up k))"
    using f(4-7) lx by (simp add: radix_remove_node_def RN_IFLOCK_def Let_def)
  have sub: ?thesis if k: "k = fr # k'" and u: "u = plug (Node Leaf x Leaf) [fr]" "u = Node l a r" "up k = a"
      and s2: "radix_remove_node s x dir = (if rtn_rth s2 a \<noteq> 0 then Some (s2, a, d) else remove_promote s2 a)"
      and heap: "heap_tree (rtn_left s2) (rtn_right s2) (rtn_parent s2) (rtt_root s2) (plug u2 k')"
      and u2: "u2 = Node l' a r'" "l = Node Leaf x Leaf \<and> l' = Leaf \<and> r' = r \<and> c = r \<or> r = Node Leaf x Leaf \<and> r' = Leaf \<and> l' = l \<and> c = l"
      and g: "node_gone s s2 (rtn_rth s x)" for fr k' u l a r s2 d u2 l' r' c
  proof -
    have tu: "t = plug u k'" using t k u(1) plug_append [of "Node Leaf x Leaf" "[fr]" k'] by simp
    have o: "rdx_ok s u" using rdx_ok_focus p(4) tu by metis
    note q = rdx_ok_NodeD [OF o [unfolded u(2)]] and gd = g [unfolded node_gone_def]
    have fu: "distinct (inorder u)" using p(3) unfolding tu distinct_plug by simp
    have xu: "x \<in> heads s u" using x u(2) u2(2) by (auto simp: heads_def)
    have xa: "x \<noteq> a" using fu u(2) u2(2) by auto
    have la: "rtn_lock s2 a = 0" using lock gd tu u(2) by (simp add: set_tree_plug)
    have sm: "same_nodes s s2 (set_tree t - {x})"
      by (rule gone_same [OF T xt subset_refl]) (use gd x in simp_all)
    have "same_nodes s s2 (set_tree c)"
      by (rule same_nodes_mono [OF sm]; use fu tu u(2) u2(2) in \<open>auto simp: set_tree_plug\<close>)
    note sc = same_subtree [OF this subset_refl]
    have oc: "rdx_ok s c" using q(8,9) u2(2) by auto
    show ?thesis
    proof (cases "rtn_rth s a = 0")
      case False
      have h2: "heads s2 u2 = heads s u - {x}" using sc(2) gd fu u(2) u2 by (auto simp: heads_def)
      have "rdx_ok s2 u2"
        unfolding u2(1)
      proof (rule rdx_ok_NodeI)
        have hc: "heads s2 (Node l' a r') \<subseteq> heads s (Node l a r) - {x}" using h2 u(2) u2(1) by simp
        show "heads_agree s2 (Node l' a r') (rtn_bit s2 a)"
        proof (rule heads_agree_sub [of s "Node l a r"])
          fix z assume "z \<in> heads s2 (Node l' a r')"
          then have z: "z \<in> heads s (Node l a r)" "z \<noteq> x" using hc by auto
          then have "z \<in> set_tree t - {x}" using tu u(2) by (auto simp: heads_def set_tree_plug)
          then show "z \<in> heads s (Node l a r) \<and> nkey s2 z = nkey s z" using z sm by (simp add: same_nodes_def heads_def)
        qed (use q(7) gd in simp)
      qed (use q sc oc u2(2) gd False in auto)
      moreover have "radix_remove_node s x dir = Some (s2, a, d)" using s2 gd False by simp
      moreover have "rdx_ok s2 u2 \<Longrightarrow> removed s t x s2 (plug u2 k')"
        unfolding tu
      proof (rule remove_replug [OF T [unfolded tu] xu heap])
        show "u2 \<noteq> Leaf" "set_tree u2 \<subseteq> set_tree u" using u(2) u2 by auto
        have "size u = Suc (size u2)" using u(2) u2 by auto
        then show "rtt_inodes s2 + of_nat (size u) = rtt_inodes s + of_nat (size u2)" using gd by simp
        show "heads s2 u2 = heads s u - {x}" by (rule h2)
      qed (use gd x in simp_all)
      ultimately show ?thesis using gd by (auto simp: list_untouched_def)
    next
      case True
      have cl: "l' = Leaf \<and> r' \<noteq> Leaf \<and> c = r' \<or> r' = Leaf \<and> l' \<noteq> Leaf \<and> c = l'" using q(2) [OF True] u2(2) by auto
      obtain s' ret d' where s': "remove_promote s2 a = Some (s', ret, d')" "node_gone s2 s' (rtn_rth s2 a)"
          "heap_tree (rtn_left s') (rtn_right s') (rtn_parent s') (rtt_root s') (plug c k')"
        using remove_promote_ok [OF heap [unfolded u2(1)] la cl] by blast
      note gp = s'(2) [unfolded node_gone_def]
      have "same_nodes s2 s' (set_tree c)" by (rule same_fields) (use gp gd True in simp_all)
      note sp = same_subtree [OF this subset_refl]
      have "heads s u = insert x (heads s c)" using u(2) u2(2) True x by auto
      moreover have "x \<notin> heads s c" using fu u(2) u2(2) by (auto simp: heads_def)
      ultimately have hs: "heads s' c = heads s u - {x}" using sp(2) sc(2) by simp
      have "removed s t x s' (plug c k')"
        unfolding tu
      proof (rule remove_replug [OF T [unfolded tu] xu s'(3)])
        show "c \<noteq> Leaf" "set_tree c \<subseteq> set_tree u" using cl u(2) u2(2) by auto
        have "size u = Suc (Suc (size c))" using u(2) u2(2) by auto
        then show "rtt_inodes s' + of_nat (size u) = rtt_inodes s + of_nat (size c)" using gp gd by simp
        show "heads s' c = heads s u - {x}" by (rule hs)
        show "rdx_ok s' c" using oc sc(1) sp(1) by simp
      qed (use gp gd True x in simp_all)
      moreover have "radix_remove_node s x dir = Some (s', ret, d')" using s2 gd True s'(1) by simp
      ultimately show ?thesis using gp gd by (auto simp: list_untouched_def)
    qed
  qed
  show ?thesis
  proof (cases k)
    case Nil
    let ?s' = "?s1\<lparr>rtt_root := 0\<rparr>"
    have tt: "t = Node Leaf x Leaf" using t Nil by simp
    have "rtt_inodes s = 1" using T tt by (simp add: rdx_table_def)
    then have "removed s t x ?s' Leaf"
      by (auto simp: removed_def heap_tree_def same_nodes_def tt split: if_splits)
    then show ?thesis using b Nil by (auto simp: list_untouched_def)
  next
    case (Cons fr k')
    show ?thesis
    proof (cases fr)
      case (WentLeft a r)
      have ua: "up k = a" "a \<noteq> 0" "rtn_left s a = x" using f(2) Cons WentLeft by simp_all
      let ?s2 = "set_rtn_left a 0 ?s1"
      have "heap_tree (rtn_left ?s2) (rtn_right ?s2) (rtn_parent ?s2) (rtt_root ?s2) (plug (Node Leaf a r) k')"
        using heap_unlink(1) [of _ _ _ _ "Node Leaf x Leaf" a r k' x] H Cons WentLeft by simp
      note hp = this
      show ?thesis
      proof (rule sub [OF Cons _ _ _ _ hp refl])
        show "Node (Node Leaf x Leaf) a r = plug (Node Leaf x Leaf) [fr]" using WentLeft by simp
        show "radix_remove_node s x dir =
            (if rtn_rth ?s2 a \<noteq> 0 then Some (?s2, a, RDX_WALKRIGHT) else remove_promote ?s2 a)"
          unfolding b ua(1) using ua by simp
        show "node_gone s ?s2 (rtn_rth s x)" by (simp add: node_gone_def release_head_addr)
        show "Node Leaf x Leaf = Node Leaf x Leaf \<and> Leaf = Leaf \<and> r = r \<and> r = r \<or>
            r = Node Leaf x Leaf \<and> r = Leaf \<and> Leaf = Node Leaf x Leaf \<and> r = Node Leaf x Leaf" by simp
      qed (rule refl ua(1))+
    next
      case (WentRight l a)
      have ua: "up k = a" "a \<noteq> 0" "rtn_right s a = x" "rtn_left s a = root_ptr l" using f(2) Cons WentRight by simp_all
      have nl: "rtn_left s a \<noteq> x"
        using f(4,11) root_ptr_in_set [of l] ua(4) Cons WentRight by (cases l) auto
      let ?s2 = "set_rtn_right a 0 ?s1"
      have "heap_tree (rtn_left ?s2) (rtn_right ?s2) (rtn_parent ?s2) (rtt_root ?s2) (plug (Node l a Leaf) k')"
        using heap_unlink(2) [of _ _ _ _ l a "Node Leaf x Leaf" k' x] H Cons WentRight by simp
      note hp = this
      show ?thesis
      proof (rule sub [OF Cons _ _ _ _ hp refl])
        show "Node l a (Node Leaf x Leaf) = plug (Node Leaf x Leaf) [fr]" using WentRight by simp
        show "radix_remove_node s x dir =
            (if rtn_rth ?s2 a \<noteq> 0 then Some (?s2, a, RDX_WALKUP) else remove_promote ?s2 a)"
          unfolding b ua(1) using ua nl by simp
        show "node_gone s ?s2 (rtn_rth s x)" by (simp add: node_gone_def release_head_addr)
        show "l = Node Leaf x Leaf \<and> l = Leaf \<and> Leaf = Node Leaf x Leaf \<and> l = Node Leaf x Leaf \<or>
            Node Leaf x Leaf = Node Leaf x Leaf \<and> Leaf = Leaf \<and> l = l \<and> l = l" by simp
      qed (rule refl ua(1))+
    qed
  qed
qed

section \<open>The whole removal\<close>

lemma radix_remove_node_ok:
  assumes T: "rdx_table s t" and x: "x \<in> heads s t" and lock: "\<forall>z\<in>set_tree t. rtn_lock s z = 0"
  shows "\<exists>s' t' ret d. radix_remove_node s x dir = Some (s', ret, d) \<and> removed s t x s' t' \<and> list_untouched s s'"
proof -
  have xs: "rtn_rth s x \<noteq> 0" "x \<in> set_tree t" using x by (simp_all add: heads_def)
  then obtain l r k where f: "t = plug (Node l x r) k" using focus_exists by blast
  consider "l \<noteq> Leaf" "r \<noteq> Leaf" | "l = Leaf" "r = Leaf"
    | c where "l = Leaf \<and> r \<noteq> Leaf \<and> c = r \<or> r = Leaf \<and> l \<noteq> Leaf \<and> c = l" by blast
  then show ?thesis
  proof cases
    case 1
    show ?thesis by (rule remove_inner [OF T f xs(1) _ 1]) (use lock xs(2) in blast)
  next
    case 2
    show ?thesis by (rule remove_leaf [OF T f [unfolded 2] xs(1) lock])
  next
    case 3
    show ?thesis by (rule remove_single [OF T f xs(1) _ 3]) (use lock xs(2) in blast)
  qed
qed

text \<open>The removal of a node passes its head, and no other, to \<open>rtt_rmfree\<close>.\<close>

lemma release_head_freed:
  "rt_freed_heads (release_head h s) = (if rtt_rmfree s \<and> h \<noteq> 0 then [h] else []) @ rt_freed_heads s"
  by (simp add: release_head_def Let_def)

lemma remove_promote_freed:
  "remove_promote s n = Some (s', r, d) \<Longrightarrow>
    rt_freed_heads s' = (if rtt_rmfree s \<and> rtn_rth s n \<noteq> 0 then [rtn_rth s n] else []) @ rt_freed_heads s"
  by (auto simp: remove_promote_def Let_def release_head_freed free_node_def split: if_splits)

lemma radix_remove_node_freed:
  "radix_remove_node s n dir = Some (s', r, d) \<Longrightarrow>
    rt_freed_heads s' = (if rtt_rmfree s \<and> rtn_rth s n \<noteq> 0 then [rtn_rth s n] else []) @ rt_freed_heads s"
  by (simp add: radix_remove_node_def Let_def release_head_freed free_node_def split: if_splits option.splits)
    (auto dest!: remove_promote_freed simp: release_head_freed split: if_splits)

lemma head_freed_since_iff:
  "rt_freed_heads s' = (if b then [h] else []) @ rt_freed_heads s \<Longrightarrow> head_freed_since s s' h \<longleftrightarrow> b"
  by (simp add: head_freed_since_def)

lemma contents_remove [simp]: "contents (std_dll_remove h n m) = contents m"
  by (simp add: std_dll_remove_def Let_def)

lemma radix_remove_ok:
  assumes T: "rdx_table s t" and x: "x \<in> heads s t" and lock: "\<forall>z\<in>set_tree t. rtn_lock s z = 0"
  shows "if rtt_radicalused s \<and> rtt_rmfree s then std_radix_remove s (rtn_rth s x) = None
    else \<exists>s' t'. std_radix_remove s (rtn_rth s x) = Some s' \<and> rdx_table s' t' \<and>
      routes s' t' = routes s t - {(node_prefix s x, rtn_rth s x)} \<and>
      rt_mem s' =
        (if rtt_radicalused s \<and> std_dll_islinked (rt_mem s) (rdcl_cl (rtn_rth s x))
         then std_dll_remove (rtt_clhead s) (rdcl_cl (rtn_rth s x)) (rt_mem s) else rt_mem s)"
proof -
  let ?h = "rtn_rth s x" and ?s1 = "s\<lparr>rtt_nremoves := rtt_nremoves s + 1\<rparr>"
  note t = rdx_table_tree [OF T]
  have same: "same_nodes s ?s1 A" for A by (rule same_fields) simp_all
  have T1: "rdx_table ?s1 t" "routes ?s1 t = routes s t"
    by (rule rdx_table_frame [OF T same]; simp)+
  have x1: "x \<in> heads ?s1 t" using x by (simp add: heads_def)
  have nz: "x \<noteq> 0" "?h \<noteq> 0" "rtn_lock s x = 0" using x lock linked_nonzero [OF t(1)] by (auto simp: heads_def)
  have np: "node_prefix ?s1 x = node_prefix s x" using same [of UNIV] nz(2) by (simp add: same_nodes_def node_prefix_def)
  obtain s2 t2 ret d where s2: "radix_remove_node ?s1 x RDX_WALKUP = Some (s2, ret, d)" "removed ?s1 t x s2 t2"
      "list_untouched ?s1 s2"
    using radix_remove_node_ok [OF T1(1) x1, of RDX_WALKUP] lock by auto
  note u = s2(3) [unfolded list_untouched_def, simplified]
  have fr: "head_freed_since ?s1 s2 ?h \<longleftrightarrow> rtt_rmfree s"
    using head_freed_since_iff [OF radix_remove_node_freed [OF s2(1)]] nz(2) by simp
  let ?s3 = "s2\<lparr>rt_mem := std_dll_remove (rtt_clhead s2) (rdcl_cl ?h) (rt_mem s2),
      rdcl_flags := (rdcl_flags s2)(?h := rdcl_flags s2 ?h AND NOT RDCL_INCL)\<rparr>"
  have e: "std_radix_remove s ?h =
      (if rtt_radicalused s \<and> rtt_rmfree s then None
       else Some (if rtt_radicalused s \<and> std_dll_islinked (rt_mem s) (rdcl_cl ?h) then ?s3 else s2))"
    using t(7) [OF x] nz rdx_table_handle [OF T] s2(1) u fr
    by (simp add: std_radix_remove_def Let_def RN_IFLOCK_def)
  note R = removed_routes [OF T1(1) x1 s2(2), simplified, unfolded np T1(2) [simplified]]
  have "links_only s2 ?s3" by (simp add: links_only_def)
  from links_only_same [OF this] have "rdx_table ?s3 t2" "routes ?s3 t2 = routes s2 t2"
    by (rule rdx_table_frame [OF R(1)]; simp)+
  with R e u show ?thesis by auto
qed

text \<open>A locked node is only marked; its prefix is no longer found.\<close>

lemma radix_remove_locked_ok:
  assumes T: "rdx_table s t" and x: "x \<in> heads s t" and lock: "rtn_lock s x \<noteq> 0" and rm: "rtt_rmfree s"
  shows "\<exists>s'. std_radix_remove s (rtn_rth s x) = Some s' \<and> rdx_table s' t \<and> rtn_dele s' x \<and>
    routes s' t = routes s t - {(node_prefix s x, rtn_rth s x)}"
proof -
  let ?h = "rtn_rth s x"
  define s' where "s' = s\<lparr>rtt_nremoves := rtt_nremoves s + 1, rtn_flags := (rtn_flags s)(x := RDX_SET_BIT (rtn_flags s x) RDX_RN_DELE_BIT)\<rparr>"
  note t = rdx_table_tree [OF T]
  have nz: "x \<noteq> 0" "?h \<noteq> 0" using x linked_nonzero [OF t(1)] by (auto simp: heads_def)
  have e: "std_radix_remove s ?h = Some s'"
    using t(7) [OF x] nz lock rm rdx_table_handle [OF T]
    by (simp add: std_radix_remove_def Let_def RN_IFLOCK_def s'_def)
  have F: "rtn_left s' = rtn_left s" "rtn_right s' = rtn_right s" "rtn_parent s' = rtn_parent s" "rtt_root s' = rtt_root s"
    "rtn_bit s' = rtn_bit s" "rtn_tbit s' = rtn_tbit s" "rtn_rth s' = rtn_rth s" "rth_rtn s' = rth_rtn s"
    "rdx_rth_addr s' = rdx_rth_addr s" "rt_mem s' = rt_mem s" "rtt_magic s' = rtt_magic s" "rtt_convert s' = rtt_convert s"
    "rtt_inodes s' = rtt_inodes s" "rtn_flags s' = (rtn_flags s)(x := RDX_SET_BIT (rtn_flags s x) RDX_RN_DELE_BIT)"
    by (simp_all add: s'_def)
  have kb: "key_bit s' = key_bit s" by (rule key_bit_cong) (simp add: F)
  have nk: "nkey s' = nkey s" by (simp add: nkey_def kb F fun_eq_iff)
  have hd: "heads s' u = heads s u" for u by (simp add: heads_def F)
  have np: "node_prefix s' z = node_prefix s z" for z by (simp add: node_prefix_def nk F)
  have ok: "rdx_ok s' u = rdx_ok s u" for u
    by (induction u) (simp_all add: hd nk heads_agree_def F del: heads_simps)
  have "rdx_table s' t" using T by (simp add: rdx_table_def hd ok F)
  have "rtn_dele s' x" by (simp add: rtn_dele_bit dele_marks F)
  then have d: "rtn_dele s' z \<longleftrightarrow> rtn_dele s z \<or> z = x" for z by (cases "z = x") (simp_all add: rtn_dele_def F)
  have inj: "z \<in> heads s t \<Longrightarrow> z \<noteq> x \<Longrightarrow> rtn_rth s z \<noteq> ?h" for z using t(7) [of z] t(7) [OF x] by metis
  have "routes s' t = (\<lambda>z. (node_prefix s z, rtn_rth s z)) ` {z. (z \<in> heads s t \<and> \<not> rtn_dele s z) \<and> z \<noteq> x}"
    unfolding routes_def hd np F by (intro image_cong) (auto simp: d)
  also have "\<dots> = routes s t - {(node_prefix s x, ?h)}"
    unfolding routes_def by (rule image_drop) (use inj in auto)
  finally show ?thesis using e \<open>rdx_table s' t\<close> \<open>rtn_dele s' x\<close> by blast
qed

end
