(* ===== verification/Radical.thy ===== *)
theory Radical
  imports RadixRemove
begin

text \<open>
  The change list of a radix tree, \<open>src/std_radical.c\<close> and \<open>src/sonic/std_radical.h\<close>: user heads
  in the order of their last change, and between them the markers of the walks. The list is the
  table's \<open>rtt_clhead\<close> with the operations of the linked list; its nodes are the \<open>rdcl_cl\<close> of the
  heads. A failed assertion is None.
\<close>

section \<open>Flags and nodes\<close>

definition RDCL_ISDUMMY :: "std_rt_table \<Rightarrow> ptr \<Rightarrow> bool" where
  "RDCL_ISDUMMY s r \<longleftrightarrow> rdcl_flags s r AND RDCL_DUMMY \<noteq> 0"

definition RDCL_SETDUMMY :: "ptr \<Rightarrow> std_rt_table \<Rightarrow> std_rt_table" where
  "RDCL_SETDUMMY r s = s\<lparr>rdcl_flags := (rdcl_flags s)(r := rdcl_flags s r OR RDCL_DUMMY)\<rparr>"

definition RDCL_CLRDUMMY :: "ptr \<Rightarrow> std_rt_table \<Rightarrow> std_rt_table" where
  "RDCL_CLRDUMMY r s = s\<lparr>rdcl_flags := (rdcl_flags s)(r := rdcl_flags s r AND NOT RDCL_DUMMY)\<rparr>"

definition RDCL_HEADFROMDLL :: "node \<Rightarrow> ptr" where
  "RDCL_HEADFROMDLL rdcl = (if rdcl \<noteq> 0 then rdcl - RDCL_DLLOFFSET else 0)"

text \<open>The operations of the linked list, on the change list of a table and by heads.\<close>

abbreviation set_rth_version :: "ptr \<Rightarrow> u64 \<Rightarrow> std_rt_table \<Rightarrow> std_rt_table" where
  "set_rth_version r v s \<equiv> s\<lparr>rth_version := (rth_version s)(r := v)\<rparr>"

definition cl_islinked :: "std_rt_table \<Rightarrow> ptr \<Rightarrow> bool" where
  "cl_islinked s r \<longleftrightarrow> std_dll_islinked (rt_mem s) (rdcl_cl r)"

definition cl_getfirst :: "std_rt_table \<Rightarrow> ptr" where
  "cl_getfirst s = RDCL_HEADFROMDLL (std_dll_getfirst (rtt_clhead s) (rt_mem s))"

definition cl_getnext :: "std_rt_table \<Rightarrow> ptr \<Rightarrow> ptr" where
  "cl_getnext s r = RDCL_HEADFROMDLL (std_dll_getnext (rtt_clhead s) (rt_mem s) (rdcl_cl r))"

definition cl_insertatfront :: "ptr \<Rightarrow> std_rt_table \<Rightarrow> std_rt_table" where
  "cl_insertatfront r s = s\<lparr>rt_mem := std_dll_insertatfront (rtt_clhead s) (rdcl_cl r) (rt_mem s)\<rparr>"

definition cl_insertatback :: "ptr \<Rightarrow> std_rt_table \<Rightarrow> std_rt_table" where
  "cl_insertatback r s = s\<lparr>rt_mem := std_dll_insertatback (rtt_clhead s) (rdcl_cl r) (rt_mem s)\<rparr>"

definition cl_insertafter :: "ptr \<Rightarrow> ptr \<Rightarrow> std_rt_table \<Rightarrow> std_rt_table option" where
  "cl_insertafter a r s =
     map_option (\<lambda>m. s\<lparr>rt_mem := m\<rparr>) (std_dll_insertafter (rtt_clhead s) (rdcl_cl a) (rdcl_cl r) (rt_mem s))"

definition cl_insertbefore :: "ptr \<Rightarrow> ptr \<Rightarrow> std_rt_table \<Rightarrow> std_rt_table option" where
  "cl_insertbefore b r s =
     map_option (\<lambda>m. s\<lparr>rt_mem := m\<rparr>) (std_dll_insertbefore (rtt_clhead s) (rdcl_cl b) (rdcl_cl r) (rt_mem s))"

definition cl_remove :: "ptr \<Rightarrow> std_rt_table \<Rightarrow> std_rt_table" where
  "cl_remove r s = s\<lparr>rt_mem := std_dll_remove (rtt_clhead s) (rdcl_cl r) (rt_mem s)\<rparr>"

section \<open>Operations\<close>

text \<open>New versions for the whole list: markers take the version of the head before them.\<close>

partial_function (option) procverwrap_loop :: "ptr \<Rightarrow> u64 \<Rightarrow> std_rt_table \<Rightarrow> (std_rt_table \<times> u64) option" where
  "procverwrap_loop rth ver s =
    (if rth = 0 then Some (s, ver)
     else
       (let (s, ver) =
          (if RDCL_ISDUMMY s rth then (set_rth_version rth ver s, ver) else (set_rth_version rth (ver + 1) s, ver + 1))
        in procverwrap_loop (cl_getnext s rth) ver s))"

definition std_radical_procverwrap :: "std_rt_table \<Rightarrow> (std_rt_table \<times> u64) option" where
  "std_radical_procverwrap s = procverwrap_loop (cl_getfirst s) 0 s"

definition std_radical_walkconstructor :: "std_rt_table \<Rightarrow> ptr \<Rightarrow> std_rt_table option" where
  "std_radical_walkconstructor s dummy =
    (if dummy = 0 then None
     else
       (let s = (if RDCL_ISDUMMY s dummy \<and> cl_islinked s dummy then cl_remove dummy s else s);
            s = cl_insertatfront dummy (RDCL_SETDUMMY dummy s);
            s = set_rth_version dummy 0 s
        in Some (s\<lparr>rtt_radicalinuse := rtt_radicalinuse s + 1\<rparr>)))"

definition std_radical_walkconstructorafter :: "std_rt_table \<Rightarrow> ptr \<Rightarrow> ptr \<Rightarrow> std_rt_table option" where
  "std_radical_walkconstructorafter s aft dummy =
    (if dummy = 0 \<or> aft = 0 \<or> \<not> RDCL_ISDUMMY s aft \<or> \<not> cl_islinked s aft then None
     else
       (let s = (if cl_islinked s dummy then cl_remove dummy s else s) in
        case cl_insertafter aft dummy (RDCL_SETDUMMY dummy s) of
          None \<Rightarrow> None
        | Some s \<Rightarrow>
            (let s = set_rth_version dummy (rth_version s aft) s
             in Some (s\<lparr>rtt_radicalinuse := rtt_radicalinuse s + 1\<rparr>))))"

definition std_radical_walkdestructor :: "std_rt_table \<Rightarrow> ptr \<Rightarrow> std_rt_table option" where
  "std_radical_walkdestructor s dummy =
    (if dummy = 0 then None
     else
       (let s = RDCL_CLRDUMMY dummy s;
            s = (if cl_islinked s dummy then cl_remove dummy s else s)
        in Some (s\<lparr>rtt_radicalinuse := rtt_radicalinuse s - 1\<rparr>)))"

definition std_radical_appendtochangelist :: "std_rt_table \<Rightarrow> ptr \<Rightarrow> (std_rt_table \<times> u64) option" where
  "std_radical_appendtochangelist s rth =
    (if rth_rtn s rth = 0 then None
     else if rdcl_flags s rth AND RDCL_INCL \<noteq> 0 \<and> \<not> cl_islinked s rth then None
     else
       (let s = (if rdcl_flags s rth AND RDCL_INCL \<noteq> 0 then cl_remove rth s else s);
            s = cl_insertatback rth s;
            s = s\<lparr>rdcl_flags := (rdcl_flags s)(rth := rdcl_flags s rth OR RDCL_INCL)\<rparr>;
            s = s\<lparr>rtt_version := rtt_version s + 1\<rparr>;
            s = set_rth_version rth (rtt_version s) s;
            s = (if rth_version s rth = 0 then s\<lparr>rtt_nwraps := rtt_nwraps s + 1\<rparr> else s)
        in Some (s, rth_version s rth)))"

partial_function (option) skip_dummies :: "std_rt_table \<Rightarrow> ptr \<Rightarrow> ptr option" where
  "skip_dummies s rth =
    (if rth \<noteq> 0 \<and> RDCL_ISDUMMY s rth then skip_dummies s (cl_getnext s rth) else Some rth)"

definition std_radical_getfirst :: "std_rt_table \<Rightarrow> ptr option" where
  "std_radical_getfirst s = skip_dummies s (cl_getfirst s)"

definition std_radical_getnext :: "std_rt_table \<Rightarrow> ptr \<Rightarrow> ptr option" where
  "std_radical_getnext s rth = skip_dummies s (cl_getnext s rth)"

partial_function (option) nextversion_loop :: "std_rt_table \<Rightarrow> ptr \<Rightarrow> u64 option" where
  "nextversion_loop s rth =
    (if RDCL_ISDUMMY s rth then
       (let rth = cl_getnext s rth in if rth \<noteq> 0 then nextversion_loop s rth else Some 0)
     else Some (rth_version s rth))"

definition std_radical_nextversion :: "std_rt_table \<Rightarrow> ptr \<Rightarrow> u64 option" where
  "std_radical_nextversion s dummy =
    (if \<not> RDCL_ISDUMMY s dummy \<or> \<not> cl_islinked s dummy then None else nextversion_loop s dummy)"

section \<open>The walk\<close>

text \<open>
  The callback gets the table, the head and the client's own state, which it reaches through the
  variable arguments; it may change both. \<open>maxnodes\<close> is a signed \<open>int\<close>: the assignment of
  \<open>0xffffffff\<close> that replaces a 0 makes it -1, which is counted down from there; \<open>None\<close> is also its
  decrement below \<open>INT_MIN\<close>. \<open>lcnt\<close> is set and counted but never read, and has no place here.
\<close>

type_synonym 'u radical_walk_fn = "'u \<Rightarrow> std_rt_table \<Rightarrow> ptr \<Rightarrow> 'u \<times> std_rt_table \<times> int"

text \<open>Where the walk leaves its marker when it runs out of heads or meets a version above \<open>max_ver\<close>.\<close>

definition walk_finish :: "ptr \<Rightarrow> u64 \<Rightarrow> ptr \<Rightarrow> std_rt_table \<Rightarrow> std_rt_table option" where
  "walk_finish dummy max_ver t_rth s =
    (if t_rth = 0 then Some (cl_insertatback dummy (set_rth_version dummy (rtt_version s) s))
     else cl_insertbefore t_rth dummy (set_rth_version dummy max_ver s))"

text \<open>What follows a callback that has returned a nonzero value.\<close>

definition walk_stop :: "ptr \<Rightarrow> ptr \<Rightarrow> int \<Rightarrow> std_rt_table \<Rightarrow> std_rt_table option" where
  "walk_stop dummy t_rth cbretval s =
    (if cbretval < 0 then
       (if cl_islinked s t_rth then cl_insertbefore t_rth dummy (cl_remove dummy s) else None)
     else Some s)"

definition INT_MIN :: int where "INT_MIN = - (2 ^ 31)"

partial_function (option) walkchangelist_loop ::
    "'u radical_walk_fn \<Rightarrow> ptr \<Rightarrow> u64 \<Rightarrow> ptr \<Rightarrow> int \<Rightarrow> 'u \<Rightarrow> std_rt_table \<Rightarrow> ('u \<times> std_rt_table \<times> int) option" where
  "walkchangelist_loop walk_fn dummy max_ver t_rth maxnodes u s =
    (if t_rth = 0 then map_option (\<lambda>s. (u, s, 0)) (walk_finish dummy max_ver t_rth s)
     else if RDCL_ISDUMMY s t_rth then
       walkchangelist_loop walk_fn dummy max_ver (cl_getnext s t_rth) maxnodes u s
     else if rth_version s t_rth > max_ver then map_option (\<lambda>s. (u, s, 0)) (walk_finish dummy max_ver t_rth s)
     else
       (let ver = rth_version s t_rth in
        case cl_insertafter t_rth dummy s of
          None \<Rightarrow> None
        | Some s \<Rightarrow>
            (case walk_fn u s t_rth of
               (u, s, cbretval) \<Rightarrow>
                 (let s = (if cbretval \<ge> 0 then set_rth_version dummy ver s else s) in
                  if cbretval \<noteq> 0 then map_option (\<lambda>s. (u, s, cbretval)) (walk_stop dummy t_rth cbretval s)
                  else if maxnodes = INT_MIN then None
                  else if maxnodes - 1 = 0 then Some (u, s, 0)
                  else walkchangelist_loop walk_fn dummy max_ver (cl_getnext s dummy) (maxnodes - 1) u
                         (cl_remove dummy s)))))"

definition std_radical_walkchangelist ::
    "std_rt_table \<Rightarrow> ptr \<Rightarrow> 'u radical_walk_fn \<Rightarrow> int \<Rightarrow> u64 \<Rightarrow> 'u \<Rightarrow> ('u \<times> std_rt_table \<times> int) option" where
  "std_radical_walkchangelist s dummy walk_fn maxnodes max_ver u =
    (if dummy = 0 \<or> \<not> RDCL_ISDUMMY s dummy \<or> \<not> cl_islinked s dummy then None
     else walkchangelist_loop walk_fn dummy max_ver (cl_getnext s dummy)
            (if maxnodes = 0 then -1 else maxnodes) u (cl_remove dummy s))"

end
