(* ===== verification/RadicalList.thy ===== *)
theory RadicalList
  imports Radical
begin

text \<open>
  The change list as a sequence of heads. The operations of \<open>src/std_radical.c\<close> use the linked
  list through the interface \<open>node_list\<close>; it is interpreted on the change list of a table.
\<close>

section \<open>The interface of a list of nodes\<close>

text \<open>
  \<open>is_list s xs\<close>: the state \<open>s\<close> holds the sequence \<open>xs\<close>; \<open>same s s'\<close>: the two states differ in the
  links of the list only; \<open>node r\<close>: \<open>r\<close> may be on the list.
\<close>

locale node_list =
  fixes is_list :: "'s \<Rightarrow> nat list \<Rightarrow> bool"
    and node :: "nat \<Rightarrow> bool"
    and same :: "'s \<Rightarrow> 's \<Rightarrow> bool"
    and islinked :: "'s \<Rightarrow> nat \<Rightarrow> bool"
    and first :: "'s \<Rightarrow> nat"
    and getnext :: "'s \<Rightarrow> nat \<Rightarrow> nat"
    and atfront :: "nat \<Rightarrow> 's \<Rightarrow> 's"
    and atback :: "nat \<Rightarrow> 's \<Rightarrow> 's"
    and behind :: "nat \<Rightarrow> nat \<Rightarrow> 's \<Rightarrow> 's option"
    and before :: "nat \<Rightarrow> nat \<Rightarrow> 's \<Rightarrow> 's option"
    and unlink :: "nat \<Rightarrow> 's \<Rightarrow> 's"
  assumes distinct_list: "is_list s xs \<Longrightarrow> distinct xs"
    and member_node: "is_list s xs \<Longrightarrow> r \<in> set xs \<Longrightarrow> node r"
    and member_linked: "is_list s xs \<Longrightarrow> r \<in> set xs \<Longrightarrow> islinked s r"
    and node_not_null: "node r \<Longrightarrow> r \<noteq> 0"
    and first_law: "is_list s xs \<Longrightarrow> first s = first_node xs"
    and getnext_law: "is_list s (xs @ r # ys) \<Longrightarrow> getnext s r = first_node ys"
    and atfront_law: "is_list s xs \<Longrightarrow> node r \<Longrightarrow> r \<notin> set xs \<Longrightarrow> is_list (atfront r s) (r # xs) \<and> same s (atfront r s)"
    and atback_law: "is_list s xs \<Longrightarrow> node r \<Longrightarrow> r \<notin> set xs \<Longrightarrow> is_list (atback r s) (xs @ [r]) \<and> same s (atback r s)"
    and behind_law: "is_list s (xs @ a # ys) \<Longrightarrow> node r \<Longrightarrow> r \<notin> set (xs @ a # ys) \<Longrightarrow>
      \<exists>s'. behind a r s = Some s' \<and> is_list s' (xs @ a # r # ys) \<and> same s s'"
    and before_law: "is_list s (xs @ a # ys) \<Longrightarrow> node r \<Longrightarrow> r \<notin> set (xs @ a # ys) \<Longrightarrow>
      \<exists>s'. before a r s = Some s' \<and> is_list s' (xs @ r # a # ys) \<and> same s s'"
    and unlink_law: "is_list s (xs @ r # ys) \<Longrightarrow> is_list (unlink r s) (xs @ ys) \<and> same s (unlink r s)"
    and same_refl: "same s s"
    and same_trans: "same s s' \<Longrightarrow> same s' s'' \<Longrightarrow> same s s''"
begin

lemma null_not_member: "is_list s xs \<Longrightarrow> 0 \<notin> set xs"
  using member_node node_not_null by blast

text \<open>Moving a node of the list.\<close>

lemma unlink_member:
  assumes "is_list s xs" "r \<in> set xs"
  shows "is_list (unlink r s) (remove1 r xs) \<and> same s (unlink r s) \<and> r \<notin> set (remove1 r xs)"
proof -
  obtain ys zs where "xs = ys @ r # zs" using assms(2) by (metis split_list)
  with assms(1) unlink_law [of s ys r zs] distinct_list [OF assms(1)] show ?thesis
    by (simp add: remove1_append)
qed

lemma move_back:
  assumes "is_list s xs" "r \<in> set xs"
  shows "is_list (atback r (unlink r s)) (remove1 r xs @ [r]) \<and> same s (atback r (unlink r s))"
  using unlink_member [OF assms] atback_law [of "unlink r s" "remove1 r xs" r] member_node [OF assms]
    same_trans by blast

lemma move_front:
  assumes "is_list s xs" "r \<in> set xs"
  shows "is_list (atfront r (unlink r s)) (r # remove1 r xs) \<and> same s (atfront r (unlink r s))"
  using unlink_member [OF assms] atfront_law [of "unlink r s" "remove1 r xs" r] member_node [OF assms]
    same_trans by blast

lemma put_behind:
  assumes "is_list s xs" "a \<in> set xs" "node r" "r \<notin> set xs"
  shows "\<exists>s' ys zs. xs = ys @ a # zs \<and> behind a r s = Some s' \<and> is_list s' (ys @ a # r # zs) \<and> same s s'"
proof -
  obtain ys zs where xs: "xs = ys @ a # zs" using assms(2) by (metis split_list)
  with assms behind_law [of s ys a zs r] show ?thesis by auto
qed

lemma swap_before:
  assumes "is_list s (xs @ a # d # ys)"
  shows "\<exists>s'. before a d (unlink d s) = Some s' \<and> is_list s' (xs @ d # a # ys) \<and> same s s'"
proof -
  have d: "node d" "d \<notin> set (xs @ a # ys)"
    using member_node [OF assms, of d] distinct_list [OF assms] by auto
  have u: "is_list (unlink d s) (xs @ a # ys)" "same s (unlink d s)"
    using unlink_law [of s "xs @ [a]" d ys] assms by simp_all
  from before_law [OF u(1) d] u(2) show ?thesis using same_trans by blast
qed

lemma getnext_member: "is_list s xs \<Longrightarrow> r \<in> set xs \<Longrightarrow> getnext s r = 0 \<or> getnext s r \<in> set xs"
proof -
  assume l: "is_list s xs" and "r \<in> set xs"
  then obtain ys zs where xs: "xs = ys @ r # zs" by (metis split_list)
  have "getnext s r = first_node zs" using getnext_law l xs by simp
  with xs show "getnext s r = 0 \<or> getnext s r \<in> set xs" by (cases zs) simp_all
qed

end

section \<open>The change list of a table\<close>

definition radical_list :: "std_dll_head \<Rightarrow> std_rt_table \<Rightarrow> ptr list \<Rightarrow> bool" where
  "radical_list h s rs \<longleftrightarrow> rtt_clhead s = h \<and> dll h (rt_mem s) (map rdcl_cl rs) \<and> 0 \<notin> set rs"

definition cl_node :: "std_dll_head \<Rightarrow> ptr \<Rightarrow> bool" where
  "cl_node h r \<longleftrightarrow> r \<noteq> 0 \<and> rdcl_cl r \<noteq> head_node h \<and> rdcl_cl r \<noteq> tail_node h"

text \<open>Two tables that differ in the links of the change list only.\<close>

definition same_but_links :: "std_rt_table \<Rightarrow> std_rt_table \<Rightarrow> bool" where
  "same_but_links s s' \<longleftrightarrow> (\<exists>m. s' = s\<lparr>rt_mem := m\<rparr> \<and> contents m = contents (rt_mem s))"

lemma rdcl_cl_inj [simp]: "rdcl_cl a = rdcl_cl b \<longleftrightarrow> a = b" "rdcl_cl ` A = rdcl_cl ` B \<longleftrightarrow> A = B"
  by (auto simp: rdcl_cl_def RDCL_DLLOFFSET_def inj_image_eq_iff inj_def)

lemma rdcl_cl_image [simp]: "rdcl_cl a \<in> rdcl_cl ` A \<longleftrightarrow> a \<in> A"
  by auto

lemma rdcl_cl_not_null [simp]: "rdcl_cl a \<noteq> 0" "0 < rdcl_cl a"
  by (simp_all add: rdcl_cl_def RDCL_DLLOFFSET_def)

lemma HEADFROMDLL_first [simp]: "RDCL_HEADFROMDLL (first_node (map rdcl_cl rs)) = first_node rs"
  by (cases rs) (simp_all add: RDCL_HEADFROMDLL_def rdcl_cl_def RDCL_DLLOFFSET_def)

lemma fresh_cl: "cl_node h r \<Longrightarrow> r \<notin> set rs \<Longrightarrow> fresh h (map rdcl_cl rs) (rdcl_cl r)"
  by (simp add: fresh_def cl_node_def)

lemma same_but_links_simps:
  assumes "same_but_links s s'"
  shows "rth_version s' = rth_version s" "rdcl_flags s' = rdcl_flags s" "rtt_version s' = rtt_version s"
    "RDCL_ISDUMMY s' = RDCL_ISDUMMY s" "rth_rtn s' = rth_rtn s" "rtt_clhead s' = rtt_clhead s"
  using assms by (auto simp: same_but_links_def RDCL_ISDUMMY_def fun_eq_iff)

lemma radical_list_frame [simp]:
  "radical_list h (s\<lparr>rth_version := a\<rparr>) rs = radical_list h s rs"
  "radical_list h (s\<lparr>rdcl_flags := b\<rparr>) rs = radical_list h s rs"
  "radical_list h (s\<lparr>rtt_radicalinuse := c\<rparr>) rs = radical_list h s rs"
  "radical_list h (s\<lparr>rtt_version := d\<rparr>) rs = radical_list h s rs"
  "radical_list h (s\<lparr>rtt_nwraps := e\<rparr>) rs = radical_list h s rs"
  by (simp_all add: radical_list_def)

lemma same_but_linksI:
  "contents m = contents (rt_mem s) \<Longrightarrow> same_but_links s (s\<lparr>rt_mem := m\<rparr>)"
  by (auto simp: same_but_links_def)

interpretation cl: node_list "radical_list h" "cl_node h" same_but_links cl_islinked cl_getfirst cl_getnext
    cl_insertatfront cl_insertatback cl_insertafter cl_insertbefore cl_remove for h
proof
  fix s s' s'' :: std_rt_table and xs ys :: "ptr list" and r a :: ptr
  show "distinct xs" if "radical_list h s xs"
    using that by (auto simp: radical_list_def dll_def distinct_map)
  show "cl_node h r" if "radical_list h s xs" "r \<in> set xs"
    using that by (simp add: radical_list_def dll_def cl_node_def) (metis imageI neq0_conv)
  show "cl_islinked s r" if "radical_list h s xs" "r \<in> set xs"
    using that dll_member_islinked [of h "rt_mem s" "map rdcl_cl xs" "rdcl_cl r"]
    by (simp add: radical_list_def cl_islinked_def)
  show "r \<noteq> 0" if "cl_node h r" using that by (simp add: cl_node_def)
  show "cl_getfirst s = first_node xs" if "radical_list h s xs"
    using that dll_getfirst [of h "rt_mem s" "map rdcl_cl xs"] by (simp add: radical_list_def cl_getfirst_def)
  show "cl_getnext s r = first_node ys" if "radical_list h s (xs @ r # ys)"
    using that dll_getnext [of h "rt_mem s" "map rdcl_cl xs" "rdcl_cl r" "map rdcl_cl ys"]
    by (simp add: radical_list_def cl_getnext_def)
  show "radical_list h (cl_insertatfront r s) (r # xs) \<and> same_but_links s (cl_insertatfront r s)"
    if "radical_list h s xs" "cl_node h r" "r \<notin> set xs"
    using that fresh_cl [OF that(2,3)] dll_insertatfront [of h "rt_mem s" "map rdcl_cl xs" "rdcl_cl r"]
    by (simp add: radical_list_def cl_insertatfront_def cl_node_def same_but_linksI insertatfront_linked_in)
  show "radical_list h (cl_insertatback r s) (xs @ [r]) \<and> same_but_links s (cl_insertatback r s)"
    if "radical_list h s xs" "cl_node h r" "r \<notin> set xs"
    using that fresh_cl [OF that(2,3)] dll_insertatback [of h "rt_mem s" "map rdcl_cl xs" "rdcl_cl r"]
    by (simp add: radical_list_def cl_insertatback_def cl_node_def same_but_linksI insertatback_linked_in)
  show "\<exists>s'. cl_insertafter a r s = Some s' \<and> radical_list h s' (xs @ a # r # ys) \<and> same_but_links s s'"
    if "radical_list h s (xs @ a # ys)" "cl_node h r" "r \<notin> set (xs @ a # ys)"
    using that fresh_cl [OF that(2,3)]
      dll_insertafter [of h "rt_mem s" "map rdcl_cl xs" "rdcl_cl a" "map rdcl_cl ys" "rdcl_cl r"]
    by (auto simp: radical_list_def cl_insertafter_def cl_node_def same_but_linksI)
  show "\<exists>s'. cl_insertbefore a r s = Some s' \<and> radical_list h s' (xs @ r # a # ys) \<and> same_but_links s s'"
    if "radical_list h s (xs @ a # ys)" "cl_node h r" "r \<notin> set (xs @ a # ys)"
    using that fresh_cl [OF that(2,3)]
      dll_insertbefore [of h "rt_mem s" "map rdcl_cl xs" "rdcl_cl a" "map rdcl_cl ys" "rdcl_cl r"]
    by (auto simp: radical_list_def cl_insertbefore_def cl_node_def same_but_linksI)
  show "radical_list h (cl_remove r s) (xs @ ys) \<and> same_but_links s (cl_remove r s)"
    if "radical_list h s (xs @ r # ys)"
    using that dll_remove [of h "rt_mem s" "map rdcl_cl xs" "rdcl_cl r" "map rdcl_cl ys"]
    by (simp add: radical_list_def cl_remove_def same_but_linksI)
  show "same_but_links s s" unfolding same_but_links_def by (rule exI [of _ "rt_mem s"]) simp
  show "same_but_links s s''" if "same_but_links s s'" "same_but_links s' s''"
    using that by (auto simp: same_but_links_def)
qed

end
