(* ===== verification/RadicalOk.thy ===== *)
theory RadicalOk
  imports RadicalList RadixRemove
begin

text \<open>
  The invariant of the change list and what the operations other than the walk do to it: the heads
  are in the order of their versions, and everything behind a marker is newer than the marker.
\<close>

section \<open>The invariant\<close>

abbreviation changed :: "std_rt_table \<Rightarrow> ptr list \<Rightarrow> ptr list" where
  "changed s rs \<equiv> filter (\<lambda>r. \<not> RDCL_ISDUMMY s r) rs"

definition older :: "(ptr \<Rightarrow> bool) \<Rightarrow> (ptr \<Rightarrow> u64) \<Rightarrow> ptr \<Rightarrow> ptr \<Rightarrow> bool" where
  "older D v x y \<longleftrightarrow> D y \<or> v x < v y"

definition radical_ok :: "std_dll_head \<Rightarrow> std_rt_table \<Rightarrow> ptr list \<Rightarrow> bool" where
  "radical_ok h s rs \<longleftrightarrow> radical_list h s rs \<and> sorted_wrt (older (RDCL_ISDUMMY s) (rth_version s)) rs \<and>
     (\<forall>r\<in>set rs. rth_version s r \<le> rtt_version s)"

lemma radical_ok_list: "radical_ok h s rs \<Longrightarrow> radical_list h s rs"
  by (simp add: radical_ok_def)

lemma radical_ok_sorted: "radical_ok h s rs \<Longrightarrow> sorted_wrt (older (RDCL_ISDUMMY s) (rth_version s)) rs"
  by (simp add: radical_ok_def)

lemma sorted_wrt_remove1: "sorted_wrt P xs \<Longrightarrow> sorted_wrt P (remove1 x xs)"
  by (induction xs) (auto dest: notin_set_remove1 set_remove1_subset [THEN subsetD])

lemma older_cong:
  assumes "\<And>r. r \<in> set rs \<Longrightarrow> D' r = D r \<and> v' r = v r"
  shows "sorted_wrt (older D' v') rs = sorted_wrt (older D v) rs"
  using assms by (induction rs) (auto simp: older_def)

lemma radical_ok_links:
  assumes "radical_ok h s rs" "same_but_links s s'" "radical_list h s' rs'"
    and "sorted_wrt (older (RDCL_ISDUMMY s) (rth_version s)) rs'" "set rs' \<subseteq> set rs"
  shows "radical_ok h s' rs'"
  using assms same_but_links_simps [OF assms(2)] by (auto simp: radical_ok_def)

text \<open>A pointer that may become a marker: on the list as a marker, or not linked at all.\<close>

definition marker_free :: "std_dll_head \<Rightarrow> std_rt_table \<Rightarrow> ptr list \<Rightarrow> ptr \<Rightarrow> bool" where
  "marker_free h s rs d \<longleftrightarrow> cl_node h d \<and> (if d \<in> set rs then RDCL_ISDUMMY s d else \<not> cl_islinked s d)"

lemma flag_bits:
  "(f OR RDCL_INCL) AND RDCL_DUMMY = f AND RDCL_DUMMY" "(f OR RDCL_DUMMY) AND RDCL_DUMMY = RDCL_DUMMY"
  "(f OR RDCL_INCL) AND RDCL_INCL = RDCL_INCL" "(f AND NOT RDCL_DUMMY) AND RDCL_DUMMY = 0"
  "RDCL_DUMMY \<noteq> 0" "RDCL_INCL \<noteq> 0"
  for f :: u32
  by (simp_all add: RDCL_INCL_def RDCL_DUMMY_def bit.conj_disj_distrib2 and.assoc)

lemma ISDUMMY_fields:
  "RDCL_ISDUMMY (s\<lparr>rth_version := a\<rparr>) = RDCL_ISDUMMY s" "RDCL_ISDUMMY (s\<lparr>rtt_version := b\<rparr>) = RDCL_ISDUMMY s"
  "RDCL_ISDUMMY (s\<lparr>rtt_radicalinuse := c\<rparr>) = RDCL_ISDUMMY s" "RDCL_ISDUMMY (s\<lparr>rtt_nwraps := e\<rparr>) = RDCL_ISDUMMY s"
  by (simp_all add: RDCL_ISDUMMY_def fun_eq_iff)

lemma ISDUMMY_SETDUMMY: "RDCL_ISDUMMY (RDCL_SETDUMMY d s) = (RDCL_ISDUMMY s)(d := True)"
  by (simp add: RDCL_ISDUMMY_def RDCL_SETDUMMY_def fun_eq_iff flag_bits)

lemma ISDUMMY_CLRDUMMY: "RDCL_ISDUMMY (RDCL_CLRDUMMY d s) = (RDCL_ISDUMMY s)(d := False)"
  by (simp add: RDCL_ISDUMMY_def RDCL_CLRDUMMY_def fun_eq_iff flag_bits)

section \<open>The tree is left alone\<close>

text \<open>What an operation of the change list may write.\<close>

definition list_only :: "std_rt_table \<Rightarrow> std_rt_table \<Rightarrow> bool" where
  "list_only s s' \<longleftrightarrow> (\<exists>m f v ru g w. contents m = contents (rt_mem s) \<and>
     s' = s\<lparr>rt_mem := m, rdcl_flags := f, rth_version := v, rtt_radicalinuse := ru, rtt_version := g, rtt_nwraps := w\<rparr>)"

lemma list_only_table:
  assumes "rdx_table s t" "list_only s s'"
  shows "rdx_table s' t" "routes s' t = routes s t"
proof -
  obtain m f v ru g w where s': "contents m = contents (rt_mem s)"
      "s' = s\<lparr>rt_mem := m, rdcl_flags := f, rth_version := v, rtt_radicalinuse := ru, rtt_version := g, rtt_nwraps := w\<rparr>"
    using assms(2) by (auto simp: list_only_def)
  have "same_nodes s s' (set_tree t)" by (rule same_fields) (simp_all add: s')
  from rdx_table_frame [OF assms(1) this] show "rdx_table s' t" "routes s' t = routes s t"
    by (simp_all add: s')
qed

lemma list_onlyI:
  "s' = s\<lparr>rt_mem := rt_mem s', rdcl_flags := rdcl_flags s', rth_version := rth_version s',
     rtt_radicalinuse := rtt_radicalinuse s', rtt_version := rtt_version s', rtt_nwraps := rtt_nwraps s'\<rparr> \<Longrightarrow>
   contents (rt_mem s') = contents (rt_mem s) \<Longrightarrow> list_only s s'"
  unfolding list_only_def by blast

lemma list_only_trans: "list_only s s' \<Longrightarrow> list_only s' s'' \<Longrightarrow> list_only s s''"
  by (auto simp: list_only_def) blast

lemma list_only_links: "same_but_links s s' \<Longrightarrow> list_only s s'"
  by (auto simp: same_but_links_def intro!: list_onlyI)

lemma list_only_set:
  "list_only s (s\<lparr>rth_version := a\<rparr>)" "list_only s (s\<lparr>rdcl_flags := b\<rparr>)"
  "list_only s (s\<lparr>rtt_radicalinuse := c\<rparr>)"
  by (rule list_onlyI; simp)+

text \<open>A version that does not wrap grows.\<close>

lemma next_version: "v + 1 \<noteq> 0 \<Longrightarrow> v < v + 1" for v :: u64
  using unatSuc [of v] by (simp add: word_less_nat_alt add.commute)

section \<open>Appending a changed head\<close>

definition appended :: "ptr \<Rightarrow> std_rt_table \<Rightarrow> std_rt_table" where
  "appended r s = s\<lparr>rdcl_flags := (rdcl_flags s)(r := rdcl_flags s r OR RDCL_INCL),
     rtt_version := rtt_version s + 1, rth_version := (rth_version s)(r := rtt_version s + 1),
     rtt_nwraps := (if rtt_version s + 1 = 0 then rtt_nwraps s + 1 else rtt_nwraps s)\<rparr>"

lemma append_moves:
  assumes l: "radical_list h s rs" and r: "cl_node h r" "rth_rtn s r \<noteq> 0"
    and incl: "rdcl_flags s r AND RDCL_INCL \<noteq> 0 \<longleftrightarrow> r \<in> set rs"
  shows "\<exists>s1. std_radical_appendtochangelist s r = Some (appended r s1, rtt_version s + 1) \<and>
    radical_list h s1 (remove1 r rs @ [r]) \<and> same_but_links s s1"
proof (cases "r \<in> set rs")
  case True
  let ?s = "cl_insertatback r (cl_remove r s)"
  have m: "radical_list h ?s (remove1 r rs @ [r])" "same_but_links s ?s" using cl.move_back [OF l True] by simp_all
  moreover have "std_radical_appendtochangelist s r = Some (appended r ?s, rtt_version s + 1)"
    using True r incl cl.member_linked [OF l True] same_but_links_simps [OF m(2)]
    by (simp add: std_radical_appendtochangelist_def appended_def)
  ultimately show ?thesis by blast
next
  case False
  let ?s = "cl_insertatback r s"
  have m: "radical_list h ?s (rs @ [r])" "same_but_links s ?s" using cl.atback_law [OF l r(1) False] by simp_all
  moreover have "std_radical_appendtochangelist s r = Some (appended r ?s, rtt_version s + 1)"
    using False r incl same_but_links_simps [OF m(2)]
    by (simp add: std_radical_appendtochangelist_def appended_def)
  ultimately show ?thesis using False by (auto simp: remove1_idem)
qed

lemma appended_ok:
  assumes ok: "radical_ok h s rs" and l: "radical_list h s1 (remove1 r rs @ [r])" and e: "same_but_links s s1"
    and v: "rtt_version s + 1 \<noteq> 0" and r: "\<not> RDCL_ISDUMMY s r"
  shows "radical_ok h (appended r s1) (remove1 r rs @ [r])"
proof -
  have f: "rth_version (appended r s1) = (rth_version s)(r := rtt_version s + 1)"
    "RDCL_ISDUMMY (appended r s1) = RDCL_ISDUMMY s" "rtt_version (appended r s1) = rtt_version s + 1"
    using same_but_links_simps [OF e] by (auto simp: appended_def RDCL_ISDUMMY_def fun_eq_iff flag_bits)
  have lt: "rtt_version s < rtt_version s + 1" by (rule next_version [OF v])
  have ne: "x \<noteq> r" "x \<in> set rs" if "x \<in> set (remove1 r rs)" for x
    using that cl.distinct_list [OF radical_ok_list [OF ok]] by auto
  have le: "\<forall>x\<in>set (remove1 r rs). x \<noteq> r \<and> rth_version s x < rtt_version s + 1"
  proof
    fix x assume "x \<in> set (remove1 r rs)"
    from ne [OF this] ok show "x \<noteq> r \<and> rth_version s x < rtt_version s + 1"
      using le_less_trans [OF _ lt] by (auto simp: radical_ok_def)
  qed
  have "sorted_wrt (older (RDCL_ISDUMMY s) ((rth_version s)(r := rtt_version s + 1))) (remove1 r rs)"
    by (rule older_cong [THEN iffD2, OF _ sorted_wrt_remove1 [OF radical_ok_sorted [OF ok]]]) (use le in simp)
  then have "sorted_wrt (older (RDCL_ISDUMMY s) ((rth_version s)(r := rtt_version s + 1))) (remove1 r rs @ [r])"
    using le by (simp add: sorted_wrt_append older_def)
  moreover have "radical_list h (appended r s1) (remove1 r rs @ [r])" using l by (simp add: appended_def)
  moreover have "\<forall>x\<in>set (remove1 r rs @ [r]). ((rth_version s)(r := rtt_version s + 1)) x \<le> rtt_version s + 1"
    using le by auto
  ultimately show ?thesis unfolding radical_ok_def f by simp
qed

section \<open>Markers\<close>

lemma marker_at:
  assumes ok: "radical_ok h s rs" and split: "remove1 d rs = xs @ ys" and l: "radical_list h s' (xs @ d # ys)"
    and newer: "\<And>y. y \<in> set ys \<Longrightarrow> RDCL_ISDUMMY s y \<or> v < rth_version s y" and v: "v \<le> rtt_version s"
    and f: "RDCL_ISDUMMY s' = (RDCL_ISDUMMY s)(d := True)" "rth_version s' = (rth_version s)(d := v)"
      "rtt_version s' = rtt_version s"
  shows "radical_ok h s' (xs @ d # ys)"
proof -
  have d: "d \<notin> set xs" "d \<notin> set ys" using cl.distinct_list [OF l] by auto
  have "sorted_wrt (older (RDCL_ISDUMMY s) (rth_version s)) (xs @ ys)"
    using sorted_wrt_remove1 [OF radical_ok_sorted [OF ok], of d] split by simp
  then have "sorted_wrt (older (RDCL_ISDUMMY s') (rth_version s')) (xs @ ys)"
    by (rule older_cong [THEN iffD2, rotated]) (use d f in auto)
  moreover have "older (RDCL_ISDUMMY s') (rth_version s') d y" if "y \<in> set ys" for y
    using newer [OF that] that d by (auto simp: older_def f)
  moreover have "older (RDCL_ISDUMMY s') (rth_version s') x d" for x by (simp add: older_def f)
  ultimately have "sorted_wrt (older (RDCL_ISDUMMY s') (rth_version s')) (xs @ d # ys)"
    by (simp add: sorted_wrt_append)
  moreover have "rth_version s' x \<le> rtt_version s'" if "x \<in> set (xs @ d # ys)" for x
  proof (cases "x = d")
    case False
    then have "x \<in> set rs" using that split set_remove1_subset [of d rs] by auto
    with ok False show ?thesis by (simp add: radical_ok_def f)
  qed (simp add: f v)
  ultimately show ?thesis using l by (simp add: radical_ok_def)
qed

lemma unlink_if_linked:
  assumes l: "radical_list h s rs" and d: "d \<in> set rs \<or> \<not> cl_islinked s d"
  shows "radical_list h (if cl_islinked s d then cl_remove d s else s) (remove1 d rs)"
    and "same_but_links s (if cl_islinked s d then cl_remove d s else s)" "d \<notin> set (remove1 d rs)"
proof -
  have e: "cl_islinked s d \<longleftrightarrow> d \<in> set rs" using d cl.member_linked [OF l] by auto
  show "radical_list h (if cl_islinked s d then cl_remove d s else s) (remove1 d rs)"
    and "same_but_links s (if cl_islinked s d then cl_remove d s else s)" "d \<notin> set (remove1 d rs)"
    using cl.unlink_member [OF l, of d] l cl.same_refl by (simp_all add: e remove1_idem)
      (use cl.distinct_list [OF l] in auto)
qed

lemma marker_unlinked:
  assumes "radical_ok h s rs" "marker_free h s rs d"
  shows "radical_list h (if cl_islinked s d then cl_remove d s else s) (remove1 d rs)"
    and "same_but_links s (if cl_islinked s d then cl_remove d s else s)" "d \<notin> set (remove1 d rs)" "cl_node h d"
    and "(RDCL_ISDUMMY s d \<and> cl_islinked s d) = cl_islinked s d" "d \<noteq> 0"
  using assms cl.unlink_member [OF radical_ok_list [OF assms(1)], of d]
    cl.member_linked [OF radical_ok_list [OF assms(1)], of d] cl.same_refl
  by (auto simp: marker_free_def remove1_idem radical_ok_def cl_node_def split: if_splits)

lemma SETDUMMY_fields:
  "radical_list h (RDCL_SETDUMMY d s) rs = radical_list h s rs" "rth_version (RDCL_SETDUMMY d s) = rth_version s"
  "rtt_version (RDCL_SETDUMMY d s) = rtt_version s" "list_only s (RDCL_SETDUMMY d s)"
  by (simp_all add: RDCL_SETDUMMY_def list_only_set)

text \<open>A marker that is linked in somewhere, set up and counted.\<close>

lemma marker_set_up:
  assumes ok: "radical_ok h s rs" and e: "same_but_links s s1" "same_but_links (RDCL_SETDUMMY d s1) s2"
    and split: "remove1 d rs = xs @ ys" and l: "radical_list h s2 (xs @ d # ys)"
    and newer: "\<And>y. y \<in> set ys \<Longrightarrow> RDCL_ISDUMMY s y \<or> v < rth_version s y" and v: "v \<le> rtt_version s"
    and s'_def: "s' = (set_rth_version d v s2)\<lparr>rtt_radicalinuse := n\<rparr>"
  shows "radical_ok h s' (xs @ d # ys)" "list_only s s'" "RDCL_ISDUMMY s' d" "rth_version s' d = v"
proof -
  note f = same_but_links_simps [OF e(1)] same_but_links_simps [OF e(2)]
  have g: "RDCL_ISDUMMY s' = (RDCL_ISDUMMY s)(d := True)" "rth_version s' = (rth_version s)(d := v)"
    "rtt_version s' = rtt_version s"
    by (simp_all add: s'_def ISDUMMY_fields f ISDUMMY_SETDUMMY SETDUMMY_fields)
  show "radical_ok h s' (xs @ d # ys)"
    by (rule marker_at [OF ok split _ newer v g]) (use l in \<open>simp_all add: s'_def\<close>)
  have "list_only s s2"
    by (rule list_only_trans [OF list_only_links [OF e(1)] list_only_trans [OF SETDUMMY_fields(4) list_only_links [OF e(2)]]])
  then show "list_only s s'" unfolding s'_def
    by (rule list_only_trans [OF list_only_trans [OF _ list_only_set(1)] list_only_set(3)])
  show "RDCL_ISDUMMY s' d" "rth_version s' d = v" by (simp_all add: g)
qed

lemma walkconstructor_ok:
  assumes ok: "radical_ok h s rs" and d: "marker_free h s rs d" and pos: "\<forall>r\<in>set rs. RDCL_ISDUMMY s r \<or> 0 < rth_version s r"
  shows "\<exists>s'. std_radical_walkconstructor s d = Some s' \<and> radical_ok h s' (d # remove1 d rs) \<and> list_only s s' \<and>
    RDCL_ISDUMMY s' d \<and> rth_version s' d = 0"
proof -
  note u = marker_unlinked [OF ok d]
  let ?s1 = "if cl_islinked s d then cl_remove d s else s"
  let ?s2 = "cl_insertatfront d (RDCL_SETDUMMY d ?s1)"
  have "radical_list h ?s2 (d # remove1 d rs) \<and> same_but_links (RDCL_SETDUMMY d ?s1) ?s2"
    by (rule cl.atfront_law) (use u in \<open>simp_all add: SETDUMMY_fields\<close>)
  then have l: "radical_list h ?s2 ([] @ d # remove1 d rs)" "same_but_links (RDCL_SETDUMMY d ?s1) ?s2"
    and split: "remove1 d rs = [] @ remove1 d rs" by simp_all
  have "RDCL_ISDUMMY s y \<or> 0 < rth_version s y" if "y \<in> set (remove1 d rs)" for y
    using pos that set_remove1_subset [of d rs] by blast
  note m = marker_set_up [OF ok u(2) l(2) split l(1) this word_zero_le refl, unfolded append_Nil]
  have "std_radical_walkconstructor s d = Some (set_rth_version d 0 ?s2\<lparr>rtt_radicalinuse := rtt_radicalinuse ?s2 + 1\<rparr>)"
    by (simp add: std_radical_walkconstructor_def u(5,6) Let_def)
  with m show ?thesis by blast
qed


lemma walkconstructorafter_ok:
  assumes ok: "radical_ok h s rs" and d: "cl_node h d" "d \<in> set rs \<or> \<not> cl_islinked s d"
    and a: "a \<in> set rs" "RDCL_ISDUMMY s a" "a \<noteq> d"
  shows "\<exists>s' xs ys. std_radical_walkconstructorafter s a d = Some s' \<and> remove1 d rs = xs @ a # ys \<and>
    radical_ok h s' (xs @ a # d # ys) \<and> list_only s s' \<and> RDCL_ISDUMMY s' d \<and> rth_version s' d = rth_version s a"
proof -
  note l = radical_ok_list [OF ok]
  let ?s1 = "if cl_islinked s d then cl_remove d s else s"
  have u: "radical_list h ?s1 (remove1 d rs)" "same_but_links s ?s1" "d \<notin> set (remove1 d rs)"
    by (rule unlink_if_linked [OF l d(2)])+
  have "a \<in> set (remove1 d rs)" using a by simp
  from cl.put_behind [of h "RDCL_SETDUMMY d ?s1", OF _ this d(1) u(3)] u(1)
  obtain s2 xs ys where s2: "remove1 d rs = xs @ a # ys" "cl_insertafter a d (RDCL_SETDUMMY d ?s1) = Some s2"
      "radical_list h s2 (xs @ a # d # ys)" "same_but_links (RDCL_SETDUMMY d ?s1) s2"
    by (auto simp: SETDUMMY_fields)
  have split: "remove1 d rs = (xs @ [a]) @ ys" and l2: "radical_list h s2 ((xs @ [a]) @ d # ys)"
    using s2 by simp_all
  have newer: "RDCL_ISDUMMY s y \<or> rth_version s a < rth_version s y" if "y \<in> set ys" for y
    using sorted_wrt_remove1 [OF radical_ok_sorted [OF ok], of d] that unfolding s2(1)
    by (auto simp: sorted_wrt_append older_def)
  have v: "rth_version s a \<le> rtt_version s" using ok a(1) by (simp add: radical_ok_def)
  note m = marker_set_up [OF ok u(2) s2(4) split l2 newer v refl]
  have "rth_version s2 a = rth_version s a"
    using same_but_links_simps [OF u(2)] same_but_links_simps [OF s2(4)] by (simp add: SETDUMMY_fields)
  then have "std_radical_walkconstructorafter s a d =
      Some (set_rth_version d (rth_version s a) s2\<lparr>rtt_radicalinuse := rtt_radicalinuse s2 + 1\<rparr>)"
    using a d(1) s2(2) cl.member_linked [OF l a(1)] cl.node_not_null [OF cl.member_node [OF l a(1)]] cl.node_not_null [of h d]
    by (auto simp: std_radical_walkconstructorafter_def Let_def)
  with m s2(1) show ?thesis by auto
qed

lemma walkdestructor_ok:
  assumes ok: "radical_ok h s rs" and d: "cl_node h d" "d \<in> set rs \<or> \<not> cl_islinked s d"
  shows "\<exists>s'. std_radical_walkdestructor s d = Some s' \<and> radical_ok h s' (remove1 d rs) \<and> list_only s s' \<and>
    \<not> RDCL_ISDUMMY s' d"
proof -
  let ?s = "RDCL_CLRDUMMY d s"
  let ?s1 = "if cl_islinked ?s d then cl_remove d ?s else ?s"
  have l: "radical_list h ?s rs" using radical_ok_list [OF ok] by (simp add: RDCL_CLRDUMMY_def)
  have k: "cl_islinked ?s d = cl_islinked s d" by (simp add: RDCL_CLRDUMMY_def cl_islinked_def)
  have u: "radical_list h ?s1 (remove1 d rs)" "same_but_links ?s ?s1" "d \<notin> set (remove1 d rs)"
    by (rule unlink_if_linked [OF l]; use d(2) k in simp)+
  let ?s' = "?s1\<lparr>rtt_radicalinuse := rtt_radicalinuse ?s1 - 1\<rparr>"
  have f: "RDCL_ISDUMMY ?s' = (RDCL_ISDUMMY s)(d := False)" "rth_version ?s' = rth_version s" "rtt_version ?s' = rtt_version s"
    using same_but_links_simps [OF u(2)] by (simp_all add: ISDUMMY_fields ISDUMMY_CLRDUMMY) (simp_all add: RDCL_CLRDUMMY_def)
  have "sorted_wrt (older (RDCL_ISDUMMY ?s') (rth_version ?s')) (remove1 d rs)" unfolding f
    by (rule older_cong [THEN iffD2, OF _ sorted_wrt_remove1 [OF radical_ok_sorted [OF ok]]]) (use u(3) in auto)
  moreover have "\<forall>r\<in>set (remove1 d rs). rth_version ?s' r \<le> rtt_version ?s'"
    using ok set_remove1_subset [of d rs] unfolding f by (auto simp: radical_ok_def)
  ultimately have "radical_ok h ?s' (remove1 d rs)" using u(1) unfolding radical_ok_def by simp
  moreover have "list_only s ?s'"
    by (rule list_only_trans [OF list_only_trans [OF _ list_only_links [OF u(2)]] list_only_set(3)])
      (simp add: RDCL_CLRDUMMY_def list_only_set)
  moreover have "std_radical_walkdestructor s d = Some ?s'"
    using cl.node_not_null [OF d(1)] by (simp add: std_radical_walkdestructor_def Let_def)
  moreover have "\<not> RDCL_ISDUMMY ?s' d" by (simp add: f(1))
  ultimately show ?thesis by blast
qed

section \<open>Iteration over the changed heads\<close>

lemma skip_dummies_first:
  assumes "radical_list h s (xs @ ys)"
  shows "skip_dummies s (first_node ys) = Some (first_node (changed s ys))"
  using assms
proof (induction ys arbitrary: xs)
  case Nil
  then show ?case by (simp add: skip_dummies.simps)
next
  case (Cons y ys)
  have "y \<noteq> 0" using cl.null_not_member [OF Cons.prems] by auto
  moreover have "cl_getnext s y = first_node ys" using cl.getnext_law [OF Cons.prems] .
  ultimately show ?case
    using Cons.IH [of "xs @ [y]"] Cons.prems by (simp add: skip_dummies.simps [of s y])
qed

lemma nextversion_first:
  assumes "radical_list h s (xs @ y # ys)"
  shows "nextversion_loop s y = Some (case changed s (y # ys) of [] \<Rightarrow> 0 | r # _ \<Rightarrow> rth_version s r)"
  using assms
proof (induction ys arbitrary: xs y)
  case Nil
  then show ?case using cl.getnext_law [OF Nil] by (simp add: nextversion_loop.simps)
next
  case (Cons z ys)
  have "z \<noteq> 0" using cl.null_not_member [OF Cons.prems] by auto
  moreover have "cl_getnext s y = z" using cl.getnext_law [OF Cons.prems] by simp
  ultimately show ?case
    using Cons.IH [of "xs @ [y]" z] Cons.prems by (simp add: nextversion_loop.simps [of s y])
qed

section \<open>New versions\<close>

lemma sorted_wrt_splits: "sorted_wrt P rs \<longleftrightarrow> (\<forall>xs x ys. rs = xs @ x # ys \<longrightarrow> (\<forall>y\<in>set ys. P x y))"
proof (induction rs)
  case Nil
  then show ?case by simp
next
  case (Cons r rs)
  have "(\<forall>xs x ys. r # rs = xs @ x # ys \<longrightarrow> (\<forall>y\<in>set ys. P x y)) \<longleftrightarrow>
      (\<forall>y\<in>set rs. P r y) \<and> (\<forall>xs x ys. rs = xs @ x # ys \<longrightarrow> (\<forall>y\<in>set ys. P x y))"
    by (auto simp: Cons_eq_append_conv)
  with Cons show ?case by simp
qed

text \<open>The versions after the list has been numbered afresh from \<open>v\<close>.\<close>

fun painted :: "(ptr \<Rightarrow> bool) \<Rightarrow> u64 \<Rightarrow> ptr list \<Rightarrow> (ptr \<Rightarrow> u64) \<Rightarrow> ptr \<Rightarrow> u64" where
  "painted D v [] f = f"
| "painted D v (r # rs) f = (let v = (if D r then v else v + 1) in painted D v rs (f(r := v)))"

lemma procverwrap_paints:
  assumes "radical_list h s (xs @ ys)"
  shows "procverwrap_loop (first_node ys) v s =
    Some (s\<lparr>rth_version := painted (RDCL_ISDUMMY s) v ys (rth_version s)\<rparr>, v + of_nat (length (changed s ys)))"
  using assms
proof (induction ys arbitrary: xs v s)
  case Nil
  then show ?case by (simp add: procverwrap_loop.simps)
next
  case (Cons y ys)
  let ?v = "if RDCL_ISDUMMY s y then v else v + 1"
  let ?s = "set_rth_version y ?v s"
  have y: "y \<noteq> 0" using cl.null_not_member [OF Cons.prems] by auto
  have l: "radical_list h ?s ((xs @ [y]) @ ys)" using Cons.prems by simp
  have n: "cl_getnext (set_rth_version y w s) y = first_node ys" for w
    by (rule cl.getnext_law [of h _ xs]) (use Cons.prems in simp)
  have "procverwrap_loop (first_node (y # ys)) v s = procverwrap_loop (first_node ys) ?v ?s"
    using y n by (simp add: procverwrap_loop.simps [of y])
  then show ?case using Cons.IH [OF l, of ?v] by (cases "RDCL_ISDUMMY s y") (simp_all add: ISDUMMY_fields Let_def fun_upd_def)
qed

lemma painted_other: "r \<notin> set rs \<Longrightarrow> painted D v rs f r = f r"
  by (induction D v rs f rule: painted.induct) (simp_all add: Let_def)

lemma painted_values:
  assumes "distinct (xs @ r # ys)"
  shows "painted D v (xs @ r # ys) f r = v + of_nat (length (filter (\<lambda>x. \<not> D x) (xs @ [r])))"
  using assms
proof (induction xs arbitrary: v f)
  case Nil
  then show ?case by (simp add: Let_def painted_other)
next
  case (Cons x xs)
  then show ?case by (simp add: Let_def algebra_simps)
qed

lemma procverwrap_ok:
  assumes l: "radical_list h s rs" and n: "length (changed s rs) < 2 ^ 64"
  shows "\<exists>s' v. std_radical_procverwrap s = Some (s', v) \<and> v = of_nat (length (changed s rs)) \<and>
    radical_ok h (s'\<lparr>rtt_version := v\<rparr>) rs \<and> list_only s s' \<and> changed s' rs = changed s rs \<and>
    (\<forall>xs r ys. rs = xs @ r # ys \<longrightarrow> rth_version s' r = of_nat (length (changed s (xs @ [r]))))"
proof -
  let ?D = "RDCL_ISDUMMY s" and ?v = "of_nat (length (changed s rs)) :: u64"
  let ?s' = "s\<lparr>rth_version := painted ?D 0 rs (rth_version s)\<rparr>"
  have ret: "std_radical_procverwrap s = Some (?s', ?v)"
    using procverwrap_paints [of h s "[]" rs 0] cl.first_law [OF l] l by (simp add: std_radical_procverwrap_def)
  have val: "rth_version ?s' r = of_nat (length (changed s (xs @ [r])))" if "rs = xs @ r # ys" for xs r ys
    using painted_values [of xs r ys ?D 0] cl.distinct_list [OF l] that by simp
  have small: "unat (of_nat k :: u64) = k" if "k \<le> length (changed s rs)" for k
    using that n by (simp add: unat_of_nat take_bit_nat_eq_self)
  have num: "unat (rth_version ?s' r) = length (changed s (xs @ [r]))" if "rs = xs @ r # ys" for xs r ys
  proof -
    have "length (changed s (xs @ [r])) \<le> length (changed s rs)" by (simp add: that)
    from small [OF this] show ?thesis unfolding val [OF that] .
  qed
  have "older ?D (rth_version ?s') x y" if "rs = xs @ x # ys" "y \<in> set ys" for xs x ys y
  proof (cases "?D y")
    case False
    obtain us vs where "ys = us @ y # vs" using \<open>y \<in> set ys\<close> by (metis split_list)
    with that(1) have "rs = (xs @ x # us) @ y # vs" by simp
    from num [OF this] num [OF that(1)] False have "unat (rth_version ?s' x) < unat (rth_version ?s' y)"
      by (simp del: std_rt_table.simps)
    then show ?thesis by (simp add: older_def word_less_nat_alt)
  qed (simp add: older_def)
  then have sorted: "sorted_wrt (older ?D (rth_version ?s')) rs" by (simp only: sorted_wrt_splits) blast
  have "rth_version ?s' r \<le> ?v" if r: "r \<in> set rs" for r
  proof -
    obtain xs ys where rs: "rs = xs @ r # ys" using r by (metis split_list)
    have "length (changed s (xs @ [r])) \<le> length (changed s rs)" by (simp add: rs)
    then have "unat (rth_version ?s' r) \<le> unat ?v" unfolding num [OF rs] small [OF order.refl] .
    then show ?thesis by (simp add: word_le_nat_alt)
  qed
  with sorted have "radical_ok h (?s'\<lparr>rtt_version := ?v\<rparr>) rs"
    using l by (simp add: radical_ok_def ISDUMMY_fields)
  moreover have "list_only s ?s'" "changed ?s' rs = changed s rs" by (simp_all add: list_only_set ISDUMMY_fields)
  ultimately show ?thesis using ret val by blast
qed

end
