(* ===== verification/RadicalWalk.thy ===== *)
theory RadicalWalk
  imports RadicalOk
begin

text \<open>
  The walk over the change list: it returns whatever its callback does within a contract, keeps the
  invariant, and with a callback that leaves the table alone visits exactly the heads behind its
  marker, in order, up to the given version and number.
\<close>

section \<open>A walk on its way\<close>

text \<open>
  Between two callbacks the marker \<open>d\<close> is off the list; the list is \<open>xs @ ys\<close>, the walk is about to
  look at \<open>ys\<close>, and the marker's version is older than every head there.
\<close>

definition walk_at :: "std_dll_head \<Rightarrow> std_rt_table \<Rightarrow> ptr \<Rightarrow> ptr list \<Rightarrow> ptr list \<Rightarrow> bool" where
  "walk_at h s d xs ys \<longleftrightarrow> radical_ok h s (xs @ ys) \<and> cl_node h d \<and> d \<notin> set (xs @ ys) \<and> RDCL_ISDUMMY s d \<and>
     rth_version s d \<le> rtt_version s \<and> (\<forall>y\<in>set (changed s ys). rth_version s d < rth_version s y)"

lemma walk_at_list: "walk_at h s d xs ys \<Longrightarrow> radical_list h s (xs @ ys)"
  by (simp add: walk_at_def radical_ok_def)

lemma walk_at_shift: "walk_at h s d xs (y # ys) \<Longrightarrow> walk_at h s d (xs @ [y]) ys"
  by (simp add: walk_at_def)

lemma first_node_member: "radical_list h s (xs @ y # ys) \<Longrightarrow> y \<noteq> 0"
  using cl.null_not_member by fastforce

text \<open>The marker is put on the list, between \<open>xs\<close> and \<open>ys\<close>, with a version older than what follows.\<close>

lemma walk_at_place:
  assumes w: "walk_at h s d xs ys" and v: "v \<le> rtt_version s" "\<And>y. y \<in> set (changed s ys) \<Longrightarrow> v < rth_version s y"
    and l: "radical_list h s' (xs @ d # ys)" and e: "same_but_links (set_rth_version d v s) s'"
  shows "radical_ok h s' (xs @ d # ys)" "RDCL_ISDUMMY s' = RDCL_ISDUMMY s" "rth_version s' = (rth_version s)(d := v)"
    "rtt_version s' = rtt_version s"
proof -
  show f: "RDCL_ISDUMMY s' = RDCL_ISDUMMY s" "rth_version s' = (rth_version s)(d := v)" "rtt_version s' = rtt_version s"
    using same_but_links_simps [OF e] by (simp_all add: ISDUMMY_fields)
  have ok: "radical_ok h s (xs @ ys)" and d: "d \<notin> set (xs @ ys)" "RDCL_ISDUMMY s d"
    using w by (simp_all add: walk_at_def)
  show "radical_ok h s' (xs @ d # ys)"
  proof (rule marker_at [OF ok _ l _ v(1) _ f(2,3)])
    show "remove1 d (xs @ ys) = xs @ ys" using d(1) by (simp add: remove1_idem)
    show "RDCL_ISDUMMY s y \<or> v < rth_version s y" if "y \<in> set ys" for y using v(2) [of y] that by auto
    show "RDCL_ISDUMMY s' = (RDCL_ISDUMMY s)(d := True)" using d(2) unfolding f(1) by (simp add: fun_upd_idem)
  qed
qed

lemma walk_finish_end:
  assumes "walk_at h s d xs []"
  shows "\<exists>s'. walk_finish d max_ver 0 s = Some s' \<and> radical_ok h s' (xs @ [d]) \<and>
    RDCL_ISDUMMY s' = RDCL_ISDUMMY s \<and> rth_version s' = (rth_version s)(d := rtt_version s) \<and> rtt_version s' = rtt_version s"
proof -
  let ?s = "set_rth_version d (rtt_version s) s"
  have "radical_list h ?s xs" "cl_node h d" "d \<notin> set xs" using assms by (simp_all add: walk_at_def radical_ok_def)
  from cl.atback_law [OF this] have "radical_list h (cl_insertatback d ?s) (xs @ [d])" "same_but_links ?s (cl_insertatback d ?s)"
    by simp_all
  from walk_at_place [OF assms _ _ this] show ?thesis by (simp add: walk_finish_def)
qed

lemma radical_ok_tail:
  assumes "radical_ok h s (xs @ t # ys)" "v < rth_version s t" "y \<in> set (changed s (t # ys))"
  shows "v < rth_version s y"
proof (cases "y = t")
  case False
  then have "y \<in> set ys" "\<not> RDCL_ISDUMMY s y" using assms(3) by (auto split: if_splits)
  then have "rth_version s t < rth_version s y"
    using radical_ok_sorted [OF assms(1)] by (auto simp: sorted_wrt_append older_def)
  with assms(2) show ?thesis by (rule less_trans)
qed (use assms in simp)

lemma walk_finish_max:
  assumes w: "walk_at h s d xs (t # ys)" and t: "max_ver < rth_version s t"
  shows "\<exists>s'. walk_finish d max_ver t s = Some s' \<and> radical_ok h s' (xs @ d # t # ys) \<and>
    RDCL_ISDUMMY s' = RDCL_ISDUMMY s \<and> rth_version s' = (rth_version s)(d := max_ver) \<and> rtt_version s' = rtt_version s"
proof -
  let ?s = "set_rth_version d max_ver s"
  have ok: "radical_ok h s (xs @ t # ys)" using w by (simp add: walk_at_def)
  have "radical_list h ?s (xs @ t # ys)" "cl_node h d" "d \<notin> set (xs @ t # ys)"
    using w by (simp_all add: walk_at_def radical_ok_def)
  from cl.before_law [OF this] obtain s' where s': "cl_insertbefore t d ?s = Some s'"
      "radical_list h s' (xs @ d # t # ys)" "same_but_links ?s s'" by blast
  have "max_ver \<le> rtt_version s"
    using ok t less_imp_le less_le_trans by (fastforce simp: radical_ok_def)
  note p = walk_at_place [OF w this radical_ok_tail [OF ok t] s'(2,3)]
  have "walk_finish d max_ver t s = Some s'" using s'(1) first_node_member [OF walk_at_list [OF w]] by (simp add: walk_finish_def)
  with p show ?thesis by blast
qed

text \<open>The marker behind the head whose callback is about to run.\<close>

lemma walk_call:
  assumes w: "walk_at h s d xs (t # ys)" and t: "\<not> RDCL_ISDUMMY s t"
  shows "\<exists>s'. cl_insertafter t d s = Some s' \<and> radical_ok h s' (xs @ t # d # ys) \<and> same_but_links s s' \<and>
    rth_version s' d < rth_version s' t"
proof -
  have "radical_list h s (xs @ t # ys)" "cl_node h d" "d \<notin> set (xs @ t # ys)"
    using w by (simp_all add: walk_at_def radical_ok_def)
  from cl.behind_law [OF this] obtain s' where s': "cl_insertafter t d s = Some s'"
      "radical_list h s' (xs @ t # d # ys)" "same_but_links s s'" by blast
  have lt: "rth_version s d < rth_version s t" using w t by (simp add: walk_at_def)
  have w': "walk_at h s d (xs @ [t]) ys" using w by (rule walk_at_shift)
  have "radical_ok h s' ((xs @ [t]) @ d # ys)"
    by (rule walk_at_place(1) [OF w', of "rth_version s d"]) (use w' s' in \<open>auto simp: walk_at_def\<close>)
  then show ?thesis using s' lt same_but_links_simps [OF s'(3)] by auto
qed

text \<open>The marker moved in front of a head that is to be visited again.\<close>

lemma walk_stop_revisit:
  assumes ok: "radical_ok h s (xs @ t # d # ys)" and lt: "rth_version s d < rth_version s t" and c: "c < 0"
  shows "\<exists>s'. walk_stop d t c s = Some s' \<and> radical_ok h s' (xs @ d # t # ys) \<and> same_but_links s s'"
proof -
  note l = radical_ok_list [OF ok]
  from cl.swap_before [OF l] obtain s' where s': "cl_insertbefore t d (cl_remove d s) = Some s'"
      "radical_list h s' (xs @ d # t # ys)" "same_but_links s s'" by blast
  have "cl_islinked s t" using cl.member_linked [OF l, of t] by simp
  then have "walk_stop d t c s = Some s'" using s'(1) c by (simp add: walk_stop_def)
  moreover have "sorted_wrt (older (RDCL_ISDUMMY s) (rth_version s)) (xs @ d # t # ys)"
    using radical_ok_sorted [OF ok] lt by (auto simp: sorted_wrt_append older_def)
  then have "radical_ok h s' (xs @ d # t # ys)" using radical_ok_links [OF ok s'(3,2)] by auto
  ultimately show ?thesis using s'(3) by blast
qed

text \<open>The marker taken off the list for the next step.\<close>

lemma walk_on:
  assumes ok: "radical_ok h s (xs @ d # ys)" and d: "RDCL_ISDUMMY s d"
  shows "walk_at h (cl_remove d s) d xs ys" "same_but_links s (cl_remove d s)" "cl_getnext s d = first_node ys"
proof -
  note l = radical_ok_list [OF ok]
  have u: "radical_list h (cl_remove d s) (xs @ ys)" "same_but_links s (cl_remove d s)" using cl.unlink_law [OF l] by simp_all
  show "same_but_links s (cl_remove d s)" by (rule u(2))
  show "cl_getnext s d = first_node ys" by (rule cl.getnext_law [OF l])
  have s: "sorted_wrt (older (RDCL_ISDUMMY s) (rth_version s)) (xs @ d # ys)" by (rule radical_ok_sorted [OF ok])
  then have "radical_ok h (cl_remove d s) (xs @ ys)"
    by (intro radical_ok_links [OF ok u(2,1)]) (auto simp: sorted_wrt_append)
  moreover have "cl_node h d" using cl.member_node [OF l] by simp
  moreover have "d \<notin> set (xs @ ys)" using cl.distinct_list [OF l] by auto
  moreover have "rth_version s d \<le> rtt_version s" using ok by (simp add: radical_ok_def)
  moreover have "\<forall>y\<in>set (changed s ys). rth_version s d < rth_version s y"
    using s by (auto simp: sorted_wrt_append older_def)
  ultimately show "walk_at h (cl_remove d s) d xs ys"
    using d unfolding walk_at_def same_but_links_simps [OF u(2)] by simp
qed

section \<open>The walk returns\<close>

text \<open>
  What a callback may do: anything to the list that keeps the invariant and its marker in place,
  with everything behind the marker newer than the head visited. It may remove that head, move it
  to the end as a new change, append or remove others, or place other markers. A negative answer
  asks for another visit: the head must still be there, in front of the marker.
\<close>

definition visit_keeps :: "std_dll_head \<Rightarrow> ptr \<Rightarrow> ptr \<Rightarrow> std_rt_table \<Rightarrow> std_rt_table \<Rightarrow> int \<Rightarrow> ptr list \<Rightarrow> ptr list \<Rightarrow> bool" where
  "visit_keeps h d r s s' c xs ys \<longleftrightarrow>
     radical_ok h s' (xs @ d # ys) \<and> RDCL_ISDUMMY s' d \<and> rth_version s' d = rth_version s d \<and>
     (\<forall>y\<in>set (changed s' ys). rth_version s r < rth_version s' y) \<and> rth_version s r \<le> rtt_version s' \<and>
     (c < 0 \<longrightarrow> (\<exists>zs. xs = zs @ [r]) \<and> rth_version s' r = rth_version s r)"

definition walk_keeps :: "std_dll_head \<Rightarrow> ptr \<Rightarrow> 'u radical_walk_fn \<Rightarrow> bool" where
  "walk_keeps h d cb \<longleftrightarrow> (\<forall>u s xs r ys u' s' c.
     radical_ok h s (xs @ r # d # ys) \<longrightarrow> RDCL_ISDUMMY s d \<longrightarrow> \<not> RDCL_ISDUMMY s r \<longrightarrow> cb u s r = (u', s', c) \<longrightarrow>
     (\<exists>xs' ys'. visit_keeps h d r s s' c xs' ys'))"

text \<open>The version of the head visited becomes the marker's.\<close>

lemma marker_version:
  assumes ok: "radical_ok h s (xs @ d # ys)" and d: "RDCL_ISDUMMY s d"
    and v: "\<forall>y\<in>set (changed s ys). v < rth_version s y" "v \<le> rtt_version s"
  shows "radical_ok h (set_rth_version d v s) (xs @ d # ys)"
proof (rule marker_at [OF ok])
  have "distinct (xs @ d # ys)" using cl.distinct_list [OF radical_ok_list [OF ok]] .
  then show "remove1 d (xs @ d # ys) = xs @ ys" by (simp add: remove1_append)
  show "RDCL_ISDUMMY s y \<or> v < rth_version s y" if "y \<in> set ys" for y using v(1) that by auto
  show "RDCL_ISDUMMY (set_rth_version d v s) = (RDCL_ISDUMMY s)(d := True)"
    using d by (simp add: ISDUMMY_fields fun_upd_idem)
qed (use ok v radical_ok_list [OF ok] in \<open>simp_all add: radical_ok_def\<close>)

definition walk_done :: "std_dll_head \<Rightarrow> ptr \<Rightarrow> ('u \<times> std_rt_table \<times> int) option \<Rightarrow> bool" where
  "walk_done h d res \<longleftrightarrow> (\<exists>u s c xs ys. res = Some (u, s, c) \<and> radical_ok h s (xs @ d # ys) \<and> RDCL_ISDUMMY s d)"

lemma walk_doneI: "res = Some (u, s, c) \<Longrightarrow> radical_ok h s (xs @ d # ys) \<Longrightarrow> RDCL_ISDUMMY s d \<Longrightarrow> walk_done h d res"
  unfolding walk_done_def by blast

lemma walk_loop_returns:
  assumes cb: "walk_keeps h d cb"
  shows "walk_at h s d xs ys \<Longrightarrow> 0 < n \<Longrightarrow> walk_done h d (walkchangelist_loop cb d max_ver (first_node ys) n u s)"
proof (induction "nat n" arbitrary: n xs ys u s rule: less_induct)
  case less
  note smaller = less.hyps
  show ?case using less.prems
  proof (induction ys arbitrary: xs)
    case Nil
    from walk_finish_end [OF Nil(1), of max_ver] obtain s' where s': "walk_finish d max_ver 0 s = Some s'"
      "radical_ok h s' (xs @ [d])" "RDCL_ISDUMMY s' = RDCL_ISDUMMY s" by blast
    then show ?case using Nil(1) by (auto simp: walkchangelist_loop.simps walk_at_def intro!: walk_doneI)
  next
    case (Cons t ys)
    note w = Cons.prems(1) and l = walk_at_list [OF w]
    have t: "t \<noteq> 0" by (rule first_node_member [OF l])
    have step: "walkchangelist_loop cb d max_ver (first_node (t # ys)) n u s = res \<Longrightarrow> walk_done h d res \<Longrightarrow>
      walk_done h d (walkchangelist_loop cb d max_ver (first_node (t # ys)) n u s)" for res by simp
    consider (dummy) "RDCL_ISDUMMY s t" | (max) "\<not> RDCL_ISDUMMY s t" "max_ver < rth_version s t"
      | (call) "\<not> RDCL_ISDUMMY s t" "\<not> max_ver < rth_version s t" by blast
    then show ?case
    proof cases
      case dummy
      have "walk_done h d (walkchangelist_loop cb d max_ver (first_node ys) n u s)"
        by (rule Cons.IH [OF walk_at_shift [OF w] Cons.prems(2)])
      with t dummy cl.getnext_law [OF l] show ?thesis by (simp add: walkchangelist_loop.simps [of cb d max_ver t])
    next
      case max
      from walk_finish_max [OF w max(2)] w t max show ?thesis
        by (auto simp: walkchangelist_loop.simps [of cb d max_ver t] walk_at_def intro: walk_doneI)
    next
      case call
      obtain s1 where s1: "cl_insertafter t d s = Some s1" "radical_ok h s1 (xs @ t # d # ys)" "same_but_links s s1"
          "rth_version s1 d < rth_version s1 t"
        using walk_call [OF w call(1)] by blast
      note f = same_but_links_simps [OF s1(3)]
      have D: "RDCL_ISDUMMY s1 d" "\<not> RDCL_ISDUMMY s1 t" using w call by (simp_all add: f walk_at_def)
      obtain u2 s2 c where cbr: "cb u s1 t = (u2, s2, c)" by (metis prod_cases3)
      obtain xs' ys' where "visit_keeps h d t s1 s2 c xs' ys'" using cb s1(2) D cbr unfolding walk_keeps_def by blast
      then have k: "radical_ok h s2 (xs' @ d # ys')" "RDCL_ISDUMMY s2 d" "rth_version s2 d = rth_version s1 d"
        "\<forall>y\<in>set (changed s2 ys'). rth_version s1 t < rth_version s2 y" "rth_version s1 t \<le> rtt_version s2"
        "c < 0 \<Longrightarrow> \<exists>zs. xs' = zs @ [t]" "c < 0 \<Longrightarrow> rth_version s2 t = rth_version s1 t"
        by (simp_all add: visit_keeps_def)
      let ?s3 = "set_rth_version d (rth_version s1 t) s2"
      have ok3: "radical_ok h ?s3 (xs' @ d # ys')" by (rule marker_version [OF k(1,2,4,5)])
      have D3: "RDCL_ISDUMMY ?s3 d" using k(2) by (simp add: ISDUMMY_fields)
      have "n \<noteq> INT_MIN" using Cons.prems(2) by (simp add: INT_MIN_def)
      note unf = walkchangelist_loop.simps [of cb d max_ver t] t call s1(1) cbr f this
      consider (again) "c < 0" | (stop) "c > 0" | (full) "c = 0" "n - 1 = 0" | (more) "c = 0" "n - 1 \<noteq> 0" by linarith
      then show ?thesis
      proof cases
        case again
        obtain zs where zs: "xs' = zs @ [t]" using k(6) again by blast
        have "rth_version s2 d < rth_version s2 t" using k(3) k(7) [OF again] s1(4) by simp
        from walk_stop_revisit [OF _ this again, of h zs ys'] k(1) zs
        obtain s4 where "walk_stop d t c s2 = Some s4" "radical_ok h s4 (zs @ d # t # ys')" "same_but_links s2 s4" by auto
        then show ?thesis using again k(2) same_but_links_simps
          by (auto simp: unf intro!: walk_doneI)
      next
        case stop
        then show ?thesis using ok3 D3 by (auto simp: unf walk_stop_def intro!: walk_doneI)
      next
        case full
        then show ?thesis using ok3 D3 by (auto simp: unf INT_MIN_def intro!: walk_doneI)
      next
        case more
        have "nat (n - 1) < nat n" "0 < n - 1" using less.prems(2) more(2) by simp_all
        from smaller [OF this(1) walk_on(1) [OF ok3 D3] this(2)]
        show ?thesis using more walk_on(3) [OF ok3 D3] by (simp add: unf)
      qed
    qed
  qed
qed

section \<open>What the walk visits\<close>

text \<open>A callback that leaves the table alone: it updates the client's state and answers from it.\<close>

definition reading :: "('u \<Rightarrow> ptr \<Rightarrow> 'u) \<Rightarrow> ('u \<Rightarrow> ptr \<Rightarrow> int) \<Rightarrow> 'u radical_walk_fn" where
  "reading F C = (\<lambda>u s r. (F u r, s, C u r))"

lemma reading_apply: "reading F C u s r = (F u r, s, C u r)"
  by (simp add: reading_def)

text \<open>Its calls on a sequence of heads, at most \<open>n\<close>: the client's state, the heads visited, the last answer.\<close>

fun walk_heads :: "('u \<Rightarrow> ptr \<Rightarrow> 'u) \<Rightarrow> ('u \<Rightarrow> ptr \<Rightarrow> int) \<Rightarrow> nat \<Rightarrow> ptr list \<Rightarrow> 'u \<Rightarrow> 'u \<times> ptr list \<times> int" where
  "walk_heads F C 0 rs u = (u, [], 0)"
| "walk_heads F C (Suc n) [] u = (u, [], 0)"
| "walk_heads F C (Suc n) (r # rs) u =
     (if C u r \<noteq> 0 then (F u r, [r], C u r)
      else (case walk_heads F C n rs (F u r) of (u, vs, c) \<Rightarrow> (u, r # vs, c)))"

lemma walk_heads_none [simp]: "walk_heads F C n [] u = (u, [], 0)"
  by (cases n) simp_all

text \<open>The visits that a counter allows, down to 0 or, from a negative value, down to \<open>INT_MIN\<close>.\<close>

definition counter_limit :: "int \<Rightarrow> nat" where
  "counter_limit n = (if 0 < n then nat n else nat (n - INT_MIN))"

text \<open>The heads a walk from here may visit.\<close>

abbreviation due :: "std_rt_table \<Rightarrow> u64 \<Rightarrow> ptr list \<Rightarrow> ptr list" where
  "due s max_ver ys \<equiv> takeWhile (\<lambda>r. rth_version s r \<le> max_ver) (changed s ys)"

definition walk_result :: "std_dll_head \<Rightarrow> ptr \<Rightarrow> std_rt_table \<Rightarrow> ptr list \<Rightarrow> ptr list \<Rightarrow> 'u \<times> ptr list \<times> int \<Rightarrow>
    ('u \<times> std_rt_table \<times> int) option \<Rightarrow> bool" where
  "walk_result h d s xs ys w res \<longleftrightarrow> (case w of (u, vs, c) \<Rightarrow>
     \<exists>s' xs' ys'. res = Some (u, s', c) \<and> radical_ok h s' (xs' @ d # ys') \<and> xs' @ ys' = xs @ ys \<and>
       changed s ys' = drop (if c < 0 then length vs - 1 else length vs) (changed s ys) \<and>
       RDCL_ISDUMMY s' = RDCL_ISDUMMY s \<and> (\<forall>r. r \<noteq> d \<longrightarrow> rth_version s' r = rth_version s r))"

lemma walk_resultI:
  "res = Some (u, s', c) \<Longrightarrow> radical_ok h s' (xs' @ d # ys') \<Longrightarrow> xs' @ ys' = xs @ ys \<Longrightarrow>
   changed s ys' = drop (if c < 0 then length vs - 1 else length vs) (changed s ys) \<Longrightarrow>
   RDCL_ISDUMMY s' = RDCL_ISDUMMY s \<Longrightarrow> (\<And>r. r \<noteq> d \<Longrightarrow> rth_version s' r = rth_version s r) \<Longrightarrow>
   walk_result h d s xs ys (u, vs, c) res"
  unfolding walk_result_def prod.case by blast

text \<open>One head more in front of a walk that starts behind it.\<close>

lemma walk_result_step:
  assumes "walk_result h d s' (xs @ [t]) ys w res" "\<not> RDCL_ISDUMMY s t" "RDCL_ISDUMMY s' = RDCL_ISDUMMY s"
    and "\<And>r. r \<noteq> d \<Longrightarrow> rth_version s' r = rth_version s r" and w: "w = (u, vs, c)" and c: "c < 0 \<longrightarrow> vs \<noteq> []"
  shows "walk_result h d s xs (t # ys) (u, t # vs, c) res"
proof -
  obtain s2 xs' ys' where r: "res = Some (u, s2, c)" "radical_ok h s2 (xs' @ d # ys')" "xs' @ ys' = (xs @ [t]) @ ys"
      "changed s' ys' = drop (if c < 0 then length vs - 1 else length vs) (changed s' ys)"
      "RDCL_ISDUMMY s2 = RDCL_ISDUMMY s'" "\<And>r. r \<noteq> d \<Longrightarrow> rth_version s2 r = rth_version s' r"
    using assms(1) unfolding walk_result_def w by auto
  show ?thesis
    by (rule walk_resultI [OF r(1,2)]) (use r(3-6) assms(2-4) c in \<open>auto simp: Suc_diff_le neq_Nil_conv\<close>)
qed

lemma walk_result_dummy:
  assumes "walk_result h d s (xs @ [t]) ys w res" "RDCL_ISDUMMY s t"
  shows "walk_result h d s xs (t # ys) w res"
  using assms by (simp add: walk_result_def)

lemma walk_heads_revisit: "walk_heads F C n rs u = (u', vs, c) \<Longrightarrow> c < 0 \<Longrightarrow> vs \<noteq> []"
  by (induction F C n rs u arbitrary: u' vs c rule: walk_heads.induct) (auto split: if_splits prod.splits)

lemma due_cong:
  assumes "RDCL_ISDUMMY s' = RDCL_ISDUMMY s" "\<And>r. r \<in> set ys \<Longrightarrow> rth_version s' r = rth_version s r"
  shows "due s' max_ver ys = due s max_ver ys"
  unfolding assms(1) by (rule takeWhile_cong) (use assms(2) in auto)

lemma walk_loop_visits:
  shows "walk_at h s d xs ys \<Longrightarrow> n \<noteq> 0 \<Longrightarrow> 0 < n \<or> length (due s max_ver ys) \<le> counter_limit n \<Longrightarrow>
    walk_result h d s xs ys (walk_heads F C (counter_limit n) (due s max_ver ys) u)
      (walkchangelist_loop (reading F C) d max_ver (first_node ys) n u s)"
proof (induction ys arbitrary: xs n u s)
  case Nil
  from walk_finish_end [OF Nil(1), of max_ver] obtain s' where s': "walk_finish d max_ver 0 s = Some s'"
    "radical_ok h s' (xs @ [d])" "RDCL_ISDUMMY s' = RDCL_ISDUMMY s" "rth_version s' = (rth_version s)(d := rtt_version s)" by blast
  show ?case
    by (simp, rule walk_resultI [where s' = s' and xs' = xs and ys' = "[]"]) (use s' in \<open>simp_all add: walkchangelist_loop.simps\<close>)
next
  case (Cons t ys)
  note w = Cons.prems(1) and l = walk_at_list [OF w]
  have t: "t \<noteq> 0" by (rule first_node_member [OF l])
  note unf = walkchangelist_loop.simps [of "reading F C" d max_ver t]
  consider (dummy) "RDCL_ISDUMMY s t" | (max) "\<not> RDCL_ISDUMMY s t" "max_ver < rth_version s t"
    | (call) "\<not> RDCL_ISDUMMY s t" "\<not> max_ver < rth_version s t" by blast
  then show ?case
  proof cases
    case dummy
    have "0 < n \<or> length (due s max_ver ys) \<le> counter_limit n" using Cons.prems(3) dummy by simp
    from walk_result_dummy [OF Cons.IH [OF walk_at_shift [OF w] Cons.prems(2) this] dummy]
    show ?thesis using t dummy cl.getnext_law [OF l] by (simp add: unf)
  next
    case max
    from walk_finish_max [OF w max(2)] obtain s' where s': "walk_finish d max_ver t s = Some s'"
      "radical_ok h s' (xs @ d # t # ys)" "RDCL_ISDUMMY s' = RDCL_ISDUMMY s" "rth_version s' = (rth_version s)(d := max_ver)" by blast
    have "due s max_ver (t # ys) = []" using max by simp
    then show ?thesis
      by (simp, intro walk_resultI [where s' = s' and xs' = xs and ys' = "t # ys"]) (use s' max t in \<open>simp_all add: unf\<close>)
  next
    case call
    obtain s1 where s1: "cl_insertafter t d s = Some s1" "radical_ok h s1 (xs @ t # d # ys)" "same_but_links s s1"
        "rth_version s1 d < rth_version s1 t"
      using walk_call [OF w call(1)] by blast
    note f = same_but_links_simps [OF s1(3)]
    let ?s3 = "set_rth_version d (rth_version s t) s1"
    have D: "RDCL_ISDUMMY s d" "d \<noteq> t" "d \<notin> set ys" using w by (auto simp: walk_at_def)
    have s1': "radical_ok h s1 ((xs @ [t]) @ d # ys)" using s1(2) by simp
    have "\<forall>y\<in>set (changed s1 ys). rth_version s t < rth_version s1 y" "rth_version s t \<le> rtt_version s1"
      using w call(1) radical_ok_sorted [OF s1(2)] s1(2) by (auto simp: f sorted_wrt_append older_def radical_ok_def)
    from marker_version [OF s1' _ this] D(1) have ok3: "radical_ok h ?s3 ((xs @ [t]) @ d # ys)" by (simp add: f)
    have D3: "RDCL_ISDUMMY ?s3 = RDCL_ISDUMMY s" "rth_version ?s3 r = (if r = d then rth_version s t else rth_version s r)" for r
      by (simp_all add: ISDUMMY_fields f)
    have todo: "due s max_ver (t # ys) = t # due s max_ver ys" using call by simp
    have low: "0 < n \<or> INT_MIN < n" "0 < n \<or> length (due s max_ver ys) \<le> counter_limit (n - 1)"
      using Cons.prems(3) unfolding todo by (cases "0 < n"; auto simp: counter_limit_def)+
    then have min: "n \<noteq> INT_MIN" by (auto simp: INT_MIN_def)
    obtain k where n: "counter_limit n = Suc k"
      using low(1) by (cases "counter_limit n") (auto simp: counter_limit_def split: if_splits)
    have ev: "walkchangelist_loop (reading F C) d max_ver t n u s =
       (let s2 = (if C u t \<ge> 0 then ?s3 else s1) in
        if C u t \<noteq> 0 then map_option (\<lambda>s. (F u t, s, C u t)) (walk_stop d t (C u t) s2)
        else if n - 1 = 0 then Some (F u t, s2, 0)
        else walkchangelist_loop (reading F C) d max_ver (cl_getnext s2 d) (n - 1) (F u t) (cl_remove d s2))"
      by (subst unf) (use t call s1(1) f min in \<open>simp add: reading_apply Let_def\<close>)
    consider (again) "C u t < 0" | (stop) "C u t > 0" | (full) "C u t = 0" "n - 1 = 0" | (more) "C u t = 0" "n - 1 \<noteq> 0" by linarith
    then show ?thesis
    proof cases
      case again
      from walk_stop_revisit [OF s1(2,4) again] obtain s4 where s4: "walk_stop d t (C u t) s1 = Some s4"
          "radical_ok h s4 (xs @ d # t # ys)" "same_but_links s1 s4" by blast
      show ?thesis unfolding n todo using again
        by (simp, intro walk_resultI [where s' = s4 and xs' = xs and ys' = "t # ys"])
          (use s4 same_but_links_simps [OF s4(3)] in \<open>simp_all add: ev f\<close>)
    next
      case stop
      show ?thesis unfolding n todo using stop
        by (simp, intro walk_resultI [where s' = "?s3" and xs' = "xs @ [t]" and ys' = ys])
          (use ok3 D3 call in \<open>simp_all add: ev f walk_stop_def\<close>)
    next
      case full
      have k: "k = 0" using full(2) n by (simp add: counter_limit_def)
      have "walkchangelist_loop (reading F C) d max_ver t n u s = Some (F u t, ?s3, 0)"
        unfolding ev using full by (simp add: Let_def)
      then have "walk_result h d s xs (t # ys) (F u t, [t], 0)
          (walkchangelist_loop (reading F C) d max_ver (first_node (t # ys)) n u s)"
        by (intro walk_resultI [where s' = ?s3 and xs' = "xs @ [t]" and ys' = ys]) (use ok3 D3 call in \<open>simp_all add: f\<close>)
      then show ?thesis unfolding n todo k using full by simp
    next
      case more
      let ?s4 = "cl_remove d ?s3"
      note on = walk_on [OF ok3]
      have D4: "RDCL_ISDUMMY ?s4 = RDCL_ISDUMMY s" "rth_version ?s4 = (\<lambda>r. if r = d then rth_version s t else rth_version s r)"
        using same_but_links_simps [OF on(2)] D3 D(1) by auto
      have k: "counter_limit (n - 1) = k"
        using n Cons.prems(2) more(2) by (auto simp: counter_limit_def split: if_splits)
      have lim: "0 < n - 1 \<or> length (due s max_ver ys) \<le> counter_limit (n - 1)" using low(2) more(2) by auto
      have du: "due ?s4 max_ver ys = due s max_ver ys" by (rule due_cong) (use D4 D(3) in auto)
      with Cons.IH [OF on(1) more(2) lim [folded du], of "F u t"] D(1) D3(1) k
      have ih: "walk_result h d ?s4 (xs @ [t]) ys (walk_heads F C k (due s max_ver ys) (F u t))
        (walkchangelist_loop (reading F C) d max_ver (first_node ys) (n - 1) (F u t) ?s4)" by simp
      obtain u' vs c where wh: "walk_heads F C k (due s max_ver ys) (F u t) = (u', vs, c)" by (metis prod_cases3)
      have "walk_result h d s xs (t # ys) (u', t # vs, c)
        (walkchangelist_loop (reading F C) d max_ver (first_node ys) (n - 1) (F u t) ?s4)"
        by (rule walk_result_step [OF ih call(1) D4(1) _ wh]) (use D4(2) walk_heads_revisit [OF wh] in auto)
      then show ?thesis unfolding n todo using more wh on(3) D(1) D3(1) by (simp add: ev)
    qed
  qed
qed

end
