(* ===== verification/RadixTheorems.thy ===== *)
theory RadixTheorems
  imports RadixRemove
begin

text \<open>
  The properties of the radix tree, stated over the routes of a table: a set of bit strings with
  their heads. \<open>rdx_table s t\<close> says that the memory \<open>s\<close> holds the tree \<open>t\<close> with the invariant.
\<close>

section \<open>A table with one route\<close>

definition empty_rt :: std_rt_table where
  "empty_rt = \<lparr>rtn_left = \<lambda>_. 0, rtn_right = \<lambda>_. 0, rtn_parent = \<lambda>_. 0, rtn_bit = \<lambda>_. 0, rtn_tbit = \<lambda>_. 0x80,
     rtn_flags = \<lambda>_. 0, rtn_lock = \<lambda>_. 0, rtn_version = \<lambda>_. 0, rtn_rth = \<lambda>_. 0, rth_rtn = \<lambda>_. 0,
     rth_addr = \<lambda>_. 1000, rth_version = \<lambda>_. 0, rdx_rth_addr = \<lambda>_. 1000, rth_magic = \<lambda>_. 0, rdcl_flags = \<lambda>_. 0,
     rt_mem = \<lparr>dll_next = \<lambda>_. 0, dll_back = \<lambda>_. 0, contents = \<lambda>_. 0\<rparr>, rtt_magic = RDX_MAGIC, rtt_name = ''routes'',
     rtt_root = 0, rtt_inodes = 0, rtt_routes = 0, rtt_ninserts = 0, rtt_nremoves = 0, rtt_nmalloc = 0, rtt_nfree = 0,
     rtt_nusrfrees = 0, rtt_nwraps = 0, rtt_version = 0, rtt_maxaddrlen = 32, rtt_debug = False, rtt_temp = 0,
     rtt_rmfree = True, rtt_convert = None, rtt_radicalinuse = 0, rtt_radicalused = False, rtt_carused = False,
     rtt_clhead = \<lparr>dll_magic = 0, head_node = 1, tail_node = 2, key_offset = 0, key_len = 0, dll_compare = None\<rparr>,
     rt_freed_heads = [], rt_freed_nodes = {}\<rparr>"

definition one_rt :: std_rt_table where
  "one_rt = empty_rt\<lparr>rtt_root := 100, rtn_bit := (\<lambda>_. 8), rtn_rth := (\<lambda>_. 500), rth_rtn := (\<lambda>_. 100), rtt_inodes := 1\<rparr>"

lemma empty_rt_table: "rdx_table empty_rt Leaf"
  by (simp add: rdx_table_def heap_tree_def empty_rt_def)

lemma heads_agree_single: "heads_agree s (Node Leaf a Leaf) n"
  by (rule heads_agreeI [of _ _ _ "nkey s a"]) (auto split: if_splits)

lemma one_rt_fields:
  "rtn_left one_rt = (\<lambda>_. 0)" "rtn_right one_rt = (\<lambda>_. 0)" "rtn_parent one_rt = (\<lambda>_. 0)" "rtn_bit one_rt = (\<lambda>_. 8)"
  "rtn_tbit one_rt = (\<lambda>_. 0x80)" "rtn_rth one_rt = (\<lambda>_. 500)" "rth_rtn one_rt = (\<lambda>_. 100)" "rtn_flags one_rt = (\<lambda>_. 0)"
  "rtn_lock one_rt = (\<lambda>_. 0)" "contents (rt_mem one_rt) = (\<lambda>_. 0)" "rtt_magic one_rt = RDX_MAGIC" "rtt_root one_rt = 100"
  "rtt_inodes one_rt = 1" "rtt_convert one_rt = None" "rtt_debug one_rt = False" "rtt_rmfree one_rt"
  by (simp_all add: one_rt_def empty_rt_def)

lemma one_rt_table: "rdx_table one_rt (Node Leaf 100 Leaf)"
proof -
  have "(0x80 :: u8) = RNBIT 8" by (simp add: RNBIT_def RNBBY_def)
  then have "rdx_ok one_rt (Node Leaf 100 Leaf)" by (simp add: heads_agree_single one_rt_fields)
  then show ?thesis by (simp add: rdx_table_def heap_tree_def one_rt_fields del: rdx_ok.simps)
qed

lemma one_rt_heads: "heads one_rt (Node Leaf 100 Leaf) = {100}"
  by (simp add: one_rt_fields)

lemma one_rt_prefix: "node_prefix one_rt 100 = replicate 8 False" "key_prefix one_rt ap 8 = replicate 8 False"
proof -
  have "key_bit one_rt = (\<lambda>_ _. False)" by (simp add: key_bit_def one_rt_fields fun_eq_iff)
  then show "node_prefix one_rt 100 = replicate 8 False" "key_prefix one_rt ap 8 = replicate 8 False"
    by (simp_all add: node_prefix_def key_prefix_def nkey_def one_rt_fields map_replicate_const)
qed

lemma one_rt_routes: "routes one_rt (Node Leaf 100 Leaf) = {(replicate 8 False, 500)}"
  by (simp add: routes_routes_on rtn_dele_bit one_rt_prefix one_rt_fields)

section \<open>Properties\<close>

text \<open> C8: The lookups by longest prefix: the nodes whose prefix is a prefix of the key, the longest first,
  give the best match (\<open>std_radix_getbest\<close>), the one after it (\<open>std_radix_getnextbest\<close>) and both
  (\<open>std_radix_getbestandprev\<close>); a match that is marked as deleted answers null.
\<close>

theorem radix_longest_match:
  assumes "rdx_table s t" "ap \<noteq> 0" "length_ok s len"
  shows "\<exists>ms. sorted_wrt (\<lambda>x y. rtn_bit s x > rtn_bit s y) ms \<and>
    set ms = {x \<in> heads s t. prefix (node_prefix s x) (key_prefix s ap len)} \<and>
    std_radix_getbest s ap len = Some (s, live_head s (first_node ms)) \<and>
    std_radix_getnextbest s ap len =
      Some (s, if live_head s (first_node ms) = 0 then 0 else live_head s (first_node (tl ms))) \<and>
    std_radix_getbestandprev s ap len = Some (s, live_head s (first_node ms),
      if t = Leaf then None
      else Some (if live_head s (first_node ms) = 0 then 0 else live_head s (first_node (tl ms))))"
  using match_list_sorted [OF assms(1)] match_list_set [OF assms(1)] getbest_ok [OF assms]
    getnextbest_ok [OF assms refl] getbestandprev_ok [OF assms refl] by blast

theorem radix_longest_match_witness: "\<exists>s' h. std_radix_getbest one_rt 2000 8 = Some (s', h) \<and> h = 500"
proof -
  obtain ms where ms: "set ms = {x \<in> {100}. prefix (node_prefix one_rt x) (key_prefix one_rt 2000 8)}"
      "std_radix_getbest one_rt 2000 8 = Some (one_rt, live_head one_rt (first_node ms))"
    using radix_longest_match [OF one_rt_table, of 2000 8, unfolded one_rt_heads]
    by (auto simp: length_ok_def one_rt_fields)
  have "set ms = {100}" unfolding ms(1) using one_rt_prefix by auto
  then have "first_node ms = 100" by (cases ms) auto
  then show ?thesis unfolding ms(2) by (simp add: live_head_def rtn_dele_bit one_rt_fields)
qed

text \<open>The exact lookup finds the head of the prefix, and null when the prefix is not in the table.\<close>

theorem radix_exact_match:
  assumes "rdx_table s t" "ap \<noteq> 0" "length_ok s len"
  shows "\<exists>h. std_radix_getexact s ap len = Some (s, h) \<and>
    {h'. (key_prefix s ap len, h') \<in> routes s t} = (if h = 0 then {} else {h})"
  by (rule getexact_ok [OF assms])

theorem radix_exact_match_witness: "\<exists>s'. std_radix_getexact one_rt 2000 8 = Some (s', 500)"
proof -
  have "length_ok one_rt 8" by (simp add: length_ok_def one_rt_fields)
  then obtain h where h: "std_radix_getexact one_rt 2000 8 = Some (one_rt, h)"
      "{h'. (key_prefix one_rt 2000 8, h') \<in> routes one_rt (Node Leaf 100 Leaf)} = (if h = 0 then {} else {h})"
    using radix_exact_match [OF one_rt_table, of 2000 8] by auto
  have "(if h = 0 then {} else {h}) = {500}" using h(2) unfolding one_rt_routes one_rt_prefix by simp
  then show ?thesis using h(1) by (auto split: if_splits)
qed

text \<open> C6: Insertion keeps the invariant. It answers null only when an allocation fails, and then changes no
  route; a prefix that is there keeps its head, which is the answer; otherwise exactly the new
  prefix is added. The table has no key conversion routine (\<open>rtt_convert\<close> is null, part of the
  invariant); in a debug table the prefix is not longer than \<open>rtt_maxaddrlen\<close> (\<open>length_ok\<close>).
\<close>

theorem radix_insert_adds:
  assumes "rdx_table s t" "fresh_head s t rth" "fresh_alloc t alloc1 alloc2" "length_ok s len"
    and "p = key_prefix s (rth_addr s rth) len"
  shows "\<exists>s' t' h. std_radix_insert s rth len key_alloc alloc1 alloc2 = Some (s', h) \<and> rdx_table s' t' \<and>
    (if h = 0 then (alloc1 = 0 \<or> alloc2 = 0) \<and> routes s' t' = routes s t
     else if p \<in> fst ` routes s t then (p, h) \<in> routes s t \<and> routes s' t' = routes s t
     else h = rth \<and> routes s' t' = insert (p, rth) (routes s t))"
proof -
  obtain s' t' h where i: "std_radix_insert s rth len key_alloc alloc1 alloc2 = Some (s', h)" "rdx_table s' t'"
      "insert_outcome (routes s t) (routes s' t') p rth h (alloc1 = 0 \<or> alloc2 = 0)"
    using radix_insert_ok [OF assms(1-4), of key_alloc] assms(5) by blast
  have nz: "h \<noteq> 0" if "(p, h) \<in> routes s t" using that by (auto simp: routes_def heads_def)
  have new: "p \<notin> fst ` routes s t" if r: "routes s' t' = insert (p, rth) (routes s t)"
  proof
    assume "p \<in> fst ` routes s t"
    then obtain h' where h': "(p, h') \<in> routes s t" by auto
    then have "h' = rth" using routes_unique [OF rdx_table_tree(4) [OF i(2)], of p] r by blast
    with h' assms(2) show False by (auto simp: routes_def heads_def fresh_head_def)
  qed
  have "rth \<noteq> 0" using assms(2) by (simp add: fresh_head_def)
  with i nz new show ?thesis
    unfolding insert_outcome_def by (intro exI [of _ s'] exI [of _ t'] exI [of _ h]) force
qed

theorem radix_insert_adds_witness:
  "\<exists>s' t'. std_radix_insert empty_rt 500 8 0 100 101 = Some (s', 500) \<and> rdx_table s' t' \<and>
    routes s' t' = {(key_prefix empty_rt 1000 8, 500)}"
proof -
  have "fresh_head empty_rt Leaf 500" "fresh_alloc Leaf 100 101" "length_ok empty_rt 8" "rth_addr empty_rt 500 = 1000"
    by (simp_all add: fresh_head_def fresh_alloc_def length_ok_def empty_rt_def)
  moreover have "routes empty_rt Leaf = {}" by (simp add: routes_routes_on)
  ultimately show ?thesis
    using radix_insert_adds [OF empty_rt_table, of 500 100 101 8 "key_prefix empty_rt 1000 8" 0] by (auto split: if_splits)
qed

text \<open> C7: Removal of a head from a table none of whose nodes is held by a walk keeps the invariant and
  drops exactly the prefix of the head. Without RADICAL the memory of the radical list is untouched; with
  RADICAL the list node inside the head, when it is on the list, is taken out of it and is no longer
  linked. With RADICAL \<^emph>\<open>and\<close> a client routine \<open>rtt_rmfree\<close> the removal always goes wrong: it has
  just passed the head to that routine when it reads the list node inside it.
\<close>

theorem radix_remove_drops:
  assumes "rdx_table s t" "x \<in> heads s t" "\<forall>z\<in>set_tree t. rtn_lock s z = 0"
  shows "if rtt_radicalused s \<and> rtt_rmfree s then std_radix_remove s (rtn_rth s x) = None
    else \<exists>s' t'. std_radix_remove s (rtn_rth s x) = Some s' \<and> rdx_table s' t' \<and>
      routes s' t' = routes s t - {(node_prefix s x, rtn_rth s x)} \<and>
      (\<not> rtt_radicalused s \<longrightarrow> rt_mem s' = rt_mem s) \<and>
      (\<forall>xs ys. rtt_radicalused s \<and> dll (rtt_clhead s) (rt_mem s) (xs @ rdcl_cl (rtn_rth s x) # ys) \<longrightarrow>
        dll (rtt_clhead s) (rt_mem s') (xs @ ys) \<and> \<not> std_dll_islinked (rt_mem s') (rdcl_cl (rtn_rth s x)))"
proof (cases "rtt_radicalused s \<and> rtt_rmfree s")
  case True
  then show ?thesis using radix_remove_ok [OF assms] by simp
next
  case False
  let ?cl = "rdcl_cl (rtn_rth s x)"
  obtain s' t' where r: "std_radix_remove s (rtn_rth s x) = Some s'" "rdx_table s' t'"
      "routes s' t' = routes s t - {(node_prefix s x, rtn_rth s x)}"
      "rt_mem s' = (if rtt_radicalused s \<and> std_dll_islinked (rt_mem s) ?cl
         then std_dll_remove (rtt_clhead s) ?cl (rt_mem s) else rt_mem s)"
    using radix_remove_ok [OF assms] False by auto
  have L: "dll (rtt_clhead s) (rt_mem s') (xs @ ys) \<and> \<not> std_dll_islinked (rt_mem s') ?cl"
    if "rtt_radicalused s" "dll (rtt_clhead s) (rt_mem s) (xs @ ?cl # ys)" for xs ys
    using dll_remove(1,2) [OF that(2)] dll_member_islinked [OF that(2)] that(1) r(4) by simp
  have N: "\<not> rtt_radicalused s \<longrightarrow> rt_mem s' = rt_mem s" using r(4) by simp
  show ?thesis
    unfolding if_not_P [OF False] using L
    by (intro exI [of _ s'] exI [of _ t'] conjI r(1-3) N allI impI) metis+
qed

text \<open>Two runs: the removal of the only head, and the same with RADICAL, which goes wrong.\<close>

theorem radix_remove_drops_witness:
  "(\<exists>s' t'. std_radix_remove one_rt 500 = Some s' \<and> rdx_table s' t' \<and> routes s' t' = {}) \<and>
   std_radix_remove (one_rt\<lparr>rtt_radicalused := True\<rparr>) 500 = None"
proof -
  have "rdx_table (one_rt\<lparr>rtt_radicalused := True\<rparr>) (Node Leaf 100 Leaf)"
    by (rule rdx_table_frame [OF one_rt_table same_fields]) simp_all
  moreover have "heads (one_rt\<lparr>rtt_radicalused := True\<rparr>) (Node Leaf 100 Leaf) = {100}"
    by (auto simp: heads_def one_rt_fields)
  moreover have "\<not> rtt_radicalused one_rt" by (simp add: one_rt_def empty_rt_def)
  ultimately show ?thesis
    using radix_remove_drops [OF one_rt_table, of 100] one_rt_heads one_rt_prefix one_rt_routes
      radix_remove_drops [of "one_rt\<lparr>rtt_radicalused := True\<rparr>" "Node Leaf 100 Leaf" 100]
    by (auto simp: one_rt_fields)
qed

definition locked_rt :: std_rt_table where "locked_rt = one_rt\<lparr>rtn_lock := (\<lambda>_. 1)\<rparr>"

text \<open> C9: While a walk holds the node, a removal only marks it: the tree stays, the prefix is gone. The
  code asserts here that the client gave a routine \<open>rtt_rmfree\<close>; a table without one is not covered.\<close>

theorem radix_remove_locked_marks:
  assumes "rdx_table s t" "x \<in> heads s t" "rtn_lock s x \<noteq> 0" "rtt_rmfree s"
  shows "\<exists>s'. std_radix_remove s (rtn_rth s x) = Some s' \<and> rdx_table s' t \<and> rtn_dele s' x \<and>
    routes s' t = routes s t - {(node_prefix s x, rtn_rth s x)}"
  by (rule radix_remove_locked_ok [OF assms])

theorem radix_remove_locked_marks_witness:
  "\<exists>s'. std_radix_remove locked_rt 500 = Some s' \<and> rdx_table s' (Node Leaf 100 Leaf) \<and> rtn_dele s' 100"
proof -
  have "rdx_table locked_rt (Node Leaf 100 Leaf)"
    by (rule rdx_table_frame [OF one_rt_table same_fields]) (simp_all add: locked_rt_def)
  moreover have "100 \<in> heads locked_rt (Node Leaf 100 Leaf)" "rtn_rth locked_rt 100 = 500" "rtn_lock locked_rt 100 \<noteq> 0"
      "rtt_rmfree locked_rt"
    by (simp_all add: locked_rt_def one_rt_fields)
  ultimately show ?thesis using radix_remove_locked_marks by metis
qed

end
