(* ===== verification/RadicalTheorems.thy ===== *)
theory RadicalTheorems
  imports RadicalWalk RadixTheorems
begin

text \<open>
  The properties of the change list. \<open>radical_ok h s rs\<close> says that the table \<open>s\<close> holds the list \<open>rs\<close>
  of heads and markers with the invariant; \<open>changed s rs\<close> are its heads.
\<close>

section \<open>A table with a change list\<close>

definition list_rt :: std_rt_table where
  "list_rt = empty_rt\<lparr>
     rt_mem := \<lparr>dll_next = (\<lambda>_. 0)(1 := 748, 748 := 548, 548 := 648, 648 := 2),
                dll_back = (\<lambda>_. 0)(748 := 1, 548 := 748, 648 := 548, 2 := 648), contents = \<lambda>_. 0\<rparr>,
     rdcl_flags := (\<lambda>_. 0)(500 := 1, 600 := 1, 700 := 2), rth_version := (\<lambda>_. 0)(500 := 1, 600 := 2),
     rtt_version := 2, rth_rtn := (\<lambda>_. 100)\<rparr>"

lemma list_rt_fields:
  "rth_version list_rt = (\<lambda>_. 0)(500 := 1, 600 := 2)" "rdcl_flags list_rt = (\<lambda>_. 0)(500 := 1, 600 := 1, 700 := 2)"
  "rtt_version list_rt = 2" "rth_rtn list_rt = (\<lambda>_. 100)" "head_node (rtt_clhead list_rt) = 1" "tail_node (rtt_clhead list_rt) = 2"
  by (simp_all add: list_rt_def empty_rt_def)

lemma list_rt_ISDUMMY: "RDCL_ISDUMMY list_rt r \<longleftrightarrow> r = 700"
  by (simp add: RDCL_ISDUMMY_def RDCL_DUMMY_def list_rt_fields)

lemma list_rt_list: "radical_list (rtt_clhead list_rt) list_rt [700, 500, 600]"
  by (simp add: radical_list_def dll_def list_rt_fields rdcl_cl_def RDCL_DLLOFFSET_def)
    (simp add: list_rt_def)

lemma list_rt_ok: "radical_ok (rtt_clhead list_rt) list_rt [700, 500, 600]"
  using list_rt_list by (simp add: radical_ok_def list_rt_ISDUMMY older_def list_rt_fields)

lemma list_rt_node: "r \<noteq> 0 \<Longrightarrow> cl_node (rtt_clhead list_rt) r"
  by (simp add: cl_node_def list_rt_fields rdcl_cl_def RDCL_DLLOFFSET_def)

section \<open>Properties\<close>

text \<open> C12: Appending a head to the change list moves it to the end, or adds it there, with the next version
  of the table; other heads, the tree and its routes stay. The list stays in the order of the
  versions, unless the version has wrapped to 0, which is counted.
\<close>

theorem radical_append_is_newest:
  assumes "radical_ok h s rs" "cl_node h r" "rth_rtn s r \<noteq> 0" "\<not> RDCL_ISDUMMY s r"
    and "rdcl_flags s r AND RDCL_INCL \<noteq> 0 \<longleftrightarrow> r \<in> set rs"
  shows "\<exists>s'. std_radical_appendtochangelist s r = Some (s', rtt_version s + 1) \<and>
    radical_list h s' (remove1 r rs @ [r]) \<and> rth_version s' = (rth_version s)(r := rtt_version s + 1) \<and>
    rdcl_flags s' r AND RDCL_INCL \<noteq> 0 \<and>
    (if rtt_version s + 1 = 0 then rtt_nwraps s' = rtt_nwraps s + 1
     else rtt_nwraps s' = rtt_nwraps s \<and> radical_ok h s' (remove1 r rs @ [r])) \<and>
    (\<forall>t. rdx_table s t \<longrightarrow> rdx_table s' t \<and> routes s' t = routes s t)"
proof -
  obtain s1 where s1: "std_radical_appendtochangelist s r = Some (appended r s1, rtt_version s + 1)"
      "radical_list h s1 (remove1 r rs @ [r])" "same_but_links s s1"
    using append_moves [OF radical_ok_list [OF assms(1)] assms(2,3,5)] by blast
  note f = same_but_links_simps [OF s1(3)]
  have w: "rtt_nwraps s1 = rtt_nwraps s" using s1(3) by (auto simp: same_but_links_def)
  have "list_only s (appended r s1)"
    by (rule list_only_trans [OF list_only_links [OF s1(3)]], rule list_onlyI) (simp_all add: appended_def)
  then have t: "\<forall>t. rdx_table s t \<longrightarrow> rdx_table (appended r s1) t \<and> routes (appended r s1) t = routes s t"
    using list_only_table by blast
  have "radical_list h (appended r s1) (remove1 r rs @ [r])" using s1(2) by (simp add: appended_def)
  with s1(1) t f w flag_bits appended_ok [OF assms(1) s1(2,3) _ assms(4)] show ?thesis
    by (intro exI [of _ "appended r s1"]) (simp add: appended_def)
qed

theorem radical_append_is_newest_witness:
  "\<exists>s'. std_radical_appendtochangelist list_rt 500 = Some (s', 3) \<and>
    radical_ok (rtt_clhead list_rt) s' [700, 600, 500] \<and> rth_version s' 500 = 3"
proof -
  have "rdcl_flags list_rt 500 AND RDCL_INCL \<noteq> 0 \<longleftrightarrow> 500 \<in> set [700, 500, 600 :: ptr]"
    by (simp add: list_rt_fields RDCL_INCL_def)
  from radical_append_is_newest [OF list_rt_ok list_rt_node _ _ this] show ?thesis
    by (auto simp: list_rt_fields list_rt_ISDUMMY)
qed

text \<open> C13: Markers: the constructor puts one in front of the list with version 0 (the heads on the list have
  versions above 0, as they have until the version wraps), the second constructor behind any
  other marker of the list with that marker's version, the destructor takes it off, also when it is the
  only entry. Each keeps the invariant and the order of all the others, and does not touch the tree.
\<close>

theorem radical_markers:
  assumes "radical_ok h s rs" "cl_node h d" "if d \<in> set rs then RDCL_ISDUMMY s d else \<not> cl_islinked s d"
  shows "((\<forall>r\<in>set (changed s rs). 0 < rth_version s r) \<longrightarrow>
      (\<exists>s'. std_radical_walkconstructor s d = Some s' \<and> radical_ok h s' (d # remove1 d rs) \<and> list_only s s' \<and>
        RDCL_ISDUMMY s' d \<and> rth_version s' d = 0)) \<and>
    (\<forall>a\<in>set rs. RDCL_ISDUMMY s a \<and> a \<noteq> d \<longrightarrow>
      (\<exists>s' xs ys. std_radical_walkconstructorafter s a d = Some s' \<and> remove1 d rs = xs @ a # ys \<and>
        radical_ok h s' (xs @ a # d # ys) \<and> list_only s s' \<and> RDCL_ISDUMMY s' d \<and> rth_version s' d = rth_version s a)) \<and>
    (\<exists>s'. std_radical_walkdestructor s d = Some s' \<and> radical_ok h s' (remove1 d rs) \<and> list_only s s' \<and> \<not> RDCL_ISDUMMY s' d)"
proof (intro conjI impI ballI)
  have d: "marker_free h s rs d" "d \<in> set rs \<or> \<not> cl_islinked s d" using assms(2,3) by (auto simp: marker_free_def split: if_splits)
  show "\<exists>s'. std_radical_walkdestructor s d = Some s' \<and> radical_ok h s' (remove1 d rs) \<and> list_only s s' \<and> \<not> RDCL_ISDUMMY s' d"
    using walkdestructor_ok [OF assms(1,2) d(2)] by blast
  show "\<exists>s'. std_radical_walkconstructor s d = Some s' \<and> radical_ok h s' (d # remove1 d rs) \<and> list_only s s' \<and>
      RDCL_ISDUMMY s' d \<and> rth_version s' d = 0" if "\<forall>r\<in>set (changed s rs). 0 < rth_version s r"
  proof -
    have "\<forall>r\<in>set rs. RDCL_ISDUMMY s r \<or> 0 < rth_version s r" using that by auto
    from walkconstructor_ok [OF assms(1) d(1) this] show ?thesis by blast
  qed
  show "\<exists>s' xs ys. std_radical_walkconstructorafter s a d = Some s' \<and> remove1 d rs = xs @ a # ys \<and>
      radical_ok h s' (xs @ a # d # ys) \<and> list_only s s' \<and> RDCL_ISDUMMY s' d \<and> rth_version s' d = rth_version s a"
    if "a \<in> set rs" "RDCL_ISDUMMY s a \<and> a \<noteq> d" for a
    using walkconstructorafter_ok [OF assms(1,2) d(2) that(1)] that(2) by blast
qed

theorem radical_markers_witness:
  "\<exists>s'. std_radical_walkconstructor list_rt 800 = Some s' \<and> radical_ok (rtt_clhead list_rt) s' [800, 700, 500, 600]"
proof -
  have "\<not> cl_islinked list_rt 800"
    by (simp add: cl_islinked_def std_dll_islinked_def list_rt_def rdcl_cl_def RDCL_DLLOFFSET_def)
  with radical_markers [OF list_rt_ok list_rt_node, of 800] show ?thesis
    by (auto simp: list_rt_ISDUMMY list_rt_fields)
qed

text \<open>Iteration sees the heads in order and skips the markers, and the version behind a marker is that
  of the first head there, 0 at the end.
\<close>

theorem radical_iteration:
  assumes "radical_list h s (xs @ r # ys)"
  shows "std_radical_getfirst s = Some (first_node (changed s (xs @ r # ys))) \<and>
    std_radical_getnext s r = Some (first_node (changed s ys)) \<and>
    (RDCL_ISDUMMY s r \<longrightarrow> std_radical_nextversion s r =
       Some (if changed s ys = [] then 0 else rth_version s (hd (changed s ys))))"
proof -
  have "cl_islinked s r" using cl.member_linked [OF assms] by simp
  with skip_dummies_first [of h s "[]"] skip_dummies_first [of h s "xs @ [r]" ys] nextversion_first [OF assms]
    cl.first_law [OF assms] cl.getnext_law [OF assms] assms
  show ?thesis
    by (auto simp: std_radical_getfirst_def std_radical_getnext_def std_radical_nextversion_def split: list.split)
qed

theorem radical_iteration_witness:
  "std_radical_getfirst list_rt = Some 500 \<and> std_radical_getnext list_rt 500 = Some 600 \<and>
    std_radical_nextversion list_rt 700 = Some 1"
  using radical_iteration [of _ list_rt "[700]" 500 "[600]"] radical_iteration [of _ list_rt "[]" 700 "[500, 600]"] list_rt_list
  by (simp add: list_rt_ISDUMMY list_rt_fields)

text \<open>After the versions have wrapped, \<open>std_radical_procverwrap\<close> numbers the heads from 1 in the order of
  the list, gives each marker the version of the head in front of it and returns the number of
  heads: with that as the table's version, the invariant holds again.
\<close>

theorem radical_renumber:
  assumes "radical_list h s rs" "length (changed s rs) < 2 ^ 64"
  shows "\<exists>s' v. std_radical_procverwrap s = Some (s', v) \<and> v = of_nat (length (changed s rs)) \<and>
    radical_ok h (s'\<lparr>rtt_version := v\<rparr>) rs \<and> list_only s s' \<and> changed s' rs = changed s rs \<and>
    (\<forall>xs r ys. rs = xs @ r # ys \<longrightarrow> rth_version s' r = of_nat (length (changed s (xs @ [r]))))"
  by (rule procverwrap_ok [OF assms])

theorem radical_renumber_witness:
  "\<exists>s'. std_radical_procverwrap list_rt = Some (s', 2) \<and> radical_ok (rtt_clhead list_rt) (s'\<lparr>rtt_version := 2\<rparr>) [700, 500, 600]"
  using radical_renumber [OF list_rt_list] by (auto simp: list_rt_ISDUMMY)

lemma walk_heads_visited:
  "walk_heads F C n rs u = (u', vs, c) \<Longrightarrow> u' = foldl F u vs \<and> (c = 0 \<longrightarrow> vs = take n rs)"
  by (induction F C n rs u arbitrary: u' vs c rule: walk_heads.induct) (auto split: if_splits prod.splits)

abbreviation walk_limit :: "int \<Rightarrow> nat" where
  "walk_limit maxnodes \<equiv> counter_limit (if maxnodes = 0 then - 1 else maxnodes)"

text \<open> C10: The walk with a callback that leaves the table alone: it visits the heads behind the marker in
  order, those up to and including the version \<open>max_ver\<close> (the header documents \<open>max_ver\<close> as an exclusive
  bound), at most \<open>maxnodes\<close> of them, until an answer that is not
  0. The marker then stands in front of the heads not visited, or of the last one when it asked
  for another visit; the order and versions of all the others are unchanged. A \<open>maxnodes\<close> of 0 or less
  sets no bound; the heads due are assumed to be no more than its signed counter can count (\<open>counter_limit\<close>).
\<close>

theorem radical_walk_visits:
  assumes "radical_ok h s (xs @ d # ys)" "RDCL_ISDUMMY s d"
    and "0 < maxnodes \<or> length (due s max_ver ys) \<le> walk_limit maxnodes"
  shows "\<exists>vs c s' xs' ys'. std_radical_walkchangelist s d (reading F C) maxnodes max_ver u = Some (foldl F u vs, s', c) \<and>
    walk_heads F C (walk_limit maxnodes) (due s max_ver ys) u = (foldl F u vs, vs, c) \<and>
    (c = 0 \<longrightarrow> vs = take (walk_limit maxnodes) (due s max_ver ys)) \<and>
    radical_ok h s' (xs' @ d # ys') \<and> xs' @ ys' = xs @ ys \<and>
    changed s ys' = drop (if c < 0 then length vs - 1 else length vs) (changed s ys) \<and>
    RDCL_ISDUMMY s' = RDCL_ISDUMMY s \<and> (\<forall>r. r \<noteq> d \<longrightarrow> rth_version s' r = rth_version s r)"
proof -
  note on = walk_on [OF assms(1,2)]
  note f = same_but_links_simps [OF on(2)]
  let ?n = "if maxnodes = 0 then - 1 else maxnodes"
  have du: "due (cl_remove d s) max_ver ys = due s max_ver ys" by (rule due_cong) (simp_all add: f)
  have n: "?n \<noteq> 0" "0 < ?n \<or> length (due (cl_remove d s) max_ver ys) \<le> walk_limit maxnodes"
    unfolding du using assms(3) by auto
  obtain u' vs c where w: "walk_heads F C (walk_limit maxnodes) (due s max_ver ys) u = (u', vs, c)" by (metis prod_cases3)
  note v = walk_heads_visited [OF w]
  have "cl_islinked s d" "d \<noteq> 0"
    using cl.member_linked [OF radical_ok_list [OF assms(1)]] cl.null_not_member [OF radical_ok_list [OF assms(1)]] by auto
  then have "std_radical_walkchangelist s d (reading F C) maxnodes max_ver u =
      walkchangelist_loop (reading F C) d max_ver (first_node ys) ?n u (cl_remove d s)"
    using assms(2) on(3) by (simp add: std_radical_walkchangelist_def)
  with walk_loop_visits [OF on(1) n, of F C u] w f
  have "walk_result h d (cl_remove d s) xs ys (u', vs, c) (std_radical_walkchangelist s d (reading F C) maxnodes max_ver u)"
    by simp
  then obtain s' xs' ys' where "std_radical_walkchangelist s d (reading F C) maxnodes max_ver u = Some (u', s', c)"
      "radical_ok h s' (xs' @ d # ys')" "xs' @ ys' = xs @ ys"
      "changed s ys' = drop (if c < 0 then length vs - 1 else length vs) (changed s ys)"
      "RDCL_ISDUMMY s' = RDCL_ISDUMMY s" "\<forall>r. r \<noteq> d \<longrightarrow> rth_version s' r = rth_version s r"
    unfolding walk_result_def prod.case f by blast
  then show ?thesis using w v by blast
qed

theorem radical_walk_visits_witness:
  "\<exists>s' xs' ys'. std_radical_walkchangelist list_rt 700 (reading (\<lambda>u r. u @ [r]) (\<lambda>_ _. 0)) 0 2 [] = Some ([500, 600], s', 0) \<and>
    radical_ok (rtt_clhead list_rt) s' (xs' @ 700 # ys') \<and> xs' @ ys' = [500, 600] \<and> changed list_rt ys' = []"
proof -
  let ?F = "\<lambda>u r. u @ [r :: ptr]" and ?C = "\<lambda>_ _. 0 :: int"
  have l: "radical_ok (rtt_clhead list_rt) list_rt ([] @ 700 # [500, 600])" using list_rt_ok by simp
  obtain k where k: "walk_limit 0 = Suc (Suc k)"
    by (rule that [of "2 ^ 31 - 3"]) (simp add: counter_limit_def INT_MIN_def)
  have du: "due list_rt 2 [500, 600] = [500, 600]" by (simp add: list_rt_ISDUMMY list_rt_fields)
  then have w: "walk_heads ?F ?C (walk_limit 0) (due list_rt 2 [500, 600]) [] = ([500, 600], [500, 600], 0)"
    unfolding k by simp
  have "length (due list_rt 2 [500, 600]) \<le> walk_limit 0" unfolding du k by simp
  from radical_walk_visits [OF l _ disjI2 [OF this], of ?F ?C "[]"] w show ?thesis
    by (auto simp: list_rt_ISDUMMY)
qed





end
