(* ===== verification/Mergesort.thy ===== *)
theory Mergesort
  imports KeyOrder "HOL-Library.Multiset"
begin

text \<open>
  The merge sort of \<open>src/std_mergesort.c\<close>. An array is a list, an index a C \<open>int\<close>; the callbacks
  are the ones the interface documents: \<open>cmp_func\<close> compares two elements with a comparison
  \<open>cmp\<close> (a parameter), \<open>copy_func\<close> assigns one element. An access outside an array and the
  overflow of an \<open>int\<close> are None. The context argument is only passed through and left out.
\<close>

section \<open>The callbacks\<close>

definition cmp_func :: "('a \<Rightarrow> 'a \<Rightarrow> int) \<Rightarrow> 'a list \<Rightarrow> int \<Rightarrow> 'a list \<Rightarrow> int \<Rightarrow> int option" where
  "cmp_func cmp array_a index_a array_b index_b =
    (if 0 \<le> index_a \<and> nat index_a < length array_a \<and> 0 \<le> index_b \<and> nat index_b < length array_b
     then Some (cmp (array_a ! nat index_a) (array_b ! nat index_b)) else None)"

definition copy_func :: "'a list \<Rightarrow> int \<Rightarrow> 'a list \<Rightarrow> int \<Rightarrow> 'a list option" where
  "copy_func dst dst_index src src_index =
    (if 0 \<le> dst_index \<and> nat dst_index < length dst \<and> 0 \<le> src_index \<and> nat src_index < length src
     then Some (dst[nat dst_index := src ! nat src_index]) else None)"

section \<open>The sort\<close>

text \<open>The first loop of the merge: until one of the two runs is used up.\<close>

function merge_runs :: "('a \<Rightarrow> 'a \<Rightarrow> int) \<Rightarrow> 'a list \<Rightarrow> int \<Rightarrow> int \<Rightarrow> int \<Rightarrow> int \<Rightarrow> int \<Rightarrow> 'a list
    \<Rightarrow> ('a list \<times> int \<times> int \<times> int) option" where
  "merge_runs cmp array left left_end mid right curr_pos tmp_array =
    (if left \<le> left_end \<and> mid \<le> right then
       (case cmp_func cmp array left array mid of
          None \<Rightarrow> None
        | Some c \<Rightarrow>
            if c \<le> 0 then
              (case copy_func tmp_array curr_pos array left of
                 None \<Rightarrow> None
               | Some tmp_array \<Rightarrow>
                   merge_runs cmp array (left + 1) left_end mid right (curr_pos + 1) tmp_array)
            else
              (case copy_func tmp_array curr_pos array mid of
                 None \<Rightarrow> None
               | Some tmp_array \<Rightarrow>
                   merge_runs cmp array left left_end (mid + 1) right (curr_pos + 1) tmp_array))
     else Some (tmp_array, left, mid, curr_pos))"
  by pat_completeness auto
termination
  by (relation "measure (\<lambda>(_, _, left, left_end, mid, right, _, _).
        nat (left_end + 1 - left) + nat (right + 1 - mid))") auto

text \<open>The second and the third loop: the rest of one run.\<close>

function copy_run :: "'a list \<Rightarrow> int \<Rightarrow> int \<Rightarrow> int \<Rightarrow> 'a list \<Rightarrow> ('a list \<times> int) option" where
  "copy_run array from_pos to_pos curr_pos tmp_array =
    (if from_pos \<le> to_pos then
       (case copy_func tmp_array curr_pos array from_pos of
          None \<Rightarrow> None
        | Some tmp_array \<Rightarrow> copy_run array (from_pos + 1) to_pos (curr_pos + 1) tmp_array)
     else Some (tmp_array, curr_pos))"
  by pat_completeness auto
termination
  by (relation "measure (\<lambda>(_, from_pos, to_pos, _, _). nat (to_pos + 1 - from_pos))") auto

text \<open>The last loop: \<open>n\<close> elements ending at index \<open>right\<close> go back to the array.\<close>

fun copy_back :: "nat \<Rightarrow> int \<Rightarrow> 'a list \<Rightarrow> 'a list \<Rightarrow> 'a list option" where
  "copy_back 0 right array tmp_array = Some array"
| "copy_back (Suc n) right array tmp_array =
    (case copy_func array right tmp_array right of
       None \<Rightarrow> None
     | Some array \<Rightarrow> copy_back n (right - 1) array tmp_array)"

declare merge_runs.simps [simp del] copy_run.simps [simp del]

definition std_merge_sort_merge_arrays ::
    "('a \<Rightarrow> 'a \<Rightarrow> int) \<Rightarrow> 'a list \<times> 'a list \<Rightarrow> int \<Rightarrow> int \<Rightarrow> int \<Rightarrow> ('a list \<times> 'a list) option" where
  "std_merge_sort_merge_arrays cmp arrays left mid right =
    (case arrays of (array, tmp_array) \<Rightarrow>
       (let left_end = mid - 1; curr_pos = left; num_elements = right - left + 1 in
        case merge_runs cmp array left left_end mid right curr_pos tmp_array of
          None \<Rightarrow> None
        | Some (tmp_array, left, mid, curr_pos) \<Rightarrow>
            (case copy_run array left left_end curr_pos tmp_array of
               None \<Rightarrow> None
             | Some (tmp_array, curr_pos) \<Rightarrow>
                 (case copy_run array mid right curr_pos tmp_array of
                    None \<Rightarrow> None
                  | Some (tmp_array, curr_pos) \<Rightarrow>
                      (case copy_back (nat num_elements) right array tmp_array of
                         None \<Rightarrow> None
                       | Some array \<Rightarrow> Some (array, tmp_array))))))"

text \<open>The sum of the two indices is an \<open>int\<close>; it is never negative, so \<open>div\<close> is the C division.\<close>

function std_merge_sort_divide_n_sort ::
    "('a \<Rightarrow> 'a \<Rightarrow> int) \<Rightarrow> int \<Rightarrow> int \<Rightarrow> 'a list \<times> 'a list \<Rightarrow> ('a list \<times> 'a list) option" where
  "std_merge_sort_divide_n_sort cmp left right arrays =
    (if left < right then
       if int32_ok (right + left) then
         (let mid = (right + left) div 2 in
          case std_merge_sort_divide_n_sort cmp left mid arrays of
            None \<Rightarrow> None
          | Some arrays \<Rightarrow>
              (case std_merge_sort_divide_n_sort cmp (mid + 1) right arrays of
                 None \<Rightarrow> None
               | Some arrays \<Rightarrow> std_merge_sort_merge_arrays cmp arrays left (mid + 1) right))
       else None
     else Some arrays)"
  by pat_completeness auto
termination
  by (relation "measure (\<lambda>(_, left, right, _). nat (right - left))") auto

declare std_merge_sort_divide_n_sort.simps [simp del]

definition std_merge_sort ::
    "('a \<Rightarrow> 'a \<Rightarrow> int) \<Rightarrow> 'a list \<Rightarrow> int \<Rightarrow> 'a list \<Rightarrow> ('a list \<times> 'a list) option" where
  "std_merge_sort cmp array num_elements tmp_array =
     std_merge_sort_divide_n_sort cmp 0 (num_elements - 1) (array, tmp_array)"

section \<open>The loops as list operations\<close>

text \<open>The elements of an array from index \<open>i\<close> on start with \<open>xs\<close>; writing \<open>zs\<close> there.\<close>

definition seg :: "'a list \<Rightarrow> int \<Rightarrow> 'a list \<Rightarrow> bool" where
  "seg array i xs \<longleftrightarrow> 0 \<le> i \<and> take (length xs) (drop (nat i) array) = xs"

definition paste :: "'a list \<Rightarrow> int \<Rightarrow> 'a list \<Rightarrow> 'a list" where
  "paste array i zs = take (nat i) array @ zs @ drop (nat i + length zs) array"

lemma seg_Nil [simp]: "seg array i [] \<longleftrightarrow> 0 \<le> i"
  by (simp add: seg_def)

lemma seg_Cons:
  "seg array i (x # xs) \<longleftrightarrow> 0 \<le> i \<and> nat i < length array \<and> array ! nat i = x \<and> seg array (i + 1) xs"
proof (cases "0 \<le> i \<and> nat i < length array")
  case True
  then have "drop (nat i) array = array ! nat i # drop (Suc (nat i)) array"
    by (simp add: Cons_nth_drop_Suc)
  with True show ?thesis by (auto simp: seg_def nat_add_distrib)
qed (auto simp: seg_def)

lemma seg_nonneg: "seg array i xs \<Longrightarrow> 0 \<le> i"
  by (simp add: seg_def)

lemma seg_append: "seg array i (xs @ ys) \<longleftrightarrow> seg array i xs \<and> seg array (i + int (length xs)) ys"
proof (induction xs arbitrary: i)
  case Nil
  show ?case using seg_nonneg [of array i ys] by auto
next
  case (Cons x xs)
  have "i + 1 + int (length xs) = i + int (length (x # xs))" by simp
  with Cons [of "i + 1"] show ?case by (simp add: seg_Cons conj_assoc)
qed

lemma seg_length: "seg array i xs \<Longrightarrow> i \<le> int (length array) \<Longrightarrow> i + int (length xs) \<le> int (length array)"
  by (induction xs arbitrary: i) (force simp: seg_Cons)+

lemma paste_Nil [simp]: "paste array i [] = array"
  by (simp add: paste_def)

lemma length_paste [simp]:
  "0 \<le> i \<Longrightarrow> nat i + length zs \<le> length array \<Longrightarrow> length (paste array i zs) = length array"
  by (simp add: paste_def)

lemma paste_Cons:
  "0 \<le> i \<Longrightarrow> nat i < length array \<Longrightarrow> paste (array[nat i := z]) (i + 1) zs = paste array i (z # zs)"
  by (simp add: paste_def nat_add_distrib take_Suc_conv_app_nth)

lemma seg_paste:
  "0 \<le> i \<Longrightarrow> nat i + length zs \<le> length array \<Longrightarrow> seg (paste array i zs) i zs"
  by (simp add: seg_def paste_def)

lemma paste_nth:
  "0 \<le> i \<Longrightarrow> nat i + length zs \<le> length array \<Longrightarrow> k < length array \<Longrightarrow>
   paste array i zs ! k = (if nat i \<le> k \<and> k < nat i + length zs then zs ! (k - nat i) else array ! k)"
  by (auto simp: paste_def nth_append min_def)

text \<open>The merge on lists: the left run first on equal keys.\<close>

fun merge_lists :: "('a \<Rightarrow> 'a \<Rightarrow> int) \<Rightarrow> 'a list \<Rightarrow> 'a list \<Rightarrow> 'a list" where
  "merge_lists cmp (x # xs) (y # ys) =
    (if cmp x y \<le> 0 then x # merge_lists cmp xs (y # ys) else y # merge_lists cmp (x # xs) ys)"
| "merge_lists cmp xs [] = xs"
| "merge_lists cmp [] ys = ys"

lemma merge_lists_Nil [simp]: "merge_lists cmp [] ys = ys"
  by (cases ys) simp_all

lemma length_merge_lists [simp]: "length (merge_lists cmp xs ys) = length xs + length ys"
  by (induction cmp xs ys rule: merge_lists.induct) simp_all

lemma mset_merge_lists [simp]: "mset (merge_lists cmp xs ys) = mset xs + mset ys"
  by (induction cmp xs ys rule: merge_lists.induct) simp_all

lemma set_merge_lists [simp]: "set (merge_lists cmp xs ys) = set xs \<union> set ys"
  by (induction cmp xs ys rule: merge_lists.induct) auto

lemma copy_run_paste:
  assumes "seg array i xs" and "i + int (length xs) = j + 1"
    and "0 \<le> c" and "nat c + length xs \<le> length tmp"
  shows "copy_run array i j c tmp = Some (paste tmp c xs, c + int (length xs))"
  using assms
proof (induction xs arbitrary: i c tmp)
  case Nil
  then show ?case by (simp add: copy_run.simps)
next
  case (Cons x xs)
  then have "copy_func tmp c array i = Some (tmp[nat c := x])"
    by (simp add: copy_func_def seg_Cons)
  with Cons show ?case
    by (simp add: copy_run.simps [of array i j] seg_Cons paste_Cons nat_add_distrib)
qed

lemma copy_back_paste:
  assumes "seg tmp (r + 1 - int (length zs)) zs" and "r + 1 \<le> int (length array)"
    and "r + 1 \<le> int (length tmp)"
  shows "copy_back (length zs) r array tmp = Some (paste array (r + 1 - int (length zs)) zs)"
  using assms
proof (induction zs arbitrary: r array rule: rev_induct)
  case Nil
  then show ?case by simp
next
  case (snoc z zs)
  have z: "0 \<le> r" "nat r < length tmp" "nat r < length array" "tmp ! nat r = z"
    "seg tmp (r - int (length zs)) zs"
    using snoc.prems by (auto simp: seg_append seg_Cons)
  then have nn: "0 \<le> r - int (length zs)" by (simp add: seg_def)
  have "paste (array[nat r := z]) (r - int (length zs)) zs = paste array (r - int (length zs)) (zs @ [z])"
    using z(1-3) nn by (intro nth_equalityI) (auto simp: paste_nth nth_append nth_list_update)
  with z snoc.IH [of "r - 1" "array[nat r := z]"] snoc.prems(2,3) show ?case
    by (simp add: copy_func_def)
qed

lemma paste_append:
  assumes "0 \<le> i" and "nat i + length xs + length ys \<le> length array"
  shows "paste (paste array i xs) (i + int (length xs)) ys = paste array i (xs @ ys)"
  using assms by (intro nth_equalityI) (auto simp: paste_nth nat_add_distrib nth_append)

text \<open>What the first loop leaves to the other two.\<close>

definition runs_left :: "'a list \<Rightarrow> int \<Rightarrow> int \<Rightarrow> 'a list \<Rightarrow> bool" where
  "runs_left array i j xs \<longleftrightarrow> seg array i xs \<and> i + int (length xs) = j + 1"

lemma runs_left_Nil: "runs_left array i j [] \<longleftrightarrow> 0 \<le> i \<and> i = j + 1"
  by (simp add: runs_left_def)

lemma runs_left_Cons:
  "runs_left array i j (x # xs) \<longleftrightarrow>
     0 \<le> i \<and> i \<le> j \<and> nat i < length array \<and> array ! nat i = x \<and> runs_left array (i + 1) j xs"
  by (auto simp: runs_left_def seg_Cons)

lemma merge_runs_ok:
  assumes "runs_left array l le xs" and "runs_left array m r ys"
    and "0 \<le> c" and "nat c + length xs + length ys \<le> length tmp"
  shows "\<exists>l' m' xs' ys' zs.
    merge_runs cmp array l le m r c tmp = Some (paste tmp c zs, l', m', c + int (length zs))
    \<and> runs_left array l' le xs' \<and> runs_left array m' r ys' \<and> (xs' = [] \<or> ys' = [])
    \<and> merge_lists cmp xs ys = zs @ xs' @ ys'"
  using assms
proof (induction cmp xs ys arbitrary: l m c tmp rule: merge_lists.induct)
  case (1 cmp x xs y ys)
  then have lm: "l \<le> le" "m \<le> r" "cmp_func cmp array l array m = Some (cmp x y)"
    and c: "nat c < length tmp" "0 \<le> c"
    by (simp_all add: cmp_func_def runs_left_Cons)
  show ?case
  proof (cases "cmp x y \<le> 0")
    case True
    have "copy_func tmp c array l = Some (tmp[nat c := x])"
      using 1(3) c by (simp add: copy_func_def runs_left_Cons)
    moreover obtain l' m' xs' ys' zs where
      "merge_runs cmp array (l + 1) le m r (c + 1) (tmp[nat c := x])
         = Some (paste (tmp[nat c := x]) (c + 1) zs, l', m', c + 1 + int (length zs))"
      "runs_left array l' le xs'" "runs_left array m' r ys'" "xs' = [] \<or> ys' = []"
      "merge_lists cmp xs (y # ys) = zs @ xs' @ ys'"
      using 1(1) [OF True, of "l + 1" m "c + 1" "tmp[nat c := x]"] 1(3-)
      by (auto simp: runs_left_Cons nat_add_distrib)
    ultimately show ?thesis
      using lm c True
      by (intro exI [of _ l'] exI [of _ m'] exI [of _ xs'] exI [of _ ys'] exI [of _ "x # zs"])
        (simp add: merge_runs.simps [of cmp array l] paste_Cons)
  next
    case False
    have "copy_func tmp c array m = Some (tmp[nat c := y])"
      using 1(4) c by (simp add: copy_func_def runs_left_Cons)
    moreover obtain l' m' xs' ys' zs where
      "merge_runs cmp array l le (m + 1) r (c + 1) (tmp[nat c := y])
         = Some (paste (tmp[nat c := y]) (c + 1) zs, l', m', c + 1 + int (length zs))"
      "runs_left array l' le xs'" "runs_left array m' r ys'" "xs' = [] \<or> ys' = []"
      "merge_lists cmp (x # xs) ys = zs @ xs' @ ys'"
      using 1(2) [OF False, of l "m + 1" "c + 1" "tmp[nat c := y]"] 1(3-)
      by (auto simp: runs_left_Cons nat_add_distrib)
    ultimately show ?thesis
      using lm c False
      by (intro exI [of _ l'] exI [of _ m'] exI [of _ xs'] exI [of _ ys'] exI [of _ "y # zs"])
        (simp add: merge_runs.simps [of cmp array l] paste_Cons)
  qed
next
  case (2 cmp xs)
  then show ?case
    by (intro exI [of _ l] exI [of _ m] exI [of _ xs] exI [of _ "[]"])
      (simp add: merge_runs.simps runs_left_Nil)
next
  case (3 cmp y ys)
  then show ?case
    by (intro exI [of _ l] exI [of _ m] exI [of _ "[]"] exI [of _ "y # ys"])
      (simp add: merge_runs.simps runs_left_Nil)
qed

lemma merge_arrays_ok:
  assumes xs: "seg array l xs" and ys: "seg array m ys"
    and m: "m = l + int (length xs)" and r: "m + int (length ys) = r + 1"
    and len: "length tmp = length array" "r + 1 \<le> int (length array)"
  shows "std_merge_sort_merge_arrays cmp (array, tmp) l m r =
    Some (paste array l (merge_lists cmp xs ys), paste tmp l (merge_lists cmp xs ys))"
proof -
  have l: "0 \<le> l" using xs by (rule seg_nonneg)
  have fit: "nat l + length xs + length ys \<le> length tmp" using m r l len by simp
  obtain l' m' xs' ys' zs where
    run: "merge_runs cmp array l (m - 1) m r l tmp = Some (paste tmp l zs, l', m', l + int (length zs))"
    and x: "runs_left array l' (m - 1) xs'" and y: "runs_left array m' r ys'"
    and e: "xs' = [] \<or> ys' = []" and ml: "merge_lists cmp xs ys = zs @ xs' @ ys'"
    using merge_runs_ok [of array l "m - 1" xs m r ys l tmp cmp] assms l fit
    by (auto simp: runs_left_def)
  have n: "length zs + length xs' + length ys' = length xs + length ys"
    using arg_cong [OF ml, of length] by simp
  have p1: "copy_run array l' (m - 1) (l + int (length zs)) (paste tmp l zs) =
      Some (paste tmp l (zs @ xs'), l + int (length (zs @ xs')))"
    using copy_run_paste [of array l' xs' "m - 1" "l + int (length zs)" "paste tmp l zs"] x fit l n
    by (simp add: runs_left_def paste_append nat_add_distrib add.assoc)
  have p2: "copy_run array m' r (l + int (length (zs @ xs'))) (paste tmp l (zs @ xs')) =
      Some (paste tmp l (merge_lists cmp xs ys), r + 1)"
    using copy_run_paste [of array m' ys' r "l + int (length (zs @ xs'))" "paste tmp l (zs @ xs')"]
      paste_append [of l "zs @ xs'" ys' tmp] y fit l n ml m r
    by (simp add: runs_left_def nat_add_distrib)
  let ?zs = "merge_lists cmp xs ys"
  have "r + 1 - int (length ?zs) = l" "nat (r - l + 1) = length ?zs" using m r by simp_all
  with copy_back_paste [of "paste tmp l ?zs" r ?zs array]
  have p3: "copy_back (nat (r - l + 1)) r array (paste tmp l ?zs) = Some (paste array l ?zs)"
    using l fit len by (simp add: seg_paste)
  show ?thesis using run p1 p2 p3 by (simp add: std_merge_sort_merge_arrays_def)
qed

section \<open>Stable sorting\<close>

text \<open>
  The reference: insertion of one element after the other behind its equals. A list is a stable
  sort of another when it is sorted and the elements equal to any given one come in the same order.
\<close>

definition insertion_sort :: "('a \<Rightarrow> 'a \<Rightarrow> int) \<Rightarrow> 'a list \<Rightarrow> 'a list" where
  "insertion_sort cmp xs = foldl (\<lambda>acc d. insert_after cmp d acc) [] xs"

definition equals :: "('a \<Rightarrow> 'a \<Rightarrow> int) \<Rightarrow> 'a \<Rightarrow> 'a list \<Rightarrow> 'a list" where
  "equals cmp d xs = filter (\<lambda>x. cmp d x = 0) xs"

definition stable_sort_of :: "'a set \<Rightarrow> ('a \<Rightarrow> 'a \<Rightarrow> int) \<Rightarrow> 'a list \<Rightarrow> 'a list \<Rightarrow> bool" where
  "stable_sort_of K cmp xs zs \<longleftrightarrow>
     key_sorted cmp zs \<and> mset zs = mset xs \<and> (\<forall>d\<in>K. equals cmp d zs = equals cmp d xs)"

lemma equals_simps [simp]:
  "equals cmp d [] = []"
  "equals cmp d (x # xs) = (if cmp d x = 0 then x # equals cmp d xs else equals cmp d xs)"
  "equals cmp d (xs @ ys) = equals cmp d xs @ equals cmp d ys"
  by (simp_all add: equals_def)

lemma in_equals: "x \<in> set (equals cmp d xs) \<Longrightarrow> x \<in> set xs"
  by (simp add: equals_def)

lemma equals_none: "\<forall>x\<in>set xs. cmp d x \<noteq> 0 \<Longrightarrow> equals cmp d xs = []"
  by (simp add: equals_def)

lemma mset_insert_after: "mset (insert_after cmp d xs) = add_mset d (mset xs)"
  by (induction xs) auto

lemma two_lists_induct:
  assumes "\<And>x xs y ys. P xs (y # ys) \<Longrightarrow> P (x # xs) ys \<Longrightarrow> P (x # xs) (y # ys)"
    and "\<And>xs. P xs []" and "\<And>ys. P [] ys"
  shows "P xs ys"
proof (induction xs arbitrary: ys)
  case (Cons x xs)
  then show ?case by (induction ys) (use assms in auto)
qed (rule assms(3))

context key_order
begin

lemma sorted_merge_lists:
  assumes "key_sorted cmp xs" and "key_sorted cmp ys" and "set xs \<subseteq> K" and "set ys \<subseteq> K"
  shows "key_sorted cmp (merge_lists cmp xs ys)"
  using assms
proof (induction xs ys rule: two_lists_induct)
  case (1 x xs y ys)
  have K: "x \<in> K" "y \<in> K" "\<And>z. z \<in> set xs \<union> set ys \<Longrightarrow> z \<in> K" using 1(5,6) by auto
  have s: "key_sorted cmp xs" "key_sorted cmp ys" "\<forall>z\<in>set xs. cmp x z \<le> 0" "\<forall>z\<in>set ys. cmp y z \<le> 0"
    using 1(3,4) by (simp_all add: key_sorted_def)
  show ?case
  proof (cases "cmp x y \<le> 0")
    case True
    have "\<forall>z\<in>set ys. cmp x z \<le> 0" using K s(4) cmp_trans [OF K(1,2) _ True] by blast
    with True 1 s show ?thesis by (simp add: key_sorted_def ball_Un)
  next
    case False
    then have yx: "cmp y x \<le> 0" using cmp_le_iff [OF K(2,1)] by simp
    have "\<forall>z\<in>set xs. cmp y z \<le> 0" using K s(3) cmp_trans [OF K(2,1) _ yx] by blast
    with False 1 s yx show ?thesis by (simp add: key_sorted_def ball_Un)
  qed
qed simp_all

lemma equals_merge_lists:
  assumes "key_sorted cmp xs" and "key_sorted cmp ys" and "set xs \<subseteq> K" and "set ys \<subseteq> K" and "d \<in> K"
  shows "equals cmp d (merge_lists cmp xs ys) = equals cmp d xs @ equals cmp d ys"
  using assms
proof (induction xs ys rule: two_lists_induct)
  case (1 x xs y ys)
  have K: "x \<in> K" "y \<in> K" "set xs \<subseteq> K" using 1(5,6) by auto
  show ?case
  proof (cases "cmp x y \<le> 0")
    case True
    with 1 show ?thesis by (simp add: key_sorted_def)
  next
    case False
    then have yx: "cmp y x < 0" using cmp_anti [OF K(2,1)] by simp
    have "equals cmp d (x # xs) = []" if d: "cmp d y = 0"
    proof (rule equals_none, rule)
      fix z assume z: "z \<in> set (x # xs)"
      then have "z \<in> K" "cmp x z \<le> 0"
        using 1(3) K cmp_refl [of x] by (auto simp: key_sorted_def)
      then have "cmp y z < 0" using cmp_less_le [OF K(2,1) _ yx] by simp
      then show "cmp d z \<noteq> 0"
        using d cmp_trans [of z d y] cmp_eq_sym [of d z] cmp_anti [of y z] K 1(7) \<open>z \<in> K\<close> by auto
    qed
    with False 1 show ?thesis by (auto simp: key_sorted_def)
  qed
qed simp_all

lemma stable_sort_unique:
  assumes "key_sorted cmp xs" and "key_sorted cmp ys" and "set xs \<subseteq> K" and "set ys \<subseteq> K"
    and "\<forall>d\<in>K. equals cmp d xs = equals cmp d ys"
  shows "xs = ys"
  using assms
proof (induction xs arbitrary: ys)
  case Nil
  then show ?case using cmp_refl by (cases ys) force+
next
  case (Cons x xs)
  have xK: "x \<in> K" using Cons.prems(3) by simp
  have x: "equals cmp x ys = x # equals cmp x xs"
    using bspec [OF Cons.prems(5) xK] cmp_refl [OF xK] by simp
  then obtain y ys' where ys: "ys = y # ys'" by (cases ys) auto
  have yK: "y \<in> K" "x \<in> K" using Cons.prems(3,4) ys by auto
  have "x \<in> set ys" using x by (metis in_equals list.set_intros(1))
  then have yx: "cmp y x \<le> 0" using Cons.prems(2) ys cmp_refl yK by (auto simp: key_sorted_def)
  have "equals cmp y (x # xs) = y # equals cmp y ys'"
    using Cons.prems(5) yK cmp_refl [of y] ys by simp
  then have "y \<in> set (x # xs)" by (metis in_equals list.set_intros(1))
  then have "cmp x y \<le> 0" using Cons.prems(1) cmp_refl yK by (auto simp: key_sorted_def)
  with yx have "cmp x y = 0" using cmp_le_iff [of y x] yK by simp
  with x ys have eq: "y = x" by simp
  have "xs = ys'"
    using Cons.prems eq ys by (intro Cons.IH) (auto simp: key_sorted_def split: if_splits)
  with eq ys show ?case by simp
qed

lemma equals_insert_after:
  assumes "key_sorted cmp xs" and "set xs \<subseteq> K" and "e \<in> K" and "d \<in> K"
  shows "equals cmp e (insert_after cmp d xs) = equals cmp e xs @ (if cmp e d = 0 then [d] else [])"
  using assms
proof (induction xs)
  case (Cons x xs)
  show ?case
  proof (cases "0 \<le> cmp d x")
    case True
    with Cons show ?thesis by (auto simp: key_sorted_def)
  next
    case False
    have "equals cmp e (x # xs) = []" if e: "cmp e d = 0"
    proof (rule equals_none, rule)
      fix z assume z: "z \<in> set (x # xs)"
      then have zK: "z \<in> K" "x \<in> K" and "cmp x z \<le> 0"
        using Cons.prems cmp_refl [of x] by (auto simp: key_sorted_def)
      then have "cmp d z < 0" using cmp_less_le [of d x z] False Cons.prems(4) by simp
      then have "cmp e z < 0"
        using e cmp_less_le [of e d z] cmp_trans [of z e d] cmp_eq_sym [of e z] cmp_anti [of d z]
          cmp_trans [of e d z] cmp_trans [of d e z] zK Cons.prems(3,4) cmp_eq_sym [of e d]
        by (smt (verit))
      then show "cmp e z \<noteq> 0" by simp
    qed
    with False Cons show ?thesis by auto
  qed
qed simp

lemma insertion_sort_stable:
  assumes "set xs \<subseteq> K"
  shows "stable_sort_of K cmp xs (insertion_sort cmp xs)"
  using assms
proof (induction xs rule: rev_induct)
  case Nil
  then show ?case by (simp add: stable_sort_of_def insertion_sort_def key_sorted_def)
next
  case (snoc d xs)
  let ?s = "insertion_sort cmp xs"
  have s: "stable_sort_of K cmp xs ?s" "set xs \<subseteq> K" "d \<in> K" using snoc by simp_all
  then have "set ?s = set xs" by (metis stable_sort_of_def mset_eq_setD)
  moreover have "insertion_sort cmp (xs @ [d]) = insert_after cmp d ?s"
    by (simp add: insertion_sort_def)
  ultimately show ?case
    using s sorted_insert_after [of ?s d] mset_insert_after [of cmp d ?s] equals_insert_after [of ?s _ d]
    by (simp add: stable_sort_of_def)
qed

lemma merge_lists_stable:
  assumes "stable_sort_of K cmp xs xs'" and "stable_sort_of K cmp ys ys'"
    and "set xs \<subseteq> K" and "set ys \<subseteq> K"
  shows "stable_sort_of K cmp (xs @ ys) (merge_lists cmp xs' ys')"
proof -
  have "set xs' = set xs" "set ys' = set ys"
    using assms(1,2) by (metis stable_sort_of_def mset_eq_setD)+
  with assms show ?thesis
    using sorted_merge_lists [of xs' ys'] equals_merge_lists [of xs' ys']
    by (simp add: stable_sort_of_def)
qed

lemma stable_sort_is_insertion_sort:
  assumes "stable_sort_of K cmp xs zs" and "set xs \<subseteq> K"
  shows "zs = insertion_sort cmp xs"
proof -
  have i: "stable_sort_of K cmp xs (insertion_sort cmp xs)" by (rule insertion_sort_stable [OF assms(2)])
  have "set zs = set xs" "set (insertion_sort cmp xs) = set xs"
    using i assms(1) by (metis stable_sort_of_def mset_eq_setD)+
  with i assms show ?thesis
    by (intro stable_sort_unique) (auto simp: stable_sort_of_def)
qed

text \<open>The recursion sorts the elements from \<open>left\<close> to \<open>right\<close> and leaves the others alone.\<close>

lemma divide_n_sort_ok:
  assumes "seg array l xs" and "l + int (length xs) = r + 1" and "r + 1 \<le> int (length array)"
    and "length tmp = length array" and "length array \<le> 2 ^ 30" and "set xs \<subseteq> K"
  shows "\<exists>zs tmp'. std_merge_sort_divide_n_sort cmp l r (array, tmp) = Some (paste array l zs, tmp')
    \<and> length tmp' = length tmp \<and> stable_sort_of K cmp xs zs"
  using assms
proof (induction "length xs" arbitrary: xs l r array tmp rule: less_induct)
  case less
  show ?case
  proof (cases "l < r")
    case False
    have "stable_sort_of K cmp xs xs"
    proof (cases xs)
      case (Cons x ys)
      with less.prems(2) False have "ys = []" by (cases ys) simp_all
      with Cons show ?thesis by (simp add: stable_sort_of_def key_sorted_def)
    qed (simp add: stable_sort_of_def key_sorted_def)
    moreover have "paste array l xs = array"
      using less.prems(1) by (simp add: paste_def seg_def) (metis append_take_drop_id drop_drop add.commute)
    ultimately show ?thesis
      using False by (intro exI [of _ xs] exI [of _ tmp]) (simp add: std_merge_sort_divide_n_sort.simps [of cmp l r])
  next
    case True
    define mid where "mid = (r + l) div 2"
    have l0: "0 \<le> l" using less.prems(1) by (rule seg_nonneg)
    have mid: "l \<le> mid" "mid < r" using True by (auto simp: mid_def)
    define n where "n = nat (mid + 1 - l)"
    have n: "n < length xs" "0 < n" "l + int n = mid + 1" using mid less.prems(2) by (auto simp: n_def)
    define ys zs where "ys = take n xs" and "zs = drop n xs"
    have xs: "xs = ys @ zs" "length ys = n" "length zs = length xs - n" using n by (auto simp: ys_def zs_def)
    have sK: "set ys \<subseteq> K" "set zs \<subseteq> K" using less.prems(6) xs(1) by simp_all
    have sy: "seg array l ys" and sz: "seg array (mid + 1) zs"
      using less.prems(1) unfolding xs(1) seg_append xs(2) n(3) by simp_all
    obtain ys' t1 where 1: "std_merge_sort_divide_n_sort cmp l mid (array, tmp) = Some (paste array l ys', t1)"
      "length t1 = length tmp" "stable_sort_of K cmp ys ys'"
      using less.hyps [of ys array l mid tmp] less.prems(3-5) sy n xs(2) mid sK by auto
    have ly: "length ys' = n" using 1(3) xs(2) by (metis stable_sort_of_def size_mset)
    define a1 where "a1 = paste array l ys'"
    have fit: "nat l + length ys' + length zs \<le> length array" using less.prems(2,3) n xs(3) ly l0 by simp
    have a1: "length a1 = length array" using fit l0 by (simp add: a1_def)
    have sz1: "seg a1 (mid + 1) zs"
    proof -
      have "nat (mid + 1) = nat l + n" using n l0 by linarith
      then show ?thesis using sz fit ly l0 by (simp add: seg_def a1_def paste_def)
    qed
    obtain zs' t2 where 2: "std_merge_sort_divide_n_sort cmp (mid + 1) r (a1, t1) = Some (paste a1 (mid + 1) zs', t2)"
      "length t2 = length t1" "stable_sort_of K cmp zs zs'"
      using less.hyps [of zs a1 "mid + 1" r t1] less.prems(2-5) 1(2) sz1 n xs(3) mid a1 sK by auto
    have lz: "length zs' = length zs" using 2(3) by (metis stable_sort_of_def size_mset)
    have a2: "paste a1 (mid + 1) zs' = paste array l (ys' @ zs')"
      using paste_append [of l ys' zs' array] l0 fit lz ly n by (simp add: a1_def)
    define a2 where "a2 = paste array l (ys' @ zs')"
    have s2: "seg a2 l ys'" "seg a2 (mid + 1) zs'"
      using seg_paste [of l "ys' @ zs'" array] l0 fit lz ly n seg_append [of a2 l ys' zs']
      by (auto simp: a2_def)
    have "std_merge_sort_merge_arrays cmp (a2, t2) l (mid + 1) r =
        Some (paste a2 l (merge_lists cmp ys' zs'), paste t2 l (merge_lists cmp ys' zs'))"
      using merge_arrays_ok [OF s2, of r t2 cmp] less.prems(2-4) 1(2) 2(2) ly lz n xs(3) fit l0
      by (simp add: a2_def)
    moreover have "paste a2 l (merge_lists cmp ys' zs') = paste array l (merge_lists cmp ys' zs')"
      using l0 fit lz by (simp add: a2_def paste_def)
    moreover have "int32_ok (r + l)" using less.prems(3,5) True l0 by (simp add: int32_ok_def)
    ultimately have "std_merge_sort_divide_n_sort cmp l r (array, tmp) =
        Some (paste array l (merge_lists cmp ys' zs'), paste t2 l (merge_lists cmp ys' zs'))"
      using True 1(1) 2(1) a2
      by (simp add: std_merge_sort_divide_n_sort.simps [of cmp l r] Let_def a1_def a2_def flip: mid_def)
    moreover have "length (paste t2 l (merge_lists cmp ys' zs')) = length tmp"
      using 1(2) 2(2) fit lz l0 less.prems(4) by simp
    moreover have "stable_sort_of K cmp xs (merge_lists cmp ys' zs')"
      using merge_lists_stable [OF 1(3) 2(3) sK] xs(1) by simp
    ultimately show ?thesis by blast
  qed
qed

end

section \<open>Properties\<close>

lemma std_merge_sort_stable:
  assumes "key_order K cmp" and "set array \<subseteq> K"
    and "length array \<le> 2 ^ 30" and "length tmp_array = length array"
  obtains zs tmp where "std_merge_sort cmp array (int (length array)) tmp_array = Some (zs, tmp)"
    and "stable_sort_of K cmp array zs"
proof -
  obtain zs tmp where "std_merge_sort cmp array (int (length array)) tmp_array = Some (paste array 0 zs, tmp)"
    "stable_sort_of K cmp array zs"
    using key_order.divide_n_sort_ok [OF assms(1), of array 0 array "int (length array) - 1" tmp_array] assms(2-4)
    by (auto simp: std_merge_sort_def seg_def)
  moreover from this(2) have "length zs = length array" by (metis stable_sort_of_def size_mset)
  ultimately show ?thesis using that by (simp add: paste_def)
qed

text \<open> C30: The merge sort returns for every array of at most $2^{30}$ elements without leaving an
  array or overflowing an index, keeps the elements, sorts them and is stable: elements that
  compare equal keep their order. \<close>

theorem std_merge_sort_sorts:
  assumes "key_order K cmp" and "set array \<subseteq> K"
    and "length array \<le> 2 ^ 30" and "length tmp_array = length array"
  shows "\<exists>sorted tmp. std_merge_sort cmp array (int (length array)) tmp_array = Some (sorted, tmp)
    \<and> key_sorted cmp sorted \<and> mset sorted = mset array
    \<and> (\<forall>d\<in>K. filter (\<lambda>x. cmp d x = 0) sorted = filter (\<lambda>x. cmp d x = 0) array)"
proof -
  obtain zs tmp where "std_merge_sort cmp array (int (length array)) tmp_array = Some (zs, tmp)"
    "stable_sort_of K cmp array zs"
    by (rule std_merge_sort_stable [OF assms])
  then show ?thesis by (simp add: stable_sort_of_def equals_def)
qed

text \<open>The merge sort computes exactly what insertion of one element after the other does,
  each behind its equals (the order the sorted list and the tree keep too). \<close>

theorem std_merge_sort_is_insertion_sort:
  assumes "key_order K cmp" and "set array \<subseteq> K"
    and "length array \<le> 2 ^ 30" and "length tmp_array = length array"
  shows "map_option fst (std_merge_sort cmp array (int (length array)) tmp_array)
    = Some (insertion_sort cmp array)"
proof -
  obtain zs tmp where "std_merge_sort cmp array (int (length array)) tmp_array = Some (zs, tmp)"
    "stable_sort_of K cmp array zs"
    by (rule std_merge_sort_stable [OF assms])
  then show ?thesis
    using key_order.stable_sort_is_insertion_sort [OF assms(1)] assms(2) by simp
qed

lemma std_merge_sort_sorts_witness:
  "\<exists>sorted tmp. std_merge_sort memcmp [[3], [1], [2 :: u8]] 3 [[0], [0], [0]] = Some (sorted, tmp)
    \<and> key_sorted memcmp sorted \<and> mset sorted = {#[1], [2], [3]#}"
  using std_merge_sort_sorts [OF bytes.key_order_axioms [of 1], of "[[3], [1], [2]]" "[[0], [0], [0]]"]
  by (auto simp: add_mset_commute)

lemma std_merge_sort_is_insertion_sort_witness:
  "map_option fst (std_merge_sort memcmp [[3], [1], [2 :: u8]] 3 [[0], [0], [0]]) = Some [[1], [2], [3]]"
  using std_merge_sort_is_insertion_sort
    [OF bytes.key_order_axioms [of 1], of "[[3], [1], [2]]" "[[0], [0], [0]]"]
  by (simp add: insertion_sort_def)

end
