(* ===== verification/BitMasks.thy ===== *)
theory BitMasks
  imports Prelude
begin

text \<open>
  Bit arrays (\<open>src/std_bit_masks.c\<close>, \<open>sonic/std_bit_masks.h\<close>) and the operations on the bits of
  an integer (\<open>sonic/std_bit_ops.h\<close>). A bit array is a list of bytes; an access outside it is
  None. Sizes (\<open>size_t\<close>) are natural numbers; the positions returned are converted to a C \<open>int\<close>.
\<close>

section \<open>Bits of an integer\<close>

definition STD_BIT_SET :: "u32 \<Rightarrow> nat \<Rightarrow> u32" where
  "STD_BIT_SET bitfield n = bitfield OR push_bit n 1"

definition STD_BIT_CLEAR :: "u32 \<Rightarrow> nat \<Rightarrow> u32" where
  "STD_BIT_CLEAR bitfield n = bitfield AND NOT (push_bit n 1)"

definition STD_BIT_TEST :: "u32 \<Rightarrow> nat \<Rightarrow> u32" where
  "STD_BIT_TEST bitfield n = bitfield AND push_bit n 1"

definition STD_BIT_TOGGLE :: "u32 \<Rightarrow> nat \<Rightarrow> u32" where
  "STD_BIT_TOGGLE bitfield n = bitfield XOR push_bit n 1"

section \<open>Bit arrays\<close>

definition BITS_PER_BYTE :: nat where "BITS_PER_BYTE = 8"

definition STD_BIT_ARRAY_BYTE_OFFSET :: "nat \<Rightarrow> nat" where
  "STD_BIT_ARRAY_BYTE_OFFSET numbits = numbits div BITS_PER_BYTE"

definition STD_BIT_ARRAY_BIT_OFFSET :: "nat \<Rightarrow> nat" where
  "STD_BIT_ARRAY_BIT_OFFSET numbits = numbits mod BITS_PER_BYTE"

definition STD_BYTES_FOR_BITS :: "nat \<Rightarrow> nat" where
  "STD_BYTES_FOR_BITS numbits =
    (if STD_BIT_ARRAY_BIT_OFFSET numbits = 0 then 0 else 1) + STD_BIT_ARRAY_BYTE_OFFSET numbits"

definition STD_BIT_ARRAY_SET :: "u8 list \<Rightarrow> nat \<Rightarrow> u8 list option" where
  "STD_BIT_ARRAY_SET name bitoffset =
    (case arr_get name (STD_BIT_ARRAY_BYTE_OFFSET bitoffset) of
       None \<Rightarrow> None
     | Some byte \<Rightarrow> arr_set name (STD_BIT_ARRAY_BYTE_OFFSET bitoffset)
         (byte OR push_bit (STD_BIT_ARRAY_BIT_OFFSET bitoffset) 1))"

definition STD_BIT_ARRAY_CLR :: "u8 list \<Rightarrow> nat \<Rightarrow> u8 list option" where
  "STD_BIT_ARRAY_CLR name bitoffset =
    (case arr_get name (STD_BIT_ARRAY_BYTE_OFFSET bitoffset) of
       None \<Rightarrow> None
     | Some byte \<Rightarrow> arr_set name (STD_BIT_ARRAY_BYTE_OFFSET bitoffset)
         (byte AND NOT (push_bit (STD_BIT_ARRAY_BIT_OFFSET bitoffset) 1)))"

definition STD_BIT_ARRAY_TEST :: "u8 list \<Rightarrow> nat \<Rightarrow> bool option" where
  "STD_BIT_ARRAY_TEST name bitoffset =
    (case arr_get name (STD_BIT_ARRAY_BYTE_OFFSET bitoffset) of
       None \<Rightarrow> None
     | Some byte \<Rightarrow> Some (byte AND push_bit (STD_BIT_ARRAY_BIT_OFFSET bitoffset) 1 \<noteq> 0))"

text \<open>The length in bytes is computed on an \<open>unsigned int\<close>, also for a longer argument.\<close>

definition bittobytelen :: "u32 \<Rightarrow> u32" where
  "bittobytelen len = len div 8 + (if len mod 8 = 0 then 0 else 1)"

text \<open>The first argument is the outcome of \<open>malloc\<close>; None is the null pointer.\<close>

definition std_bitmap_create_array_with_pattern :: "bool \<Rightarrow> u64 \<Rightarrow> u8 \<Rightarrow> u8 list option" where
  "std_bitmap_create_array_with_pattern malloc_ok len pattern =
    (let len = bittobytelen (ucast len) in
     if \<not> malloc_ok then None else Some (replicate (unat len) pattern))"

definition std_bitmap_create_array_clear_bits :: "bool \<Rightarrow> u64 \<Rightarrow> u8 list option" where
  "std_bitmap_create_array_clear_bits malloc_ok len = std_bitmap_create_array_with_pattern malloc_ok len 0"

definition std_bitmap_create_array :: "bool \<Rightarrow> u64 \<Rightarrow> u8 list option" where
  "std_bitmap_create_array malloc_ok len = std_bitmap_create_array_with_pattern malloc_ok len 0xff"

function complement_loop :: "nat \<Rightarrow> nat \<Rightarrow> u8 list \<Rightarrow> u8 list option" where
  "complement_loop ix mx bits =
    (if ix < mx then
       (case arr_get bits ix of
          None \<Rightarrow> None
        | Some byte \<Rightarrow>
            (case arr_set bits ix (NOT byte) of
               None \<Rightarrow> None
             | Some bits \<Rightarrow> complement_loop (Suc ix) mx bits))
     else Some bits)"
  by pat_completeness auto
termination
  by (relation "measure (\<lambda>(ix, mx, _). mx - ix)") auto

declare complement_loop.simps [simp del]

definition std_complement_bitmaparray :: "u8 list \<Rightarrow> u64 \<Rightarrow> u8 list option" where
  "std_complement_bitmaparray bits mx = complement_loop 0 (unat (bittobytelen (ucast mx))) bits"

definition highest_bit :: "nat list" where
  "highest_bit =
    [0, 1, 2, 2, 3, 3, 3, 3, 4, 4, 4, 4, 4, 4, 4, 4,
     5, 5, 5, 5, 5, 5, 5, 5, 5, 5, 5, 5, 5, 5, 5, 5,
     6, 6, 6, 6, 6, 6, 6, 6, 6, 6, 6, 6, 6, 6, 6, 6,
     6, 6, 6, 6, 6, 6, 6, 6, 6, 6, 6, 6, 6, 6, 6, 6,
     7, 7, 7, 7, 7, 7, 7, 7, 7, 7, 7, 7, 7, 7, 7, 7,
     7, 7, 7, 7, 7, 7, 7, 7, 7, 7, 7, 7, 7, 7, 7, 7,
     7, 7, 7, 7, 7, 7, 7, 7, 7, 7, 7, 7, 7, 7, 7, 7,
     7, 7, 7, 7, 7, 7, 7, 7, 7, 7, 7, 7, 7, 7, 7, 7,
     8, 8, 8, 8, 8, 8, 8, 8, 8, 8, 8, 8, 8, 8, 8, 8,
     8, 8, 8, 8, 8, 8, 8, 8, 8, 8, 8, 8, 8, 8, 8, 8,
     8, 8, 8, 8, 8, 8, 8, 8, 8, 8, 8, 8, 8, 8, 8, 8,
     8, 8, 8, 8, 8, 8, 8, 8, 8, 8, 8, 8, 8, 8, 8, 8,
     8, 8, 8, 8, 8, 8, 8, 8, 8, 8, 8, 8, 8, 8, 8, 8,
     8, 8, 8, 8, 8, 8, 8, 8, 8, 8, 8, 8, 8, 8, 8, 8,
     8, 8, 8, 8, 8, 8, 8, 8, 8, 8, 8, 8, 8, 8, 8, 8,
     8, 8, 8, 8, 8, 8, 8, 8, 8, 8, 8, 8, 8, 8, 8, 8]"

definition lowest_bit :: "nat list" where
  "lowest_bit =
    [0, 1, 2, 1, 3, 1, 2, 1, 4, 1, 2, 1, 3, 1, 2, 1,
     5, 1, 2, 1, 3, 1, 2, 1, 4, 1, 2, 1, 3, 1, 2, 1,
     6, 1, 2, 1, 3, 1, 2, 1, 4, 1, 2, 1, 3, 1, 2, 1,
     5, 1, 2, 1, 3, 1, 2, 1, 4, 1, 2, 1, 3, 1, 2, 1,
     7, 1, 2, 1, 3, 1, 2, 1, 4, 1, 2, 1, 3, 1, 2, 1,
     5, 1, 2, 1, 3, 1, 2, 1, 4, 1, 2, 1, 3, 1, 2, 1,
     6, 1, 2, 1, 3, 1, 2, 1, 4, 1, 2, 1, 3, 1, 2, 1,
     5, 1, 2, 1, 3, 1, 2, 1, 4, 1, 2, 1, 3, 1, 2, 1,
     8, 1, 2, 1, 3, 1, 2, 1, 4, 1, 2, 1, 3, 1, 2, 1,
     5, 1, 2, 1, 3, 1, 2, 1, 4, 1, 2, 1, 3, 1, 2, 1,
     6, 1, 2, 1, 3, 1, 2, 1, 4, 1, 2, 1, 3, 1, 2, 1,
     5, 1, 2, 1, 3, 1, 2, 1, 4, 1, 2, 1, 3, 1, 2, 1,
     7, 1, 2, 1, 3, 1, 2, 1, 4, 1, 2, 1, 3, 1, 2, 1,
     5, 1, 2, 1, 3, 1, 2, 1, 4, 1, 2, 1, 3, 1, 2, 1,
     6, 1, 2, 1, 3, 1, 2, 1, 4, 1, 2, 1, 3, 1, 2, 1,
     5, 1, 2, 1, 3, 1, 2, 1, 4, 1, 2, 1, 3, 1, 2, 1]"

definition std_find_last_bit8 :: "u32 \<Rightarrow> nat \<Rightarrow> nat option" where
  "std_find_last_bit8 byte from_bit =
    (let mask = drop_bit from_bit (NOT (0 :: u32)) in arr_get highest_bit (unat (byte AND mask)))"

definition std_find_first_bit8 :: "u32 \<Rightarrow> nat \<Rightarrow> nat option" where
  "std_find_first_bit8 byte from_bit =
    (let mask = push_bit from_bit (NOT (0 :: u32)) in arr_get lowest_bit (unat (byte AND mask)))"

text \<open>The positions in the tables count from 1; 0 stands for no bit at all.\<close>

function first_bit_loop :: "u8 list \<Rightarrow> nat \<Rightarrow> nat \<Rightarrow> int option" where
  "first_bit_loop array ix mx =
    (if ix < mx then
       (case arr_get array ix of
          None \<Rightarrow> None
        | Some byte \<Rightarrow>
            if byte = 0 then first_bit_loop array (Suc ix) mx
            else (case std_find_first_bit8 (ucast byte) 0 of
                    None \<Rightarrow> None
                  | Some pos \<Rightarrow> Some (to_int32 (pos - 1 + ix * 8))))
     else Some (-1))"
  by pat_completeness auto
termination
  by (relation "measure (\<lambda>(_, ix, mx). mx - ix)") auto

declare first_bit_loop.simps [simp del]

definition std_find_first_bit :: "u8 list \<Rightarrow> nat \<Rightarrow> nat \<Rightarrow> int option" where
  "std_find_first_bit array len from_bit =
    (if from_bit \<ge> len then Some (-1)
     else
       (let ix = from_bit div 8;
            mx = len div 8 + (if len mod 8 \<noteq> 0 then 1 else 0);
            bit = from_bit mod 8
        in if bit \<noteq> 0 then
             (case arr_get array ix of
                None \<Rightarrow> None
              | Some byte \<Rightarrow>
                  (case std_find_first_bit8 (ucast byte) bit of
                     None \<Rightarrow> None
                   | Some pos \<Rightarrow> if pos \<noteq> 0 then Some (to_int32 (pos - 1 + ix * 8))
                                else first_bit_loop array (Suc ix) mx))
           else first_bit_loop array ix mx))"

text \<open>The second loop runs downwards; \<open>n\<close> is \<open>mx + 1\<close>.\<close>

fun last_bit_loop :: "u8 list \<Rightarrow> nat \<Rightarrow> int option" where
  "last_bit_loop array 0 = Some (-1)"
| "last_bit_loop array (Suc mx) =
    (case arr_get array mx of
       None \<Rightarrow> None
     | Some byte \<Rightarrow>
         if byte \<noteq> 0 then
           (case std_find_last_bit8 (ucast byte) 0 of
              None \<Rightarrow> None
            | Some pos \<Rightarrow> Some (to_int32 (pos - 1 + mx * 8)))
         else last_bit_loop array mx)"

definition std_find_last_bit :: "u8 list \<Rightarrow> nat \<Rightarrow> nat \<Rightarrow> int option" where
  "std_find_last_bit array len from_bit =
    (if from_bit \<ge> len then Some (-1)
     else
       (let from_bit = len - from_bit;
            mx = from_bit div 8 + (if from_bit mod 8 \<noteq> 0 then 1 else 0)
        in if mx = 0 then Some (-1)
           else
             (let mx = mx - 1; bit = from_bit mod 8 in
              if bit \<noteq> 0 then
                (case arr_get array mx of
                   None \<Rightarrow> None
                 | Some byte \<Rightarrow>
                     (case std_find_last_bit8 (ucast byte) bit of
                        None \<Rightarrow> None
                      | Some pos \<Rightarrow>
                          if pos \<noteq> 0 then Some (to_int32 (pos - 1 + mx * 8))
                          else if mx = 0 then Some (-1)
                          else last_bit_loop array mx))
              else last_bit_loop array (Suc mx))))"

section \<open>The tables\<close>

text \<open>The position of a bit, counted from 1, and 0 for none.\<close>

definition bit_position :: "nat option \<Rightarrow> nat" where
  "bit_position r = (case r of None \<Rightarrow> 0 | Some k \<Rightarrow> Suc k)"

lemma lowest_bit_table:
  "lowest_bit = map (\<lambda>b. bit_position (find (\<lambda>k. odd (b div 2 ^ k)) [0..<8])) [0..<256]"
  by (simp add: lowest_bit_def bit_position_def upt_rec)

lemma highest_bit_table:
  "highest_bit = map (\<lambda>b. bit_position (find (\<lambda>k. odd (b div 2 ^ k)) (rev [0..<8]))) [0..<256]"
  by (simp add: highest_bit_def bit_position_def upt_rec)

lemma bit_unat_odd: "odd (unat w div 2 ^ k) = bit w k" for w :: "'a::len word"
  by (simp add: bit_unsigned_iff flip: bit_iff_odd)

lemma table_get:
  assumes "t = map (\<lambda>b. bit_position (find (\<lambda>k. odd (b div 2 ^ k)) ns)) [0..<256]"
    and "w < 256"
  shows "arr_get t (unat (w :: u32)) = Some (bit_position (find (bit w) ns))"
proof -
  have "unat w < 256" using assms(2) by (simp add: word_less_nat_alt)
  then show ?thesis using assms(1) by (simp add: bit_unat_odd)
qed

lemma ucast_and_less: "(ucast (byte :: u8) :: u32) AND m < 256"
proof -
  have "uint (ucast byte :: u32) < 256" using uint_lt2p [of byte] by (simp add: uint_up_ucast is_up)
  then have "(ucast byte :: u32) < 256" by (simp add: word_less_def)
  moreover have "(ucast byte :: u32) AND m \<le> ucast byte" by (rule word_and_le2)
  ultimately show ?thesis by (rule order.strict_trans1 [rotated])
qed

lemma find_first_bit8:
  fixes byte :: u8
  assumes "k \<le> 8"
  shows "std_find_first_bit8 (ucast byte) k = Some (bit_position (find (bit byte) [k..<8]))"
proof -
  let ?w = "(ucast byte :: u32) AND push_bit k (NOT 0)"
  have b: "bit ?w n \<longleftrightarrow> k \<le> n \<and> bit byte n" if "n < 8" for n
    using that by (auto simp: bit_and_iff bit_not_iff bit_mask_iff bit_unsigned_iff)
  have "[0..<8] = [0..<k] @ [k..<8]" using assms upt_add_eq_append [of 0 k "8 - k"] by simp
  moreover have "find (bit ?w) [0..<k] = None" using assms b by (auto simp: find_None_iff)
  moreover have "find (bit ?w) [k..<8] = find (bit byte) [k..<8]" using b by (intro find_cong) auto
  ultimately have "find (bit ?w) [0..<8] = find (bit byte) [k..<8]" by (simp add: find_append)
  then show ?thesis
    using table_get [OF lowest_bit_table ucast_and_less, of byte "push_bit k (NOT 0)"]
    by (simp add: std_find_first_bit8_def)
qed

text \<open>The mask of the other search shifts zeros in above bit 24 only: it keeps the whole byte.\<close>

lemma find_last_bit8:
  fixes byte :: u8
  assumes "k \<le> 8"
  shows "std_find_last_bit8 (ucast byte) k = Some (bit_position (find (bit byte) (rev [0..<8])))"
proof -
  let ?w = "(ucast byte :: u32) AND drop_bit k (NOT 0)"
  have "bit ?w n \<longleftrightarrow> bit byte n" if "n < 8" for n
    using that assms by (auto simp: bit_and_iff bit_mask_iff bit_unsigned_iff)
  then have "find (bit ?w) (rev [0..<8]) = find (bit byte) (rev [0..<8])" by (intro find_cong) auto
  then show ?thesis
    using table_get [OF highest_bit_table ucast_and_less, of byte "drop_bit k (NOT 0)"]
    by (simp add: std_find_last_bit8_def)
qed

section \<open>A bit array as its bits\<close>

definition bit_at :: "u8 list \<Rightarrow> nat \<Rightarrow> bool" where
  "bit_at array p = bit (array ! (p div 8)) (p mod 8)"

definition found :: "nat option \<Rightarrow> int" where
  "found r = (case r of None \<Rightarrow> -1 | Some p \<Rightarrow> int p)"

lemma bit_at_byte: "n < 8 \<Longrightarrow> bit_at array (ix * 8 + n) = bit (array ! ix) n"
  by (simp add: bit_at_def)

lemma find_byte:
  assumes "\<forall>n\<in>set ns. n < 8"
  shows "find (bit_at array) (map (\<lambda>n. ix * 8 + n) ns) = map_option (\<lambda>n. ix * 8 + n) (find (bit (array ! ix)) ns)"
proof -
  have "find (\<lambda>n. bit_at array (ix * 8 + n)) ns = find (bit (array ! ix)) ns"
    using assms bit_at_byte by (intro find_cong) auto
  then show ?thesis by (simp add: find_map)
qed

lemma byte_range: "k \<le> 8 \<Longrightarrow> ix < mx \<Longrightarrow>
    [ix * 8 + k..<mx * 8] = map (\<lambda>n. ix * 8 + n) [k..<8] @ [Suc ix * 8..<mx * 8]"
  using upt_add_eq_append [of "ix * 8 + k" "ix * 8 + 8" "mx * 8 - (ix * 8 + 8)"]
    map_add_upt [of "ix * 8"] 
  by (auto intro!: nth_equalityI simp: nth_append)

lemma find_bit_zero: "find (bit (0 :: u8)) ns = None" "find bot ns = None"
  by (simp_all add: find_None_iff)

lemma byte_zero_iff: "byte = 0 \<longleftrightarrow> find (bit byte) ns = None" if "set ns = {0..<8}" for byte :: u8
  using that by (auto simp: find_None_iff intro!: bit_word_eqI)

lemma find_map_byte:
  "find (bit_at array) ([ix * 8 + k..<8 + ix * 8]) = map_option (\<lambda>n. ix * 8 + n) (find (bit (array ! ix)) [k..<8])"
  if "k \<le> 8"
proof -
  have "[ix * 8 + k..<8 + ix * 8] = map (\<lambda>n. ix * 8 + n) [k..<8]"
    using that by (intro nth_equalityI) auto
  then show ?thesis using find_byte [of "[k..<8]"] by simp
qed

lemma position_found:
  "bit_position r \<noteq> 0 \<Longrightarrow> \<exists>n. r = Some n" "bit_position (Some n) = Suc n" "bit_position None = 0"
  by (auto simp: bit_position_def split: option.splits)

lemma first_bit_loop_ok:
  assumes "mx \<le> length array" and "mx * 8 < 2 ^ 31"
  shows "first_bit_loop array ix mx = Some (found (find (bit_at array) [ix * 8..<mx * 8]))"
  using assms
proof (induction array ix mx rule: first_bit_loop.induct)
  case (1 array ix mx)
  show ?case
  proof (cases "ix < mx")
    case True
    have f: "find (bit_at array) [ix * 8..<mx * 8] =
        (case find (bit (array ! ix)) [0..<8] of None \<Rightarrow> find (bit_at array) [Suc ix * 8..<mx * 8]
         | Some n \<Rightarrow> Some (ix * 8 + n))"
      using find_byte [of "[0..<8]"] byte_range [of 0 ix mx] True
      by (simp add: find_append split: option.splits)
    show ?thesis
    proof (cases "array ! ix = 0")
      case True
      with 1 \<open>ix < mx\<close> f show ?thesis
        by (simp add: first_bit_loop.simps [of array ix] find_bit_zero)
    next
      case False
      then obtain n where n: "find (bit (array ! ix)) [0..<8] = Some n"
        using byte_zero_iff [of "[0..<8]" "array ! ix"] by auto
      then have "n < 8" by (auto dest: find_Some_in)
      with n False f True 1(2,3) find_first_bit8 [of 0 "array ! ix"] show ?thesis
        by (simp add: first_bit_loop.simps [of array ix] position_found found_def add.commute)
    qed
  next
    case False
    then show ?thesis by (simp add: first_bit_loop.simps found_def)
  qed
qed

lemma find_rev_byte:
  "find (bit_at array) (rev [0..<Suc mx * 8]) =
    (case find (bit (array ! mx)) (rev [0..<8]) of None \<Rightarrow> find (bit_at array) (rev [0..<mx * 8])
     | Some n \<Rightarrow> Some (mx * 8 + n))"
proof -
  have "[0..<Suc mx * 8] = [0..<mx * 8] @ map (\<lambda>n. mx * 8 + n) [0..<8]"
    by (intro nth_equalityI) (auto simp: nth_append)
  then have "rev [0..<Suc mx * 8] = map (\<lambda>n. mx * 8 + n) (rev [0..<8]) @ rev [0..<mx * 8]"
    by (simp add: rev_map)
  then show ?thesis
    using find_byte [of "rev [0..<8]" array mx] by (simp add: find_append split: option.splits)
qed

lemma last_bit_loop_ok:
  assumes "mx \<le> length array" and "mx * 8 < 2 ^ 31"
  shows "last_bit_loop array mx = Some (found (find (bit_at array) (rev [0..<mx * 8])))"
  using assms
proof (induction mx)
  case (Suc mx)
  show ?case
  proof (cases "array ! mx = 0")
    case True
    with Suc find_rev_byte [of array mx] show ?thesis by (simp add: find_bit_zero)
  next
    case False
    then obtain n where n: "find (bit (array ! mx)) (rev [0..<8]) = Some n"
      using byte_zero_iff [of "rev [0..<8]" "array ! mx"] by auto
    then have "n < 8" by (auto dest: find_Some_in)
    with n False find_rev_byte [of array mx] Suc(2,3) find_last_bit8 [of 0 "array ! mx"] show ?thesis
      by (simp add: position_found found_def add.commute)
  qed
qed (simp add: found_def)

text \<open>The bytes that hold \<open>len\<close> bits.\<close>

lemma bytes_for_bits:
  "n div 8 + (if n mod 8 \<noteq> 0 then 1 else 0) = (n + 7) div (8 :: nat)"
  "(n + 7) div 8 \<le> m \<longleftrightarrow> n \<le> m * (8 :: nat)"
  by (auto simp: mod_eq_0_iff_dvd) presburger+

lemma find_first_bit_ok:
  assumes "len \<le> length array * 8" and "len + 8 \<le> 2 ^ 31" and "start < len"
  shows "std_find_first_bit array len start =
    Some (found (find (bit_at array) [start..<(len + 7) div 8 * 8]))"
proof -
  define mx where "mx = (len + 7) div 8"
  have mx: "len div 8 + (if len mod 8 \<noteq> 0 then 1 else 0) = mx" "mx \<le> length array" "mx * 8 < 2 ^ 31"
    using assms(1,2) bytes_for_bits [of len] by (auto simp: mx_def)
  have ix: "start div 8 < mx" "start div 8 < length array" using assms(3,1) mx by (auto simp: mx_def)
  note loop = first_bit_loop_ok [OF mx(2,3)]
  show ?thesis
  proof (cases "start mod 8 = 0")
    case True
    then have "start div 8 * 8 = start" by auto
    with True assms(3) loop [of "start div 8"] show ?thesis
      unfolding mx_def [symmetric] std_find_first_bit_def Let_def mx(1) by simp
  next
    case False
    let ?k = "start mod 8" and ?ix = "start div 8"
    have s: "?ix * 8 + ?k = start" by simp
    have f: "find (bit_at array) [start..<mx * 8] =
        (case find (bit (array ! ?ix)) [?k..<8] of None \<Rightarrow> find (bit_at array) [Suc ?ix * 8..<mx * 8]
         | Some n \<Rightarrow> Some (?ix * 8 + n))"
      using find_byte [of "[?k..<8]" array ?ix] byte_range [of ?k ?ix mx] ix(1) unfolding s
      by (simp add: find_append split: option.splits)
    show ?thesis
    proof (cases "find (bit (array ! ?ix)) [?k..<8]")
      case None
      with f False assms(3) ix(2) loop [of "Suc ?ix"] find_first_bit8 [of ?k "array ! ?ix"]
      show ?thesis
        unfolding mx_def [symmetric] std_find_first_bit_def Let_def mx(1) by (simp add: position_found)
    next
      case (Some n)
      then have "n < 8" by (auto dest: find_Some_in)
      with Some f False assms(3) ix mx(3) find_first_bit8 [of ?k "array ! ?ix"]
      show ?thesis
        unfolding mx_def [symmetric] std_find_first_bit_def Let_def mx(1)
        by (simp add: position_found found_def add.commute)
    qed
  qed
qed

lemma find_last_bit_ok:
  assumes "len \<le> length array * 8" and "len + 8 \<le> 2 ^ 31" and "start < len"
  shows "std_find_last_bit array len start =
    Some (found (find (bit_at array) (rev [0..<(len - start + 7) div 8 * 8])))"
proof -
  define n where "n = len - start"
  obtain mx where mx: "(n + 7) div 8 = Suc mx" using assms(3) by (cases "(n + 7) div 8") (auto simp: n_def)
  have le: "Suc mx \<le> length array" "Suc mx * 8 < 2 ^ 31"
    using assms(1,2) bytes_for_bits(2) [of n "length array"] mx by (auto simp: n_def)
  note loop = last_bit_loop_ok [OF le] last_bit_loop_ok [of mx array]
  have m: "n div 8 + (if n mod 8 \<noteq> 0 then 1 else 0) = Suc mx" using bytes_for_bits(1) mx by simp
  show ?thesis
  proof (cases "n mod 8 = 0")
    case True
    with assms(3) loop(1) m mx show ?thesis
      by (simp add: std_find_last_bit_def Let_def flip: n_def)
  next
    case False
    have n: "n div 8 = mx" using m False by simp
    show ?thesis
    proof (cases "find (bit (array ! mx)) (rev [0..<8])")
      case None
      with False assms(3) loop(2) mx le n find_rev_byte [of array mx] find_last_bit8 [of "n mod 8" "array ! mx"]
      show ?thesis
        by (simp add: std_find_last_bit_def Let_def position_found found_def flip: n_def)
    next
      case (Some k)
      then have "k < 8" by (auto dest: find_Some_in)
      with Some False assms(3) mx le n find_rev_byte [of array mx] find_last_bit8 [of "n mod 8" "array ! mx"]
      show ?thesis
        by (simp add: std_find_last_bit_def Let_def position_found found_def add.commute flip: n_def)
    qed
  qed
qed

section \<open>Setting, clearing and testing a bit\<close>

lemma bit_array_test: "p < length array * 8 \<Longrightarrow> STD_BIT_ARRAY_TEST array p = Some (bit_at array p)"
proof -
  assume p: "p < length array * 8"
  then have "p div 8 < length array" by (simp add: less_mult_imp_div_less)
  moreover have "(w AND push_bit n 1 \<noteq> 0) = bit w n" for w :: u8 and n
    by (simp add: and_exp_eq_0_iff_not_bit)
  ultimately show ?thesis
    by (simp add: STD_BIT_ARRAY_TEST_def STD_BIT_ARRAY_BYTE_OFFSET_def STD_BIT_ARRAY_BIT_OFFSET_def
        BITS_PER_BYTE_def bit_at_def)
qed

lemma bit_at_update:
  assumes "p < length array * 8"
  shows "bit_at (array[p div 8 := w]) q = (if q div 8 = p div 8 then bit w (q mod 8) else bit_at array q)"
  using assms by (auto simp: bit_at_def less_mult_imp_div_less)

lemma same_bit: "q div 8 = p div 8 \<Longrightarrow> q mod 8 = p mod 8 \<longleftrightarrow> q = (p :: nat)"
  by (metis div_mult_mod_eq)

lemma bit_array_set:
  assumes "p < length array * 8"
  shows "\<exists>array'. STD_BIT_ARRAY_SET array p = Some array' \<and> length array' = length array
    \<and> (\<forall>q. bit_at array' q = (if q = p then True else bit_at array q))"
proof -
  let ?w = "array ! (p div 8) OR push_bit (p mod 8) 1"
  have "STD_BIT_ARRAY_SET array p = Some (array[p div 8 := ?w])"
    using assms by (simp add: STD_BIT_ARRAY_SET_def STD_BIT_ARRAY_BYTE_OFFSET_def
        STD_BIT_ARRAY_BIT_OFFSET_def BITS_PER_BYTE_def less_mult_imp_div_less)
  moreover have "bit ?w (q mod 8) = (if q mod 8 = p mod 8 then True else bit (array ! (p div 8)) (q mod 8))" for q
    by (auto simp: bit_or_iff bit_push_bit_iff bit_1_iff bit_exp_iff)
  ultimately show ?thesis
    using assms same_bit by (auto simp: bit_at_update) (auto simp: bit_at_def)
qed

lemma bit_array_clr:
  assumes "p < length array * 8"
  shows "\<exists>array'. STD_BIT_ARRAY_CLR array p = Some array' \<and> length array' = length array
    \<and> (\<forall>q. bit_at array' q = (if q = p then False else bit_at array q))"
proof -
  let ?w = "array ! (p div 8) AND NOT (push_bit (p mod 8) 1)"
  have "STD_BIT_ARRAY_CLR array p = Some (array[p div 8 := ?w])"
    using assms by (simp add: STD_BIT_ARRAY_CLR_def STD_BIT_ARRAY_BYTE_OFFSET_def
        STD_BIT_ARRAY_BIT_OFFSET_def BITS_PER_BYTE_def less_mult_imp_div_less)
  moreover have "bit ?w (q mod 8) = (if q mod 8 = p mod 8 then False else bit (array ! (p div 8)) (q mod 8))" for q
    by (auto simp: bit_and_iff bit_not_iff bit_push_bit_iff bit_1_iff bit_exp_iff)
  ultimately show ?thesis
    using assms same_bit by (auto simp: bit_at_update) (auto simp: bit_at_def)
qed

lemma complement_loop_ok:
  assumes "mx \<le> length bits" and "ix \<le> mx"
  shows "complement_loop ix mx bits = Some (take ix bits @ map NOT (take (mx - ix) (drop ix bits)) @ drop mx bits)"
  using assms
proof (induction ix mx bits rule: complement_loop.induct)
  case (1 ix mx bits)
  show ?case
  proof (cases "ix < mx")
    case True
    then have "drop ix bits = bits ! ix # drop (Suc ix) bits" "mx - ix = Suc (mx - Suc ix)"
      using 1(2) by (simp_all add: Cons_nth_drop_Suc)
    with True 1 show ?thesis
      by (simp add: complement_loop.simps [of ix] take_Suc_conv_app_nth)
  next
    case False
    with 1(2,3) show ?thesis by (simp add: complement_loop.simps)
  qed
qed

section \<open>Properties\<close>

text \<open>The search for the first set bit returns the least set position at or after the start,
  and -1 exactly when there is none among the bytes that hold the \<open>len\<close> bits; it never leaves the
  array. (The bits that pad the last byte are searched too, so a position of at least \<open>len\<close> may
  be returned.) \<close>

theorem std_find_first_bit_least:
  assumes "len \<le> length array * 8" and "len + 8 \<le> 2 ^ 31" and "start < len"
  shows "(\<exists>p. std_find_first_bit array len start = Some (int p) \<and> start \<le> p \<and> p < STD_BYTES_FOR_BITS len * 8
      \<and> STD_BIT_ARRAY_TEST array p = Some True
      \<and> (\<forall>q. start \<le> q \<and> q < p \<longrightarrow> STD_BIT_ARRAY_TEST array q = Some False))
    \<or> std_find_first_bit array len start = Some (-1)
      \<and> (\<forall>q. start \<le> q \<and> q < STD_BYTES_FOR_BITS len * 8 \<longrightarrow> STD_BIT_ARRAY_TEST array q = Some False)"
proof -
  have b: "STD_BYTES_FOR_BITS len = (len + 7) div 8"
    using bytes_for_bits(1) [of len]
    by (auto simp: STD_BYTES_FOR_BITS_def STD_BIT_ARRAY_BYTE_OFFSET_def STD_BIT_ARRAY_BIT_OFFSET_def BITS_PER_BYTE_def)
  then have le: "q < length array * 8" if "q < STD_BYTES_FOR_BITS len * 8" for q
    using that bytes_for_bits(2) [of len "length array"] assms(1) by linarith
  show ?thesis
  proof (cases "find (bit_at array) [start..<STD_BYTES_FOR_BITS len * 8]")
    case None
    then have "std_find_first_bit array len start = Some (-1)"
      using find_first_bit_ok [OF assms] by (simp add: found_def b)
    with None le show ?thesis by (intro disjI2) (simp add: find_None_iff bit_array_test)
  next
    case (Some p)
    then obtain i where i: "i < STD_BYTES_FOR_BITS len * 8 - start" "p = start + i" "bit_at array p"
      "\<forall>j<i. \<not> bit_at array (start + j)"
      by (auto simp: find_Some_iff)
    have "\<not> bit_at array q" if "start \<le> q" "q < p" for q
      using that i(2) i(4) [rule_format, of "q - start"] by simp
    with i le Some find_first_bit_ok [OF assms] show ?thesis
      by (intro disjI1 exI [of _ p]) (auto simp: found_def bit_array_test b)
  qed
qed

text \<open>The search for the last set bit looks at every bit of the bytes that hold the first
  \<open>len - start\<close> bits and returns the greatest set position among them, or -1 when all are
  clear. The byte in which the search starts is not masked, so the position may lie beyond
  \<open>len - start\<close>. \<close>

theorem std_find_last_bit_greatest:
  assumes "len \<le> length array * 8" and "len + 8 \<le> 2 ^ 31" and "start < len"
  shows "std_find_last_bit array len start =
    Some (if \<exists>p < STD_BYTES_FOR_BITS (len - start) * 8. STD_BIT_ARRAY_TEST array p = Some True
          then int (Max {p. p < STD_BYTES_FOR_BITS (len - start) * 8 \<and> STD_BIT_ARRAY_TEST array p = Some True})
          else -1)"
proof -
  define n where "n = STD_BYTES_FOR_BITS (len - start) * 8"
  have b: "n = (len - start + 7) div 8 * 8"
    using bytes_for_bits(1) [of "len - start"]
    by (auto simp: n_def STD_BYTES_FOR_BITS_def STD_BIT_ARRAY_BYTE_OFFSET_def STD_BIT_ARRAY_BIT_OFFSET_def
        BITS_PER_BYTE_def)
  have le: "STD_BIT_ARRAY_TEST array q = Some (bit_at array q)" if "q < n" for q
    using that bytes_for_bits(2) [of "len - start" "length array"] assms(1) b by (intro bit_array_test) linarith
  have "found (find (bit_at array) (rev [0..<n])) =
    (if \<exists>p<n. bit_at array p then int (Max {p. p < n \<and> bit_at array p}) else -1)" for n
  proof (induction n)
    case (Suc n)
    have "{p. p < Suc n \<and> bit_at array p} =
      (if bit_at array n then insert n {p. p < n \<and> bit_at array p} else {p. p < n \<and> bit_at array p})"
      by (auto simp: less_Suc_eq)
    moreover have "Max (insert n {p. p < n \<and> bit_at array p}) = n"
      by (intro Max_eqI) auto
    ultimately show ?case
      using Suc by (auto simp: found_def less_Suc_eq)
  qed (simp add: found_def)
  moreover have "{p. p < n \<and> STD_BIT_ARRAY_TEST array p = Some True} = {p. p < n \<and> bit_at array p}"
    using le by auto
  ultimately show ?thesis
    using find_last_bit_ok [OF assms] le unfolding n_def [symmetric] b [symmetric] by auto
qed

text \<open>Setting and clearing a bit of an array change the outcome of the test of that bit and of
  no other, and keep the length. \<close>

theorem bit_array_update:
  assumes "p < length array * 8"
  shows "\<exists>a1 a2. STD_BIT_ARRAY_SET array p = Some a1 \<and> STD_BIT_ARRAY_CLR array p = Some a2
    \<and> length a1 = length array \<and> length a2 = length array
    \<and> (\<forall>q < length array * 8. STD_BIT_ARRAY_TEST a1 q = (if q = p then Some True else STD_BIT_ARRAY_TEST array q)
        \<and> STD_BIT_ARRAY_TEST a2 q = (if q = p then Some False else STD_BIT_ARRAY_TEST array q))"
proof -
  obtain a1 where "STD_BIT_ARRAY_SET array p = Some a1" "length a1 = length array"
    "\<And>q. bit_at a1 q = (if q = p then True else bit_at array q)"
    using bit_array_set [OF assms] by blast
  moreover obtain a2 where "STD_BIT_ARRAY_CLR array p = Some a2" "length a2 = length array"
    "\<And>q. bit_at a2 q = (if q = p then False else bit_at array q)"
    using bit_array_clr [OF assms] by blast
  ultimately show ?thesis by (intro exI [of _ a1] exI [of _ a2]) (simp add: bit_array_test)
qed

text \<open>A bit array is created with every bit clear or every bit set, unless the allocation
  fails; complementing it inverts every byte that holds one of its bits, so doing it twice
  changes nothing and the complement of the clear array is the set one. \<close>

theorem bitmap_complement:
  assumes "unat (bittobytelen (ucast mx)) \<le> length bits"
  shows "Option.bind (std_complement_bitmaparray bits mx) (\<lambda>bits'. std_complement_bitmaparray bits' mx) = Some bits
    \<and> Option.bind (std_bitmap_create_array_clear_bits malloc_ok mx) (\<lambda>bits'. std_complement_bitmaparray bits' mx)
      = std_bitmap_create_array malloc_ok mx
    \<and> (std_bitmap_create_array malloc_ok mx = None \<longleftrightarrow> \<not> malloc_ok)"
proof -
  let ?n = "unat (bittobytelen (ucast mx))"
  have c: "std_complement_bitmaparray b mx = Some (map NOT (take ?n b) @ drop ?n b)"
    if "?n \<le> length b" for b
    using that by (simp add: std_complement_bitmaparray_def complement_loop_ok)
  have "Option.bind (std_complement_bitmaparray bits mx) (\<lambda>bits'. std_complement_bitmaparray bits' mx) = Some bits"
    using assms by (simp add: c o_def)
  moreover have "std_complement_bitmaparray (replicate ?n 0) mx = Some (replicate ?n 0xff)"
    using c [of "replicate ?n 0"] by (simp add: map_replicate)
  ultimately show ?thesis
    by (simp add: std_bitmap_create_array_def std_bitmap_create_array_clear_bits_def
        std_bitmap_create_array_with_pattern_def Let_def)
qed

text \<open>The array 00 10, 16 bits long.\<close>

lemma std_find_first_bit_least_witness:
  "\<exists>p. std_find_first_bit [0, 0x10] 16 3 = Some (int p) \<and> 3 \<le> p \<and> STD_BIT_ARRAY_TEST [0, 0x10] p = Some True"
proof -
  have "STD_BIT_ARRAY_TEST [0, 0x10] 12 = Some True" "(12 :: nat) < STD_BYTES_FOR_BITS 16 * 8"
    by (simp_all add: STD_BIT_ARRAY_TEST_def STD_BYTES_FOR_BITS_def STD_BIT_ARRAY_BYTE_OFFSET_def
        STD_BIT_ARRAY_BIT_OFFSET_def BITS_PER_BYTE_def)
  with std_find_first_bit_least [of 16 "[0, 0x10]" 3] show ?thesis by auto
qed

text \<open>The array 80, 8 bits long, searched from its second bit back: the answer is bit 7.\<close>

lemma std_find_last_bit_greatest_witness:
  "\<exists>p. std_find_last_bit [0x80] 8 1 = Some (int p) \<and> \<not> p < 8 - 1"
proof -
  have t: "STD_BIT_ARRAY_TEST [0x80] 7 = Some True" "STD_BYTES_FOR_BITS (8 - 1) * 8 = 8"
    by (simp_all add: STD_BIT_ARRAY_TEST_def STD_BYTES_FOR_BITS_def STD_BIT_ARRAY_BYTE_OFFSET_def
        STD_BIT_ARRAY_BIT_OFFSET_def BITS_PER_BYTE_def)
  let ?P = "{p. p < 8 \<and> STD_BIT_ARRAY_TEST [0x80] p = Some True}"
  have "7 \<le> Max ?P" using t(1) by (intro Max_ge) auto
  moreover have "\<exists>p<8. STD_BIT_ARRAY_TEST [0x80] p = Some True" using t(1) by (intro exI [of _ 7]) simp
  ultimately show ?thesis
    using std_find_last_bit_greatest [of 8 "[0x80]" 1] unfolding t(2)
    by (intro exI [of _ "Max ?P"]) (simp add: not_less)
qed

lemma bit_array_update_witness:
  "\<exists>a. STD_BIT_ARRAY_SET [0, 0] 12 = Some a \<and> STD_BIT_ARRAY_TEST a 12 = Some True
    \<and> STD_BIT_ARRAY_TEST a 3 = STD_BIT_ARRAY_TEST [0, 0] 3"
  using bit_array_update [of 12 "[0, 0]"] by force

lemma bitmap_complement_witness:
  "Option.bind (std_complement_bitmaparray [1, 2] 9) (\<lambda>bits. std_complement_bitmaparray bits 9) = Some [1, 2]"
  using bitmap_complement [of 9 "[1, 2]" True] by (simp add: bittobytelen_def)

end
