(* ===== verification/Crc32.thy ===== *)
theory Crc32
  imports Prelude
begin

text \<open>
  The checksum of \<open>src/std_crc32.c\<close>: one table lookup per byte. The table is checked against the
  shift register it stands for, and the routine against the computation bit by bit.
\<close>

section \<open>The routine\<close>

definition crc32_tab :: "u32 list" where
  "crc32_tab =
    [0x00000000, 0x77073096, 0xee0e612c, 0x990951ba, 0x076dc419, 0x706af48f, 0xe963a535, 0x9e6495a3,
     0x0edb8832, 0x79dcb8a4, 0xe0d5e91e, 0x97d2d988, 0x09b64c2b, 0x7eb17cbd, 0xe7b82d07, 0x90bf1d91,
     0x1db71064, 0x6ab020f2, 0xf3b97148, 0x84be41de, 0x1adad47d, 0x6ddde4eb, 0xf4d4b551, 0x83d385c7,
     0x136c9856, 0x646ba8c0, 0xfd62f97a, 0x8a65c9ec, 0x14015c4f, 0x63066cd9, 0xfa0f3d63, 0x8d080df5,
     0x3b6e20c8, 0x4c69105e, 0xd56041e4, 0xa2677172, 0x3c03e4d1, 0x4b04d447, 0xd20d85fd, 0xa50ab56b,
     0x35b5a8fa, 0x42b2986c, 0xdbbbc9d6, 0xacbcf940, 0x32d86ce3, 0x45df5c75, 0xdcd60dcf, 0xabd13d59,
     0x26d930ac, 0x51de003a, 0xc8d75180, 0xbfd06116, 0x21b4f4b5, 0x56b3c423, 0xcfba9599, 0xb8bda50f,
     0x2802b89e, 0x5f058808, 0xc60cd9b2, 0xb10be924, 0x2f6f7c87, 0x58684c11, 0xc1611dab, 0xb6662d3d,
     0x76dc4190, 0x01db7106, 0x98d220bc, 0xefd5102a, 0x71b18589, 0x06b6b51f, 0x9fbfe4a5, 0xe8b8d433,
     0x7807c9a2, 0x0f00f934, 0x9609a88e, 0xe10e9818, 0x7f6a0dbb, 0x086d3d2d, 0x91646c97, 0xe6635c01,
     0x6b6b51f4, 0x1c6c6162, 0x856530d8, 0xf262004e, 0x6c0695ed, 0x1b01a57b, 0x8208f4c1, 0xf50fc457,
     0x65b0d9c6, 0x12b7e950, 0x8bbeb8ea, 0xfcb9887c, 0x62dd1ddf, 0x15da2d49, 0x8cd37cf3, 0xfbd44c65,
     0x4db26158, 0x3ab551ce, 0xa3bc0074, 0xd4bb30e2, 0x4adfa541, 0x3dd895d7, 0xa4d1c46d, 0xd3d6f4fb,
     0x4369e96a, 0x346ed9fc, 0xad678846, 0xda60b8d0, 0x44042d73, 0x33031de5, 0xaa0a4c5f, 0xdd0d7cc9,
     0x5005713c, 0x270241aa, 0xbe0b1010, 0xc90c2086, 0x5768b525, 0x206f85b3, 0xb966d409, 0xce61e49f,
     0x5edef90e, 0x29d9c998, 0xb0d09822, 0xc7d7a8b4, 0x59b33d17, 0x2eb40d81, 0xb7bd5c3b, 0xc0ba6cad,
     0xedb88320, 0x9abfb3b6, 0x03b6e20c, 0x74b1d29a, 0xead54739, 0x9dd277af, 0x04db2615, 0x73dc1683,
     0xe3630b12, 0x94643b84, 0x0d6d6a3e, 0x7a6a5aa8, 0xe40ecf0b, 0x9309ff9d, 0x0a00ae27, 0x7d079eb1,
     0xf00f9344, 0x8708a3d2, 0x1e01f268, 0x6906c2fe, 0xf762575d, 0x806567cb, 0x196c3671, 0x6e6b06e7,
     0xfed41b76, 0x89d32be0, 0x10da7a5a, 0x67dd4acc, 0xf9b9df6f, 0x8ebeeff9, 0x17b7be43, 0x60b08ed5,
     0xd6d6a3e8, 0xa1d1937e, 0x38d8c2c4, 0x4fdff252, 0xd1bb67f1, 0xa6bc5767, 0x3fb506dd, 0x48b2364b,
     0xd80d2bda, 0xaf0a1b4c, 0x36034af6, 0x41047a60, 0xdf60efc3, 0xa867df55, 0x316e8eef, 0x4669be79,
     0xcb61b38c, 0xbc66831a, 0x256fd2a0, 0x5268e236, 0xcc0c7795, 0xbb0b4703, 0x220216b9, 0x5505262f,
     0xc5ba3bbe, 0xb2bd0b28, 0x2bb45a92, 0x5cb36a04, 0xc2d7ffa7, 0xb5d0cf31, 0x2cd99e8b, 0x5bdeae1d,
     0x9b64c2b0, 0xec63f226, 0x756aa39c, 0x026d930a, 0x9c0906a9, 0xeb0e363f, 0x72076785, 0x05005713,
     0x95bf4a82, 0xe2b87a14, 0x7bb12bae, 0x0cb61b38, 0x92d28e9b, 0xe5d5be0d, 0x7cdcefb7, 0x0bdbdf21,
     0x86d3d2d4, 0xf1d4e242, 0x68ddb3f8, 0x1fda836e, 0x81be16cd, 0xf6b9265b, 0x6fb077e1, 0x18b74777,
     0x88085ae6, 0xff0f6a70, 0x66063bca, 0x11010b5c, 0x8f659eff, 0xf862ae69, 0x616bffd3, 0x166ccf45,
     0xa00ae278, 0xd70dd2ee, 0x4e048354, 0x3903b3c2, 0xa7672661, 0xd06016f7, 0x4969474d, 0x3e6e77db,
     0xaed16a4a, 0xd9d65adc, 0x40df0b66, 0x37d83bf0, 0xa9bcae53, 0xdebb9ec5, 0x47b2cf7f, 0x30b5ffe9,
     0xbdbdf21c, 0xcabac28a, 0x53b39330, 0x24b4a3a6, 0xbad03605, 0xcdd70693, 0x54de5729, 0x23d967bf,
     0xb3667a2e, 0xc4614ab8, 0x5d681b02, 0x2a6f2b94, 0xb40bbe37, 0xc30c8ea1, 0x5a05df1b, 0x2d02ef8d]"

text \<open>One round of the loop; the index is masked to 8 bits, so it never leaves the table.\<close>

definition crc32_step :: "u32 \<Rightarrow> u8 \<Rightarrow> u32" where
  "crc32_step crc p = crc32_tab ! unat ((crc XOR ucast p) AND 0xFF) XOR drop_bit 8 crc"

fun crc32_loop :: "u32 \<Rightarrow> u8 list \<Rightarrow> u32" where
  "crc32_loop crc [] = crc"
| "crc32_loop crc (p # ps) = crc32_loop (crc32_step crc p) ps"

definition std_crc32 :: "u32 \<Rightarrow> u8 list \<Rightarrow> u32" where
  "std_crc32 crc buf = crc32_loop (crc XOR NOT 0) buf XOR NOT 0"

section \<open>The shift register\<close>

text \<open>The reflected polynomial; one bit leaves the register on the right.\<close>

definition poly :: u32 where "poly = 0xedb88320"

definition shift1 :: "u32 \<Rightarrow> u32" where
  "shift1 r = drop_bit 1 r XOR (if bit r 0 then poly else 0)"

text \<open>The bits of the message enter one at a time, the lowest bit of a byte first.\<close>

definition crc_bit :: "u32 \<Rightarrow> bool \<Rightarrow> u32" where
  "crc_bit r b = shift1 (r XOR (if b then 1 else 0))"

definition byte_bits :: "u8 \<Rightarrow> bool list" where
  "byte_bits p = map (bit p) [0..<8]"

definition crc32_bitwise :: "u32 \<Rightarrow> u8 list \<Rightarrow> u32" where
  "crc32_bitwise crc buf = foldl crc_bit (crc XOR NOT 0) (concat (map byte_bits buf)) XOR NOT 0"

lemma shift1_xor: "shift1 (a XOR b) = shift1 a XOR shift1 b"
  by (rule bit_word_eqI) (auto simp: shift1_def bit_xor_iff bit_drop_bit_eq)

lemma crc32_tab_length: "length crc32_tab = 256"
  by (simp add: crc32_tab_def)

text \<open>The entries for the powers of two generate the table.\<close>

definition generators :: "u32 list" where
  "generators = [0x77073096, 0xee0e612c, 0x076dc419, 0x0edb8832, 0x1db71064, 0x3b6e20c8, 0x76dc4190, 0xedb88320]"

lemma crc32_tab_generated:
  "crc32_tab = foldl (\<lambda>t b. t @ map (\<lambda>x. x XOR b) t) [0] generators"
  by (simp add: crc32_tab_def generators_def)

lemma shift8: "(shift1 ^^ 8) r = shift1 (shift1 (shift1 (shift1 (shift1 (shift1 (shift1 (shift1 r)))))))"
  by (simp add: eval_nat_numeral)

lemma generators_shift: "generators = map (\<lambda>k. (shift1 ^^ 8) (2 ^ k)) [0..<8]"
  by (simp add: generators_def shift8 shift1_def poly_def upt_rec)

section \<open>The table is the shift register\<close>

lemma shiftn_xor: "(shift1 ^^ n) (a XOR b) = (shift1 ^^ n) a XOR (shift1 ^^ n) b"
  by (induction n) (simp_all add: shift1_xor)

lemma shiftn_drop: "(\<And>i. i < n \<Longrightarrow> \<not> bit x i) \<Longrightarrow> (shift1 ^^ n) x = drop_bit n x"
proof (induction n)
  case (Suc n)
  then have "\<not> bit (drop_bit n x) 0" by (simp add: bit_drop_bit_eq)
  then have "shift1 (drop_bit n x) = drop_bit (Suc n) x"
    by (intro bit_word_eqI) (simp add: shift1_def bit_drop_bit_eq)
  with Suc show ?case by simp
qed simp

text \<open>Adding the generators of 1, 2, 4, ... one after the other doubles the table each time.\<close>

lemma generated_nth:
  assumes "k \<le> 8"
  shows "length (foldl (\<lambda>t b. t @ map (\<lambda>x. x XOR b) t) [0] (map (\<lambda>k. (shift1 ^^ m) (2 ^ k)) [0..<k])) = 2 ^ k
    \<and> (\<forall>n < 2 ^ k. foldl (\<lambda>t b. t @ map (\<lambda>x. x XOR b) t) [0] (map (\<lambda>k. (shift1 ^^ m) (2 ^ k)) [0..<k]) ! n
        = (shift1 ^^ m) (of_nat n))"
  using assms
proof (induction k)
  case 0
  have "(shift1 ^^ m) 0 = 0" by (induction m) (simp_all add: shift1_def)
  then show ?case by simp
next
  case (Suc k)
  let ?g = "\<lambda>k. (shift1 ^^ m) (2 ^ k)" and ?f = "\<lambda>t b. t @ map (\<lambda>x :: u32. x XOR b) t"
  define t where "t = foldl ?f [0] (map ?g [0..<k])"
  have t: "length t = 2 ^ k" "\<And>n. n < 2 ^ k \<Longrightarrow> t ! n = (shift1 ^^ m) (of_nat n)"
    using Suc by (simp_all add: t_def)
  have f: "foldl ?f [0] (map ?g [0..<Suc k]) = ?f t (?g k)" by (simp add: t_def)
  have "(t @ map (\<lambda>x. x XOR ?g k) t) ! n = (shift1 ^^ m) (of_nat n)" if n: "n < 2 ^ Suc k" for n
  proof (cases "n < 2 ^ k")
    case True
    then show ?thesis using t by (simp add: nth_append)
  next
    case False
    define j where "j = n - 2 ^ k"
    have j: "j < 2 ^ k" "n = j + 2 ^ k" using n False by (auto simp: j_def)
    have "(of_nat j :: u32) AND 2 ^ k = 0"
    proof (rule bit_word_eqI)
      fix i
      have "\<not> bit j k" using j(1) by (simp add: bit_iff_odd)
      then show "bit ((of_nat j :: u32) AND 2 ^ k) i = bit 0 i"
        by (auto simp: bit_and_iff bit_exp_iff bit_of_nat_iff)
    qed
    then have "(of_nat n :: u32) = of_nat j XOR 2 ^ k"
      using disjunctive_add_eq_xor [of "of_nat j :: u32" "2 ^ k"] j(2) by simp
    then show ?thesis using t j False by (simp add: nth_append shiftn_xor)
  qed
  then show ?case using t(1) unfolding f by simp
qed

lemma crc32_tab_nth: "n < 256 \<Longrightarrow> crc32_tab ! n = (shift1 ^^ 8) (of_nat n)"
  using generated_nth [of 8 8] by (simp add: crc32_tab_generated generators_shift)

lemma crc32_step_shift: "crc32_step crc p = (shift1 ^^ 8) (crc XOR ucast p)"
proof -
  let ?y = "crc XOR ucast p"
  have m: "(0xFF :: u32) = mask 8" by (simp add: mask_eq_exp_minus_1)
  have "unat (?y AND 0xFF) < 256"
    using word_and_le1 [of ?y "0xFF"] by (simp add: word_le_nat_alt and.commute)
  then have t: "crc32_tab ! unat (?y AND 0xFF) = (shift1 ^^ 8) (?y AND 0xFF)"
    by (simp add: crc32_tab_nth)
  have "(shift1 ^^ 8) (?y AND NOT 0xFF) = drop_bit 8 (?y AND NOT 0xFF)"
    unfolding m by (rule shiftn_drop) (simp add: bit_simps)
  also have "\<dots> = drop_bit 8 crc"
    unfolding m by (rule bit_word_eqI) (auto simp: bit_simps dest: bit_imp_le_length)
  finally have h: "(shift1 ^^ 8) (?y AND NOT 0xFF) = drop_bit 8 crc" .
  have "?y = (?y AND 0xFF) XOR (?y AND NOT 0xFF)"
    by (rule bit_word_eqI) (auto simp: bit_simps)
  then have "(shift1 ^^ 8) ?y = (shift1 ^^ 8) (?y AND 0xFF) XOR (shift1 ^^ 8) (?y AND NOT 0xFF)"
    by (metis shiftn_xor)
  with t h show ?thesis by (simp add: crc32_step_def)
qed

lemma crc_bits_shift:
  assumes "n \<le> 32"
  shows "foldl crc_bit r (map (bit p) [0..<n]) = (shift1 ^^ n) (r XOR take_bit n (ucast (p :: u8)))"
  using assms
proof (induction n)
  case (Suc n)
  have "(shift1 ^^ n) (2 ^ n) = (1 :: u32)"
    using Suc.prems by (subst shiftn_drop) (auto simp: bit_exp_iff drop_bit_exp_eq)
  then have b: "(shift1 ^^ n) (if bit p n then 2 ^ n else 0) = (if bit p n then 1 else 0)"
    using shiftn_drop [of n 0] by simp
  have "r XOR take_bit (Suc n) (ucast p) = (r XOR take_bit n (ucast p)) XOR (if bit p n then 2 ^ n else (0 :: u32))"
    by (rule bit_word_eqI) (auto simp: bit_simps less_Suc_eq)
  then have "(shift1 ^^ n) (r XOR take_bit (Suc n) (ucast p)) =
      (shift1 ^^ n) (r XOR take_bit n (ucast p)) XOR (if bit p n then 1 else 0)"
    using shiftn_xor [of n "r XOR take_bit n (ucast p)" "if bit p n then 2 ^ n else 0"] b
    by (simp only:)
  with Suc show ?case by (simp only: crc_bit_def) (simp add: crc_bit_def)
qed simp

lemma crc32_step_bits: "crc32_step crc p = foldl crc_bit crc (byte_bits p)"
proof -
  have "take_bit 8 (ucast p :: u32) = ucast p"
    by (rule bit_word_eqI) (auto simp: bit_simps dest: bit_imp_le_length)
  then show ?thesis by (simp add: byte_bits_def crc_bits_shift crc32_step_shift)
qed

lemma crc32_loop_foldl: "crc32_loop crc buf = foldl crc32_step crc buf"
  by (induction buf arbitrary: crc) simp_all

lemma shift1_inj: "shift1 a = shift1 b \<Longrightarrow> a = b"
proof (rule bit_word_eqI)
  fix n assume e: "shift1 a = shift1 b" and n: "n < LENGTH(32)"
  have top: "bit (shift1 r) 31 = bit r 0" for r
    using bit_imp_le_length [of r 32] by (auto simp: shift1_def bit_xor_iff bit_drop_bit_eq poly_def)
  then have 0: "bit a 0 = bit b 0" using e by metis
  have "bit (shift1 r) k = (bit r (Suc k) \<noteq> (bit r 0 \<and> bit poly k))" for r k
    by (simp add: shift1_def bit_xor_iff bit_drop_bit_eq)
  then have "bit a (Suc k) = bit b (Suc k)" for k using e 0 by metis
  with 0 show "bit a n = bit b n" by (cases n) simp_all
qed

lemma shiftn_inj: "(shift1 ^^ n) a = (shift1 ^^ n) b \<Longrightarrow> a = b"
  by (induction n) (auto dest: shift1_inj)

section \<open>Properties\<close>

text \<open> C31: The checksum computed with the table is the one of the 32-bit shift register that takes
  in the message bit by bit, lowest bit first, with the reflected polynomial edb88320: the table
  has exactly the register's feedback terms, and no index leaves it. \<close>

theorem std_crc32_bitwise: "std_crc32 crc buf = crc32_bitwise crc buf"
proof -
  have "foldl crc32_step r buf = foldl crc_bit r (concat (map byte_bits buf))" for r
    by (induction buf arbitrary: r) (simp_all add: crc32_step_bits)
  then show ?thesis by (simp add: std_crc32_def crc32_bitwise_def crc32_loop_foldl)
qed

text \<open>The checksum can be computed piecewise: passing the checksum of the first part as the
  initial value of the second gives the checksum of the whole. \<close>

theorem std_crc32_incremental: "std_crc32 (std_crc32 crc xs) ys = std_crc32 crc (xs @ ys)"
  by (simp add: std_crc32_def crc32_loop_foldl xor.assoc)

lemma xor_cancel: "a XOR b = a XOR c \<longleftrightarrow> b = c" "b XOR a = c XOR a \<longleftrightarrow> b = c" for a b c :: u32
  by (metis xor.assoc xor.left_neutral xor_self_eq, metis xor.assoc xor.right_neutral xor_self_eq)

text \<open> C32: A message in which exactly one byte is changed has another checksum. \<close>

theorem std_crc32_detects_byte:
  assumes "a \<noteq> b"
  shows "std_crc32 crc (xs @ a # ys) \<noteq> std_crc32 crc (xs @ b # ys)"
proof -
  have u: "ucast p = (ucast q :: u32) \<Longrightarrow> p = q" for p q :: u8
  proof (rule bit_word_eqI)
    fix n assume "ucast p = (ucast q :: u32)" and n: "n < LENGTH(8)"
    then have "bit (ucast p :: u32) n = bit (ucast q :: u32) n" by simp
    then show "bit p n = bit q n" using n by (simp add: bit_simps)
  qed
  have "crc32_step r p = crc32_step r q \<Longrightarrow> p = q" for r p q
    unfolding crc32_step_shift by (drule shiftn_inj) (simp add: u xor_cancel)
  moreover have inj: "crc32_step r p = crc32_step s p \<Longrightarrow> r = s" for r s p
    unfolding crc32_step_shift by (drule shiftn_inj) (simp add: xor_cancel)
  have "foldl crc32_step r zs = foldl crc32_step s zs \<Longrightarrow> r = s" for r s zs
  proof (induction zs arbitrary: r s)
    case (Cons z zs)
    from Cons.prems have "crc32_step r z = crc32_step s z" unfolding foldl_Cons by (rule Cons.IH)
    then show ?case by (rule inj)
  qed simp
  ultimately show ?thesis
    using assms unfolding std_crc32_def crc32_loop_foldl foldl_append foldl_Cons xor_cancel by blast
qed

text \<open>The check value of the CRC-32 catalogue, for the digits 1 to 9.\<close>

lemma std_crc32_check: "std_crc32 0 [0x31, 0x32, 0x33, 0x34, 0x35, 0x36, 0x37, 0x38, 0x39] = 0xcbf43926"
  by (simp add: std_crc32_def crc32_step_shift shift8 shift1_def poly_def)

lemma std_crc32_detects_byte_witness: "std_crc32 0 [1, 2, 3] \<noteq> std_crc32 0 [1, 6, 3]"
  using std_crc32_detects_byte [of 2 6 0 "[1]" "[3]"] by simp

end
