(* ===== verification/IpUtils.thy ===== *)
theory IpUtils
  imports ErrorCodes KeyOrder StringUtils
begin

text \<open>
  The IP address functions of \<open>src/std_ip_utils.c\<close>. An address is its family and the sixteen
  bytes of the union; an IPv4 address is the first four, a little-endian machine word as the host
  reads it. Logging is left out. The resolver (\<open>getaddrinfo\<close>), \<open>inet_pton\<close>, \<open>inet_ntop\<close> and
  \<open>strtoul\<close> are arguments. None is an access outside a buffer.
\<close>

section \<open>Addresses\<close>

definition AF_INET :: u32 where "AF_INET = 2"
definition AF_INET6 :: u32 where "AF_INET6 = 10"

definition HAL_INET4_LEN :: nat where "HAL_INET4_LEN = 4"
definition HAL_INET6_LEN :: nat where "HAL_INET6_LEN = 16"
definition HAL_INET4_FAMILY :: u32 where "HAL_INET4_FAMILY = AF_INET"
definition HAL_INET6_FAMILY :: u32 where "HAL_INET6_FAMILY = AF_INET6"

record hal_ip_addr_t =
  af_index :: u32
  v6_addr :: "u8 list"

definition htonl :: "u32 \<Rightarrow> u32" where "htonl w = from_le (rev (le_bytes 4 w))"

definition v4_addr :: "hal_ip_addr_t \<Rightarrow> u32" where
  "v4_addr ip = from_le (take 4 (v6_addr ip))"

definition set_v4_addr :: "u32 \<Rightarrow> hal_ip_addr_t \<Rightarrow> hal_ip_addr_t" where
  "set_v4_addr w ip = ip\<lparr>v6_addr := le_bytes 4 w @ drop 4 (v6_addr ip)\<rparr>"

definition STD_IP_IS_AFINDEX_V4 :: "u32 \<Rightarrow> bool" where
  "STD_IP_IS_AFINDEX_V4 af \<longleftrightarrow> af = HAL_INET4_FAMILY"

definition STD_IP_AFINDEX_TO_STR :: "u32 \<Rightarrow> string" where
  "STD_IP_AFINDEX_TO_STR af =
    (if af = HAL_INET4_FAMILY then ''IPv4'' else if af = HAL_INET6_FAMILY then ''IPv6'' else ''Unknown'')"

definition STD_IP_AFINDEX_TO_ADDR_LEN :: "u32 \<Rightarrow> nat" where
  "STD_IP_AFINDEX_TO_ADDR_LEN af = (if af = HAL_INET4_FAMILY then HAL_INET4_LEN else HAL_INET6_LEN)"

section \<open>Prefix lengths and masks\<close>

definition NBBY :: nat where "NBBY = 8"

text \<open>The shift and the subtraction wrap like the generated code for \<open>1 << 31\<close>.\<close>

definition std_ip_v4_prefix_len_to_mask :: "u32 \<Rightarrow> u32" where
  "std_ip_v4_prefix_len_to_mask prefix_len =
    (if unat prefix_len > NBBY * 4 then 0
     else let mask_val = (if prefix_len \<noteq> 0 then push_bit (NBBY * 4 - unat prefix_len) 1 - 1 else 0xffffffff)
          in NOT mask_val)"

definition mask_val :: "u8 list" where
  "mask_val = [0x00, 0x80, 0xc0, 0xe0, 0xf0, 0xf8, 0xfc, 0xfe]"

text \<open>\<open>memset\<close> of \<open>n\<close> bytes at position \<open>i\<close> of a buffer.\<close>

definition memset_at :: "u8 list \<Rightarrow> nat \<Rightarrow> u8 \<Rightarrow> nat \<Rightarrow> u8 list option" where
  "memset_at buf i c n =
    (if i + n \<le> length buf then Some (take i buf @ replicate n c @ drop (i + n) buf) else None)"

text \<open>\<open>mask_len\<close> is a \<open>size_t\<close> and wraps; the buffer is None for the null pointer.\<close>

definition std_ip_v6_prefix_len_to_mask :: "u8 list option \<Rightarrow> u64 \<Rightarrow> u32 \<Rightarrow> u8 list option option" where
  "std_ip_v6_prefix_len_to_mask mask_ptr mask_len prefix_len =
    (case mask_ptr of
       None \<Rightarrow> Some None
     | Some buf \<Rightarrow>
         if prefix_len = 0 then Some (Some buf)
         else
           (let nbytes = unat prefix_len div NBBY in
            case memset_at buf 0 0xff nbytes of
              None \<Rightarrow> None
            | Some buf \<Rightarrow>
                (let mask_len = mask_len - of_nat nbytes in
                 if mask_len = 0 then Some (Some buf)
                 else
                   (case arr_set buf nbytes (mask_val ! (unat prefix_len mod NBBY)) of
                      None \<Rightarrow> None
                    | Some buf \<Rightarrow>
                        map_option Some (memset_at buf (nbytes + 1) 0 (unat (mask_len - 1)))))))"

text \<open>The out parameter is None for the null pointer.\<close>

definition std_ip_get_mask_from_prefix_len ::
    "u32 \<Rightarrow> u32 \<Rightarrow> hal_ip_addr_t option \<Rightarrow> (t_std_error \<times> hal_ip_addr_t option) option" where
  "std_ip_get_mask_from_prefix_len af prefix_len p_out_mask =
    (case p_out_mask of
       None \<Rightarrow> Some (STD_ERR_MK (of_nat (sub_code e_std_err_ROUTE)) (of_nat (err_code e_std_err_code_FAIL)) 0, None)
     | Some _ \<Rightarrow>
         (let out = \<lparr>af_index = af, v6_addr = replicate 16 0\<rparr> in
          if STD_IP_IS_AFINDEX_V4 af then
            Some (STD_ERR_OK, Some (set_v4_addr (std_ip_v4_prefix_len_to_mask prefix_len) out))
          else
            (case std_ip_v6_prefix_len_to_mask (Some (v6_addr out)) (of_nat HAL_INET6_LEN) prefix_len of
               Some (Some buf) \<Rightarrow> Some (STD_ERR_OK, Some (out\<lparr>v6_addr := buf\<rparr>))
             | _ \<Rightarrow> None)))"


text \<open>The tables of both conversions: the bits of a byte of a contiguous mask, and 0 for other bytes.\<close>

definition bit_pos :: "nat list" where
  "bit_pos =
    replicate 128 0 @
    [1, 0, 0, 0, 0, 0, 0, 0, 0, 0, 0, 0, 0, 0, 0, 0,
     0, 0, 0, 0, 0, 0, 0, 0, 0, 0, 0, 0, 0, 0, 0, 0,
     0, 0, 0, 0, 0, 0, 0, 0, 0, 0, 0, 0, 0, 0, 0, 0,
     0, 0, 0, 0, 0, 0, 0, 0, 0, 0, 0, 0, 0, 0, 0, 0,
     2, 0, 0, 0, 0, 0, 0, 0, 0, 0, 0, 0, 0, 0, 0, 0,
     0, 0, 0, 0, 0, 0, 0, 0, 0, 0, 0, 0, 0, 0, 0, 0,
     3, 0, 0, 0, 0, 0, 0, 0, 0, 0, 0, 0, 0, 0, 0, 0,
     4, 0, 0, 0, 0, 0, 0, 0, 5, 0, 0, 0, 6, 0, 7, 8]"

fun prefix_len_loop :: "u8 list \<Rightarrow> nat \<Rightarrow> nat \<Rightarrow> nat \<Rightarrow> nat option" where
  "prefix_len_loop mask_ptr ix 0 prefix_len = Some prefix_len"
| "prefix_len_loop mask_ptr ix (Suc n) prefix_len =
    (case arr_get mask_ptr ix of
       None \<Rightarrow> None
     | Some byte \<Rightarrow> prefix_len_loop mask_ptr (Suc ix) n (prefix_len + bit_pos ! unat byte))"

definition std_ip_v4_mask_to_prefix_len :: "u32 \<Rightarrow> nat option" where
  "std_ip_v4_mask_to_prefix_len in_mask =
    (let in_mask = htonl in_mask; mask_ptr = le_bytes 4 in_mask in
     if in_mask = 0 then Some 0 else prefix_len_loop mask_ptr 0 4 0)"

definition std_ip_v6_mask_to_prefix_len :: "u8 list option \<Rightarrow> nat \<Rightarrow> nat option" where
  "std_ip_v6_mask_to_prefix_len mask_ptr addr_len =
    (case mask_ptr of None \<Rightarrow> Some 0 | Some mask_ptr \<Rightarrow> prefix_len_loop mask_ptr 0 addr_len 0)"

section \<open>Special addresses\<close>

definition std_ip_is_v4_addr_loopback :: "hal_ip_addr_t \<Rightarrow> bool" where
  "std_ip_is_v4_addr_loopback ip \<longleftrightarrow> v4_addr ip = 0x7f000001"

definition std_ip_is_v6_addr_loopback :: "hal_ip_addr_t \<Rightarrow> bool" where
  "std_ip_is_v6_addr_loopback ip \<longleftrightarrow>
     memcmp (v6_addr ip) [0, 0, 0, 0, 0, 0, 0, 0, 0, 0, 0, 0, 0, 0, 0, 1] = 0"

definition std_ip_is_v6_addr_zero :: "hal_ip_addr_t \<Rightarrow> bool" where
  "std_ip_is_v6_addr_zero ip \<longleftrightarrow>
     memcmp (v6_addr ip) [0, 0, 0, 0, 0, 0, 0, 0, 0, 0, 0, 0, 0, 0, 0, 0] = 0"

definition STD_IP_IS_V4_ADDR_ZERO :: "hal_ip_addr_t \<Rightarrow> bool" where
  "STD_IP_IS_V4_ADDR_ZERO ip \<longleftrightarrow> v4_addr ip = 0"

definition STD_IP_IS_ADDR_ZERO :: "hal_ip_addr_t \<Rightarrow> bool" where
  "STD_IP_IS_ADDR_ZERO ip =
    (if af_index ip = HAL_INET4_FAMILY then STD_IP_IS_V4_ADDR_ZERO ip else std_ip_is_v6_addr_zero ip)"

definition STD_IP_IS_ADDR_LOOP_BACK :: "hal_ip_addr_t \<Rightarrow> bool" where
  "STD_IP_IS_ADDR_LOOP_BACK ip =
    (if af_index ip = HAL_INET4_FAMILY then std_ip_is_v4_addr_loopback ip else std_ip_is_v6_addr_loopback ip)"

definition STD_IP_IS_V6_ADDR_LINK_LOCAL :: "hal_ip_addr_t \<Rightarrow> bool" where
  "STD_IP_IS_V6_ADDR_LINK_LOCAL ip \<longleftrightarrow>
     v6_addr ip ! 0 AND 0xff = 0xfe \<and> v6_addr ip ! 1 AND 0xc0 = 0x80"

definition STD_IP_IS_ADDR_LINK_LOCAL :: "hal_ip_addr_t \<Rightarrow> bool" where
  "STD_IP_IS_ADDR_LINK_LOCAL ip =
    (if af_index ip = HAL_INET6_FAMILY then STD_IP_IS_V6_ADDR_LINK_LOCAL ip else False)"

section \<open>Conversions\<close>

text \<open>\<open>s_addr\<close> holds the address in network byte order: its bytes in memory are the argument.\<close>

definition std_ip_from_inet :: "u8 list \<Rightarrow> hal_ip_addr_t" where
  "std_ip_from_inet s_addr =
     set_v4_addr (from_le s_addr) \<lparr>af_index = AF_INET, v6_addr = replicate 16 0\<rparr>"

definition std_ip_from_inet6 :: "u8 list \<Rightarrow> hal_ip_addr_t" where
  "std_ip_from_inet6 addr8 = \<lparr>af_index = AF_INET6, v6_addr = addr8\<rparr>"

definition std_ip_to_string ::
    "(u32 \<Rightarrow> u8 list \<Rightarrow> string option) \<Rightarrow> hal_ip_addr_t \<Rightarrow> nat \<Rightarrow> string option" where
  "std_ip_to_string inet_ntop ip len =
    (if af_index ip = AF_INET then
       if len < 16 then None else inet_ntop (af_index ip) (take 4 (v6_addr ip))
     else if af_index ip = AF_INET6 then
       if len < 46 then None else inet_ntop (af_index ip) (v6_addr ip)
     else None)"

text \<open>The resolver answers with the family of a numeric address or fails; any other family leaves
  the caller's variable as it was.\<close>

definition std_get_ip_type :: "(string \<Rightarrow> u32 option) \<Rightarrow> string \<Rightarrow> u32 \<Rightarrow> bool \<times> u32" where
  "std_get_ip_type getaddrinfo ip_str ip_type =
    (case getaddrinfo ip_str of
       None \<Rightarrow> (False, ip_type)
     | Some ai_family \<Rightarrow>
         (True, if ai_family = AF_INET then AF_INET
                else if ai_family = AF_INET6 then AF_INET6 else ip_type))"

text \<open>\<open>inet_pton\<close> gives the bytes of the address; \<open>ip_type0\<close> is the uninitialised local variable.\<close>

definition std_str_to_ip ::
    "(string \<Rightarrow> u32 option) \<Rightarrow> (u32 \<Rightarrow> string \<Rightarrow> u8 list option) \<Rightarrow> u32 \<Rightarrow> string option \<Rightarrow> hal_ip_addr_t
      \<Rightarrow> bool \<times> hal_ip_addr_t" where
  "std_str_to_ip getaddrinfo inet_pton ip_type0 ip_str ip_addr_holder =
    (case ip_str of
       None \<Rightarrow> (False, ip_addr_holder)
     | Some ip_str \<Rightarrow>
         (case std_get_ip_type getaddrinfo ip_str ip_type0 of (ok, ip_type) \<Rightarrow>
            if ok then
              (let holder = ip_addr_holder\<lparr>af_index := ip_type\<rparr> in
               if ip_type = AF_INET then
                 (case inet_pton AF_INET ip_str of
                    Some bs \<Rightarrow> (True, holder\<lparr>v6_addr := take 4 bs @ drop 4 (v6_addr holder)\<rparr>)
                  | None \<Rightarrow> (False, holder))
               else if ip_type = AF_INET6 then
                 (case inet_pton AF_INET6 ip_str of
                    Some bs \<Rightarrow> (True, holder\<lparr>v6_addr := bs\<rparr>)
                  | None \<Rightarrow> (False, holder))
               else (False, holder))
            else (False, ip_addr_holder)))"

text \<open>The two parts of a prefix; None when there are not exactly two tokens.\<close>

definition std_splice_prefix_string :: "string \<Rightarrow> (string \<times> string) option" where
  "std_splice_prefix_string ip_prefix_str =
    (case std_parse_string ip_prefix_str ''/'' of
       None \<Rightarrow> None
     | Some handle \<Rightarrow>
         if std_parse_string_num_tokens handle \<noteq> 2 then None
         else
           (case std_parse_string_next handle 0 of (ip_part, index) \<Rightarrow>
            (case std_parse_string_next handle index of (len_part, index) \<Rightarrow>
             (case (ip_part, len_part) of
                (Some ip, Some len) \<Rightarrow> Some (ip, len)
              | _ \<Rightarrow> None))))"

definition std_str_to_ip_prefix ::
    "(string \<Rightarrow> u32 option) \<Rightarrow> (u32 \<Rightarrow> string \<Rightarrow> u8 list option) \<Rightarrow> (string \<Rightarrow> u64) \<Rightarrow> u32
      \<Rightarrow> string option \<Rightarrow> hal_ip_addr_t \<Rightarrow> u8 \<Rightarrow> bool \<times> hal_ip_addr_t \<times> u8" where
  "std_str_to_ip_prefix getaddrinfo inet_pton strtoul ip_type0 ip_prefix_str holder mask_len =
    (case ip_prefix_str of
       None \<Rightarrow> (False, holder, mask_len)
     | Some str \<Rightarrow>
         (case std_splice_prefix_string str of
            None \<Rightarrow> (False, holder, mask_len)
          | Some (ip_part, len_part) \<Rightarrow>
              (case std_str_to_ip getaddrinfo inet_pton ip_type0 (Some ip_part) holder of (ok, holder) \<Rightarrow>
                 if ok then (True, holder, ucast (strtoul len_part)) else (False, holder, mask_len))))"

section \<open>Words and bytes\<close>

lemma le_bytes32_simps: "le_bytes 4 w = [ucast w, ucast (drop_bit 8 w), ucast (drop_bit 16 w), ucast (drop_bit 24 w)]"
  for w :: u32
  by (simp add: le_bytes_def upt_rec)

lemmas bytes32 = le_bytes_from_le [where 'a = 32, OF _ _, of _ 4, simplified]
  from_le_bytes_word [where 'a = 32, of 4, simplified]

lemma htonl_bytes: "le_bytes 4 (htonl w) = rev (le_bytes 4 w)"
  by (simp add: htonl_def bytes32)

lemma htonl_0: "htonl w = 0 \<longleftrightarrow> w = 0"
proof
  assume "htonl w = 0"
  then have "rev (le_bytes 4 w) = le_bytes 4 (0 :: u32)" using htonl_bytes [of w] by simp
  then have "le_bytes 4 w = le_bytes 4 (0 :: u32)" by (simp add: le_bytes32_simps)
  then show "w = 0" by (metis bytes32(2))
qed (simp add: htonl_def le_bytes32_simps from_le_def)

section \<open>The byte table\<close>

lemma bit_pos_mask: "k < 8 \<Longrightarrow> bit_pos ! unat (mask_val ! k) = k"
proof -
  have e: "map (\<lambda>k. bit_pos ! unat (mask_val ! k)) [0..<8] = [0..<8]"
    by (simp add: bit_pos_def mask_val_def upt_rec nth_append)
  show "k < 8 \<Longrightarrow> bit_pos ! unat (mask_val ! k) = k" using arg_cong [OF e, of "\<lambda>xs. xs ! k"] by simp
qed

lemma bit_pos_full: "bit_pos ! unat (0xff :: u8) = 8"
  by (simp add: bit_pos_def nth_append)

lemma mask_val_bit: "k < 8 \<Longrightarrow> j < 8 \<Longrightarrow> bit (mask_val ! k) (7 - j) = (j < k)"
proof -
  have e: "map (\<lambda>k. map (\<lambda>j. bit (mask_val ! k) (7 - j)) [0..<8]) [0..<8] = map (\<lambda>k. map (\<lambda>j. j < k) [0..<8]) [0..<8]"
    by (simp add: mask_val_def upt_rec)
  show "k < 8 \<Longrightarrow> j < 8 \<Longrightarrow> bit (mask_val ! k) (7 - j) = (j < k)"
    using arg_cong [OF e, of "\<lambda>xs. xs ! k ! j"] by simp
qed

lemma prefix_len_loop_sum:
  "ix + n \<le> length buf \<Longrightarrow>
   prefix_len_loop buf ix n acc = Some (acc + sum_list (map (\<lambda>b. bit_pos ! unat b) (take n (drop ix buf))))"
proof (induction n arbitrary: ix acc)
  case (Suc n)
  then have "drop ix buf = buf ! ix # drop (Suc ix) buf" by (simp add: Cons_nth_drop_Suc)
  with Suc show ?case by simp
qed simp

text \<open>The mask of a prefix as bytes.\<close>

definition mask_bytes :: "nat \<Rightarrow> nat \<Rightarrow> u8 list" where
  "mask_bytes p n = (if p div 8 < n then replicate (p div 8) 0xff @ mask_val ! (p mod 8) # replicate (n - p div 8 - 1) 0
    else replicate n 0xff)"

lemma length_mask_bytes [simp]: "length (mask_bytes p n) = n"
  by (simp add: mask_bytes_def)

lemma mask_bytes_sum: "p \<le> 8 * n \<Longrightarrow> sum_list (map (\<lambda>b. bit_pos ! unat b) (mask_bytes p n)) = p"
proof -
  assume p: "p \<le> 8 * n"
  have z: "bit_pos ! 0 = 0" by (simp add: bit_pos_def nth_append)
  show ?thesis
  proof (cases "p div 8 < n")
    case True
    then show ?thesis
      using bit_pos_mask [of "p mod 8"] bit_pos_full z
      by (simp add: mask_bytes_def sum_list_replicate)
  next
    case False
    then have "p = 8 * n" using p by linarith
    then show ?thesis using bit_pos_full by (simp add: mask_bytes_def sum_list_replicate)
  qed
qed

lemma mask_bytes_bit:
  assumes "i < 8 * n" and "p \<le> 8 * n"
  shows "bit (mask_bytes p n ! (i div 8)) (7 - i mod 8) = (i < p)"
proof -
  have ff: "bit (0xff :: u8) (7 - j)" if "j < 8" for j
  proof -
    have "(0xff :: u8) = mask 8" by (simp add: mask_eq_exp_minus_1)
    then show ?thesis by (simp only: bit_mask_iff) (use that in auto)
  qed
  consider "i div 8 < p div 8" | "i div 8 = p div 8" | "p div 8 < i div 8" by linarith
  then show ?thesis
  proof cases
    case 1
    then have "i < p" by (metis div_le_mono not_less)
    moreover have "mask_bytes p n ! (i div 8) = 0xff"
      using 1 assms(1) by (auto simp: mask_bytes_def nth_append)
    ultimately show ?thesis using ff [of "i mod 8"] by simp
  next
    case 2
    then have "mask_bytes p n ! (i div 8) = mask_val ! (p mod 8)"
      using assms(1) by (auto simp: mask_bytes_def nth_append)
    moreover have "i < p \<longleftrightarrow> i mod 8 < p mod 8"
      using 2 by (metis add_less_cancel_left div_mult_mod_eq)
    ultimately show ?thesis using mask_val_bit [of "p mod 8" "i mod 8"] by simp
  next
    case 3
    then have "\<not> i < p" by (metis div_le_mono not_less less_imp_le)
    moreover have "mask_bytes p n ! (i div 8) = 0"
    proof -
      have "p div 8 < n" "i div 8 < n" using 3 assms by linarith+
      moreover obtain k where "i div 8 - p div 8 = Suc k" using 3 by (metis zero_less_diff gr0_conv_Suc)
      ultimately show ?thesis using 3 by (simp add: mask_bytes_def nth_append)
    qed
    ultimately show ?thesis by simp
  qed
qed

lemma v6_mask_ok:
  assumes "prefix_len \<noteq> 0" and "unat prefix_len \<le> 8 * length buf" and "length buf < 2 ^ 32"
  shows "std_ip_v6_prefix_len_to_mask (Some buf) (of_nat (length buf)) prefix_len
    = Some (Some (mask_bytes (unat prefix_len) (length buf)))"
proof -
  define n where "n = unat prefix_len div 8"
  have n: "n \<le> length buf" using assms(2) by (simp add: n_def)
  have sub: "(of_nat (length buf) - of_nat n :: u64) = of_nat (length buf - n)" using n by (simp add: of_nat_diff)
  have small: "length buf - n < 2 ^ LENGTH(64)" using assms(3) by simp
  then have un: "unat (of_nat (length buf - n) :: u64) = length buf - n"
    by (simp add: unsigned_of_nat take_bit_nat_eq_self)
  show ?thesis
  proof (cases "n = length buf")
    case True
    then show ?thesis
      using assms(1) sub by (simp add: std_ip_v6_prefix_len_to_mask_def NBBY_def memset_at_def mask_bytes_def flip: n_def)
  next
    case False
    then have lt: "n < length buf" using n by simp
    have nz: "(of_nat (length buf - n) :: u64) \<noteq> 0" using un lt by (metis unat_0 zero_less_diff less_irrefl)
    then have m: "unat (of_nat (length buf) - of_nat n - 1 :: u64) = length buf - n - 1"
      using un sub by (simp add: unat_minus_one)
    let ?v = "mask_val ! (unat prefix_len mod NBBY)"
    have d: "drop n buf = buf ! n # drop (Suc n) buf" using lt by (simp add: Cons_nth_drop_Suc)
    have 1: "memset_at buf 0 0xff n = Some (replicate n 0xff @ buf ! n # drop (Suc n) buf)"
      using lt d by (simp add: memset_at_def)
    have 2: "arr_set (replicate n 0xff @ buf ! n # drop (Suc n) buf) n ?v =
        Some (replicate n 0xff @ ?v # drop (Suc n) buf)"
      using lt by (simp add: list_update_append)
    have 3: "memset_at (replicate n 0xff @ ?v # drop (Suc n) buf) (n + 1) 0 (length buf - n - 1) =
        Some (replicate n 0xff @ ?v # replicate (length buf - n - 1) 0)"
      using lt by (simp add: memset_at_def)
    have "unat prefix_len div NBBY = n" by (simp add: n_def NBBY_def)
    then have "std_ip_v6_prefix_len_to_mask (Some buf) (of_nat (length buf)) prefix_len =
        Some (Some (replicate n 0xff @ ?v # replicate (length buf - n - 1) 0))"
      using assms(1) nz unfolding sub [symmetric] by (simp add: std_ip_v6_prefix_len_to_mask_def Let_def 1 2 3 [simplified] m)
    then show ?thesis using lt by (simp add: mask_bytes_def NBBY_def flip: n_def)
  qed
qed

lemma replicate_few: "replicate 2 x = [x, x]" "replicate 3 x = [x, x, x]" "replicate 4 x = [x, x, x, x]"
  by (simp_all add: numeral_eq_Suc)

lemma le_bytes32_ones: "le_bytes 4 (- 1 :: u32) = [0xff, 0xff, 0xff, 0xff]"
proof -
  have ff: "(0xff :: u8) = mask 8" by (simp add: mask_eq_exp_minus_1)
  show ?thesis
    unfolding le_bytes32_simps ff by (simp, intro conjI; rule bit_word_eqI; simp add: bit_simps)
qed

lemma v4_mask_bytes:
  assumes "unat prefix_len \<le> 32"
  shows "le_bytes 4 (htonl (std_ip_v4_prefix_len_to_mask prefix_len)) = mask_bytes (unat prefix_len) 4"
proof -
  have all: "\<forall>k\<in>set [0..<32]. rev (le_bytes 4 (std_ip_v4_prefix_len_to_mask (of_nat k))) = mask_bytes k 4"
    by (simp add: upt_rec std_ip_v4_prefix_len_to_mask_def NBBY_def mask_bytes_def mask_val_def
        le_bytes32_simps replicate_few)
  have full: "rev (le_bytes 4 (std_ip_v4_prefix_len_to_mask 32)) = mask_bytes 32 4"
    by (simp add: std_ip_v4_prefix_len_to_mask_def NBBY_def mask_bytes_def le_bytes32_ones replicate_few)
  show ?thesis
  proof (cases "unat prefix_len = 32")
    case True
    then have "prefix_len = 32" by (simp add: word_unat_eq_iff)
    with full show ?thesis by (simp add: htonl_bytes)
  next
    case False
    with assms have "unat prefix_len \<in> set [0..<32]" by simp
    from bspec [OF all this] show ?thesis by (simp add: htonl_bytes)
  qed
qed

lemma v4_mask_prefix:
  assumes "unat prefix_len \<le> 32"
  shows "std_ip_v4_mask_to_prefix_len (std_ip_v4_prefix_len_to_mask prefix_len) = Some (unat prefix_len)"
proof (cases "htonl (std_ip_v4_prefix_len_to_mask prefix_len) = 0")
  case True
  have "mask_bytes (unat prefix_len) 4 = [0, 0, 0, 0]"
    using v4_mask_bytes [OF assms] True by (simp add: le_bytes32_simps)
  with mask_bytes_sum [of "unat prefix_len" 4] assms have "unat prefix_len = 4 * bit_pos ! 0" by simp
  with True show ?thesis by (simp add: std_ip_v4_mask_to_prefix_len_def bit_pos_def nth_append)
next
  case False
  then show ?thesis
    using prefix_len_loop_sum [of 0 4 "mask_bytes (unat prefix_len) 4" 0] mask_bytes_sum [of "unat prefix_len" 4] assms
    by (simp add: std_ip_v4_mask_to_prefix_len_def v4_mask_bytes)
qed

lemma v6_mask_prefix:
  "p \<le> 8 * n \<Longrightarrow> std_ip_v6_mask_to_prefix_len (Some (mask_bytes p n)) n = Some p"
  using prefix_len_loop_sum [of 0 n "mask_bytes p n" 0] mask_bytes_sum [of p n]
  by (simp add: std_ip_v6_mask_to_prefix_len_def)

section \<open>Comparison\<close>

text \<open>An address with a family of its own and sixteen bytes.\<close>

definition ip_ok :: "hal_ip_addr_t \<Rightarrow> bool" where
  "ip_ok ip \<longleftrightarrow> af_index ip \<in> {AF_INET, AF_INET6} \<and> length (v6_addr ip) = 16"

lemma families_differ: "sint (AF_INET - AF_INET6) < 0" "0 < sint (AF_INET6 - AF_INET)" "AF_INET \<noteq> AF_INET6"
  by (simp_all add: AF_INET_def AF_INET6_def)


section \<open>Properties\<close>

text \<open> C35: A prefix length that fits the family gives a mask without error, and the mask gives the
  prefix length back; for an IPv6 mask exactly the first \<open>prefix_len\<close> bits are set. The null
  pointer gives a route error. \<close>

theorem std_ip_mask_roundtrip:
  assumes "unat prefix_len \<le> (if STD_IP_IS_AFINDEX_V4 af then 32 else 128)"
  shows "\<exists>mask. std_ip_get_mask_from_prefix_len af prefix_len (Some out) = Some (STD_ERR_OK, Some mask)
    \<and> af_index mask = af
    \<and> (if STD_IP_IS_AFINDEX_V4 af then std_ip_v4_mask_to_prefix_len (v4_addr mask) = Some (unat prefix_len)
       else std_ip_v6_mask_to_prefix_len (Some (v6_addr mask)) HAL_INET6_LEN = Some (unat prefix_len)
         \<and> (\<forall>i < 128. bit (v6_addr mask ! (i div 8)) (7 - i mod 8) = (i < unat prefix_len)))
    \<and> std_ip_get_mask_from_prefix_len af prefix_len None =
        Some (STD_ERR_MK (of_nat (sub_code e_std_err_ROUTE)) (of_nat (err_code e_std_err_code_FAIL)) 0, None)"
proof (cases "STD_IP_IS_AFINDEX_V4 af")
  case True
  then show ?thesis
    using assms v4_mask_prefix [of prefix_len]
    by (simp add: std_ip_get_mask_from_prefix_len_def v4_addr_def set_v4_addr_def bytes32)
next
  case False
  have "std_ip_v6_prefix_len_to_mask (Some (replicate 16 0)) 16 prefix_len = Some (Some (mask_bytes (unat prefix_len) 16))"
  proof (cases "prefix_len = 0")
    case True
    then show ?thesis
      by (simp add: std_ip_v6_prefix_len_to_mask_def mask_bytes_def mask_val_def flip: replicate_Suc)
  next
    case False
    then show ?thesis using v6_mask_ok [of prefix_len "replicate 16 0"] assms \<open>\<not> STD_IP_IS_AFINDEX_V4 af\<close> by simp
  qed
  then show ?thesis
    using False assms v6_mask_prefix [of "unat prefix_len" 16] mask_bytes_bit [of _ 16 "unat prefix_len"]
    by (simp add: std_ip_get_mask_from_prefix_len_def HAL_INET6_LEN_def)
qed

text \<open>A prefix length of 136 or more makes the IPv6 mask routine write outside the sixteen
  bytes of an address. \<close>

theorem std_ip_v6_mask_overflow:
  assumes "128 + 8 \<le> unat prefix_len" and "af \<noteq> HAL_INET4_FAMILY"
  shows "std_ip_get_mask_from_prefix_len af prefix_len (Some out) = None"
proof -
  have "prefix_len \<noteq> 0" using assms(1) by auto
  then have "std_ip_v6_prefix_len_to_mask (Some (replicate 16 0)) 16 prefix_len = None"
    using assms(1) by (simp add: std_ip_v6_prefix_len_to_mask_def memset_at_def NBBY_def Let_def)
  then show ?thesis
    using assms(2) by (simp add: std_ip_get_mask_from_prefix_len_def STD_IP_IS_AFINDEX_V4_def HAL_INET6_LEN_def)
qed


text \<open>The IPv6 tests accept exactly the loopback address and the zero address. The IPv4 loopback
  test accepts exactly the address whose bytes in memory are 1, 0, 0, 127, so on a little-endian
  host 127.0.0.1 taken over from the sockets interface is not recognised. \<close>

theorem std_ip_special_addresses:
  assumes "length (v6_addr ip) = 16"
  shows "(std_ip_is_v6_addr_loopback ip \<longleftrightarrow> v6_addr ip = replicate 15 0 @ [1])
    \<and> (std_ip_is_v6_addr_zero ip \<longleftrightarrow> v6_addr ip = replicate 16 0)
    \<and> (std_ip_is_v4_addr_loopback ip \<longleftrightarrow> take 4 (v6_addr ip) = [1, 0, 0, 127])
    \<and> \<not> std_ip_is_v4_addr_loopback (std_ip_from_inet [127, 0, 0, 1])"
proof -
  have four: "(from_le bs :: u32) = from_le cs \<longleftrightarrow> bs = cs" if "length bs = 4" "length cs = 4" for bs cs
    using that bytes32 by metis
  have l: "(0x7f000001 :: u32) = from_le [1, 0, 0, 127]" by (simp add: from_le_def)
  have "std_ip_is_v4_addr_loopback ip \<longleftrightarrow> take 4 (v6_addr ip) = [1, 0, 0, 127]"
    unfolding std_ip_is_v4_addr_loopback_def v4_addr_def l using assms by (subst four) auto
  moreover have "\<not> std_ip_is_v4_addr_loopback (std_ip_from_inet [127, 0, 0, 1])"
    unfolding std_ip_is_v4_addr_loopback_def v4_addr_def l
    by (subst four) (auto simp: std_ip_from_inet_def set_v4_addr_def bytes32)
  ultimately show ?thesis
    using assms by (simp add: std_ip_is_v6_addr_loopback_def std_ip_is_v6_addr_zero_def memcmp_eq_iff)
      (simp add: numeral_eq_Suc)
qed

text \<open> C37: A string of two parts around one slash is taken as address and prefix length when the
  resolver and \<open>inet_pton\<close> accept the first part: the holder then has the family and the bytes
  of the address, and the mask length is the number in the second part modulo 256. \<close>

theorem std_str_to_ip_prefix_ok:
  assumes "CHR ''/'' \<notin> set ip" and "CHR ''/'' \<notin> set len" and "len \<noteq> []"
    and "getaddrinfo ip = Some af" and "af \<in> {AF_INET, AF_INET6}" and "inet_pton af ip = Some bs"
    and "length bs = STD_IP_AFINDEX_TO_ADDR_LEN af" and "length (v6_addr holder) = 16"
  shows "\<exists>out. std_str_to_ip_prefix getaddrinfo inet_pton strtoul ip_type0 (Some (ip @ ''/'' @ len)) holder mask_len
      = (True, out, ucast (strtoul len))
    \<and> af_index out = af \<and> take (STD_IP_AFINDEX_TO_ADDR_LEN af) (v6_addr out) = bs \<and> ip_ok out"
proof -
  have "std_splice_prefix_string (ip @ ''/'' @ len) = Some (ip, len)"
    using parse_two [OF assms(1-3)]
    by (simp add: std_splice_prefix_string_def std_parse_string_num_tokens_def std_parse_string_next_def
        std_parse_string_at_def Let_def)
  then show ?thesis
    using assms(4-) families_differ(3)
    by (auto simp: std_str_to_ip_prefix_def std_str_to_ip_def std_get_ip_type_def Let_def ip_ok_def
        STD_IP_AFINDEX_TO_ADDR_LEN_def HAL_INET4_FAMILY_def HAL_INET4_LEN_def HAL_INET6_LEN_def)
qed

lemma std_ip_mask_roundtrip_witness:
  "\<exists>mask. std_ip_get_mask_from_prefix_len AF_INET 24 (Some \<lparr>af_index = 0, v6_addr = []\<rparr>) = Some (STD_ERR_OK, Some mask)
    \<and> std_ip_v4_mask_to_prefix_len (v4_addr mask) = Some 24"
  using std_ip_mask_roundtrip [of 24 AF_INET "\<lparr>af_index = 0, v6_addr = []\<rparr>"]
  by (auto simp: STD_IP_IS_AFINDEX_V4_def HAL_INET4_FAMILY_def)

lemma std_ip_v6_mask_overflow_witness:
  "std_ip_get_mask_from_prefix_len AF_INET6 136 (Some \<lparr>af_index = 0, v6_addr = []\<rparr>) = None"
  using std_ip_v6_mask_overflow [of 136 AF_INET6] by (simp add: HAL_INET4_FAMILY_def AF_INET_def AF_INET6_def)


lemma std_ip_special_addresses_witness:
  "std_ip_is_v6_addr_loopback \<lparr>af_index = AF_INET6, v6_addr = replicate 15 0 @ [1]\<rparr>"
  using std_ip_special_addresses [of "\<lparr>af_index = AF_INET6, v6_addr = replicate 15 0 @ [1]\<rparr>"] by simp

lemma std_str_to_ip_prefix_ok_witness:
  "\<exists>out. std_str_to_ip_prefix (\<lambda>_. Some AF_INET) (\<lambda>_ _. Some [10, 0, 0, 1]) (\<lambda>_. 24) 0 (Some ''10.0.0.1/24'')
      \<lparr>af_index = 0, v6_addr = replicate 16 0\<rparr> 0 = (True, out, 24) \<and> take 4 (v6_addr out) = [10, 0, 0, 1]"
  using std_str_to_ip_prefix_ok [of "''10.0.0.1''" "''24''" "\<lambda>_. Some AF_INET" AF_INET "\<lambda>_ _. Some [10, 0, 0, 1]"
      "[10, 0, 0, 1]" "\<lparr>af_index = 0, v6_addr = replicate 16 0\<rparr>" "\<lambda>_. 24" 0 0]
  by (simp add: STD_IP_AFINDEX_TO_ADDR_LEN_def HAL_INET4_FAMILY_def HAL_INET4_LEN_def) blast

end
