(* ===== verification/Tlv.thy ===== *)
theory Tlv
  imports Prelude
begin

text \<open>
  The tag-length-value encoding of \<open>sonic/std_tlv.h\<close> and \<open>sonic/std_tlv_internal.h\<close>. Memory maps
  an address to a byte or, where nothing is mapped, to None; an access to unmapped memory is a
  fault, the result None. Address 0 is the null pointer. Lengths are \<open>uint64_t\<close> and wrap.
\<close>

section \<open>Memory\<close>

type_synonym memory = "nat \<Rightarrow> u8 option"

definition load_bytes :: "memory \<Rightarrow> nat \<Rightarrow> nat \<Rightarrow> u8 list option" where
  "load_bytes mem a n =
    (if list_all (\<lambda>i. mem (a + i) \<noteq> None) [0..<n] then Some (map (\<lambda>i. the (mem (a + i))) [0..<n]) else None)"

definition store_bytes :: "memory \<Rightarrow> nat \<Rightarrow> u8 list \<Rightarrow> memory option" where
  "store_bytes mem a bs =
    (if list_all (\<lambda>i. mem (a + i) \<noteq> None) [0..<length bs]
     then Some (\<lambda>x. if a \<le> x \<and> x < a + length bs then Some (bs ! (x - a)) else mem x) else None)"

section \<open>One element\<close>

definition STD_TLV_HDR_LEN :: nat where "STD_TLV_HDR_LEN = 8 + 8"
definition STD_TLV_DATA_POS :: nat where "STD_TLV_DATA_POS = STD_TLV_HDR_LEN"
definition STD_TLV_LEN_POS :: nat where "STD_TLV_LEN_POS = 8"
definition STD_TLV_TAG_POS :: nat where "STD_TLV_TAG_POS = 0"

definition std_tlv_offset :: "nat \<Rightarrow> nat \<Rightarrow> nat" where
  "std_tlv_offset data offset = data + offset"

definition std_tlv_ilen :: "nat \<Rightarrow> nat" where
  "std_tlv_ilen data = std_tlv_offset data STD_TLV_LEN_POS"

definition std_tlv_itag :: "nat \<Rightarrow> nat" where
  "std_tlv_itag data = std_tlv_offset data STD_TLV_TAG_POS"

definition std_tlv_set_tag :: "nat \<Rightarrow> u64 \<Rightarrow> memory \<Rightarrow> memory option" where
  "std_tlv_set_tag data tag mem = store_bytes mem (std_tlv_offset data STD_TLV_TAG_POS) (le_bytes 8 tag)"

definition std_tlv_set_len :: "nat \<Rightarrow> u64 \<Rightarrow> memory \<Rightarrow> memory option" where
  "std_tlv_set_len data len mem = store_bytes mem (std_tlv_offset data STD_TLV_LEN_POS) (le_bytes 8 len)"

definition std_tlv_len :: "memory \<Rightarrow> nat \<Rightarrow> u64 option" where
  "std_tlv_len mem data = map_option from_le (load_bytes mem (std_tlv_ilen data) 8)"

definition std_tlv_tag :: "memory \<Rightarrow> nat \<Rightarrow> u64 option" where
  "std_tlv_tag mem data = map_option from_le (load_bytes mem (std_tlv_itag data) 8)"

definition std_tlv_total_len :: "memory \<Rightarrow> nat \<Rightarrow> u64 option" where
  "std_tlv_total_len mem data = map_option (\<lambda>len. len + of_nat STD_TLV_HDR_LEN) (std_tlv_len mem data)"

definition std_tlv_data :: "nat \<Rightarrow> nat" where
  "std_tlv_data data = std_tlv_offset data STD_TLV_DATA_POS"

definition std_tlv_data_u16 :: "memory \<Rightarrow> nat \<Rightarrow> u16 option" where
  "std_tlv_data_u16 mem data = map_option from_le (load_bytes mem (std_tlv_data data) 2)"

definition std_tlv_data_u32 :: "memory \<Rightarrow> nat \<Rightarrow> u32 option" where
  "std_tlv_data_u32 mem data = map_option from_le (load_bytes mem (std_tlv_data data) 4)"

definition std_tlv_data_u64 :: "memory \<Rightarrow> nat \<Rightarrow> u64 option" where
  "std_tlv_data_u64 mem data = map_option from_le (load_bytes mem (std_tlv_data data) 8)"

section \<open>Building\<close>

text \<open>The result is the pointer behind the new element, the space left and the memory; \<open>content\<close>
  are the bytes at the source of the copy.\<close>

definition std_tlv_add ::
    "nat \<Rightarrow> u64 \<Rightarrow> u64 \<Rightarrow> u64 \<Rightarrow> u8 list \<Rightarrow> memory \<Rightarrow> (nat \<times> u64 \<times> memory) option" where
  "std_tlv_add data data_len tag len content mem =
    (if data_len < len + of_nat STD_TLV_HDR_LEN then Some (0, data_len, mem)
     else
       (case std_tlv_set_tag data tag mem of
          None \<Rightarrow> None
        | Some mem \<Rightarrow>
            (case std_tlv_set_len data len mem of
               None \<Rightarrow> None
             | Some mem \<Rightarrow>
                 if length content < unat len then None
                 else
                   (case store_bytes mem (data + STD_TLV_HDR_LEN) (take (unat len) content) of
                      None \<Rightarrow> None
                    | Some mem \<Rightarrow>
                        Some (std_tlv_offset data (unat (len + of_nat STD_TLV_HDR_LEN)),
                              data_len - (len + of_nat STD_TLV_HDR_LEN), mem)))))"

definition std_tlv_add_u16 :: "nat \<Rightarrow> u64 \<Rightarrow> u64 \<Rightarrow> u16 \<Rightarrow> memory \<Rightarrow> (nat \<times> u64 \<times> memory) option" where
  "std_tlv_add_u16 data data_len tag content mem = std_tlv_add data data_len tag 2 (le_bytes 2 content) mem"

definition std_tlv_add_u32 :: "nat \<Rightarrow> u64 \<Rightarrow> u64 \<Rightarrow> u32 \<Rightarrow> memory \<Rightarrow> (nat \<times> u64 \<times> memory) option" where
  "std_tlv_add_u32 data data_len tag content mem = std_tlv_add data data_len tag 4 (le_bytes 4 content) mem"

definition std_tlv_add_u64 :: "nat \<Rightarrow> u64 \<Rightarrow> u64 \<Rightarrow> u64 \<Rightarrow> memory \<Rightarrow> (nat \<times> u64 \<times> memory) option" where
  "std_tlv_add_u64 data data_len tag content mem = std_tlv_add data data_len tag 8 (le_bytes 8 content) mem"

section \<open>Walking\<close>

definition std_tlv_valid :: "memory \<Rightarrow> nat \<Rightarrow> u64 \<Rightarrow> bool option" where
  "std_tlv_valid mem data len =
    (if data = 0 then Some False
     else map_option (\<lambda>total. total \<le> len) (std_tlv_total_len mem data))"

definition std_tlv_next :: "memory \<Rightarrow> nat \<Rightarrow> u64 \<Rightarrow> (nat \<times> u64) option" where
  "std_tlv_next mem data len =
    (if data = 0 then Some (0, len)
     else
       (case std_tlv_total_len mem data of
          None \<Rightarrow> None
        | Some tlen \<Rightarrow>
            Some (if len < tlen then (0, len) else (std_tlv_offset data (unat tlen), len - tlen))))"

partial_function (option) std_tlv_find_next ::
    "memory \<Rightarrow> nat \<Rightarrow> u64 \<Rightarrow> u64 \<Rightarrow> (nat \<times> u64) option" where
  "std_tlv_find_next mem data dlen tag =
    (case std_tlv_valid mem data dlen of
       None \<Rightarrow> None
     | Some valid \<Rightarrow>
         if \<not> valid then Some (0, dlen)
         else
           (case std_tlv_tag mem data of
              None \<Rightarrow> None
            | Some t \<Rightarrow>
                if t = tag then Some (data, dlen)
                else
                  (case std_tlv_next mem data dlen of
                     None \<Rightarrow> None
                   | Some (data', dlen') \<Rightarrow>
                       if data' \<noteq> 0 then std_tlv_find_next mem data' dlen' tag else Some (0, dlen'))))"



section \<open>A list of elements in memory\<close>

type_synonym tlv = "u64 \<times> u8 list"

definition encode1 :: "tlv \<Rightarrow> u8 list" where
  "encode1 e = le_bytes 8 (fst e) @ le_bytes 8 (of_nat (length (snd e)) :: u64) @ snd e"

definition encode :: "tlv list \<Rightarrow> u8 list" where
  "encode es = concat (map encode1 es)"

definition holds :: "memory \<Rightarrow> nat \<Rightarrow> u8 list \<Rightarrow> bool" where
  "holds mem a bs \<longleftrightarrow> (\<forall>i < length bs. mem (a + i) = Some (bs ! i))"

lemma holds_append: "holds mem a (xs @ ys) \<longleftrightarrow> holds mem a xs \<and> holds mem (a + length xs) ys"
proof
  assume h: "holds mem a (xs @ ys)"
  have "mem (a + length xs + i) = Some (ys ! i)" if "i < length ys" for i
    using h that by (auto simp: holds_def nth_append add.assoc dest: spec [of _ "length xs + i"])
  with h show "holds mem a xs \<and> holds mem (a + length xs) ys"
    by (auto simp: holds_def nth_append)
next
  assume h: "holds mem a xs \<and> holds mem (a + length xs) ys"
  show "holds mem a (xs @ ys)"
    unfolding holds_def
  proof (intro allI impI)
    fix i assume "i < length (xs @ ys)"
    then show "mem (a + i) = Some ((xs @ ys) ! i)"
      using h by (cases "i < length xs") (auto simp: holds_def nth_append dest: spec [of _ "i - length xs"])
  qed
qed

lemma load_holds: "holds mem a bs \<Longrightarrow> load_bytes mem a (length bs) = Some bs"
  by (auto simp: load_bytes_def holds_def list_all_iff intro: nth_equalityI)

lemma holds_load: "load_bytes mem a n = Some bs \<Longrightarrow> holds mem a bs \<and> length bs = n"
  by (auto simp: load_bytes_def holds_def list_all_iff split: if_splits)

lemma length_encode1 [simp]: "length (encode1 e) = 16 + length (snd e)"
  by (simp add: encode1_def)

lemma encode_simps [simp]: "encode [] = []" "encode (e # es) = encode1 e @ encode es"
  "encode (xs @ ys) = encode xs @ encode ys"
  by (simp_all add: encode_def)

lemma element_in_memory:
  assumes "holds mem a (encode1 (t, bs))"
  shows "std_tlv_tag mem a = Some t" and "std_tlv_len mem a = Some (of_nat (length bs))"
    and "holds mem (std_tlv_data a) bs"
  using assms load_holds [of mem a "le_bytes 8 t"] load_holds [of mem "a + 8" "le_bytes 8 (of_nat (length bs) :: u64)"]
  by (simp_all add: encode1_def holds_append std_tlv_tag_def std_tlv_len_def std_tlv_itag_def std_tlv_ilen_def
      std_tlv_offset_def std_tlv_data_def STD_TLV_TAG_POS_def STD_TLV_LEN_POS_def STD_TLV_DATA_POS_def
      STD_TLV_HDR_LEN_def from_le_bytes_word add.commute [of a])

lemma unat_of_nat64: "n < 2 ^ 64 \<Longrightarrow> unat (of_nat n :: u64) = n"
  by (simp add: unsigned_of_nat take_bit_nat_eq_self)

lemma total_len_in_memory:
  "holds mem a (encode1 (t, bs)) \<Longrightarrow> std_tlv_total_len mem a = Some (of_nat (16 + length bs))"
  by (simp add: std_tlv_total_len_def element_in_memory STD_TLV_HDR_LEN_def)

lemma find_next_step:
  assumes h: "holds mem a (encode ((t', bs) # es))" and a: "a \<noteq> 0"
    and n: "length (encode ((t', bs) # es)) < 2 ^ 64"
  shows "std_tlv_find_next mem a (of_nat (length (encode ((t', bs) # es)))) t =
    (if t' = t then Some (a, of_nat (length (encode ((t', bs) # es))))
     else std_tlv_find_next mem (a + 16 + length bs) (of_nat (length (encode es))) t)"
proof -
  let ?n = "length (encode ((t', bs) # es))" and ?k = "16 + length bs"
  have e: "holds mem a (encode1 (t', bs))" using h by (simp add: holds_append)
  have k: "?k \<le> ?n" "?n = ?k + length (encode es)" by simp_all
  have le: "(of_nat ?k :: u64) \<le> of_nat ?n"
    using k n unat_of_nat64 [of ?k] unat_of_nat64 [of ?n] by (simp add: word_le_nat_alt)
  then have v: "std_tlv_valid mem a (of_nat ?n) = Some True"
    using a total_len_in_memory [OF e] by (simp add: std_tlv_valid_def)
  have "(of_nat ?n - of_nat ?k :: u64) = of_nat (length (encode es))" using k(2) by simp
  then have nx: "std_tlv_next mem a (of_nat ?n) = Some (a + ?k, of_nat (length (encode es)))"
    using a le total_len_in_memory [OF e] n k unat_of_nat64 [of ?k]
    by (simp add: std_tlv_next_def std_tlv_offset_def not_less [symmetric])
  show ?thesis
    using v nx element_in_memory(1) [OF e]
    by (subst std_tlv_find_next.simps) (simp add: a add.assoc)
qed

lemma find_next_skip:
  assumes "holds mem a (encode (pre @ es))" and "a \<noteq> 0" and "length (encode (pre @ es)) < 2 ^ 64"
    and "t \<notin> fst ` set pre"
  shows "std_tlv_find_next mem a (of_nat (length (encode (pre @ es)))) t =
    std_tlv_find_next mem (a + length (encode pre)) (of_nat (length (encode es))) t"
  using assms
proof (induction pre arbitrary: a)
  case (Cons p pre)
  obtain t' bs where p: "p = (t', bs)" by (cases p)
  have "std_tlv_find_next mem a (of_nat (length (encode ((p # pre) @ es)))) t =
      std_tlv_find_next mem (a + 16 + length bs) (of_nat (length (encode (pre @ es)))) t"
    using find_next_step [of mem a t' bs "pre @ es" t] Cons.prems p by auto
  also have "\<dots> = std_tlv_find_next mem (a + 16 + length bs + length (encode pre)) (of_nat (length (encode es))) t"
    using Cons.prems p by (intro Cons.IH) (auto simp: holds_append add.assoc)
  finally show ?case using p by (simp add: add.assoc)
qed simp

lemma find_next_found:
  assumes "holds mem a (encode (pre @ (t, bs) # post))" and "a \<noteq> 0"
    and "length (encode (pre @ (t, bs) # post)) < 2 ^ 64" and "t \<notin> fst ` set pre"
  shows "std_tlv_find_next mem a (of_nat (length (encode (pre @ (t, bs) # post)))) t =
    Some (a + length (encode pre), of_nat (length (encode ((t, bs) # post))))"
  using find_next_skip [OF assms] assms
    find_next_step [of mem "a + length (encode pre)" t bs post t]
  by (simp add: holds_append)

text \<open>Behind the last element the search reads another header.\<close>

lemma find_next_absent:
  assumes "holds mem a (encode es)" and "a \<noteq> 0" and "length (encode es) < 2 ^ 64" and "t \<notin> fst ` set es"
  shows "std_tlv_find_next mem a (of_nat (length (encode es))) t =
    std_tlv_find_next mem (a + length (encode es)) 0 t"
  using find_next_skip [of mem a es "[]" t] assms by simp

lemma find_next_end:
  assumes "a \<noteq> 0"
  shows "load_bytes mem (a + 8) 8 = None \<Longrightarrow> std_tlv_find_next mem a 0 t = None"
    and "load_bytes mem (a + 8) 8 = Some bs \<Longrightarrow> (from_le bs :: u64) + 16 \<noteq> 0 \<Longrightarrow>
      std_tlv_find_next mem a 0 t = Some (0, 0)"
  using assms
  by (simp_all add: std_tlv_find_next.simps [of mem a] std_tlv_valid_def std_tlv_total_len_def std_tlv_len_def
      std_tlv_ilen_def std_tlv_offset_def STD_TLV_LEN_POS_def STD_TLV_HDR_LEN_def)

section \<open>Building an element\<close>

definition mapped :: "memory \<Rightarrow> nat \<Rightarrow> nat \<Rightarrow> bool" where
  "mapped mem a n \<longleftrightarrow> (\<forall>i < n. mem (a + i) \<noteq> None)"

text \<open>Memory with some bytes replaced.\<close>

definition overwrite :: "memory \<Rightarrow> nat \<Rightarrow> u8 list \<Rightarrow> memory" where
  "overwrite mem a bs = (\<lambda>x. if a \<le> x \<and> x < a + length bs then Some (bs ! (x - a)) else mem x)"

lemma store_mapped: "mapped mem a (length bs) \<Longrightarrow> store_bytes mem a bs = Some (overwrite mem a bs)"
  by (auto simp: store_bytes_def mapped_def list_all_iff overwrite_def)

lemma mapped_overwrite: "mapped mem b n \<Longrightarrow> mapped (overwrite mem a bs) b n"
  by (auto simp: mapped_def overwrite_def)

lemma mapped_part: "mapped mem a n \<Longrightarrow> k + m \<le> n \<Longrightarrow> mapped mem (a + k) m"
  unfolding mapped_def by (metis add.assoc add_less_cancel_left order_less_le_trans)

lemma overwrite_append: "overwrite (overwrite mem a xs) (a + length xs) ys = overwrite mem a (xs @ ys)"
  by (auto simp: overwrite_def fun_eq_iff nth_append)

lemma holds_overwrite: "holds (overwrite mem a bs) a bs"
  by (simp add: holds_def overwrite_def)

lemma tlv_add_ok:
  assumes m: "mapped mem a (16 + length bs)" and fit: "16 + length bs \<le> unat space"
  shows "std_tlv_add a space tag (of_nat (length bs)) bs mem =
    Some (a + 16 + length bs, space - of_nat (16 + length bs), overwrite mem a (encode1 (tag, bs)))"
proof -
  have "unat space < 2 ^ LENGTH(64)" by (rule unsigned_less)
  with fit have b: "16 + length bs < 2 ^ 64" by simp
  then have u: "unat (of_nat (16 + length bs) :: u64) = 16 + length bs" "unat (of_nat (length bs) :: u64) = length bs"
    by (simp_all add: unat_of_nat64 del: of_nat_add)
  then have le: "\<not> space < of_nat (length bs) + 16"
    using fit by (simp add: word_less_nat_alt add.commute)
  have sum: "of_nat (length bs) + 16 = (of_nat (16 + length bs) :: u64)" by simp
  have "store_bytes mem a (le_bytes 8 tag) = Some (overwrite mem a (le_bytes 8 tag))"
    using mapped_part [OF m, of 0 8] by (intro store_mapped) simp
  moreover have "store_bytes (overwrite mem a (le_bytes 8 tag)) (a + 8) (le_bytes 8 (of_nat (length bs) :: u64)) =
      Some (overwrite (overwrite mem a (le_bytes 8 tag)) (a + 8) (le_bytes 8 (of_nat (length bs) :: u64)))"
    using mapped_part [OF m, of 8 8] by (intro store_mapped mapped_overwrite) simp
  moreover have "overwrite (overwrite mem a (le_bytes 8 tag)) (a + 8) (le_bytes 8 (of_nat (length bs) :: u64)) =
      overwrite mem a (le_bytes 8 tag @ le_bytes 8 (of_nat (length bs) :: u64))"
    using overwrite_append [of mem a "le_bytes 8 tag"] by simp
  moreover have "store_bytes (overwrite mem a (le_bytes 8 tag @ le_bytes 8 (of_nat (length bs) :: u64))) (a + 16) bs =
      Some (overwrite (overwrite mem a (le_bytes 8 tag @ le_bytes 8 (of_nat (length bs) :: u64))) (a + 16) bs)"
    using mapped_part [OF m, of 16 "length bs"] by (intro store_mapped mapped_overwrite) simp
  moreover have "overwrite (overwrite mem a (le_bytes 8 tag @ le_bytes 8 (of_nat (length bs) :: u64))) (a + 16) bs =
      overwrite mem a (encode1 (tag, bs))"
    using overwrite_append [of mem a "le_bytes 8 tag @ le_bytes 8 (of_nat (length bs) :: u64)"]
    by (simp add: encode1_def)
  ultimately show ?thesis
    using le u unfolding std_tlv_add_def sum [symmetric]
    by (simp add: std_tlv_set_tag_def std_tlv_set_len_def std_tlv_offset_def STD_TLV_TAG_POS_def
        STD_TLV_LEN_POS_def STD_TLV_HDR_LEN_def add.commute add.left_commute)
qed

section \<open>Nested elements\<close>




section \<open>Properties\<close>

text \<open>Adding an element that fits writes exactly its encoding (tag, length, value, all
  little-endian) at the pointer and nothing else, returns the pointer behind it and takes its size
  off the space left; one that does not fit leaves everything as it was and gives the null
  pointer. \<close>

theorem std_tlv_add_encodes:
  assumes "mapped mem a (16 + length bs)" and "length bs + 16 < 2 ^ 64"
  shows "std_tlv_add a space tag (of_nat (length bs)) bs mem =
    (if 16 + length bs \<le> unat space
     then Some (a + 16 + length bs, space - of_nat (16 + length bs), overwrite mem a (encode1 (tag, bs)))
     else Some (0, space, mem))"
proof (cases "16 + length bs \<le> unat space")
  case True
  then show ?thesis using tlv_add_ok [OF assms(1)] by simp
next
  case False
  have "of_nat (length bs) + 16 = (of_nat (length bs + 16) :: u64)" by simp
  then have "space < of_nat (length bs) + 16"
    using False assms(2) unat_of_nat64 [of "length bs + 16"] by (simp only: word_less_nat_alt)
  with False show ?thesis by (simp add: std_tlv_add_def STD_TLV_HDR_LEN_def)
qed

text \<open> C38: An integer added as an element is read back with its tag, its length and its value, for
  the three widths. \<close>

theorem std_tlv_integers_roundtrip:
  assumes "mapped mem a 24" and "24 \<le> unat space"
  shows "(\<exists>m. std_tlv_add_u16 a space tag v16 mem = Some (a + 18, space - 18, m)
      \<and> std_tlv_tag m a = Some tag \<and> std_tlv_len m a = Some 2 \<and> std_tlv_data_u16 m a = Some v16)
    \<and> (\<exists>m. std_tlv_add_u32 a space tag v32 mem = Some (a + 20, space - 20, m)
      \<and> std_tlv_tag m a = Some tag \<and> std_tlv_len m a = Some 4 \<and> std_tlv_data_u32 m a = Some v32)
    \<and> (\<exists>m. std_tlv_add_u64 a space tag v64 mem = Some (a + 24, space - 24, m)
      \<and> std_tlv_tag m a = Some tag \<and> std_tlv_len m a = Some 8 \<and> std_tlv_data_u64 m a = Some v64)"
proof -
  have add: "std_tlv_add a space tag (of_nat (length bs)) bs mem =
      Some (a + 16 + length bs, space - of_nat (16 + length bs), overwrite mem a (encode1 (tag, bs)))"
    if "length bs \<le> 8" for bs
    using that mapped_part [OF assms(1), of 0 "16 + length bs"] assms(2) by (intro tlv_add_ok) simp_all
  have rd: "std_tlv_tag (overwrite mem a (encode1 (tag, bs))) a = Some tag"
    "std_tlv_len (overwrite mem a (encode1 (tag, bs))) a = Some (of_nat (length bs))"
    "load_bytes (overwrite mem a (encode1 (tag, bs))) (std_tlv_data a) (length bs) = Some bs" for bs
    using element_in_memory [OF holds_overwrite, of mem a tag bs] load_holds by simp_all
  show ?thesis
    using add [of "le_bytes 2 v16"] rd [of "le_bytes 2 v16"]
      add [of "le_bytes 4 v32"] rd [of "le_bytes 4 v32"]
      add [of "le_bytes 8 v64"] rd [of "le_bytes 8 v64"]
    by (simp add: std_tlv_add_u16_def std_tlv_add_u32_def std_tlv_add_u64_def std_tlv_data_u16_def
        std_tlv_data_u32_def std_tlv_data_u64_def from_le_bytes_word)
qed

text \<open>The search for a tag in a well-formed list of elements stops at the first element that
  has it, with the length from there to the end of the list. \<close>

theorem std_tlv_find_next_first:
  assumes "holds mem a (encode (pre @ (t, bs) # post))" and "a \<noteq> 0"
    and "length (encode (pre @ (t, bs) # post)) < 2 ^ 64" and "t \<notin> fst ` set pre"
  shows "std_tlv_find_next mem a (of_nat (length (encode (pre @ (t, bs) # post)))) t =
    Some (a + length (encode pre), of_nat (length (encode ((t, bs) # post))))"
  by (rule find_next_found [OF assms])

text \<open> C39: The search for a tag that does not occur reads the length field of another header behind
  the end of the list: it faults when that memory is not mapped, and gives the null pointer when
  it is, unless the bytes there happen to encode the length -16. \<close>

theorem std_tlv_find_next_reads_past_end:
  assumes "holds mem a (encode es)" and "a \<noteq> 0" and "length (encode es) < 2 ^ 64" and "t \<notin> fst ` set es"
  shows "std_tlv_find_next mem a (of_nat (length (encode es))) t =
    (case load_bytes mem (a + length (encode es) + 8) 8 of
       None \<Rightarrow> None
     | Some bs \<Rightarrow> if (from_le bs :: u64) + 16 \<noteq> 0 then Some (0, 0)
                  else std_tlv_find_next mem (a + length (encode es)) 0 t)"
  using find_next_absent [OF assms] find_next_end [of "a + length (encode es)"] assms(2)
  by (simp split: option.split)


text \<open>Memory with 100 mapped bytes at address 1000, and one that holds a nested list there.\<close>

definition demo_space :: memory where
  "demo_space = (\<lambda>x. if 1000 \<le> x \<and> x < 1100 then Some 0 else None)"

definition demo_list :: "tlv list" where
  "demo_list = [(1, [7]), (2, encode [(5, []), (6, [8, 9])])]"

definition demo_nested :: memory where
  "demo_nested = overwrite (\<lambda>_. None) 1000 (encode demo_list)"

lemma demo_length: "length (encode demo_list) = 67"
  by (simp add: demo_list_def)

lemma demo_holds: "holds demo_nested 1000 (encode demo_list)"
  unfolding demo_nested_def by (rule holds_overwrite)

lemma std_tlv_add_encodes_witness:
  "std_tlv_add 1000 100 3 (of_nat (length [1, 2, 3 :: u8])) [1, 2, 3] demo_space
    = Some (1019, 81, overwrite demo_space 1000 (encode1 (3, [1, 2, 3])))"
  using std_tlv_add_encodes [of demo_space 1000 "[1, 2, 3]" 100 3] by (simp add: mapped_def demo_space_def)

lemma std_tlv_integers_roundtrip_witness:
  "\<exists>m. std_tlv_add_u32 1000 100 3 77 demo_space = Some (1020, 80, m) \<and> std_tlv_data_u32 m 1000 = Some 77"
  using std_tlv_integers_roundtrip [of demo_space 1000 100 3 0 77 0] by (auto simp: mapped_def demo_space_def)

lemma std_tlv_find_next_first_witness:
  "std_tlv_find_next demo_nested 1000 67 2 = Some (1017, 50)"
  using std_tlv_find_next_first [of demo_nested 1000 "[(1, [7])]" 2 "encode [(5, []), (6, [8, 9])]" "[]"]
    holds_overwrite [of "\<lambda>_. None" 1000 "encode demo_list"]
  by (simp add: demo_nested_def demo_list_def)

lemma std_tlv_find_next_reads_past_end_witness:
  "std_tlv_find_next demo_nested 1000 67 9 = None"
proof -
  have "load_bytes demo_nested (1000 + length (encode demo_list) + 8) 8 = None"
    by (simp add: demo_length load_bytes_def demo_nested_def overwrite_def list_all_iff exI [of _ "0 :: nat"])
  with std_tlv_find_next_reads_past_end [OF demo_holds, of 9] show ?thesis
    unfolding demo_length by (simp add: demo_list_def)
qed


end
