(* ===== verification/RbTree.thy ===== *)
theory RbTree
  imports PtrTree ErrorCodes KeyOrder
begin

text \<open>
  The red-black tree of \<open>src/std_rbtree.c\<close>: the table, the nodes and every operation,
  as the code has them. A node pointer is an address; \<open>NIL\<close> is the address of the sentinel
  \<open>rbtt->nil\<close>, and the null pointer is None where a function returns or takes one. A pointer
  to client data is an address as well, 0 being NULL. A loop that follows pointers is a
  \<open>partial_function\<close> into \<open>option\<close>: None means that the C function does not return, because
  the loop runs forever or an \<open>RBT_ASSERT\<close> aborts.
\<close>

section \<open>Node and table\<close>

datatype rbt_color = RBT_BLACK | RBT_RED

datatype compare_fn = RBT_ULONG_KEY | RBT_INT_KEY | Gen_cmp | User_cmp "ptr \<Rightarrow> ptr \<Rightarrow> int"

datatype mem_fn = Libc_fn | Wrapper_fn | Client_fn nat

text \<open>
  The node's fields come first, one function per field (\<open>struct _std_rbtree_node\<close>), then the
  table's fields (\<open>struct _std_rbtree_table\<close>). \<open>client_mem\<close> is the client's memory, which the
  comparison functions read.
\<close>

record rbtree_table =
  rbt_left :: "ptr \<Rightarrow> ptr"
  rbt_right :: "ptr \<Rightarrow> ptr"
  rbt_parent :: "ptr \<Rightarrow> ptr"
  rbt_color :: "ptr \<Rightarrow> rbt_color"
  rbt_height :: "ptr \<Rightarrow> u8"
  rbt_data :: "ptr \<Rightarrow> ptr"
  rbtt_magic :: u64
  rbtt_name :: string
  rbtt_keyoffset :: int
  rbtt_keylength :: int
  rbtt_root :: ptr
  rbtt_debug :: bool
  rbtt_compare :: compare_fn
  rbtt_malloc :: mem_fn
  rbtt_free :: mem_fn
  rbtt_numinodes :: u64
  rbtt_numinserts :: u64
  rbtt_numremoved :: u64
  rbtt_nummallocs :: u64
  rbtt_numfrees :: u64
  client_mem :: "ptr \<Rightarrow> u8"

definition RBT_MAGIC :: u64 where "RBT_MAGIC = 0xdeadbeef"
definition RBT_NAME_MAX_LEN :: nat where "RBT_NAME_MAX_LEN = 50"
definition NIL :: ptr where "NIL = 0"

text \<open>Field assignments, \<open>x->field = v\<close>.\<close>

abbreviation set_left :: "ptr \<Rightarrow> ptr \<Rightarrow> rbtree_table \<Rightarrow> rbtree_table" where
  "set_left x v s \<equiv> s\<lparr>rbt_left := (rbt_left s)(x := v)\<rparr>"
abbreviation set_right :: "ptr \<Rightarrow> ptr \<Rightarrow> rbtree_table \<Rightarrow> rbtree_table" where
  "set_right x v s \<equiv> s\<lparr>rbt_right := (rbt_right s)(x := v)\<rparr>"
abbreviation set_parent :: "ptr \<Rightarrow> ptr \<Rightarrow> rbtree_table \<Rightarrow> rbtree_table" where
  "set_parent x v s \<equiv> s\<lparr>rbt_parent := (rbt_parent s)(x := v)\<rparr>"
abbreviation set_color :: "ptr \<Rightarrow> rbt_color \<Rightarrow> rbtree_table \<Rightarrow> rbtree_table" where
  "set_color x v s \<equiv> s\<lparr>rbt_color := (rbt_color s)(x := v)\<rparr>"
abbreviation set_data :: "ptr \<Rightarrow> ptr \<Rightarrow> rbtree_table \<Rightarrow> rbtree_table" where
  "set_data x v s \<equiv> s\<lparr>rbt_data := (rbt_data s)(x := v)\<rparr>"

section \<open>Comparison functions and handle checks\<close>

text \<open>
  A key at address \<open>a\<close>: \<open>n\<close> bytes in the machine's (little-endian) order. A client's own
  comparison function is an argument of the table (\<open>User_cmp\<close>). The built-in integer
  comparisons assert that both pointers are not NULL: None is that abort.
\<close>

definition client_at :: "rbtree_table \<Rightarrow> ptr \<Rightarrow> nat" where
  "client_at rbtt one = nat (int one + rbtt_keyoffset rbtt)"

definition read_bytes :: "rbtree_table \<Rightarrow> ptr \<Rightarrow> nat \<Rightarrow> u8 list" where
  "read_bytes rbtt a n = bytes_at (client_mem rbtt) a n"

definition std_rbtree_compare_ul :: "rbtree_table \<Rightarrow> ptr \<Rightarrow> ptr \<Rightarrow> int option" where
  "std_rbtree_compare_ul rbtt one two =
    (if one = 0 \<or> two = 0 then None
     else let ul1 = (word_rcat (rev (read_bytes rbtt (client_at rbtt one) 8)) :: u64);
              ul2 = (word_rcat (rev (read_bytes rbtt (client_at rbtt two) 8)) :: u64)
          in if ul1 = ul2 then Some 0 else Some (if ul1 < ul2 then -1 else 1))"

definition std_rbtree_compare_i :: "rbtree_table \<Rightarrow> ptr \<Rightarrow> ptr \<Rightarrow> int option" where
  "std_rbtree_compare_i rbtt one two =
    (if one = 0 \<or> two = 0 then None
     else let i1 = sint (word_rcat (rev (read_bytes rbtt (client_at rbtt one) 4)) :: u32);
              i2 = sint (word_rcat (rev (read_bytes rbtt (client_at rbtt two) 4)) :: u32)
          in if i1 = i2 then Some 0 else Some (if i1 < i2 then -1 else 1))"

definition std_rbtree_gen_cmp :: "rbtree_table \<Rightarrow> ptr \<Rightarrow> ptr \<Rightarrow> int" where
  "std_rbtree_gen_cmp rbtt lhs rhs =
     memcmp (read_bytes rbtt (client_at rbtt lhs) (nat (rbtt_keylength rbtt)))
            (read_bytes rbtt (client_at rbtt rhs) (nat (rbtt_keylength rbtt)))"

definition call_compare :: "rbtree_table \<Rightarrow> ptr \<Rightarrow> ptr \<Rightarrow> int option" where
  "call_compare rbtt d1 d2 = (case rbtt_compare rbtt of
     RBT_ULONG_KEY \<Rightarrow> std_rbtree_compare_ul rbtt d1 d2
   | RBT_INT_KEY \<Rightarrow> std_rbtree_compare_i rbtt d1 d2
   | Gen_cmp \<Rightarrow> Some (std_rbtree_gen_cmp rbtt d1 d2)
   | User_cmp f \<Rightarrow> Some (f d1 d2))"

definition RBT_IS_LESS :: "rbtree_table \<Rightarrow> ptr \<Rightarrow> ptr \<Rightarrow> bool option" where
  "RBT_IS_LESS rbtt d1 d2 = map_option (\<lambda>cmp. cmp < 0) (call_compare rbtt d1 d2)"

text \<open>
  \<open>RBT_DEBUG_START ... RBT_DEBUG_END\<close>: the handle's magic number is always asserted, the
  assertions in between only when the table's debug flag is on.
\<close>

definition RBT_DEBUG_CHECK :: "rbtree_table \<Rightarrow> bool \<Rightarrow> bool" where
  "RBT_DEBUG_CHECK rbtt asserts \<longleftrightarrow> rbtt_magic rbtt = RBT_MAGIC \<and> (rbtt_debug rbtt \<longrightarrow> asserts)"

section \<open>Rotations\<close>

definition std_rbtree_rotateleft :: "rbtree_table \<Rightarrow> ptr \<Rightarrow> rbtree_table" where
  "std_rbtree_rotateleft rbtt x =
    (let y = rbt_right rbtt x;
         rbtt = set_right x (rbt_left rbtt y) rbtt;
         rbtt = (if rbt_left rbtt y \<noteq> NIL then set_parent (rbt_left rbtt y) x rbtt else rbtt);
         rbtt = set_parent y (rbt_parent rbtt x) rbtt;
         rbtt = (if rbt_parent rbtt x \<noteq> NIL
                 then (if x = rbt_left rbtt (rbt_parent rbtt x)
                       then set_left (rbt_parent rbtt x) y rbtt
                       else set_right (rbt_parent rbtt x) y rbtt)
                 else rbtt\<lparr>rbtt_root := y\<rparr>);
         rbtt = set_left y x rbtt
     in set_parent x y rbtt)"

definition std_rbtree_rotateright :: "rbtree_table \<Rightarrow> ptr \<Rightarrow> rbtree_table" where
  "std_rbtree_rotateright rbtt x =
    (let y = rbt_left rbtt x;
         rbtt = set_left x (rbt_right rbtt y) rbtt;
         rbtt = (if rbt_right rbtt y \<noteq> NIL then set_parent (rbt_right rbtt y) x rbtt else rbtt);
         rbtt = set_parent y (rbt_parent rbtt x) rbtt;
         rbtt = (if rbt_parent rbtt x \<noteq> NIL
                 then (if x = rbt_right rbtt (rbt_parent rbtt x)
                       then set_right (rbt_parent rbtt x) y rbtt
                       else set_left (rbt_parent rbtt x) y rbtt)
                 else rbtt\<lparr>rbtt_root := y\<rparr>);
         rbtt = set_right y x rbtt
     in set_parent x y rbtt)"

section \<open>Rebalancing after an insertion\<close>

text \<open>One turn of the loop: the new table and the new \<open>x\<close>.\<close>

definition balanceoninsert_body :: "rbtree_table \<Rightarrow> ptr \<Rightarrow> rbtree_table \<times> ptr" where
  "balanceoninsert_body rbtt x =
    (if rbt_parent rbtt x = rbt_left rbtt (rbt_parent rbtt (rbt_parent rbtt x)) then
       (let y = rbt_right rbtt (rbt_parent rbtt (rbt_parent rbtt x)) in
        if y \<noteq> NIL \<and> rbt_color rbtt y = RBT_RED then
          (let rbtt = set_color (rbt_parent rbtt x) RBT_BLACK rbtt;
               rbtt = set_color y RBT_BLACK rbtt;
               rbtt = set_color (rbt_parent rbtt (rbt_parent rbtt x)) RBT_RED rbtt
           in (rbtt, rbt_parent rbtt (rbt_parent rbtt x)))
        else
          (let (rbtt, x) =
                 (if x = rbt_right rbtt (rbt_parent rbtt x)
                  then (let x = rbt_parent rbtt x in (std_rbtree_rotateleft rbtt x, x))
                  else (rbtt, x));
               rbtt = set_color (rbt_parent rbtt x) RBT_BLACK rbtt;
               rbtt = set_color (rbt_parent rbtt (rbt_parent rbtt x)) RBT_RED rbtt;
               rbtt = std_rbtree_rotateright rbtt (rbt_parent rbtt (rbt_parent rbtt x))
           in (rbtt, x)))
     else
       (let y = rbt_left rbtt (rbt_parent rbtt (rbt_parent rbtt x)) in
        if y \<noteq> NIL \<and> rbt_color rbtt y = RBT_RED then
          (let rbtt = set_color (rbt_parent rbtt x) RBT_BLACK rbtt;
               rbtt = set_color y RBT_BLACK rbtt;
               rbtt = set_color (rbt_parent rbtt (rbt_parent rbtt x)) RBT_RED rbtt
           in (rbtt, rbt_parent rbtt (rbt_parent rbtt x)))
        else
          (let (rbtt, x) =
                 (if x = rbt_left rbtt (rbt_parent rbtt x)
                  then (let x = rbt_parent rbtt x in (std_rbtree_rotateright rbtt x, x))
                  else (rbtt, x));
               rbtt = set_color (rbt_parent rbtt x) RBT_BLACK rbtt;
               rbtt = set_color (rbt_parent rbtt (rbt_parent rbtt x)) RBT_RED rbtt;
               rbtt = std_rbtree_rotateleft rbtt (rbt_parent rbtt (rbt_parent rbtt x))
           in (rbtt, x))))"

partial_function (option) balanceoninsert_loop :: "rbtree_table \<Rightarrow> ptr \<Rightarrow> rbtree_table option" where
  "balanceoninsert_loop rbtt x =
    (if x \<noteq> rbtt_root rbtt \<and> rbt_color rbtt (rbt_parent rbtt x) = RBT_RED
     then (case balanceoninsert_body rbtt x of (rbtt, x) \<Rightarrow> balanceoninsert_loop rbtt x)
     else Some rbtt)"

definition std_rbtree_balanceoninsert :: "rbtree_table \<Rightarrow> ptr \<Rightarrow> rbtree_table option" where
  "std_rbtree_balanceoninsert rbtt x =
    (case balanceoninsert_loop (set_color x RBT_RED rbtt) x of
       None \<Rightarrow> None
     | Some rbtt \<Rightarrow> Some (set_color (rbtt_root rbtt) RBT_BLACK rbtt))"

section \<open>Rebalancing after a removal\<close>

text \<open>One turn of the loop: the new table, the new \<open>x\<close>, and whether the code breaks out.\<close>

definition balanceonremove_body :: "rbtree_table \<Rightarrow> ptr \<Rightarrow> rbtree_table \<times> ptr \<times> bool" where
  "balanceonremove_body rbtt x =
    (if x = rbt_left rbtt (rbt_parent rbtt x) then
       (let w = rbt_right rbtt (rbt_parent rbtt x);
            (rbtt, w) =
              (if rbt_color rbtt w = RBT_RED
               then (let rbtt = set_color w RBT_BLACK rbtt;
                         rbtt = set_color (rbt_parent rbtt x) RBT_RED rbtt;
                         rbtt = std_rbtree_rotateleft rbtt (rbt_parent rbtt x)
                     in (rbtt, rbt_right rbtt (rbt_parent rbtt x)))
               else (rbtt, w))
        in if w = NIL then (rbtt, x, True)
        else if rbt_color rbtt (rbt_left rbtt w) = RBT_BLACK \<and> rbt_color rbtt (rbt_right rbtt w) = RBT_BLACK
        then (let rbtt = set_color w RBT_RED rbtt in (rbtt, rbt_parent rbtt x, False))
        else
          (let (rbtt, w) =
                 (if rbt_color rbtt (rbt_right rbtt w) = RBT_BLACK
                  then (let rbtt = set_color (rbt_left rbtt w) RBT_BLACK rbtt;
                            rbtt = set_color w RBT_RED rbtt;
                            rbtt = std_rbtree_rotateright rbtt w
                        in (rbtt, rbt_right rbtt (rbt_parent rbtt x)))
                  else (rbtt, w));
               rbtt = set_color w (rbt_color rbtt (rbt_parent rbtt x)) rbtt;
               rbtt = set_color (rbt_parent rbtt x) RBT_BLACK rbtt;
               rbtt = set_color (rbt_right rbtt w) RBT_BLACK rbtt;
               rbtt = std_rbtree_rotateleft rbtt (rbt_parent rbtt x)
           in (rbtt, rbtt_root rbtt, False)))
     else
       (let w = rbt_left rbtt (rbt_parent rbtt x);
            (rbtt, w) =
              (if rbt_color rbtt w = RBT_RED
               then (let rbtt = set_color w RBT_BLACK rbtt;
                         rbtt = set_color (rbt_parent rbtt x) RBT_RED rbtt;
                         rbtt = std_rbtree_rotateright rbtt (rbt_parent rbtt x)
                     in (rbtt, rbt_left rbtt (rbt_parent rbtt x)))
               else (rbtt, w))
        in if w = NIL then (rbtt, x, True)
        else if rbt_color rbtt (rbt_left rbtt w) = RBT_BLACK \<and> rbt_color rbtt (rbt_right rbtt w) = RBT_BLACK
        then (let rbtt = set_color w RBT_RED rbtt in (rbtt, rbt_parent rbtt x, False))
        else
          (let (rbtt, w) =
                 (if rbt_color rbtt (rbt_left rbtt w) = RBT_BLACK
                  then (let rbtt = set_color (rbt_right rbtt w) RBT_BLACK rbtt;
                            rbtt = set_color w RBT_RED rbtt;
                            rbtt = std_rbtree_rotateleft rbtt w
                        in (rbtt, rbt_left rbtt (rbt_parent rbtt x)))
                  else (rbtt, w));
               rbtt = set_color w (rbt_color rbtt (rbt_parent rbtt x)) rbtt;
               rbtt = set_color (rbt_parent rbtt x) RBT_BLACK rbtt;
               rbtt = set_color (rbt_left rbtt w) RBT_BLACK rbtt;
               rbtt = std_rbtree_rotateright rbtt (rbt_parent rbtt x)
           in (rbtt, rbtt_root rbtt, False))))"

partial_function (option) balanceonremove_loop :: "rbtree_table \<Rightarrow> ptr \<Rightarrow> (rbtree_table \<times> ptr) option" where
  "balanceonremove_loop rbtt x =
    (if x \<noteq> rbtt_root rbtt \<and> rbt_color rbtt x = RBT_BLACK
     then (case balanceonremove_body rbtt x of
             (rbtt, x, stop) \<Rightarrow> if stop then Some (rbtt, x) else balanceonremove_loop rbtt x)
     else Some (rbtt, x))"

definition std_rbtree_balanceonremove :: "rbtree_table \<Rightarrow> ptr \<Rightarrow> rbtree_table option" where
  "std_rbtree_balanceonremove rbtt x =
    (case balanceonremove_loop rbtt x of
       None \<Rightarrow> None
     | Some (rbtt, x) \<Rightarrow> Some (set_color x RBT_BLACK rbtt))"

end
