(* ===== verification/RbOps.thy ===== *)
theory RbOps
  imports RbTree
begin

text \<open>
  The public operations of \<open>src/std_rbtree.c\<close> over the nodes and the rebalancing routines
  of theory RbTree: creation, search, insertion, removal and the iterative walk.
\<close>

section \<open>Search\<close>

partial_function (option) leftmost_loop :: "rbtree_table \<Rightarrow> ptr \<Rightarrow> ptr option" where
  "leftmost_loop rbtt x =
    (if rbt_left rbtt x \<noteq> NIL then leftmost_loop rbtt (rbt_left rbtt x) else Some x)"

text \<open>
  Internal functions return a node pointer or the null pointer, so their results are
  nested: None when the C function does not return, \<open>Some None\<close> when it returns NULL.
\<close>

definition node_or_null :: "ptr \<Rightarrow> ptr option" where
  "node_or_null x = (if x = NIL then None else Some x)"

text \<open>The client data of a node, or NULL (0) when there is no node.\<close>

definition data_of :: "rbtree_table \<Rightarrow> ptr option \<Rightarrow> ptr" where
  "data_of rbtt x = (case x of None \<Rightarrow> 0 | Some a \<Rightarrow> rbt_data rbtt a)"

definition std_rbtree_getfirst_node :: "rbtree_table \<Rightarrow> ptr option option" where
  "std_rbtree_getfirst_node rbtt =
    (if \<not> RBT_DEBUG_CHECK rbtt True then None
     else let x = rbtt_root rbtt in
       (case (if x \<noteq> NIL then leftmost_loop rbtt x else Some x) of
          None \<Rightarrow> None
        | Some x \<Rightarrow> Some (node_or_null x)))"

definition std_rbtree_getfirst :: "rbtree_table \<Rightarrow> ptr option" where
  "std_rbtree_getfirst rbtt =
    (if \<not> RBT_DEBUG_CHECK rbtt True then None
     else map_option (data_of rbtt) (std_rbtree_getfirst_node rbtt))"

partial_function (option) getexact_loop :: "rbtree_table \<Rightarrow> ptr \<Rightarrow> ptr \<Rightarrow> ptr option" where
  "getexact_loop rbtt data x =
    (if x \<noteq> NIL then
       (case call_compare rbtt data (rbt_data rbtt x) of
          None \<Rightarrow> None
        | Some cmp \<Rightarrow>
        if cmp = 0 then Some x
        else if cmp < 0 then getexact_loop rbtt data (rbt_left rbtt x)
        else getexact_loop rbtt data (rbt_right rbtt x))
     else Some x)"

definition std_rbtree_getexact_node :: "rbtree_table \<Rightarrow> ptr \<Rightarrow> ptr option option" where
  "std_rbtree_getexact_node rbtt data =
    (if \<not> RBT_DEBUG_CHECK rbtt (data \<noteq> 0) then None
     else map_option node_or_null (getexact_loop rbtt data (rbtt_root rbtt)))"

definition std_rbtree_getexact :: "rbtree_table \<Rightarrow> ptr \<Rightarrow> ptr option" where
  "std_rbtree_getexact rbtt data =
    (if \<not> RBT_DEBUG_CHECK rbtt (data \<noteq> 0) then None
     else map_option (data_of rbtt) (std_rbtree_getexact_node rbtt data))"

text \<open>Climbing while the pointer is a right (left) child; the result is the node reached.\<close>

partial_function (option) climb_right_loop :: "rbtree_table \<Rightarrow> ptr \<Rightarrow> ptr \<Rightarrow> ptr option" where
  "climb_right_loop rbtt x y =
    (if y \<noteq> NIL \<and> x = rbt_right rbtt y then climb_right_loop rbtt y (rbt_parent rbtt y) else Some y)"

partial_function (option) climb_left_loop :: "rbtree_table \<Rightarrow> ptr \<Rightarrow> ptr \<Rightarrow> ptr option" where
  "climb_left_loop rbtt x y =
    (if y \<noteq> NIL \<and> x = rbt_left rbtt y then climb_left_loop rbtt y (rbt_parent rbtt y) else Some y)"

definition std_rbtree_getnext_node :: "rbtree_table \<Rightarrow> ptr option \<Rightarrow> ptr option option" where
  "std_rbtree_getnext_node rbtt x =
    (if \<not> RBT_DEBUG_CHECK rbtt True then None
     else (case x of
       None \<Rightarrow> Some None
     | Some x \<Rightarrow>
         map_option node_or_null
           (if rbt_right rbtt x \<noteq> NIL then leftmost_loop rbtt (rbt_right rbtt x)
            else climb_right_loop rbtt x (rbt_parent rbtt x))))"

partial_function (option) getexactornext_loop :: "rbtree_table \<Rightarrow> ptr \<Rightarrow> ptr \<Rightarrow> ptr option" where
  "getexactornext_loop rbtt data x =
    (if x \<noteq> NIL then
       (case call_compare rbtt data (rbt_data rbtt x) of
          None \<Rightarrow> None
        | Some cmp \<Rightarrow>
        if cmp = 0 then Some x
        else if cmp < 0 then
          (if rbt_left rbtt x = NIL then Some x
           else getexactornext_loop rbtt data (rbt_left rbtt x))
        else
          (if rbt_right rbtt x = NIL then climb_right_loop rbtt x (rbt_parent rbtt x)
           else getexactornext_loop rbtt data (rbt_right rbtt x)))
     else Some x)"

definition std_rbtree_getexactornext_node :: "rbtree_table \<Rightarrow> ptr \<Rightarrow> ptr option option" where
  "std_rbtree_getexactornext_node rbtt data =
    (if \<not> RBT_DEBUG_CHECK rbtt (data \<noteq> 0) then None
     else map_option node_or_null (getexactornext_loop rbtt data (rbtt_root rbtt)))"

definition std_rbtree_getexactornext :: "rbtree_table \<Rightarrow> ptr \<Rightarrow> ptr option" where
  "std_rbtree_getexactornext rbtt data =
    (if \<not> RBT_DEBUG_CHECK rbtt (data \<noteq> 0) then None
     else map_option (data_of rbtt) (std_rbtree_getexactornext_node rbtt data))"

partial_function (option) getexactorprev_loop :: "rbtree_table \<Rightarrow> ptr \<Rightarrow> ptr \<Rightarrow> ptr option" where
  "getexactorprev_loop rbtt data x =
    (if x \<noteq> NIL then
       (case call_compare rbtt data (rbt_data rbtt x) of
          None \<Rightarrow> None
        | Some cmp \<Rightarrow>
        if cmp = 0 then Some x
        else if cmp < 0 then
          (if rbt_left rbtt x = NIL then climb_left_loop rbtt x (rbt_parent rbtt x)
           else getexactorprev_loop rbtt data (rbt_left rbtt x))
        else
          (if rbt_right rbtt x = NIL then Some x
           else getexactorprev_loop rbtt data (rbt_right rbtt x)))
     else Some x)"

definition std_rbtree_getexactorprev_node :: "rbtree_table \<Rightarrow> ptr \<Rightarrow> ptr option option" where
  "std_rbtree_getexactorprev_node rbtt data =
    (if \<not> RBT_DEBUG_CHECK rbtt (data \<noteq> 0) then None
     else map_option node_or_null (getexactorprev_loop rbtt data (rbtt_root rbtt)))"

definition std_rbtree_getexactorprev :: "rbtree_table \<Rightarrow> ptr \<Rightarrow> ptr option" where
  "std_rbtree_getexactorprev rbtt data =
    (if \<not> RBT_DEBUG_CHECK rbtt (data \<noteq> 0) then None
     else map_option (data_of rbtt) (std_rbtree_getexactorprev_node rbtt data))"

definition std_rbtree_getnext :: "rbtree_table \<Rightarrow> ptr \<Rightarrow> ptr option" where
  "std_rbtree_getnext rbtt data =
    (if \<not> RBT_DEBUG_CHECK rbtt True then None
     else if data = 0 then Some 0
     else (case std_rbtree_getexact_node rbtt data of
       None \<Rightarrow> None
     | Some (Some x) \<Rightarrow> map_option (data_of rbtt) (std_rbtree_getnext_node rbtt (Some x))
     | Some None \<Rightarrow> map_option (data_of rbtt) (std_rbtree_getexactornext_node rbtt data)))"

section \<open>Insertion\<close>

text \<open>The descent to the leaf where the new node goes; the result is its parent.\<close>

partial_function (option) insert_descend_loop :: "rbtree_table \<Rightarrow> ptr \<Rightarrow> ptr \<Rightarrow> ptr \<Rightarrow> ptr option" where
  "insert_descend_loop rbtt z x y =
    (if x \<noteq> NIL then
       (case RBT_IS_LESS rbtt (rbt_data rbtt z) (rbt_data rbtt x) of
          None \<Rightarrow> None
        | Some lt \<Rightarrow>
            if lt then insert_descend_loop rbtt z (rbt_left rbtt x) x
            else insert_descend_loop rbtt z (rbt_right rbtt x) x)
     else Some y)"

definition insert_link :: "rbtree_table \<Rightarrow> ptr \<Rightarrow> ptr \<Rightarrow> rbtree_table option" where
  "insert_link rbtt z y =
    (let rbtt = set_parent z y rbtt;
         rbtt = set_right z NIL rbtt;
         rbtt = set_left z NIL rbtt
     in if y = NIL then Some (rbtt\<lparr>rbtt_root := z\<rparr>)
        else (case RBT_IS_LESS rbtt (rbt_data rbtt z) (rbt_data rbtt y) of
                None \<Rightarrow> None
              | Some lt \<Rightarrow> Some (if lt then set_left y z rbtt else set_right y z rbtt)))"

text \<open>\<open>_std_rbtree_insert\<close> always returns the node it was given.\<close>

definition std_rbtree_insert_node :: "rbtree_table \<Rightarrow> ptr \<Rightarrow> (rbtree_table \<times> ptr) option" where
  "std_rbtree_insert_node rbtt z =
    (if \<not> RBT_DEBUG_CHECK rbtt True then None
     else (case insert_descend_loop rbtt z (rbtt_root rbtt) NIL of
       None \<Rightarrow> None
     | Some y \<Rightarrow>
         (case insert_link rbtt z y of
            None \<Rightarrow> None
          | Some rbtt \<Rightarrow>
         (case std_rbtree_balanceoninsert rbtt z of
            None \<Rightarrow> None
          | Some rbtt \<Rightarrow>
              Some (rbtt\<lparr>rbtt_numinserts := rbtt_numinserts rbtt + 1,
                         rbtt_numinodes := rbtt_numinodes rbtt + 1\<rparr>, z)))))"

text \<open>
  \<open>alloc\<close> is what \<open>rbtt_malloc\<close> returns and \<open>errno\<close> the error number it leaves.
\<close>

definition std_rbtree_insert ::
    "rbtree_table \<Rightarrow> ptr \<Rightarrow> ptr option \<Rightarrow> u32 \<Rightarrow> (rbtree_table \<times> t_std_error) option" where
  "std_rbtree_insert rbtt data alloc errno =
    (if \<not> RBT_DEBUG_CHECK rbtt (data \<noteq> 0) then None
     else (case alloc of
       None \<Rightarrow> Some (rbtt, STD_ERR_FROM_ERRNO errno e_std_err_COM e_std_err_code_FAIL)
     | Some z \<Rightarrow>
         (let rbtt = rbtt\<lparr>rbtt_nummallocs := rbtt_nummallocs rbtt + 1\<rparr>;
              rbtt = set_data z data rbtt
          in (case std_rbtree_insert_node rbtt z of
                None \<Rightarrow> None
              | Some (rbtt, _) \<Rightarrow> Some (rbtt, STD_ERR_OK)))))"

section \<open>Removal\<close>

text \<open>Unlinking \<open>y\<close>, a node with at most one child \<open>x\<close>.\<close>

definition remove_splice :: "rbtree_table \<Rightarrow> ptr \<Rightarrow> rbtree_table \<times> ptr" where
  "remove_splice rbtt y =
    (let x = (if rbt_left rbtt y \<noteq> NIL then rbt_left rbtt y else rbt_right rbtt y);
         rbtt = set_parent x (rbt_parent rbtt y) rbtt;
         rbtt = (if rbt_parent rbtt y = NIL then rbtt\<lparr>rbtt_root := x\<rparr>
                 else if y = rbt_left rbtt (rbt_parent rbtt y) then set_left (rbt_parent rbtt y) x rbtt
                 else set_right (rbt_parent rbtt y) x rbtt)
     in (rbtt, x))"

text \<open>Putting \<open>y\<close> into the place of \<open>z\<close>: first \<open>y\<close> itself, then the children's parent pointers.\<close>

definition remove_relink :: "rbtree_table \<Rightarrow> ptr \<Rightarrow> ptr \<Rightarrow> rbtree_table" where
  "remove_relink rbtt z y =
    (let rbtt = (if rbtt_root rbtt = z then rbtt\<lparr>rbtt_root := y\<rparr> else rbtt);
         rbtt = set_parent y (rbt_parent rbtt z) rbtt;
         rbtt = set_left y (rbt_left rbtt z) rbtt;
         rbtt = set_right y (rbt_right rbtt z) rbtt;
         rbtt = set_color y (rbt_color rbtt z) rbtt
     in if rbt_parent rbtt y \<noteq> NIL
        then (if rbt_left rbtt (rbt_parent rbtt y) = z
              then set_left (rbt_parent rbtt y) y rbtt
              else set_right (rbt_parent rbtt y) y rbtt)
        else rbtt)"

definition remove_adopt :: "rbtree_table \<Rightarrow> ptr \<Rightarrow> rbtree_table" where
  "remove_adopt rbtt y =
    (let rbtt = (if rbt_left rbtt y \<noteq> NIL then set_parent (rbt_left rbtt y) y rbtt else rbtt)
     in if rbt_right rbtt y \<noteq> NIL then set_parent (rbt_right rbtt y) y rbtt else rbtt)"

definition remove_replace :: "rbtree_table \<Rightarrow> ptr \<Rightarrow> ptr \<Rightarrow> rbtree_table" where
  "remove_replace rbtt z y = remove_adopt (remove_relink rbtt z y) y"

definition std_rbtree_remove_node :: "rbtree_table \<Rightarrow> ptr \<Rightarrow> rbtree_table option" where
  "std_rbtree_remove_node rbtt z =
    (if \<not> RBT_DEBUG_CHECK rbtt True then None
     else (case (if rbt_left rbtt z = NIL \<or> rbt_right rbtt z = NIL then Some (Some z)
                 else std_rbtree_getnext_node rbtt (Some z)) of
       None \<Rightarrow> None
     | Some None \<Rightarrow> None
     | Some (Some y) \<Rightarrow>
         (case remove_splice rbtt y of (rbtt', x) \<Rightarrow>
           (case (if rbt_color rbtt' y = RBT_BLACK then std_rbtree_balanceonremove rbtt' x
                  else Some rbtt') of
              None \<Rightarrow> None
            | Some rbtt \<Rightarrow>
                (let rbtt = (if y \<noteq> z then remove_replace rbtt z y else rbtt);
                     rbtt = set_parent z NIL rbtt;
                     rbtt = set_right z NIL rbtt;
                     rbtt = set_left z NIL rbtt
                 in Some (rbtt\<lparr>rbtt_numremoved := rbtt_numremoved rbtt + 1,
                               rbtt_numinodes := rbtt_numinodes rbtt - 1\<rparr>))))))"

definition std_rbtree_remove :: "rbtree_table \<Rightarrow> ptr \<Rightarrow> (rbtree_table \<times> ptr) option" where
  "std_rbtree_remove rbtt data =
    (if \<not> RBT_DEBUG_CHECK rbtt (data \<noteq> 0) then None
     else (case std_rbtree_getexact_node rbtt data of
       None \<Rightarrow> None
     | Some None \<Rightarrow> Some (rbtt, 0)
     | Some (Some x) \<Rightarrow>
         (case std_rbtree_remove_node rbtt x of
            None \<Rightarrow> None
          | Some rbtt \<Rightarrow>
              (let data = rbt_data rbtt x
               in Some (rbtt\<lparr>rbtt_numfrees := rbtt_numfrees rbtt + 1\<rparr>, data)))))"

section \<open>Creation and destruction\<close>

text \<open>
  The table comes from \<open>malloc\<close>: \<open>raw\<close> is its uninitialised memory, None when there is none.
  The outer None is the abort of a failed assertion, the inner one a NULL handle.
\<close>

definition std_rbtree_create ::
    "rbtree_table option \<Rightarrow> string \<Rightarrow> int \<Rightarrow> int \<Rightarrow> mem_fn option \<Rightarrow> mem_fn option \<Rightarrow> compare_fn
      \<Rightarrow> rbtree_table option" where
  "std_rbtree_create raw name keyoffset keylength malloc_fn free_fn compare =
    (case raw of
       None \<Rightarrow> None
     | Some rbtt \<Rightarrow>
         (let rbtt = set_color NIL RBT_BLACK rbtt;
              rbtt = set_parent NIL NIL rbtt;
              rbtt = set_right NIL NIL rbtt;
              rbtt = set_left NIL NIL rbtt
          in Some (rbtt\<lparr>rbtt_magic := RBT_MAGIC,
                        rbtt_name := take RBT_NAME_MAX_LEN name,
                        rbtt_keyoffset := keyoffset,
                        rbtt_root := NIL,
                        rbtt_debug := True,
                        rbtt_compare := compare,
                        rbtt_keylength :=
                          (if compare = RBT_ULONG_KEY then 8
                           else if compare = RBT_INT_KEY then 4 else keylength),
                        rbtt_malloc := (case malloc_fn of None \<Rightarrow> Libc_fn | Some f \<Rightarrow> f),
                        rbtt_free := (case free_fn of None \<Rightarrow> Libc_fn | Some f \<Rightarrow> f),
                        rbtt_numinodes := 0, rbtt_numinserts := 0, rbtt_numremoved := 0,
                        rbtt_nummallocs := 0, rbtt_numfrees := 0\<rparr>)))"

definition std_rbtree_create_simple ::
    "rbtree_table option \<Rightarrow> string \<Rightarrow> int \<Rightarrow> int \<Rightarrow> rbtree_table option" where
  "std_rbtree_create_simple raw name keyoffset keylength =
     std_rbtree_create raw name keyoffset keylength (Some Wrapper_fn) (Some Libc_fn) Gen_cmp"

definition std_rbtree_Debug :: "rbtree_table \<Rightarrow> int \<Rightarrow> rbtree_table option" where
  "std_rbtree_Debug rbtt rb_bool =
    (if \<not> RBT_DEBUG_CHECK rbtt True then None else Some (rbtt\<lparr>rbtt_debug := (rb_bool = 1)\<rparr>))"

definition std_rbtree_destroy :: "rbtree_table \<Rightarrow> rbtree_table option" where
  "std_rbtree_destroy rbtt =
    (if \<not> RBT_DEBUG_CHECK rbtt True then None else Some (rbtt\<lparr>rbtt_magic := 0\<rparr>))"

end
