(* ===== verification/RbShape.thy ===== *)
theory RbShape
  imports RbTree
begin

text \<open>
  The shape of a red-black tree in the heap: the node fields spell out a tree of addresses
  (\<open>rb_tree\<close>), the colors obey the red rule (\<open>invc\<close>) and the black-height rule
  (\<open>invh\<close>). \<open>kok\<close> is the invariant of a context: a list of frames around a subtree with a
  given black height and root color. The rotations exchange the two shapes of a pair of
  nodes and leave every field but the links unchanged.
\<close>

section \<open>The tree in the table\<close>

definition rb_tree :: "rbtree_table \<Rightarrow> ptr tree \<Rightarrow> bool" where
  "rb_tree s t \<longleftrightarrow> heap_tree (rbt_left s) (rbt_right s) (rbt_parent s) (rbtt_root s) t"

text \<open>Everything a rotation may not change: the table without its links.\<close>

definition rb_unlinked :: "rbtree_table \<Rightarrow> rbtree_table" where
  "rb_unlinked s = s\<lparr>rbt_left := \<lambda>_. 0, rbt_right := \<lambda>_. 0, rbt_parent := \<lambda>_. 0, rbtt_root := 0\<rparr>"

text \<open>Everything rebalancing may not change: the table without its links and colors.\<close>

definition rb_rest :: "rbtree_table \<Rightarrow> rbtree_table" where
  "rb_rest s = rb_unlinked (s\<lparr>rbt_color := \<lambda>_. RBT_BLACK\<rparr>)"

lemma rb_unlinked_upd [simp]:
  "rb_unlinked (rbt_left_update f s) = rb_unlinked s"
  "rb_unlinked (rbt_right_update f s) = rb_unlinked s"
  "rb_unlinked (rbt_parent_update f s) = rb_unlinked s"
  "rb_unlinked (rbtt_root_update g s) = rb_unlinked s"
  by (simp_all add: rb_unlinked_def)

lemma rb_rest_upd [simp]:
  "rb_rest (rbt_left_update f s) = rb_rest s"
  "rb_rest (rbt_right_update f s) = rb_rest s"
  "rb_rest (rbt_parent_update f s) = rb_rest s"
  "rb_rest (rbtt_root_update h s) = rb_rest s"
  "rb_rest (rbt_color_update g s) = rb_rest s"
  by (simp_all add: rb_rest_def rb_unlinked_def)

lemma rb_rest_unlinked: "rb_rest s = rb_rest (rb_unlinked s)"
  by (simp add: rb_rest_def rb_unlinked_def)

lemma rb_unlinked_color: "rb_unlinked s = rb_unlinked s' \<Longrightarrow> rbt_color s = rbt_color s'"
  by (drule arg_cong [of _ _ rbt_color]) (simp add: rb_unlinked_def)

text \<open>A field of a conditional state: the branches agree on the fields they do not assign.\<close>

lemmas rb_if =
  if_distrib [of rb_unlinked] if_distrib [of rb_rest] if_distrib [of rbt_left] if_distrib [of rbt_right]
  if_distrib [of rbt_parent] if_distrib [of rbt_color] if_distrib [of rbtt_root]

lemma rotate_unlinked [simp]:
  "rb_unlinked (std_rbtree_rotateleft s x) = rb_unlinked s"
  "rb_unlinked (std_rbtree_rotateright s x) = rb_unlinked s"
  by (simp_all add: std_rbtree_rotateleft_def std_rbtree_rotateright_def Let_def rb_if cong: if_cong split del: if_split)

lemma rotate_color [simp]:
  "rbt_color (std_rbtree_rotateleft s x) = rbt_color s"
  "rbt_color (std_rbtree_rotateright s x) = rbt_color s"
  by (rule rb_unlinked_color, simp)+

lemma rotate_rest [simp]:
  "rb_rest (std_rbtree_rotateleft s x) = rb_rest s"
  "rb_rest (std_rbtree_rotateright s x) = rb_rest s"
  by (metis rb_rest_unlinked rotate_unlinked)+

lemma rb_tree_color [simp]: "rb_tree (rbt_color_update f s) t = rb_tree s t"
  by (simp add: rb_tree_def)

section \<open>Rotations\<close>

lemma rb_tree_focus:
  "rb_tree s (plug t k) \<longleftrightarrow>
     linked (rbt_left s) (rbt_right s) (rbt_parent s) (up k) t \<and>
     klinked (rbt_left s) (rbt_right s) (rbt_parent s) (rbtt_root s) (root_ptr t) k \<and>
     distinct (inorder t) \<and> distinct (before k @ after k) \<and> set_tree t \<inter> ctxt_set k = {}"
  by (simp add: rb_tree_def heap_tree_plug distinct_plug)

text \<open>The fields a rotation leaves, under the distinctness that a tree provides.\<close>

lemma rotateleft_fields:
  assumes "rbt_right s x = y" and "y \<noteq> x" and "rbt_left s y \<noteq> x" and "rbt_parent s x = p"
  shows "std_rbtree_rotateleft s x =
    s\<lparr>rbt_left := (if p \<noteq> 0 \<and> rbt_left s p = x then (rbt_left s)(p := y) else rbt_left s)(y := x),
      rbt_right := (if p \<noteq> 0 \<and> rbt_left s p \<noteq> x then (rbt_right s)(x := rbt_left s y, p := y)
                    else (rbt_right s)(x := rbt_left s y)),
      rbt_parent := (if rbt_left s y \<noteq> 0 then (rbt_parent s)(rbt_left s y := x) else rbt_parent s)
                      (y := p, x := y),
      rbtt_root := (if p = 0 then y else rbtt_root s)\<rparr>"
  using assms by (auto simp: std_rbtree_rotateleft_def Let_def NIL_def)

lemma rotateleft_focus:
  assumes "rb_tree s (plug (Node a x (Node b y c)) k)"
  shows "rb_tree (std_rbtree_rotateleft s x) (plug (Node (Node a x b) y c) k)"
proof -
  let ?L = "rbt_left s" and ?R = "rbt_right s" and ?P = "rbt_parent s" and ?rt = "rbtt_root s"
  from assms have k: "klinked ?L ?R ?P ?rt x k" and x: "x \<noteq> 0" "?P x = up k" "?L x = root_ptr a" "?R x = y"
    and y: "y \<noteq> 0" "?L y = root_ptr b" "?R y = root_ptr c" "?P y = x"
    and sub: "linked ?L ?R ?P x a" "linked ?L ?R ?P y b" "linked ?L ?R ?P y c"
    and d: "distinct (inorder (Node a x (Node b y c)))" "distinct (before k @ after k)"
    and dk: "set_tree (Node a x (Node b y c)) \<inter> ctxt_set k = {}"
    unfolding rb_tree_focus by simp_all
  have upk: "up k \<noteq> 0 \<Longrightarrow> up k \<in> ctxt_set k"
    using klinked_up_in [of k] klinked_up_nonzero [OF k] by simp
  have xk: "x \<notin> ctxt_set k" and yk: "y \<notin> ctxt_set k" and xy: "y \<noteq> x" using dk d by auto
  have bk: "root_ptr b \<noteq> 0 \<Longrightarrow> root_ptr b \<in> set_tree b" by (cases b) auto
  have bx: "root_ptr b \<noteq> x" using bk d x(1) by (cases b) auto
  let ?s = "std_rbtree_rotateleft s x"
  let ?L' = "rbt_left ?s" and ?R' = "rbt_right ?s" and ?P' = "rbt_parent ?s"
  have rot: "?L' = (if up k \<noteq> 0 \<and> ?L (up k) = x then ?L(up k := y) else ?L)(y := x)"
    "?R' = (if up k \<noteq> 0 \<and> ?L (up k) \<noteq> x then ?R(x := root_ptr b, up k := y) else ?R(x := root_ptr b))"
    "?P' = (if root_ptr b \<noteq> 0 then ?P(root_ptr b := x) else ?P)(y := up k, x := y)"
    "rbtt_root ?s = (if up k = 0 then y else ?rt)"
    using rotateleft_fields [OF x(4) xy _ x(2)] bx y(2) by simp_all
  have upn: "up k \<noteq> x" "up k \<noteq> y" "up k \<notin> set_tree a" "up k \<notin> set_tree b" "up k \<notin> set_tree c"
    using upk dk x(1) y(1) linked_nonzero [OF sub(1)] linked_nonzero [OF sub(2)] linked_nonzero [OF sub(3)]
    by (cases "up k = 0"; auto)+
  have bn: "root_ptr b \<notin> set_tree a" "root_ptr b \<notin> set_tree c" "root_ptr b \<noteq> 0 \<Longrightarrow> root_ptr b \<notin> ctxt_set k"
    using bk d dk linked_nonzero [OF sub(1), of "root_ptr b"] linked_nonzero [OF sub(3), of "root_ptr b"]
    by (cases "root_ptr b = 0"; auto)+
  have "klinked ?L' ?R' ?P' (rbtt_root ?s) y k"
    unfolding rot(4) using klinked_replace [OF k x(1) xk d(2) yk]
    by (rule iffD1 [OF klinked_cong, rotated]) (use upn bn xk yk in \<open>auto simp: rot\<close>)
  moreover have "linked ?L' ?R' ?P' x a"
    using sub(1) by (rule iffD1 [OF linked_cong, rotated]) (use upn bn d in \<open>auto simp: rot\<close>)
  moreover have "linked ?L' ?R' ?P' x b"
    using linked_reparent [OF sub(2), of x] 
    by (rule iffD1 [OF linked_cong, rotated]) (use upn bn d in \<open>auto simp: rot\<close>)
  moreover have "linked ?L' ?R' ?P' y c"
    using sub(3) by (rule iffD1 [OF linked_cong, rotated]) (use upn bn d in \<open>auto simp: rot\<close>)
  moreover have "?P' y = up k" "?L' y = x" "?R' y = root_ptr c" "?P' x = y" "?L' x = root_ptr a"
    "?R' x = root_ptr b"
    using x(3) y(3) upn xy unfolding rot by simp_all
  moreover have "distinct (inorder (Node (Node a x b) y c))"
    "set_tree (Node (Node a x b) y c) \<inter> ctxt_set k = {}"
    using d(1) dk by auto
  ultimately show ?thesis
    using d(2) x(1) y(1) unfolding rb_tree_focus by simp
qed

lemma rotateright_fields:
  assumes "rbt_left s x = y" and "y \<noteq> x" and "rbt_right s y \<noteq> x" and "rbt_parent s x = p"
  shows "std_rbtree_rotateright s x =
    s\<lparr>rbt_left := (if p \<noteq> 0 \<and> rbt_right s p \<noteq> x then (rbt_left s)(x := rbt_right s y, p := y)
                    else (rbt_left s)(x := rbt_right s y)),
      rbt_right := (if p \<noteq> 0 \<and> rbt_right s p = x then (rbt_right s)(p := y) else rbt_right s)(y := x),
      rbt_parent := (if rbt_right s y \<noteq> 0 then (rbt_parent s)(rbt_right s y := x) else rbt_parent s)
                      (y := p, x := y),
      rbtt_root := (if p = 0 then y else rbtt_root s)\<rparr>"
  using assms by (auto simp: std_rbtree_rotateright_def Let_def NIL_def)

lemma rotateright_focus:
  assumes "rb_tree s (plug (Node (Node a x b) y c) k)"
  shows "rb_tree (std_rbtree_rotateright s y) (plug (Node a x (Node b y c)) k)"
proof -
  let ?L = "rbt_left s" and ?R = "rbt_right s" and ?P = "rbt_parent s" and ?rt = "rbtt_root s"
  from assms have k: "klinked ?L ?R ?P ?rt y k" and y: "y \<noteq> 0" "?P y = up k" "?L y = x" "?R y = root_ptr c"
    and x: "x \<noteq> 0" "?L x = root_ptr a" "?R x = root_ptr b" "?P x = y"
    and sub: "linked ?L ?R ?P x a" "linked ?L ?R ?P x b" "linked ?L ?R ?P y c"
    and d: "distinct (inorder (Node (Node a x b) y c))" "distinct (before k @ after k)"
    and dk: "set_tree (Node (Node a x b) y c) \<inter> ctxt_set k = {}"
    unfolding rb_tree_focus by simp_all
  have upk: "up k \<noteq> 0 \<Longrightarrow> up k \<in> ctxt_set k"
    using klinked_up_in [of k] klinked_up_nonzero [OF k] by simp
  have xk: "x \<notin> ctxt_set k" and yk: "y \<notin> ctxt_set k" and xy: "x \<noteq> y" using dk d by auto
  have bk: "root_ptr b \<noteq> 0 \<Longrightarrow> root_ptr b \<in> set_tree b" by (cases b) auto
  have by': "root_ptr b \<noteq> y" using bk d y(1) by (cases b) auto
  let ?s = "std_rbtree_rotateright s y"
  let ?L' = "rbt_left ?s" and ?R' = "rbt_right ?s" and ?P' = "rbt_parent ?s"
  have rot: "?L' = (if up k \<noteq> 0 \<and> ?R (up k) \<noteq> y then ?L(y := root_ptr b, up k := x) else ?L(y := root_ptr b))"
    "?R' = (if up k \<noteq> 0 \<and> ?R (up k) = y then ?R(up k := x) else ?R)(x := y)"
    "?P' = (if root_ptr b \<noteq> 0 then ?P(root_ptr b := y) else ?P)(x := up k, y := x)"
    "rbtt_root ?s = (if up k = 0 then x else ?rt)"
    using rotateright_fields [OF y(3) xy _ y(2)] by' x(3) by simp_all
  have upn: "up k \<noteq> x" "up k \<noteq> y" "up k \<notin> set_tree a" "up k \<notin> set_tree b" "up k \<notin> set_tree c"
    using upk dk x(1) y(1) linked_nonzero [OF sub(1)] linked_nonzero [OF sub(2)] linked_nonzero [OF sub(3)]
    by (cases "up k = 0"; auto)+
  have bn: "root_ptr b \<notin> set_tree a" "root_ptr b \<notin> set_tree c" "root_ptr b \<noteq> 0 \<Longrightarrow> root_ptr b \<notin> ctxt_set k"
    using bk d dk linked_nonzero [OF sub(1), of "root_ptr b"] linked_nonzero [OF sub(3), of "root_ptr b"]
    by (cases "root_ptr b = 0"; auto)+
  have "klinked ?L' ?R' ?P' (rbtt_root ?s) x k"
    unfolding rot(4) using klinked_replace_right [OF k y(1) yk d(2) xk]
    by (rule iffD1 [OF klinked_cong, rotated]) (use upn bn xk yk in \<open>auto simp: rot\<close>)
  moreover have "linked ?L' ?R' ?P' x a"
    using sub(1) by (rule iffD1 [OF linked_cong, rotated]) (use upn bn d in \<open>auto simp: rot\<close>)
  moreover have "linked ?L' ?R' ?P' y b"
    using linked_reparent [OF sub(2), of y]
    by (rule iffD1 [OF linked_cong, rotated]) (use upn bn d in \<open>auto simp: rot\<close>)
  moreover have "linked ?L' ?R' ?P' y c"
    using sub(3) by (rule iffD1 [OF linked_cong, rotated]) (use upn bn d in \<open>auto simp: rot\<close>)
  moreover have "?P' x = up k" "?R' x = y" "?L' x = root_ptr a" "?P' y = x" "?R' y = root_ptr c"
    "?L' y = root_ptr b"
    using x(2) y(4) upn xy unfolding rot by simp_all
  moreover have "distinct (inorder (Node a x (Node b y c)))"
    "set_tree (Node a x (Node b y c)) \<inter> ctxt_set k = {}"
    using d(1) dk by auto
  ultimately show ?thesis
    using d(2) x(1) y(1) unfolding rb_tree_focus by simp
qed

text \<open>A rotation does not touch the sentinel's parent pointer.\<close>

lemma rotateleft_sentinel:
  assumes "rb_tree s (plug (Node a x (Node b y c)) k)"
  shows "rbt_parent (std_rbtree_rotateleft s x) 0 = rbt_parent s 0"
proof -
  have "rbt_right s x = y" "x \<noteq> 0" "y \<noteq> 0" "rbt_left s y = root_ptr b" "y \<noteq> x" "x \<notin> set_tree b"
    using assms unfolding rb_tree_focus by auto
  moreover from this have "root_ptr b \<noteq> x" by (cases b) auto
  ultimately show ?thesis by (simp add: rotateleft_fields [OF _ _ _ refl])
qed

lemma rotateright_sentinel:
  assumes "rb_tree s (plug (Node (Node a x b) y c) k)"
  shows "rbt_parent (std_rbtree_rotateright s y) 0 = rbt_parent s 0"
proof -
  have "rbt_left s y = x" "x \<noteq> 0" "y \<noteq> 0" "rbt_right s x = root_ptr b" "x \<noteq> y" "y \<notin> set_tree b"
    using assms unfolding rb_tree_focus by auto
  moreover from this have "root_ptr b \<noteq> y" by (cases b) auto
  ultimately show ?thesis by (simp add: rotateright_fields [OF _ _ _ refl])
qed

section \<open>Colors and black heights\<close>

fun cl :: "(ptr \<Rightarrow> rbt_color) \<Rightarrow> ptr tree \<Rightarrow> rbt_color" where
  "cl c Leaf = RBT_BLACK"
| "cl c (Node l a r) = c a"

fun bh :: "(ptr \<Rightarrow> rbt_color) \<Rightarrow> ptr tree \<Rightarrow> nat" where
  "bh c Leaf = 0"
| "bh c (Node l a r) = bh c l + (if c a = RBT_BLACK then 1 else 0)"

text \<open>The red rule and the black-height rule of a tree.\<close>

fun rbt_ok :: "(ptr \<Rightarrow> rbt_color) \<Rightarrow> ptr tree \<Rightarrow> bool" where
  "rbt_ok c Leaf \<longleftrightarrow> True"
| "rbt_ok c (Node l a r) \<longleftrightarrow> bh c l = bh c r \<and> rbt_ok c l \<and> rbt_ok c r
     \<and> (c a = RBT_RED \<longrightarrow> cl c l = RBT_BLACK \<and> cl c r = RBT_BLACK)"

text \<open>
  What the frames around a subtree demand when it has black height \<open>h\<close> and root color \<open>q\<close>;
  the root of the whole tree is black.
\<close>

fun kok :: "(ptr \<Rightarrow> rbt_color) \<Rightarrow> nat \<Rightarrow> rbt_color \<Rightarrow> frame list \<Rightarrow> bool" where
  "kok c h q [] \<longleftrightarrow> q = RBT_BLACK"
| "kok c h q (WentLeft a r # k) \<longleftrightarrow> bh c r = h \<and> rbt_ok c r
     \<and> (c a = RBT_RED \<longrightarrow> q = RBT_BLACK \<and> cl c r = RBT_BLACK)
     \<and> kok c (h + (if c a = RBT_BLACK then 1 else 0)) (c a) k"
| "kok c h q (WentRight l a # k) \<longleftrightarrow> bh c l = h \<and> rbt_ok c l
     \<and> (c a = RBT_RED \<longrightarrow> q = RBT_BLACK \<and> cl c l = RBT_BLACK)
     \<and> kok c (h + (if c a = RBT_BLACK then 1 else 0)) (c a) k"

lemma rbt_ok_plug:
  "rbt_ok c (plug t k) \<and> cl c (plug t k) = RBT_BLACK \<longleftrightarrow> rbt_ok c t \<and> kok c (bh c t) (cl c t) k"
  by (induction t k rule: plug.induct) auto

lemma kok_black: "kok c h q k \<Longrightarrow> kok c h RBT_BLACK k"
  by (cases k rule: up.cases) auto

lemma color_cong [frame_simps]:
  "a \<notin> set_tree t \<Longrightarrow> cl (c(a := v)) t = cl c t"
  "a \<notin> set_tree t \<Longrightarrow> bh (c(a := v)) t = bh c t"
  "a \<notin> set_tree t \<Longrightarrow> rbt_ok (c(a := v)) t = rbt_ok c t"
proof -
  show 1: "a \<notin> set_tree t \<Longrightarrow> cl (c(a := v)) t = cl c t" for t by (cases t) auto
  show 2: "a \<notin> set_tree t \<Longrightarrow> bh (c(a := v)) t = bh c t" for t by (induction t) auto
  show "a \<notin> set_tree t \<Longrightarrow> rbt_ok (c(a := v)) t = rbt_ok c t" by (induction t) (auto simp: 1 2)
qed

lemma kok_cong [frame_simps]: "a \<notin> ctxt_set k \<Longrightarrow> kok (c(a := v)) h q k = kok c h q k"
  by (induction c h q k rule: kok.induct) (auto simp: color_cong)

lemma cl_root: "t \<noteq> Leaf \<Longrightarrow> c (root_ptr t) = cl c t"
  by (cases t) auto

lemma not_red [simp]: "q \<noteq> RBT_RED \<longleftrightarrow> q = RBT_BLACK"
  by (cases q) auto

text \<open>
  Balance: a tree of black height \<open>h\<close> with a black root has at least \<open>2\<^sup>h - 1\<close> nodes and is
  at most \<open>2 h\<close> deep.
\<close>

lemma bh_size: "rbt_ok c t \<Longrightarrow> 2 ^ bh c t \<le> size t + 1"
proof (induction t)
  case (Node l a r)
  then have "2 ^ bh c l \<le> size l + 1" "2 ^ bh c l \<le> size r + 1" by auto
  then show ?case by (auto simp: power_add)
qed simp

lemma bh_height: "rbt_ok c t \<Longrightarrow> height t \<le> 2 * bh c t + (if cl c t = RBT_RED then 1 else 0)"
proof (induction t)
  case (Node l a r)
  then show ?case by (cases "c a") (auto split: if_splits)
qed simp

section \<open>Mirror images\<close>

text \<open>
  The code of each rebalancing loop has two halves, the second the mirror image of the first.
  \<open>flip\<close> exchanges the left and right links of a table, \<open>kflip\<close> the sides of a frame.
\<close>

definition flip :: "rbtree_table \<Rightarrow> rbtree_table" where
  "flip s = s\<lparr>rbt_left := rbt_right s, rbt_right := rbt_left s\<rparr>"

fun kflip :: "frame \<Rightarrow> frame" where
  "kflip (WentLeft a r) = WentRight (mirror r) a"
| "kflip (WentRight l a) = WentLeft a (mirror l)"

lemma flip_sel [simp]:
  "rbt_left (flip s) = rbt_right s" "rbt_right (flip s) = rbt_left s" "rbt_parent (flip s) = rbt_parent s"
  "rbt_color (flip s) = rbt_color s" "rbtt_root (flip s) = rbtt_root s"
  "flip (flip s) = s" "rb_rest (flip s) = rb_rest s"
  by (simp_all add: flip_def)

lemma flip_upd [simp]:
  "flip (rbt_left_update f s) = rbt_right_update f (flip s)"
  "flip (rbt_right_update f s) = rbt_left_update f (flip s)"
  "flip (rbt_parent_update f s) = rbt_parent_update f (flip s)"
  "flip (rbt_color_update g s) = rbt_color_update g (flip s)"
  "flip (rbtt_root_update h s) = rbtt_root_update h (flip s)"
  by (simp_all add: flip_def)

lemma root_ptr_mirror [simp]: "root_ptr (mirror t) = root_ptr t"
  by (cases t) auto

lemma linked_mirror [simp]: "linked R L P q (mirror t) = linked L R P q t"
  by (induction t arbitrary: q) auto

lemma plug_mirror: "plug (mirror t) (map kflip k) = mirror (plug t k)"
  by (induction t k rule: plug.induct) (metis kflip.simps list.map mirror.simps plug.simps)+

lemma rb_tree_flip: "rb_tree (flip s) (mirror t) = rb_tree s t"
  by (simp add: rb_tree_def heap_tree_def inorder_mirror)

lemma rb_tree_flip_plug:
  "rb_tree (flip s) (plug t k) = rb_tree s (plug (mirror t) (map kflip k))"
  by (metis plug_mirror rb_tree_flip flip_sel(6))

lemma cl_mirror [simp]: "cl c (mirror t) = cl c t"
  by (cases t) auto

lemma rbt_ok_mirror1: "rbt_ok c t \<Longrightarrow> rbt_ok c (mirror t) \<and> bh c (mirror t) = bh c t"
  by (induction t) auto

lemma bh_mirror [simp]: "rbt_ok c t \<Longrightarrow> bh c (mirror t) = bh c t"
  using rbt_ok_mirror1 by blast

lemma rbt_ok_mirror [simp]: "rbt_ok c (mirror t) = rbt_ok c t"
  using rbt_ok_mirror1 [of c t] rbt_ok_mirror1 [of c "mirror t"] by auto

lemma kflip_kflip [simp]: "kflip (kflip f) = f"
  by (cases f) auto

lemma map_kflip [simp]: "map (kflip \<circ> kflip) k = k"
  by (induction k) auto

lemma up_map_kflip [simp]: "up (map kflip k) = up k"
  by (cases k rule: up.cases) auto

lemma kok_mirror [simp]: "kok c h q (map kflip k) = kok c h q k"
  by (induction c h q k rule: kok.induct) (auto simp del: bh.simps simp: rbt_ok_mirror1)

lemma rotate_flip:
  "std_rbtree_rotateleft (flip s) x = flip (std_rbtree_rotateright s x)"
  "std_rbtree_rotateright (flip s) x = flip (std_rbtree_rotateleft s x)"
proof -
  have 1: "std_rbtree_rotateleft (flip s) x = flip (std_rbtree_rotateright s x)" for s
    unfolding std_rbtree_rotateleft_def std_rbtree_rotateright_def
    by (simp add: Let_def rb_if if_distrib [of flip] cong: if_cong split del: if_split)
  show "std_rbtree_rotateleft (flip s) x = flip (std_rbtree_rotateright s x)" by (rule 1)
  show "std_rbtree_rotateright (flip s) x = flip (std_rbtree_rotateleft s x)"
    using 1 [of "flip s"] by (metis flip_sel(6))
qed

section \<open>Reading the links around a focus\<close>

lemma rb_tree_links:
  assumes "rb_tree s (plug (Node l x r) k)"
  shows "x \<noteq> 0" "rbt_parent s x = up k" "rbt_left s x = root_ptr l" "rbt_right s x = root_ptr r"
  using assms unfolding rb_tree_focus by simp_all

lemma rb_tree_focusI:
  assumes "klinked (rbt_left s) (rbt_right s) (rbt_parent s) (rbtt_root s) x k"
    and "linked (rbt_left s) (rbt_right s) (rbt_parent s) x l" "linked (rbt_left s) (rbt_right s) (rbt_parent s) x r"
    and "rbt_parent s x = up k" "rbt_left s x = root_ptr l" "rbt_right s x = root_ptr r" "x \<noteq> 0"
    and "distinct (inorder (Node l x r))" "distinct (before k @ after k)" "set_tree (Node l x r) \<inter> ctxt_set k = {}"
  shows "rb_tree s (plug (Node l x r) k)"
  using assms unfolding rb_tree_focus by simp

lemma rb_tree_distinct: "rb_tree s (plug t k) \<Longrightarrow> distinct (inorder t) \<and> set_tree t \<inter> ctxt_set k = {}"
  by (simp add: rb_tree_focus)

lemma rb_tree_root:
  assumes "rb_tree s (plug t k)"
  shows "rbtt_root s = root_ptr t \<longleftrightarrow> k = []"
proof
  assume "k = []"
  then show "rbtt_root s = root_ptr t" using assms by (simp add: rb_tree_def heap_tree_def)
next
  assume r: "rbtt_root s = root_ptr t"
  show "k = []"
  proof (rule ccontr)
    assume "k \<noteq> []"
    from root_plug_in [OF this, of t] have "rbtt_root s \<in> ctxt_set k"
      using assms by (simp add: rb_tree_def heap_tree_def)
    moreover have "a \<in> ctxt_set k \<Longrightarrow> a \<noteq> 0" for a
      using assms linked_nonzero [of _ _ _ 0 "plug t k" a] by (auto simp: rb_tree_def heap_tree_def set_tree_plug)
    ultimately show False
      using r rb_tree_distinct [OF assms] by (cases t) auto
  qed
qed

lemma inorder_flip:
  "inorder (plug (mirror t) (map kflip k)) = rev (inorder (plug t k))"
  using plug_mirror [of t k] by (simp add: inorder_mirror)

end
