(* ===== verification/RbInsert.thy ===== *)
theory RbInsert
  imports RbOps RbShape
begin

text \<open>
  Rebalancing after an insertion: each turn of the loop keeps the in-order sequence and the
  rules of every subtree but the focus, and moves the focus up; so the loop ends, with a
  red-black tree.
\<close>

section \<open>One turn of the loop\<close>

text \<open>
  The loop invariant: \<open>x\<close> is a red node whose subtree is in order, in a context that would
  accept a black subtree of that height.
\<close>

definition insert_focus :: "rbtree_table \<Rightarrow> ptr tree \<Rightarrow> ptr \<Rightarrow> ptr tree \<Rightarrow> frame list \<Rightarrow> bool" where
  "insert_focus s l x r k \<longleftrightarrow> rb_tree s (plug (Node l x r) k) \<and> rbt_color s x = RBT_RED
     \<and> rbt_ok (rbt_color s) (Node l x r) \<and> kok (rbt_color s) (bh (rbt_color s) (Node l x r)) RBT_BLACK k"

lemma insert_focus_flip:
  "insert_focus (flip s) l x r k = insert_focus s (mirror r) x (mirror l) (map kflip k)"
  using rb_tree_flip_plug [of s "Node l x r" k] rbt_ok_mirror [of "rbt_color s" "Node l x r"]
    bh_mirror [of "rbt_color s" "Node l x r"]
  by (auto simp: insert_focus_def simp del: rbt_ok_mirror bh_mirror)

text \<open>The outcomes of a turn, on the left side: a red uncle, and a black one.\<close>

lemma insert_uncle_red:
  assumes inv: "insert_focus s l x r (f # WentLeft g u # k)" and f: "f = WentLeft p b \<or> f = WentRight b p"
    and red: "rbt_color s p = RBT_RED" "cl (rbt_color s) u = RBT_RED"
  shows "\<exists>s' l' r'. balanceoninsert_body s x = (s', g) \<and> insert_focus s' l' g r' k \<and> rb_rest s' = rb_rest s
      \<and> inorder (plug (Node l' g r') k) = inorder (plug (Node l x r) (f # WentLeft g u # k))
      \<and> rbt_color s' 0 = rbt_color s 0"
proof -
  obtain ul q ur where u: "u = Node ul q ur" using red by (cases u) auto
  let ?c = "(rbt_color s)(p := RBT_BLACK, q := RBT_BLACK, g := RBT_RED)"
  obtain tl tr where t: "plug (Node l x r) [f] = Node tl p tr" using f by auto
  have T: "plug (Node l x r) (f # WentLeft g u # k) = plug (Node (Node tl p tr) g u) k"
    using t by (metis append_Cons append_Nil plug.simps(2) plug_append)
  have inv': "rb_tree s (plug (Node l x r) (f # WentLeft g u # k))"
    "rbt_ok (rbt_color s) (Node l x r)" "rbt_color s x = RBT_RED"
    "kok (rbt_color s) (bh (rbt_color s) (Node l x r)) RBT_BLACK (f # WentLeft g u # k)"
    using inv unfolding insert_focus_def by blast+
  have d: "distinct (inorder (Node (Node tl p tr) g u))" "set_tree (Node (Node tl p tr) g u) \<inter> ctxt_set k = {}"
    using inv'(1) unfolding T by (simp_all only: rb_tree_focus)
  have links: "rbt_parent s x = p" "rbt_parent s p = g" "rbt_left s g = p" "rbt_right s g = q" "q \<noteq> 0" "g \<noteq> 0" "p \<noteq> 0"
    using rb_tree_links(2) [OF inv'(1)] rb_tree_links [OF inv'(1) [unfolded T]] f inv'(1) [unfolded T rb_tree_focus]
    by (auto simp: u)
  have body: "balanceoninsert_body s x = (s\<lparr>rbt_color := ?c\<rparr>, g)"
    using links red by (simp add: balanceoninsert_body_def Let_def NIL_def u)
  have ok: "rbt_ok ?c (Node (Node tl p tr) g u) \<and>
    kok ?c (bh ?c (Node (Node tl p tr) g u)) RBT_BLACK k"
    using f
  proof
    assume f: "f = WentLeft p b"
    then have "tl = Node l x r" "tr = b" using t by auto
    then show ?thesis using inv' d red f by (auto simp: frame_simps u intro: kok_black)
  next
    assume f: "f = WentRight b p"
    then have "tr = Node l x r" "tl = b" using t by auto
    then show ?thesis using inv' d red f by (auto simp: frame_simps u intro: kok_black)
  qed
  show ?thesis
    apply (rule exI [of _ "s\<lparr>rbt_color := ?c\<rparr>"], rule exI [of _ "Node tl p tr"], rule exI [of _ u])
    using body ok inv'(1) links by (simp add: insert_focus_def T del: rbt_ok.simps bh.simps)
qed

lemma insert_uncle_black_outer:
  assumes inv: "insert_focus s l x r (WentLeft p b # WentLeft g u # k)"
    and col: "rbt_color s p = RBT_RED" "cl (rbt_color s) u = RBT_BLACK"
  shows "\<exists>s'. balanceoninsert_body s x = (s', x) \<and> insert_focus s' l x r (WentLeft p (Node b g u) # k)
      \<and> rb_rest s' = rb_rest s \<and> rbt_color s' 0 = rbt_color s 0"
proof -
  let ?c = "(rbt_color s)(p := RBT_BLACK, g := RBT_RED)"
  let ?s = "std_rbtree_rotateright (s\<lparr>rbt_color := ?c\<rparr>) g"
  have inv': "rb_tree s (plug (Node (Node (Node l x r) p b) g u) k)"
    "rbt_ok (rbt_color s) (Node l x r)" "rbt_color s x = RBT_RED"
    "kok (rbt_color s) (bh (rbt_color s) (Node l x r)) RBT_BLACK (WentLeft p b # WentLeft g u # k)"
    using inv unfolding insert_focus_def plug.simps by blast+
  note d = rb_tree_distinct [OF inv'(1)]
  have links: "rbt_parent s x = p" "rbt_parent s p = g" "rbt_left s g = p" "rbt_right s g = root_ptr u"
    "rbt_right s p = root_ptr b" "x \<noteq> 0" "g \<noteq> 0" "p \<noteq> 0"
    using inv'(1) unfolding rb_tree_focus by auto
  have ne: "root_ptr u \<noteq> 0 \<longrightarrow> rbt_color s (root_ptr u) \<noteq> RBT_RED" "root_ptr b \<noteq> x"
    using col(2) d links(6) by (cases u; simp; fail) (use d links(6) in \<open>cases b; auto\<close>)
  have body: "balanceoninsert_body s x = (?s, x)"
    using links ne by (auto simp: balanceoninsert_body_def Let_def NIL_def)
  have tree: "rb_tree ?s (plug (Node l x r) (WentLeft p (Node b g u) # k))"
    unfolding plug.simps by (rule rotateright_focus) (simp add: inv'(1))
  have ok: "rbt_ok ?c (Node l x r)" "?c x = RBT_RED"
    "kok ?c (bh ?c (Node l x r)) RBT_BLACK (WentLeft p (Node b g u) # k)"
    using inv' col d by (auto simp: frame_simps)
  show ?thesis
    using body tree ok links by (intro exI [of _ ?s]) (simp add: insert_focus_def del: rbt_ok.simps bh.simps kok.simps)
qed

lemma insert_uncle_black_inner:
  assumes inv: "insert_focus s l x r (WentRight b p # WentLeft g u # k)"
    and col: "rbt_color s p = RBT_RED" "cl (rbt_color s) u = RBT_BLACK"
  shows "\<exists>s'. balanceoninsert_body s x = (s', p) \<and> insert_focus s' b p l (WentLeft x (Node r g u) # k)
      \<and> rb_rest s' = rb_rest s \<and> rbt_color s' 0 = rbt_color s 0"
proof -
  let ?c = "(rbt_color s)(x := RBT_BLACK, g := RBT_RED)"
  let ?s1 = "std_rbtree_rotateleft s p"
  let ?s = "std_rbtree_rotateright (?s1\<lparr>rbt_color := ?c\<rparr>) g"
  have inv': "rb_tree s (plug (Node b p (Node l x r)) (WentLeft g u # k))"
    "rbt_ok (rbt_color s) (Node l x r)" "rbt_color s x = RBT_RED"
    "kok (rbt_color s) (bh (rbt_color s) (Node l x r)) RBT_BLACK (WentRight b p # WentLeft g u # k)"
    using inv unfolding insert_focus_def plug.simps by blast+
  note d = rb_tree_distinct [OF inv'(1) [unfolded plug.simps]]
  have links: "rbt_parent s x = p" "rbt_parent s p = g" "rbt_left s g = p" "rbt_right s g = root_ptr u"
    "rbt_right s p = x" "x \<noteq> 0" "g \<noteq> 0" "p \<noteq> 0"
    using inv'(1) unfolding rb_tree_focus by auto
  have ne: "root_ptr u \<noteq> 0 \<longrightarrow> rbt_color s (root_ptr u) \<noteq> RBT_RED"
    using col(2) by (cases u; simp)
  have t1: "rb_tree ?s1 (plug (Node (Node (Node b p l) x r) g u) k)"
    using rotateleft_focus [OF inv'(1)] unfolding plug.simps .
  have links1: "rbt_parent ?s1 p = x" "rbt_parent ?s1 x = g"
    using t1 unfolding rb_tree_focus by auto
  have body: "balanceoninsert_body s x = (?s, p)"
    using links links1 ne by (auto simp: balanceoninsert_body_def Let_def NIL_def)
  have tree: "rb_tree ?s (plug (Node b p l) (WentLeft x (Node r g u) # k))"
    unfolding plug.simps by (rule rotateright_focus) (simp add: t1)
  have ok: "rbt_ok ?c (Node b p l)" "?c p = RBT_RED"
    "kok ?c (bh ?c (Node b p l)) RBT_BLACK (WentLeft x (Node r g u) # k)"
    using inv' col d by (auto simp: frame_simps)
  show ?thesis
    using body tree ok links by (intro exI [of _ ?s]) (simp add: insert_focus_def del: rbt_ok.simps bh.simps kok.simps)
qed

section \<open>The loop\<close>

lemma insert_body_left:
  assumes inv: "insert_focus s l x r (f # WentLeft g u # k)" and col: "rbt_color s (up (f # k)) = RBT_RED"
  shows "\<exists>s' l' x' r' k'. balanceoninsert_body s x = (s', x') \<and> insert_focus s' l' x' r' k'
      \<and> inorder (plug (Node l' x' r') k') = inorder (plug (Node l x r) (f # WentLeft g u # k))
      \<and> length k' \<le> Suc (length k) \<and> rb_rest s' = rb_rest s \<and> rbt_color s' 0 = rbt_color s 0"
proof -
  obtain p b where f: "f = WentLeft p b \<or> f = WentRight b p" by (cases f) auto
  with col have p: "rbt_color s p = RBT_RED" by auto
  show ?thesis
  proof (cases "cl (rbt_color s) u")
    case RBT_RED
    from insert_uncle_red [OF inv f p this] show ?thesis by (metis le_SucI order_refl)
  next
    case RBT_BLACK
    from f show ?thesis
    proof
      assume f: "f = WentLeft p b"
      have "inorder (plug (Node l x r) (WentLeft p (Node b g u) # k)) =
          inorder (plug (Node l x r) (f # WentLeft g u # k))"
        by (simp add: inorder_plug f)
      with insert_uncle_black_outer [OF inv [unfolded f] p RBT_BLACK] show ?thesis
        by (metis length_Cons order_refl)
    next
      assume f: "f = WentRight b p"
      have "inorder (plug (Node b p l) (WentLeft x (Node r g u) # k)) =
          inorder (plug (Node l x r) (f # WentLeft g u # k))"
        by (simp add: inorder_plug f)
      with insert_uncle_black_inner [OF inv [unfolded f] p RBT_BLACK] show ?thesis
        by (metis length_Cons order_refl)
    qed
  qed
qed

text \<open>The right side is the left side of the mirror image.\<close>

lemma insert_body_flip:
  assumes g: "rbt_parent s (rbt_parent s x) = g" and R: "rbt_parent s x = rbt_right s g" "rbt_parent s x \<noteq> rbt_left s g"
  shows "balanceoninsert_body s x = map_prod flip id (balanceoninsert_body (flip s) x)"
proof (cases "rbt_left s g \<noteq> NIL \<and> rbt_color s (rbt_left s g) = RBT_RED")
  case True
  then show ?thesis using g R by (simp add: balanceoninsert_body_def)
next
  case False
  then have F: "(rbt_left s g \<noteq> NIL \<and> rbt_color s (rbt_left s g) = RBT_RED) = False" by blast
  show ?thesis
    using g R
    by (cases "x = rbt_left s (rbt_parent s x)")
      (simp_all add: balanceoninsert_body_def flip_upd [symmetric] rotate_flip F Let_def del: flip_upd not_red
        split del: if_split)
qed

lemma insert_body_right:
  assumes inv: "insert_focus s l x r (f # WentRight u g # k)" and col: "rbt_color s (up (f # k)) = RBT_RED"
  shows "\<exists>s' l' x' r' k'. balanceoninsert_body s x = (s', x') \<and> insert_focus s' l' x' r' k'
      \<and> inorder (plug (Node l' x' r') k') = inorder (plug (Node l x r) (f # WentRight u g # k))
      \<and> length k' \<le> Suc (length k) \<and> rb_rest s' = rb_rest s \<and> rbt_color s' 0 = rbt_color s 0"
proof -
  have foc: "insert_focus (flip s) (mirror r) x (mirror l) (kflip f # WentLeft g (mirror u) # map kflip k)"
    using inv by (simp add: insert_focus_flip)
  obtain p b where f: "f = WentLeft p b \<or> f = WentRight b p" by (cases f) auto
  have "rbt_color (flip s) (up (kflip f # map kflip k)) = RBT_RED" using col f by auto
  from insert_body_left [OF foc this] obtain s1 l' x' r' k' where
    left: "balanceoninsert_body (flip s) x = (s1, x')" "insert_focus s1 l' x' r' k'"
      "inorder (plug (Node l' x' r') k')
        = inorder (plug (Node (mirror r) x (mirror l)) (map kflip (f # WentRight u g # k)))"
      "length k' \<le> Suc (length k)" "rb_rest s1 = rb_rest s" "rbt_color s1 0 = rbt_color s 0"
    by auto
  have tree: "rb_tree s (plug (Node l x r) (f # WentRight u g # k))"
    using inv by (simp add: insert_focus_def)
  have "rbt_parent s x = p" "p \<noteq> 0" "rbt_parent s p = g" "rbt_left s g = root_ptr u" "rbt_right s g = p" "p \<notin> set_tree u"
    using tree f unfolding rb_tree_focus by auto
  moreover from this have "root_ptr u \<noteq> p" by (cases u) auto
  ultimately have "balanceoninsert_body s x = (flip s1, x')"
    using insert_body_flip [of s x g] left(1) by simp
  moreover have "insert_focus (flip s1) (mirror r') x' (mirror l') (map kflip k')"
    using left(2) by (simp add: insert_focus_flip)
  moreover have "inorder (plug (Node (mirror r') x' (mirror l')) (map kflip k'))
      = inorder (plug (Node l x r) (f # WentRight u g # k))"
    using left(3) inorder_flip [of "Node l' x' r'" k'] inorder_flip [of "Node l x r" "f # WentRight u g # k"]
    by simp
  ultimately show ?thesis using left(4-6)
    by (intro exI [of _ "flip s1"] exI [of _ "mirror r'"] exI [of _ x'] exI [of _ "mirror l'"]
        exI [of _ "map kflip k'"]) simp
qed

lemma insert_body_ok:
  assumes inv: "insert_focus s l x r k" and go: "x \<noteq> rbtt_root s" "rbt_color s (rbt_parent s x) = RBT_RED"
  shows "\<exists>s' l' x' r' k'. balanceoninsert_body s x = (s', x') \<and> insert_focus s' l' x' r' k'
      \<and> inorder (plug (Node l' x' r') k') = inorder (plug (Node l x r) k)
      \<and> length k' < length k \<and> rb_rest s' = rb_rest s \<and> rbt_color s' 0 = rbt_color s 0"
proof -
  have tree: "rb_tree s (plug (Node l x r) k)" and
    ok: "kok (rbt_color s) (bh (rbt_color s) (Node l x r)) RBT_BLACK k"
    using inv unfolding insert_focus_def by blast+
  have "k \<noteq> []" using go(1) tree by (auto simp: rb_tree_focus)
  then obtain f k1 where k: "k = f # k1" by (cases k) auto
  have upk: "rbt_color s (up (f # k1)) = RBT_RED" using go(2) rb_tree_links(2) [OF tree] k by simp
  with ok k obtain h k2 where k1: "k1 = h # k2" by (cases f; cases k1) auto
  from upk have upk': "rbt_color s (up (f # k2)) = RBT_RED" by (cases f) auto
  show ?thesis
  proof (cases h)
    case (WentLeft g u)
    with insert_body_left [of s l x r f g u k2] inv upk' k k1 show ?thesis
      by (auto simp: less_Suc_eq_le)
  next
    case (WentRight u g)
    with insert_body_right [of s l x r f u g k2] inv upk' k k1 show ?thesis
      by (auto simp: less_Suc_eq_le)
  qed
qed

lemma insert_stop:
  assumes inv: "insert_focus s l x r k" and stop: "x = rbtt_root s \<or> rbt_color s (rbt_parent s x) = RBT_BLACK"
  shows "rbt_ok (rbt_color s) (plug (Node l x r) k)"
proof -
  have tree: "rb_tree s (plug (Node l x r) k)" and ok: "rbt_ok (rbt_color s) (Node l x r)" "rbt_color s x = RBT_RED"
    "kok (rbt_color s) (bh (rbt_color s) (Node l x r)) RBT_BLACK k"
    using inv unfolding insert_focus_def by blast+
  have root: "rbtt_root s = x \<longleftrightarrow> k = []" using rb_tree_root [OF tree] by simp
  show ?thesis
  proof (cases "k = []")
    case True
    then show ?thesis using ok by simp
  next
    case False
    then have "rbt_color s (up k) = RBT_BLACK" using root stop rb_tree_links(2) [OF tree] by auto
    with False ok(3) have "kok (rbt_color s) (bh (rbt_color s) (Node l x r)) (cl (rbt_color s) (Node l x r)) k"
      by (cases k rule: up.cases) auto
    with ok(1) show ?thesis using rbt_ok_plug by blast
  qed
qed

text \<open>The loop ends, with the same sequence of nodes and a tree that is right up to its root's color.\<close>

lemma balanceoninsert_loop_ok:
  assumes "insert_focus s l x r k"
  shows "\<exists>s' t'. balanceoninsert_loop s x = Some s' \<and> rb_tree s' t' \<and> rbt_ok (rbt_color s') t'
      \<and> inorder t' = inorder (plug (Node l x r) k) \<and> rb_rest s' = rb_rest s \<and> rbt_color s' 0 = rbt_color s 0"
  using assms
proof (induction "length k" arbitrary: s l x r k rule: less_induct)
  case less
  show ?case
  proof (cases "x \<noteq> rbtt_root s \<and> rbt_color s (rbt_parent s x) = RBT_RED")
    case False
    then have "balanceoninsert_loop s x = Some s"
      by (subst balanceoninsert_loop.simps) auto
    moreover have "rbt_ok (rbt_color s) (plug (Node l x r) k)"
      using insert_stop [OF less.prems] False by auto
    ultimately show ?thesis using less.prems unfolding insert_focus_def by blast
  next
    case True
    then have loop: "balanceoninsert_loop s x =
        (case balanceoninsert_body s x of (s', x') \<Rightarrow> balanceoninsert_loop s' x')"
      by (subst balanceoninsert_loop.simps) simp
    from insert_body_ok [OF less.prems] True obtain s1 l1 x1 r1 k1 where
      b: "balanceoninsert_body s x = (s1, x1)" "insert_focus s1 l1 x1 r1 k1" "length k1 < length k"
        "inorder (plug (Node l1 x1 r1) k1) = inorder (plug (Node l x r) k)"
        "rb_rest s1 = rb_rest s" "rbt_color s1 0 = rbt_color s 0"
      by blast
    from less.hyps [OF b(3) b(2)] loop b show ?thesis by auto
  qed
qed

lemma rbt_ok_root_black:
  "rbt_ok c t \<Longrightarrow> distinct (inorder t) \<Longrightarrow> rbt_ok (c(root_ptr t := RBT_BLACK)) t"
  by (cases t) (auto simp: frame_simps)

lemma balanceoninsert_ok:
  assumes "rb_tree s (plug (Node Leaf x Leaf) k)" and "kok (rbt_color s) 0 RBT_BLACK k"
    and "rbt_color s 0 = RBT_BLACK"
  shows "\<exists>s' t'. std_rbtree_balanceoninsert s x = Some s' \<and> rb_tree s' t' \<and> rbt_ok (rbt_color s') t'
      \<and> cl (rbt_color s') t' = RBT_BLACK \<and> rbt_color s' 0 = RBT_BLACK
      \<and> inorder t' = before k @ x # after k \<and> rb_rest s' = rb_rest s"
proof -
  let ?s = "set_color x RBT_RED s"
  have x: "x \<noteq> 0" "x \<notin> ctxt_set k" using rb_tree_links [OF assms(1)] rb_tree_distinct [OF assms(1)] by auto
  have "insert_focus ?s Leaf x Leaf k"
    using assms x by (auto simp: insert_focus_def frame_simps)
  from balanceoninsert_loop_ok [OF this] obtain s1 t1 where
    l: "balanceoninsert_loop ?s x = Some s1" "rb_tree s1 t1" "rbt_ok (rbt_color s1) t1"
      "inorder t1 = inorder (plug (Node Leaf x Leaf) k)" "rb_rest s1 = rb_rest s" "rbt_color s1 0 = RBT_BLACK"
    using x assms(3) by auto
  have t1: "t1 \<noteq> Leaf" using l(4) by (auto simp: inorder_plug)
  have root: "rbtt_root s1 = root_ptr t1" "distinct (inorder t1)" using l(2) by (auto simp: rb_tree_def heap_tree_def)
  have "rbt_ok ((rbt_color s1)(root_ptr t1 := RBT_BLACK)) t1"
    "cl ((rbt_color s1)(root_ptr t1 := RBT_BLACK)) t1 = RBT_BLACK"
    using rbt_ok_root_black [OF l(3) root(2)] t1 by (auto simp: neq_Leaf_iff)
  then show ?thesis
    using l root by (intro exI [of _ "set_color (rbtt_root s1) RBT_BLACK s1"] exI [of _ t1])
      (simp add: std_rbtree_balanceoninsert_def inorder_plug)
qed

end
