(* ===== verification/RbRemove.thy ===== *)
theory RbRemove
  imports RbOps RbShape
begin

text \<open>
  Rebalancing after a removal: the subtree in focus is one black node short. Each turn of the
  loop keeps the in-order sequence; it moves the focus up or makes the tree right, so the loop
  ends, with a red-black tree.
\<close>

section \<open>One turn of the loop\<close>

definition black_root :: "(ptr \<Rightarrow> rbt_color) \<Rightarrow> ptr tree \<Rightarrow> ptr \<Rightarrow> rbt_color" where
  "black_root c t = c(root_ptr t := RBT_BLACK)"

text \<open>
  The loop invariant: painted black, the subtree in focus is in order; it is one black node
  short if it is black already. The parent pointer of the focus is right even at the sentinel.
\<close>

definition remove_focus :: "rbtree_table \<Rightarrow> ptr tree \<Rightarrow> frame list \<Rightarrow> bool" where
  "remove_focus s t k \<longleftrightarrow> rb_tree s (plug t k) \<and> rbt_parent s (root_ptr t) = up k \<and> rbt_color s 0 = RBT_BLACK
     \<and> rbt_ok (black_root (rbt_color s) t) t
     \<and> kok (rbt_color s) (bh (black_root (rbt_color s) t) t + (if cl (rbt_color s) t = RBT_BLACK then 1 else 0))
         RBT_BLACK k"

lemma black_root_black: "cl c t = RBT_BLACK \<Longrightarrow> c 0 = RBT_BLACK \<Longrightarrow> black_root c t = c"
  by (cases t) (auto simp: black_root_def)

lemma remove_focus_black:
  assumes "cl (rbt_color s) t = RBT_BLACK"
  shows "remove_focus s t k \<longleftrightarrow> rb_tree s (plug t k) \<and> rbt_parent s (root_ptr t) = up k \<and> rbt_color s 0 = RBT_BLACK
     \<and> rbt_ok (rbt_color s) t \<and> kok (rbt_color s) (Suc (bh (rbt_color s) t)) RBT_BLACK k"
  using assms black_root_black [of "rbt_color s" t] by (auto simp: remove_focus_def)

lemma black_root_mirror [simp]: "black_root c (mirror t) = black_root c t"
  by (simp add: black_root_def)

lemma remove_focus_flip:
  "remove_focus (flip s) t k = remove_focus s (mirror t) (map kflip k)"
  using rb_tree_flip_plug [of s t k] bh_mirror [of "black_root (rbt_color s) t" t]
  by (auto simp: remove_focus_def simp del: bh_mirror)

text \<open>The second part of a turn, when the sibling \<open>w\<close> is black; \<open>x\<close> is a left child.\<close>

definition remove_tail :: "rbtree_table \<Rightarrow> ptr \<Rightarrow> ptr \<Rightarrow> rbtree_table \<times> ptr \<times> bool" where
  "remove_tail rbtt x w =
    (if w = NIL then (rbtt, x, True)
     else if rbt_color rbtt (rbt_left rbtt w) = RBT_BLACK \<and> rbt_color rbtt (rbt_right rbtt w) = RBT_BLACK
     then (let rbtt = set_color w RBT_RED rbtt in (rbtt, rbt_parent rbtt x, False))
     else
       (let (rbtt, w) =
              (if rbt_color rbtt (rbt_right rbtt w) = RBT_BLACK
               then (let rbtt = set_color (rbt_left rbtt w) RBT_BLACK rbtt;
                         rbtt = set_color w RBT_RED rbtt;
                         rbtt = std_rbtree_rotateright rbtt w
                     in (rbtt, rbt_right rbtt (rbt_parent rbtt x)))
               else (rbtt, w));
            rbtt = set_color w (rbt_color rbtt (rbt_parent rbtt x)) rbtt;
            rbtt = set_color (rbt_parent rbtt x) RBT_BLACK rbtt;
            rbtt = set_color (rbt_right rbtt w) RBT_BLACK rbtt;
            rbtt = std_rbtree_rotateleft rbtt (rbt_parent rbtt x)
        in (rbtt, rbtt_root rbtt, False)))"

lemma remove_body_tail:
  assumes "x = rbt_left s (rbt_parent s x)"
  shows "balanceonremove_body s x =
    (let w = rbt_right s (rbt_parent s x);
         (s, w) =
           (if rbt_color s w = RBT_RED
            then (let s = set_color w RBT_BLACK s;
                      s = set_color (rbt_parent s x) RBT_RED s;
                      s = std_rbtree_rotateleft s (rbt_parent s x)
                  in (s, rbt_right s (rbt_parent s x)))
            else (s, w))
     in remove_tail s x w)"
  unfolding balanceonremove_body_def remove_tail_def by (simp only: if_P [OF assms])

lemma remove_body_left:
  assumes "rbt_parent s x = p" and "rbt_left s p = x" and "rbt_right s p = w"
    and "s' = std_rbtree_rotateleft (set_color p RBT_RED (set_color w RBT_BLACK s)) p"
  shows "balanceonremove_body s x =
    (if rbt_color s w = RBT_RED then remove_tail s' x (rbt_right s' (rbt_parent s' x)) else remove_tail s x w)"
  using assms remove_body_tail [of x s] by (simp add: Let_def del: not_red)

text \<open>What a turn achieves: progress towards the root, or a focus where the loop stops.\<close>

definition remove_step :: "rbtree_table \<Rightarrow> ptr tree \<Rightarrow> frame list \<Rightarrow> rbtree_table \<times> ptr \<times> bool \<Rightarrow> nat \<Rightarrow> bool" where
  "remove_step s t k res n \<longleftrightarrow> (\<exists>s' t' k'. res = (s', root_ptr t', False) \<and> remove_focus s' t' k'
      \<and> inorder (plug t' k') = inorder (plug t k) \<and> rb_rest s' = rb_rest s
      \<and> (length k' < n \<or> cl (rbt_color s') t' = RBT_RED \<or> k' = []))"

lemma remove_tail_nephews_black:
  assumes inv: "remove_focus s t (WentLeft p (Node wl w wr) # k)"
    and col: "cl (rbt_color s) t = RBT_BLACK" "rbt_color s w = RBT_BLACK"
      "cl (rbt_color s) wl = RBT_BLACK" "cl (rbt_color s) wr = RBT_BLACK"
  shows "remove_tail s (root_ptr t) w = (set_color w RBT_RED s, p, False)"
    and "remove_focus (set_color w RBT_RED s) (Node t p (Node wl w wr)) k"
proof -
  have inv': "rb_tree s (plug (Node t p (Node wl w wr)) k)" "rbt_parent s (root_ptr t) = p" "rbt_color s 0 = RBT_BLACK"
    "rbt_ok (rbt_color s) t" "kok (rbt_color s) (Suc (bh (rbt_color s) t)) RBT_BLACK (WentLeft p (Node wl w wr) # k)"
    using inv unfolding remove_focus_black [OF col(1)] plug.simps up.simps by blast+
  have links: "rbt_left s w = root_ptr wl" "rbt_right s w = root_ptr wr" "w \<noteq> 0" "p \<noteq> 0"
    using inv'(1) unfolding rb_tree_focus by auto
  have c: "rbt_color s (root_ptr wl) = RBT_BLACK" "rbt_color s (root_ptr wr) = RBT_BLACK"
    using col(3,4) inv'(3) by (cases wl; simp) (use col(3,4) inv'(3) in \<open>cases wr; simp\<close>)
  show "remove_tail s (root_ptr t) w = (set_color w RBT_RED s, p, False)"
    using links c inv'(2) by (simp add: remove_tail_def NIL_def)
  show "remove_focus (set_color w RBT_RED s) (Node t p (Node wl w wr)) k"
    using inv' links col rb_tree_distinct [OF inv'(1)] rb_tree_links(2) [OF inv'(1)]
    by (auto simp: remove_focus_def black_root_def frame_simps intro: kok_black)
qed

lemma focus_parent:
  assumes "rb_tree s (plug t k)" and "t = Leaf \<Longrightarrow> rbt_parent s 0 = up k"
  shows "rbt_parent s (root_ptr t) = up k"
  using assms by (cases t) (auto simp: rb_tree_focus)

text \<open>With a red outer nephew one rotation makes the tree right.\<close>

lemma remove_tail_outer_red:
  assumes inv: "remove_focus s t (WentLeft p (Node wl w wr) # k)"
    and col: "cl (rbt_color s) t = RBT_BLACK" "rbt_color s w = RBT_BLACK" "cl (rbt_color s) wr = RBT_RED"
  shows "\<exists>s'. remove_tail s (root_ptr t) w = (s', rbtt_root s', False) \<and> rb_tree s' (plug (Node (Node t p wl) w wr) k)
      \<and> rbt_ok (rbt_color s') (plug (Node (Node t p wl) w wr) k)
      \<and> cl (rbt_color s') (plug (Node (Node t p wl) w wr) k) = RBT_BLACK
      \<and> rb_rest s' = rb_rest s \<and> rbt_color s' 0 = RBT_BLACK"
proof -
  have inv': "rb_tree s (plug (Node t p (Node wl w wr)) k)" "rbt_parent s (root_ptr t) = p" "rbt_color s 0 = RBT_BLACK"
    "rbt_ok (rbt_color s) t" "kok (rbt_color s) (Suc (bh (rbt_color s) t)) RBT_BLACK (WentLeft p (Node wl w wr) # k)"
    using inv unfolding remove_focus_black [OF col(1)] plug.simps up.simps by blast+
  obtain rl v rr where wr: "wr = Node rl v rr" using col(3) by (cases wr) auto
  have links: "rbt_left s w = root_ptr wl" "rbt_right s w = v" "w \<noteq> 0" "p \<noteq> 0" "v \<noteq> 0"
    using inv'(1) unfolding rb_tree_focus by (auto simp: wr)
  let ?c = "(rbt_color s)(w := rbt_color s p, p := RBT_BLACK, v := RBT_BLACK)"
  let ?s = "std_rbtree_rotateleft (s\<lparr>rbt_color := ?c\<rparr>) p"
  note d = rb_tree_distinct [OF inv'(1)]
  have tail: "remove_tail s (root_ptr t) w = (?s, rbtt_root ?s, False)"
    using links col(3) inv'(2) by (simp add: remove_tail_def NIL_def wr Let_def)
  have "rbt_ok ?c (Node (Node t p wl) w wr)"
    "kok ?c (bh ?c (Node (Node t p wl) w wr)) (cl ?c (Node (Node t p wl) w wr)) k"
    using inv' col d by (auto simp: frame_simps wr)
  then have "rbt_ok ?c (plug (Node (Node t p wl) w wr) k)" "cl ?c (plug (Node (Node t p wl) w wr) k) = RBT_BLACK"
    using rbt_ok_plug by blast+
  moreover have "rb_tree ?s (plug (Node (Node t p wl) w wr) k)"
    by (rule rotateleft_focus) (simp add: inv'(1))
  ultimately show ?thesis
    using tail links inv'(3) by (intro exI [of _ ?s]) simp
qed

lemma remove_tail_inner_red:
  assumes inv: "remove_focus s t (WentLeft p (Node (Node a q b) w wr) # k)"
    and col: "cl (rbt_color s) t = RBT_BLACK" "rbt_color s w = RBT_BLACK" "rbt_color s q = RBT_RED"
      "cl (rbt_color s) wr = RBT_BLACK"
  shows "\<exists>s'. remove_tail s (root_ptr t) w = (s', rbtt_root s', False)
      \<and> rb_tree s' (plug (Node (Node t p a) q (Node b w wr)) k)
      \<and> rbt_ok (rbt_color s') (plug (Node (Node t p a) q (Node b w wr)) k)
      \<and> cl (rbt_color s') (plug (Node (Node t p a) q (Node b w wr)) k) = RBT_BLACK
      \<and> rb_rest s' = rb_rest s \<and> rbt_color s' 0 = RBT_BLACK"
proof -
  have inv': "rb_tree s (plug (Node t p (Node (Node a q b) w wr)) k)" "rbt_parent s (root_ptr t) = p"
    "rbt_color s 0 = RBT_BLACK" "rbt_ok (rbt_color s) t"
    "kok (rbt_color s) (Suc (bh (rbt_color s) t)) RBT_BLACK (WentLeft p (Node (Node a q b) w wr) # k)"
    using inv unfolding remove_focus_black [OF col(1)] plug.simps up.simps by blast+
  have links: "rbt_left s w = q" "rbt_right s w = root_ptr wr" "w \<noteq> 0" "p \<noteq> 0" "q \<noteq> 0"
    using inv'(1) unfolding rb_tree_focus by auto
  note d = rb_tree_distinct [OF inv'(1)]
  let ?c1 = "(rbt_color s)(q := RBT_BLACK, w := RBT_RED)"
  let ?s1 = "std_rbtree_rotateright (s\<lparr>rbt_color := ?c1\<rparr>) w"
  let ?c = "?c1(q := rbt_color s p, p := RBT_BLACK, w := RBT_BLACK)"
  let ?s = "std_rbtree_rotateleft (?s1\<lparr>rbt_color := ?c\<rparr>) p"
  have t0: "rb_tree (s\<lparr>rbt_color := ?c1\<rparr>) (plug (Node (Node a q b) w wr) (WentRight t p # k))"
    using inv'(1) by simp
  have t1: "rb_tree ?s1 (plug (Node t p (Node a q (Node b w wr))) k)"
    using rotateright_focus [OF t0] by simp
  have "rbt_parent ?s1 0 = rbt_parent s 0"
    using rotateright_sentinel [OF t0] by simp
  then have links1: "rbt_parent ?s1 (root_ptr t) = p"
    using focus_parent [of ?s1 t "WentLeft p (Node a q (Node b w wr)) # k"] t1 inv'(2) by (cases "t = Leaf") auto
  have links2: "rbt_right ?s1 p = q" "rbt_right ?s1 q = w"
    using t1 unfolding rb_tree_focus by auto
  have wr: "rbt_color s (root_ptr wr) = RBT_BLACK" using col(4) inv'(3) by (cases wr) auto
  have tail: "remove_tail s (root_ptr t) w = (?s, rbtt_root ?s, False)"
    using links links1 links2 col wr d by (simp add: remove_tail_def NIL_def Let_def)
  have "rbt_ok ?c (Node (Node t p a) q (Node b w wr))"
    "kok ?c (bh ?c (Node (Node t p a) q (Node b w wr))) (cl ?c (Node (Node t p a) q (Node b w wr))) k"
    using inv' col d by (auto simp: frame_simps)
  then have "rbt_ok ?c (plug (Node (Node t p a) q (Node b w wr)) k)"
    "cl ?c (plug (Node (Node t p a) q (Node b w wr)) k) = RBT_BLACK"
    using rbt_ok_plug by blast+
  moreover have "rb_tree ?s (plug (Node (Node t p a) q (Node b w wr)) k)"
    by (rule rotateleft_focus) (simp add: t1)
  ultimately show ?thesis
    using tail links inv'(3) by (intro exI [of _ ?s]) simp
qed

lemma remove_step_done:
  assumes "res = (s', rbtt_root s', False)" and "rb_tree s' T" and "rbt_ok (rbt_color s') T"
    and "cl (rbt_color s') T = RBT_BLACK" and "rbt_color s' 0 = RBT_BLACK" and "rb_rest s' = rb_rest s"
    and "inorder T = inorder (plug t k)" and "T \<noteq> Leaf"
  shows "remove_step s t k res n"
proof -
  have "rbtt_root s' = root_ptr T" using assms(2) by (simp add: rb_tree_def heap_tree_def)
  moreover have "rbt_parent s' (root_ptr T) = 0 \<or> T = Leaf"
    using assms(2) by (cases T) (auto simp: rb_tree_def heap_tree_def)
  ultimately have "remove_focus s' T []"
    using assms(2-5,8) by (subst remove_focus_black) (auto simp: rb_tree_def heap_tree_def)
  with \<open>rbtt_root s' = root_ptr T\<close> show ?thesis
    using assms(1,6,7) unfolding remove_step_def
    by (intro exI [of _ s'] exI [of _ T] exI [of _ "[]"]) simp
qed

lemma remove_tail_ok:
  assumes inv: "remove_focus s t (WentLeft p (Node wl w wr) # k)"
    and col: "cl (rbt_color s) t = RBT_BLACK" "rbt_color s w = RBT_BLACK"
    and n: "length k < n \<or> rbt_color s p = RBT_RED"
  shows "remove_step s t (WentLeft p (Node wl w wr) # k) (remove_tail s (root_ptr t) w) n"
proof -
  have d: "p \<noteq> w" using inv rb_tree_distinct [of s "Node t p (Node wl w wr)" k] by (auto simp: remove_focus_def)
  consider "cl (rbt_color s) wl = RBT_BLACK" "cl (rbt_color s) wr = RBT_BLACK"
    | "cl (rbt_color s) wr = RBT_RED"
    | a q b where "wl = Node a q b" "rbt_color s q = RBT_RED" "cl (rbt_color s) wr = RBT_BLACK"
    by (cases "cl (rbt_color s) wr"; cases wl; cases "cl (rbt_color s) wl") auto
  then show ?thesis
  proof cases
    case 1
    from remove_tail_nephews_black [OF inv col 1] show ?thesis
      unfolding remove_step_def
      using n d by (intro exI [of _ "set_color w RBT_RED s"] exI [of _ "Node t p (Node wl w wr)"] exI [of _ k])
        auto
  next
    case 2
    from remove_tail_outer_red [OF inv col 2] show ?thesis
      by (auto intro!: remove_step_done simp: inorder_plug)
  next
    case 3
    from remove_tail_inner_red [OF inv [unfolded 3(1)] col 3(2,3)] show ?thesis
      by (auto intro!: remove_step_done simp: inorder_plug 3(1))
  qed
qed

lemma remove_sibling_red:
  assumes inv: "remove_focus s t (WentLeft p (Node wl w wr) # k)"
    and col: "cl (rbt_color s) t = RBT_BLACK" "rbt_color s w = RBT_RED"
    and s': "s' = std_rbtree_rotateleft (set_color p RBT_RED (set_color w RBT_BLACK s)) p"
  shows "\<exists>a v b. wl = Node a v b \<and> remove_focus s' t (WentLeft p wl # WentLeft w wr # k)
      \<and> rbt_color s' v = RBT_BLACK \<and> rbt_color s' p = RBT_RED \<and> cl (rbt_color s') t = RBT_BLACK
      \<and> rbt_right s' (rbt_parent s' (root_ptr t)) = v \<and> rb_rest s' = rb_rest s"
proof -
  have inv': "rb_tree s (plug (Node t p (Node wl w wr)) k)" "rbt_parent s (root_ptr t) = p" "rbt_color s 0 = RBT_BLACK"
    "rbt_ok (rbt_color s) t" "kok (rbt_color s) (Suc (bh (rbt_color s) t)) RBT_BLACK (WentLeft p (Node wl w wr) # k)"
    using inv unfolding remove_focus_black [OF col(1)] plug.simps up.simps by blast+
  obtain a v b where wl: "wl = Node a v b" using inv'(5) col(2) by (cases wl) auto
  note d = rb_tree_distinct [OF inv'(1)]
  have nz: "w \<noteq> 0" "p \<noteq> 0" using inv'(1) unfolding rb_tree_focus by auto
  let ?c = "(rbt_color s)(w := RBT_BLACK, p := RBT_RED)"
  let ?u = "s\<lparr>rbt_color := ?c\<rparr>"
  let ?s = "std_rbtree_rotateleft ?u p"
  have t0: "rb_tree ?u (plug (Node t p (Node wl w wr)) k)" using inv'(1) by simp
  have t1: "rb_tree ?s (plug t (WentLeft p wl # WentLeft w wr # k))"
    using rotateleft_focus [OF t0] by simp
  have P: "rbt_parent ?s (root_ptr t) = p"
    using focus_parent [OF t1] rotateleft_sentinel [OF t0] inv'(2) by (cases "t = Leaf") auto
  have R: "rbt_right ?s p = v"
    using t1 unfolding rb_tree_focus by (auto simp: wl)
  have out: "p \<noteq> w" "v \<noteq> p" "v \<noteq> w" "p \<notin> set_tree t" "w \<notin> set_tree t" "p \<notin> set_tree wl" "w \<notin> set_tree wl"
    "p \<notin> set_tree wr" "w \<notin> set_tree wr" "p \<notin> ctxt_set k" "w \<notin> ctxt_set k"
    using d by (auto simp: wl)
  have old: "rbt_ok (rbt_color s) wl" "rbt_ok (rbt_color s) wr" "cl (rbt_color s) wl = RBT_BLACK"
    "cl (rbt_color s) wr = RBT_BLACK" "bh (rbt_color s) wl = Suc (bh (rbt_color s) t)"
    "bh (rbt_color s) wr = Suc (bh (rbt_color s) t)" "kok (rbt_color s) (Suc (Suc (bh (rbt_color s) t))) RBT_BLACK k"
    using inv'(5) col(2) by (auto intro: kok_black)
  have "rbt_color s v = RBT_BLACK" using old(3) by (simp add: wl)
  then have c: "cl ?c t = RBT_BLACK" "rbt_ok ?c t" "?c v = RBT_BLACK" "?c p = RBT_RED"
    "kok ?c (Suc (bh ?c t)) RBT_BLACK (WentLeft p wl # WentLeft w wr # k)"
    using old col(1) inv'(4) out by (simp_all add: frame_simps)
  have "remove_focus ?s t (WentLeft p wl # WentLeft w wr # k)"
    by (intro iffD2 [OF remove_focus_black] conjI)
      (use t1 P c nz inv'(3) in \<open>simp_all del: kok.simps bh.simps\<close>)
  moreover have "rbt_right ?s (rbt_parent ?s (root_ptr t)) = v" unfolding P R ..
  moreover have "s' = ?s" by (simp add: s')
  moreover have "rb_rest ?s = rb_rest s" by simp
  ultimately show ?thesis using wl c(1,3,4) by (intro exI [of _ a] exI [of _ v] exI [of _ b]) simp
qed

lemma remove_body_left_ok:
  assumes inv: "remove_focus s t (WentLeft p b # k)" and col: "cl (rbt_color s) t = RBT_BLACK"
  shows "remove_step s t (WentLeft p b # k) (balanceonremove_body s (root_ptr t)) (Suc (length k))"
proof -
  have inv': "rb_tree s (plug (Node t p b) k)" "rbt_parent s (root_ptr t) = p"
    "kok (rbt_color s) (Suc (bh (rbt_color s) t)) RBT_BLACK (WentLeft p b # k)"
    using inv unfolding remove_focus_black [OF col] plug.simps up.simps by blast+
  obtain wl w wr where b: "b = Node wl w wr" using inv'(3) by (cases b) auto
  have links: "rbt_left s p = root_ptr t" "rbt_right s p = w"
    using rb_tree_links [OF inv'(1)] by (simp_all add: b)
  define s' where s': "s' = std_rbtree_rotateleft (set_color p RBT_RED (set_color w RBT_BLACK s)) p"
  note body = remove_body_left [OF inv'(2) links s']
  show ?thesis
  proof (cases "rbt_color s w")
    case RBT_BLACK
    then show ?thesis using remove_tail_ok [OF inv [unfolded b] col, of "Suc (length k)"] body b by simp
  next
    case RBT_RED
    from remove_sibling_red [OF inv [unfolded b] col RBT_RED s'] obtain a v c where
      wl: "wl = Node a v c" and foc: "remove_focus s' t (WentLeft p (Node a v c) # WentLeft w wr # k)"
      "rbt_color s' v = RBT_BLACK" "rbt_color s' p = RBT_RED" "cl (rbt_color s') t = RBT_BLACK"
      "rbt_right s' (rbt_parent s' (root_ptr t)) = v" "rb_rest s' = rb_rest s"
      by blast
    have "remove_step s' t (WentLeft p (Node a v c) # WentLeft w wr # k) (remove_tail s' (root_ptr t) v) (Suc (length k))"
      using remove_tail_ok [OF foc(1) foc(4) foc(2)] foc(3) by blast
    then show ?thesis
      using body RBT_RED foc(5,6) unfolding remove_step_def by (simp add: inorder_plug b wl)
  qed
qed

text \<open>The right side: its second part is the mirror image of \<open>remove_tail\<close>.\<close>

definition remove_tail_right :: "rbtree_table \<Rightarrow> ptr \<Rightarrow> ptr \<Rightarrow> rbtree_table \<times> ptr \<times> bool" where
  "remove_tail_right rbtt x w =
    (if w = NIL then (rbtt, x, True)
     else if rbt_color rbtt (rbt_left rbtt w) = RBT_BLACK \<and> rbt_color rbtt (rbt_right rbtt w) = RBT_BLACK
     then (let rbtt = set_color w RBT_RED rbtt in (rbtt, rbt_parent rbtt x, False))
     else
       (let (rbtt, w) =
              (if rbt_color rbtt (rbt_left rbtt w) = RBT_BLACK
               then (let rbtt = set_color (rbt_right rbtt w) RBT_BLACK rbtt;
                         rbtt = set_color w RBT_RED rbtt;
                         rbtt = std_rbtree_rotateleft rbtt w
                     in (rbtt, rbt_left rbtt (rbt_parent rbtt x)))
               else (rbtt, w));
            rbtt = set_color w (rbt_color rbtt (rbt_parent rbtt x)) rbtt;
            rbtt = set_color (rbt_parent rbtt x) RBT_BLACK rbtt;
            rbtt = set_color (rbt_left rbtt w) RBT_BLACK rbtt;
            rbtt = std_rbtree_rotateright rbtt (rbt_parent rbtt x)
        in (rbtt, rbtt_root rbtt, False)))"

lemmas flip_simps = flip_upd [symmetric] rotate_flip Let_def

lemma remove_tail_flip: "remove_tail_right s x w = map_prod flip id (remove_tail (flip s) x w)"
proof (cases "w = NIL \<or> rbt_color s (rbt_left s w) = RBT_BLACK \<and> rbt_color s (rbt_right s w) = RBT_BLACK")
  case True
  then show ?thesis by (auto simp: remove_tail_right_def remove_tail_def)
next
  case False
  note unf = remove_tail_right_def remove_tail_def flip_simps
  show ?thesis
  proof (cases "rbt_color s (rbt_left s w) = RBT_BLACK")
    case True
    with False have "(w = NIL) = False" "(rbt_color s (rbt_right s w) = RBT_BLACK) = False" by blast+
    with True show ?thesis by (simp add: unf del: flip_upd not_red split del: if_split)
  next
    case outer: False
    with False have "(w = NIL) = False" "(rbt_color s (rbt_left s w) = RBT_BLACK) = False" by blast+
    then show ?thesis by (simp add: unf del: flip_upd not_red split del: if_split)
  qed
qed

lemma remove_body_tail_right:
  assumes "x \<noteq> rbt_left s (rbt_parent s x)"
  shows "balanceonremove_body s x =
    (let w = rbt_left s (rbt_parent s x);
         (s, w) =
           (if rbt_color s w = RBT_RED
            then (let s = set_color w RBT_BLACK s;
                      s = set_color (rbt_parent s x) RBT_RED s;
                      s = std_rbtree_rotateright s (rbt_parent s x)
                  in (s, rbt_left s (rbt_parent s x)))
            else (s, w))
     in remove_tail_right s x w)"
  unfolding balanceonremove_body_def remove_tail_right_def by (simp only: if_not_P [OF assms])

lemma remove_body_flip:
  assumes p: "rbt_parent s x = p" "rbt_right s p = x" "rbt_left s p \<noteq> x"
  shows "balanceonremove_body s x = map_prod flip id (balanceonremove_body (flip s) x)"
proof -
  have "x \<noteq> rbt_left s (rbt_parent s x)" "x = rbt_left (flip s) (rbt_parent (flip s) x)"
    using p by auto
  note body = remove_body_tail_right [OF this(1)] remove_body_tail [OF this(2)]
  show ?thesis
    unfolding body
    by (cases "rbt_color s (rbt_left s (rbt_parent s x)) = RBT_RED")
      (simp_all add: remove_tail_flip flip_simps del: flip_upd not_red)
qed

lemma remove_body_ok:
  assumes inv: "remove_focus s t k" and go: "root_ptr t \<noteq> rbtt_root s" "cl (rbt_color s) t = RBT_BLACK"
  shows "remove_step s t k (balanceonremove_body s (root_ptr t)) (length k)"
proof -
  have tree: "rb_tree s (plug t k)" using inv by (simp add: remove_focus_def)
  then have "k \<noteq> []" using go(1) rb_tree_root [OF tree] by auto
  then obtain f k1 where k: "k = f # k1" by (cases k) auto
  show ?thesis
  proof (cases f)
    case (WentLeft p b)
    with remove_body_left_ok [of s t p b k1] inv go(2) k show ?thesis by simp
  next
    case (WentRight b p)
    have inv': "rb_tree s (plug (Node b p t) k1)" "rbt_parent s (root_ptr t) = p"
      "kok (rbt_color s) (Suc (bh (rbt_color s) t)) RBT_BLACK (WentRight b p # k1)"
      using inv [unfolded remove_focus_black [OF go(2)]] k WentRight by simp_all
    have b: "b \<noteq> Leaf" using inv'(3) by auto
    then have "root_ptr b \<noteq> root_ptr t"
      using rb_tree_distinct [OF inv'(1)] root_ptr_in_set [OF b] linked_nonzero [of _ _ _ p b "root_ptr b"] inv'(1)
      by (cases t) (auto simp: rb_tree_focus)
    then have flip: "balanceonremove_body s (root_ptr t) = map_prod flip id (balanceonremove_body (flip s) (root_ptr t))"
      using remove_body_flip [OF inv'(2)] rb_tree_links [OF inv'(1)] by simp
    have "remove_focus (flip s) (mirror t) (WentLeft p (mirror b) # map kflip k1)"
      using inv k WentRight by (simp add: remove_focus_flip)
    from remove_body_left_ok [OF this] go(2) obtain s' t' k' where
      st: "balanceonremove_body (flip s) (root_ptr t) = (s', root_ptr t', False)" "remove_focus s' t' k'"
        "inorder (plug t' k') = inorder (plug (mirror t) (map kflip k))" "rb_rest s' = rb_rest s"
        "length k' < length k \<or> cl (rbt_color s') t' = RBT_RED \<or> k' = []"
      using k WentRight by (auto simp: remove_step_def)
    have "inorder (plug (mirror t') (map kflip k')) = inorder (plug t k)"
      using st(3) inorder_flip [of t' k'] inorder_flip [of t k] by simp
    moreover have "remove_focus (flip s') (mirror t') (map kflip k')"
      using st(2) by (simp add: remove_focus_flip)
    ultimately show ?thesis
      unfolding remove_step_def flip st(1)
      using st(4,5) by (intro exI [of _ "flip s'"] exI [of _ "mirror t'"] exI [of _ "map kflip k'"]) auto
  qed
qed

section \<open>The loop\<close>

lemma remove_loop_stop:
  assumes "remove_focus s t k" and "cl (rbt_color s) t = RBT_RED \<or> k = []"
  shows "balanceonremove_loop s (root_ptr t) = Some (s, root_ptr t)"
proof -
  have "root_ptr t = rbtt_root s \<or> rbt_color s (root_ptr t) \<noteq> RBT_BLACK"
    using assms rb_tree_root [of s t k] by (cases t) (auto simp: remove_focus_def)
  then show ?thesis by (subst balanceonremove_loop.simps) auto
qed

lemma balanceonremove_loop_ok:
  assumes "remove_focus s t k"
  shows "\<exists>s' t' k'. balanceonremove_loop s (root_ptr t) = Some (s', root_ptr t') \<and> remove_focus s' t' k'
      \<and> inorder (plug t' k') = inorder (plug t k) \<and> rb_rest s' = rb_rest s
      \<and> (cl (rbt_color s') t' = RBT_RED \<or> k' = [])"
  using assms
proof (induction "length k" arbitrary: s t k rule: less_induct)
  case less
  have tree: "rb_tree s (plug t k)" and nil: "rbt_color s 0 = RBT_BLACK"
    using less.prems by (simp_all add: remove_focus_def)
  show ?case
  proof (cases "cl (rbt_color s) t = RBT_RED \<or> k = []")
    case True
    then show ?thesis using remove_loop_stop [OF less.prems] less.prems by blast
  next
    case False
    then have go: "root_ptr t \<noteq> rbtt_root s" "cl (rbt_color s) t = RBT_BLACK"
      using rb_tree_root [OF tree] by auto
    then have "rbt_color s (root_ptr t) = RBT_BLACK" using nil by (cases t) auto
    with go(1) have loop: "balanceonremove_loop s (root_ptr t) =
        (case balanceonremove_body s (root_ptr t) of
           (s, x, stop) \<Rightarrow> if stop then Some (s, x) else balanceonremove_loop s x)"
      by (subst balanceonremove_loop.simps) simp
    from remove_body_ok [OF less.prems go] obtain s1 t1 k1 where
      b: "balanceonremove_body s (root_ptr t) = (s1, root_ptr t1, False)" "remove_focus s1 t1 k1"
        "inorder (plug t1 k1) = inorder (plug t k)" "rb_rest s1 = rb_rest s"
        "length k1 < length k \<or> cl (rbt_color s1) t1 = RBT_RED \<or> k1 = []"
      unfolding remove_step_def by blast
    have step: "balanceonremove_loop s (root_ptr t) = balanceonremove_loop s1 (root_ptr t1)"
      using loop b(1) by simp
    show ?thesis
    proof (cases "length k1 < length k")
      case True
      from less.hyps [OF True b(2)] step b(3,4) show ?thesis by simp
    next
      case False
      with b(5) have "cl (rbt_color s1) t1 = RBT_RED \<or> k1 = []" by blast
      with remove_loop_stop [OF b(2) this] step b(2,3,4) show ?thesis by metis
    qed
  qed
qed

text \<open>
  The result of the whole rebalancing: the same sequence of nodes in a red-black tree with a
  black root.
\<close>

lemma balanceonremove_ok:
  assumes "remove_focus s t k"
  shows "\<exists>s' T. std_rbtree_balanceonremove s (root_ptr t) = Some s' \<and> rb_tree s' T \<and> rbt_ok (rbt_color s') T
      \<and> cl (rbt_color s') T = RBT_BLACK \<and> rbt_color s' 0 = RBT_BLACK
      \<and> inorder T = inorder (plug t k) \<and> rb_rest s' = rb_rest s"
proof -
  from balanceonremove_loop_ok [OF assms] obtain s1 t1 k1 where
    l: "balanceonremove_loop s (root_ptr t) = Some (s1, root_ptr t1)" "remove_focus s1 t1 k1"
      "inorder (plug t1 k1) = inorder (plug t k)" "rb_rest s1 = rb_rest s"
      "cl (rbt_color s1) t1 = RBT_RED \<or> k1 = []"
    by blast
  let ?c = "black_root (rbt_color s1) t1"
  have foc: "rb_tree s1 (plug t1 k1)" "rbt_color s1 0 = RBT_BLACK" "rbt_ok ?c t1"
    "kok (rbt_color s1) (bh ?c t1 + (if cl (rbt_color s1) t1 = RBT_BLACK then 1 else 0)) RBT_BLACK k1"
    using l(2) unfolding remove_focus_def by blast+
  have black: "cl ?c t1 = RBT_BLACK" by (cases t1) (auto simp: black_root_def)
  have "kok ?c (bh ?c t1) (cl ?c t1) k1"
  proof (cases "k1 = []")
    case True
    then show ?thesis by (simp add: black)
  next
    case False
    with l(5) have red: "cl (rbt_color s1) t1 = RBT_RED" by simp
    then have "root_ptr t1 \<notin> ctxt_set k1" using rb_tree_distinct [OF foc(1)] by (cases t1) auto
    with foc(4) red black show ?thesis by (simp add: black_root_def frame_simps)
  qed
  with foc(3) have "rbt_ok ?c (plug t1 k1)" "cl ?c (plug t1 k1) = RBT_BLACK"
    using rbt_ok_plug by blast+
  moreover have "?c 0 = RBT_BLACK" using foc(2) by (simp add: black_root_def)
  ultimately show ?thesis
    using l foc(1) by (intro exI [of _ "set_color (root_ptr t1) RBT_BLACK s1"] exI [of _ "plug t1 k1"])
      (simp add: std_rbtree_balanceonremove_def black_root_def)
qed

end
