(* ===== verification/RbTable.thy ===== *)
theory RbTable
  imports RbInsert RbRemove KeyOrder
begin

text \<open>
  The red-black table as a sorted sequence: \<open>rb_table s ns\<close> says that the table holds the
  nodes \<open>ns\<close>, in order. The searches, the insertion and the removal are shown to be the list
  operations of \<open>KeyOrder\<close>, under the contract \<open>key_order\<close> of the comparison function.
\<close>

section \<open>The comparison function of a table\<close>

definition compare_val :: "rbtree_table \<Rightarrow> ptr \<Rightarrow> ptr \<Rightarrow> int" where
  "compare_val s a b = (case call_compare s a b of None \<Rightarrow> 0 | Some c \<Rightarrow> c)"

definition keys :: "ptr set" where "keys = {d. d \<noteq> 0}"

lemma call_compare_val: "a \<in> keys \<Longrightarrow> b \<in> keys \<Longrightarrow> call_compare s a b = Some (compare_val s a b)"
  by (auto simp: compare_val_def call_compare_def keys_def std_rbtree_compare_ul_def
      std_rbtree_compare_i_def Let_def split: compare_fn.splits)

lemma rb_rest_fields:
  assumes "rb_rest s' = rb_rest s"
  shows "rbt_data s' = rbt_data s" "rbtt_magic s' = rbtt_magic s" "rbtt_debug s' = rbtt_debug s"
    "rbtt_compare s' = rbtt_compare s" "rbtt_keyoffset s' = rbtt_keyoffset s"
    "rbtt_keylength s' = rbtt_keylength s" "client_mem s' = client_mem s"
    "rbtt_numinodes s' = rbtt_numinodes s" "rbtt_numinserts s' = rbtt_numinserts s"
    "rbtt_numremoved s' = rbtt_numremoved s" "rbtt_nummallocs s' = rbtt_nummallocs s"
    "rbtt_numfrees s' = rbtt_numfrees s"
  using arg_cong [OF assms, of rbt_data] arg_cong [OF assms, of rbtt_magic] arg_cong [OF assms, of rbtt_debug]
    arg_cong [OF assms, of rbtt_compare] arg_cong [OF assms, of rbtt_keyoffset]
    arg_cong [OF assms, of rbtt_keylength] arg_cong [OF assms, of client_mem]
    arg_cong [OF assms, of rbtt_numinodes] arg_cong [OF assms, of rbtt_numinserts]
    arg_cong [OF assms, of rbtt_numremoved] arg_cong [OF assms, of rbtt_nummallocs]
    arg_cong [OF assms, of rbtt_numfrees]
  by (simp_all add: rb_rest_def rb_unlinked_def)

text \<open>Counters and node data commute with forgetting the links.\<close>

lemma rb_rest_num [simp]:
  "rb_rest (rbtt_numinodes_update f s) = rbtt_numinodes_update f (rb_rest s)"
  "rb_rest (rbtt_numinserts_update f s) = rbtt_numinserts_update f (rb_rest s)"
  "rb_rest (rbtt_numremoved_update f s) = rbtt_numremoved_update f (rb_rest s)"
  "rb_rest (rbtt_nummallocs_update f s) = rbtt_nummallocs_update f (rb_rest s)"
  "rb_rest (rbtt_numfrees_update f s) = rbtt_numfrees_update f (rb_rest s)"
  "rb_rest (rbt_data_update g s) = rbt_data_update g (rb_rest s)"
  by (simp_all add: rb_rest_def rb_unlinked_def)

lemma call_compare_cong:
  assumes "rbtt_compare s' = rbtt_compare s" "rbtt_keyoffset s' = rbtt_keyoffset s"
    "rbtt_keylength s' = rbtt_keylength s" "client_mem s' = client_mem s"
  shows "call_compare s' = call_compare s"
  using assms
  by (intro ext) (simp add: call_compare_def std_rbtree_compare_ul_def std_rbtree_compare_i_def
      std_rbtree_gen_cmp_def read_bytes_def client_at_def cong: compare_fn.case_cong)

lemma call_compare_upd [simp]:
  "call_compare (rbt_left_update f s) = call_compare s"
  "call_compare (rbt_right_update f s) = call_compare s"
  "call_compare (rbt_parent_update f s) = call_compare s"
  "call_compare (rbt_color_update g s) = call_compare s"
  "call_compare (rbt_data_update f s) = call_compare s"
  "call_compare (rbtt_root_update h s) = call_compare s"
  "call_compare (rbtt_numinodes_update i s) = call_compare s"
  "call_compare (rbtt_numinserts_update i s) = call_compare s"
  "call_compare (rbtt_numremoved_update i s) = call_compare s"
  "call_compare (rbtt_nummallocs_update i s) = call_compare s"
  "call_compare (rbtt_numfrees_update i s) = call_compare s"
  by (rule call_compare_cong; simp)+

lemma compare_val_cong: "call_compare s' = call_compare s \<Longrightarrow> compare_val s' = compare_val s"
  by (intro ext) (simp add: compare_val_def)

section \<open>The abstraction\<close>

definition rb_table :: "rbtree_table \<Rightarrow> ptr list \<Rightarrow> bool" where
  "rb_table s ns \<longleftrightarrow> rbtt_magic s = RBT_MAGIC \<and> rbt_color s 0 = RBT_BLACK
     \<and> (\<exists>t. rb_tree s t \<and> rbt_ok (rbt_color s) t \<and> cl (rbt_color s) t = RBT_BLACK \<and> inorder t = ns)
     \<and> key_sorted (compare_val s) (map (rbt_data s) ns) \<and> rbt_data s ` set ns \<subseteq> keys
     \<and> rbtt_numinodes s = of_nat (length ns)"

section \<open>Searches\<close>

lemma leftmost_loop_ok:
  assumes "linked (rbt_left s) (rbt_right s) P q t" and "t \<noteq> Leaf"
  shows "leftmost_loop s (root_ptr t) = Some (hd (inorder t))"
  using assms
proof (induction t arbitrary: q)
  case (Node l a r)
  show ?case
  proof (cases "l = Leaf")
    case True
    with Node.prems show ?thesis by (subst leftmost_loop.simps) (simp add: NIL_def)
  next
    case False
    then have "root_ptr l \<noteq> 0" using Node.prems by (cases l) auto
    with False Node show ?thesis
      by (subst leftmost_loop.simps) (auto simp: NIL_def hd_append)
  qed
qed simp

lemma inorder_Nil [simp]: "inorder t = [] \<longleftrightarrow> t = Leaf"
  by (cases t) auto

text \<open>The node that follows a focus, 0 when there is none.\<close>

definition first_of :: "ptr list \<Rightarrow> ptr" where
  "first_of xs = (case xs of [] \<Rightarrow> 0 | x # _ \<Rightarrow> x)"

lemma first_of_simps [simp]: "first_of [] = 0" "first_of (x # xs) = x"
  by (simp_all add: first_of_def)

lemma climb_right_ok:
  assumes "klinked (rbt_left s) (rbt_right s) (rbt_parent s) rt x k" and "x \<noteq> 0" and "x \<notin> ctxt_set k"
    and "distinct (before k @ after k)"
  shows "climb_right_loop s x (up k) = Some (first_of (after k))"
  using assms
proof (induction k arbitrary: x)
  case Nil
  then show ?case by (subst climb_right_loop.simps) (simp add: NIL_def)
next
  case (Cons f k)
  show ?case
  proof (cases f)
    case (WentLeft a r)
    have "rbt_right s a \<noteq> x"
      using Cons.prems WentLeft by (cases r) auto
    then show ?thesis using WentLeft by (subst climb_right_loop.simps) (simp add: NIL_def)
  next
    case (WentRight l a)
    have "climb_right_loop s a (up k) = Some (first_of (after k))"
      using Cons.prems WentRight by (intro Cons.IH) (auto simp: ctxt_set_def)
    then show ?thesis using WentRight Cons.prems by (subst climb_right_loop.simps) (simp add: NIL_def)
  qed
qed

lemma climb_left_ok:
  assumes "klinked (rbt_left s) (rbt_right s) (rbt_parent s) rt x k" and "x \<noteq> 0" and "x \<notin> ctxt_set k"
    and "distinct (before k @ after k)"
  shows "climb_left_loop s x (up k) = Some (first_of (rev (before k)))"
  using assms
proof (induction k arbitrary: x)
  case Nil
  then show ?case by (subst climb_left_loop.simps) (simp add: NIL_def)
next
  case (Cons f k)
  show ?case
  proof (cases f)
    case (WentRight l a)
    have "rbt_left s a \<noteq> x"
      using Cons.prems WentRight by (cases l) auto
    then show ?thesis using WentRight by (subst climb_left_loop.simps) (simp add: NIL_def)
  next
    case (WentLeft a r)
    have "climb_left_loop s a (up k) = Some (first_of (rev (before k)))"
      using Cons.prems WentLeft by (intro Cons.IH) (auto simp: ctxt_set_def)
    then show ?thesis using WentLeft Cons.prems by (subst climb_left_loop.simps) (simp add: NIL_def)
  qed
qed

text \<open>What holds of the nodes of a tree that is searched for the key \<open>d\<close>.\<close>

definition search_ok :: "rbtree_table \<Rightarrow> ptr \<Rightarrow> ptr list \<Rightarrow> bool" where
  "search_ok s d ns \<longleftrightarrow> key_order keys (compare_val s) \<and> d \<in> keys \<and> rbt_data s ` set ns \<subseteq> keys
     \<and> key_sorted (compare_val s) (map (rbt_data s) ns)"

abbreviation node_cmp :: "rbtree_table \<Rightarrow> ptr \<Rightarrow> ptr \<Rightarrow> int" where
  "node_cmp s d n \<equiv> compare_val s d (rbt_data s n)"

lemma search_ok_part: "search_ok s d (xs @ ys @ zs) \<Longrightarrow> search_ok s d ys"
  by (auto simp: search_ok_def key_sorted_def sorted_wrt_append)

lemma search_ok_mid:
  assumes "search_ok s d (xs @ x # ys)"
  shows "call_compare s d (rbt_data s x) = Some (node_cmp s d x)"
    and "node_cmp s d x < 0 \<Longrightarrow> y \<in> set ys \<Longrightarrow> node_cmp s d y < 0"
    and "0 < node_cmp s d x \<Longrightarrow> y \<in> set xs \<Longrightarrow> 0 < node_cmp s d y"
    and "0 \<le> node_cmp s d x \<Longrightarrow> y \<in> set xs \<Longrightarrow> 0 \<le> node_cmp s d y"
proof -
  have ko: "key_order keys (compare_val s)" and k: "d \<in> keys"
    "set (map (rbt_data s) xs @ rbt_data s x # map (rbt_data s) ys) \<subseteq> keys"
    "key_sorted (compare_val s) (map (rbt_data s) xs @ rbt_data s x # map (rbt_data s) ys)"
    using assms by (auto simp: search_ok_def)
  show "call_compare s d (rbt_data s x) = Some (node_cmp s d x)"
    using k by (intro call_compare_val) auto
  note mid = key_order.sorted_mid [OF ko k(2) k(1) k(3)]
  show "node_cmp s d x < 0 \<Longrightarrow> y \<in> set ys \<Longrightarrow> node_cmp s d y < 0" using mid(1) by simp
  show "0 < node_cmp s d x \<Longrightarrow> y \<in> set xs \<Longrightarrow> 0 < node_cmp s d y" using mid(2) by simp
  show "0 \<le> node_cmp s d x \<Longrightarrow> y \<in> set xs \<Longrightarrow> 0 \<le> node_cmp s d y" using mid(3) by simp
qed

lemma getexact_loop_ok:
  assumes "linked (rbt_left s) (rbt_right s) P q t" and "search_ok s d (inorder t)"
  shows "\<exists>r. getexact_loop s d (root_ptr t) = Some r \<and>
    (if r = 0 then \<forall>n\<in>set_tree t. node_cmp s d n \<noteq> 0 else r \<in> set_tree t \<and> node_cmp s d r = 0)"
  using assms
proof (induction t arbitrary: q)
  case Leaf
  then show ?case by (subst getexact_loop.simps) (simp add: NIL_def)
next
  case (Node l a r)
  have links: "a \<noteq> 0" "rbt_left s a = root_ptr l" "rbt_right s a = root_ptr r"
    "linked (rbt_left s) (rbt_right s) P a l" "linked (rbt_left s) (rbt_right s) P a r"
    using Node.prems(1) by simp_all
  have sub: "search_ok s d (inorder l)" "search_ok s d (inorder r)"
    using Node.prems(2) search_ok_part [of s d "[]" "inorder l" "a # inorder r"]
      search_ok_part [of s d "inorder l @ [a]" "inorder r" "[]"] by simp_all
  have "search_ok s d (inorder l @ a # inorder r)" using Node.prems(2) by simp
  note mid = search_ok_mid [OF this]
  consider "node_cmp s d a = 0" | "node_cmp s d a < 0" | "0 < node_cmp s d a" by linarith
  then show ?case
  proof cases
    case 1
    then show ?thesis using links mid(1) by (subst getexact_loop.simps) (simp add: NIL_def)
  next
    case 2
    then have "getexact_loop s d a = getexact_loop s d (root_ptr l)"
      using links mid(1) by (subst getexact_loop.simps) (simp add: NIL_def)
    moreover have "\<forall>n\<in>set_tree r. node_cmp s d n \<noteq> 0" using mid(2) [OF 2] by force
    moreover have "node_cmp s d a \<noteq> 0" using 2 by simp
    ultimately show ?thesis using Node.IH(1) [OF links(4) sub(1)]
      by (elim exE conjE) (simp split: if_split_asm; blast)
  next
    case 3
    then have "getexact_loop s d a = getexact_loop s d (root_ptr r)"
      using links mid(1) by (subst getexact_loop.simps) (simp add: NIL_def)
    moreover have "\<forall>n\<in>set_tree l. node_cmp s d n \<noteq> 0" using mid(3) [OF 3] by force
    moreover have "node_cmp s d a \<noteq> 0" using 3 by simp
    ultimately show ?thesis using Node.IH(2) [OF links(5) sub(2)]
      by (elim exE conjE) (simp split: if_split_asm; blast)
  qed
qed

text \<open>The search for the nearest node walks down a focus; what it has passed is known.\<close>

definition next_answer :: "rbtree_table \<Rightarrow> ptr \<Rightarrow> ptr list \<Rightarrow> ptr \<Rightarrow> bool" where
  "next_answer s d ns r \<longleftrightarrow> r \<in> set ns \<and> node_cmp s d r = 0
     \<or> (\<forall>n\<in>set ns. node_cmp s d n \<noteq> 0) \<and> r = first_of (filter (\<lambda>n. node_cmp s d n < 0) ns)"

definition prev_answer :: "rbtree_table \<Rightarrow> ptr \<Rightarrow> ptr list \<Rightarrow> ptr \<Rightarrow> bool" where
  "prev_answer s d ns r \<longleftrightarrow> r \<in> set ns \<and> node_cmp s d r = 0
     \<or> (\<forall>n\<in>set ns. node_cmp s d n \<noteq> 0) \<and> r = first_of (filter (\<lambda>n. 0 < node_cmp s d n) (rev ns))"

lemma next_answer_split:
  assumes "\<forall>n\<in>set xs. 0 < node_cmp s d n" and "\<forall>n\<in>set ys. node_cmp s d n < 0"
  shows "next_answer s d (xs @ ys) (first_of ys)"
proof -
  have "filter (\<lambda>n. node_cmp s d n < 0) xs = []" using assms(1) by (auto simp: filter_empty_conv)
  moreover have "filter (\<lambda>n. node_cmp s d n < 0) ys = ys" using assms(2) by (auto simp: filter_id_conv)
  ultimately show ?thesis using assms by (force simp: next_answer_def)
qed

lemma prev_answer_split:
  assumes "\<forall>n\<in>set xs. 0 < node_cmp s d n" and "\<forall>n\<in>set ys. node_cmp s d n < 0"
  shows "prev_answer s d (xs @ ys) (first_of (rev xs))"
proof -
  have "filter (\<lambda>n. 0 < node_cmp s d n) (rev ys) = []" using assms(2) by (auto simp: filter_empty_conv)
  moreover have "filter (\<lambda>n. 0 < node_cmp s d n) (rev xs) = rev xs" using assms(1) by (auto simp: filter_id_conv)
  ultimately show ?thesis using assms by (force simp: prev_answer_def)
qed

lemma getexactornext_loop_ok:
  assumes "rb_tree s (plug t k)" and "t \<noteq> Leaf" and "search_ok s d (inorder (plug t k))"
    and "\<forall>n\<in>set (before k). 0 < node_cmp s d n" and "\<forall>n\<in>set (after k). node_cmp s d n < 0"
  shows "\<exists>r. getexactornext_loop s d (root_ptr t) = Some r \<and> next_answer s d (inorder (plug t k)) r"
  using assms
proof (induction t arbitrary: k)
  case Leaf
  then show ?case by simp
next
  case (Node l a r)
  note links = rb_tree_links [OF Node.prems(1)]
  have p: "search_ok s d ((before k @ inorder l) @ a # (inorder r @ after k))"
    using Node.prems(3) by (simp add: inorder_plug)
  note mid = search_ok_mid [OF p]
  consider "node_cmp s d a = 0" | "node_cmp s d a < 0" | "0 < node_cmp s d a" by linarith
  then show ?case
  proof cases
    case 1
    then show ?thesis using links mid(1)
      by (subst getexactornext_loop.simps) (simp add: NIL_def next_answer_def inorder_plug)
  next
    case 2
    have aft: "\<forall>n\<in>set (after (WentLeft a r # k)). node_cmp s d n < 0" using mid(2) [OF 2] 2 by auto
    show ?thesis
    proof (cases "l = Leaf")
      case True
      then have "getexactornext_loop s d a = Some a"
        using 2 links mid(1) by (subst getexactornext_loop.simps) (simp add: NIL_def)
      moreover have "next_answer s d (inorder (plug (Node l a r) k)) a"
        using next_answer_split [OF Node.prems(4) aft] True by (simp add: inorder_plug)
      ultimately show ?thesis by simp
    next
      case False
      then have "root_ptr l \<noteq> 0" using Node.prems(1) by (cases l) (auto simp: rb_tree_focus)
      then have "getexactornext_loop s d a = getexactornext_loop s d (root_ptr l)"
        using 2 links mid(1) by (subst getexactornext_loop.simps) (simp add: NIL_def)
      then show ?thesis
        using Node.IH(1) [of "WentLeft a r # k"] Node.prems aft False by simp
    qed
  next
    case 3
    have bef: "\<forall>n\<in>set (before (WentRight l a # k)). 0 < node_cmp s d n" using mid(3) [OF 3] 3 by auto
    show ?thesis
    proof (cases "r = Leaf")
      case True
      then have "getexactornext_loop s d a = climb_right_loop s a (up k)"
        using 3 links mid(1) by (subst getexactornext_loop.simps) (simp add: NIL_def)
      also have "\<dots> = Some (first_of (after k))"
        using Node.prems(1) links(1) by (intro climb_right_ok) (auto simp: rb_tree_focus)
      finally show ?thesis
        using next_answer_split [OF bef Node.prems(5)] True by (simp add: inorder_plug)
    next
      case False
      then have "root_ptr r \<noteq> 0" using Node.prems(1) by (cases r) (auto simp: rb_tree_focus)
      then have "getexactornext_loop s d a = getexactornext_loop s d (root_ptr r)"
        using 3 links mid(1) by (subst getexactornext_loop.simps) (simp add: NIL_def)
      then show ?thesis
        using Node.IH(2) [of "WentRight l a # k"] Node.prems bef False by simp
    qed
  qed
qed

lemma getexactorprev_loop_ok:
  assumes "rb_tree s (plug t k)" and "t \<noteq> Leaf" and "search_ok s d (inorder (plug t k))"
    and "\<forall>n\<in>set (before k). 0 < node_cmp s d n" and "\<forall>n\<in>set (after k). node_cmp s d n < 0"
  shows "\<exists>r. getexactorprev_loop s d (root_ptr t) = Some r \<and> prev_answer s d (inorder (plug t k)) r"
  using assms
proof (induction t arbitrary: k)
  case Leaf
  then show ?case by simp
next
  case (Node l a r)
  note links = rb_tree_links [OF Node.prems(1)]
  have p: "search_ok s d ((before k @ inorder l) @ a # (inorder r @ after k))"
    using Node.prems(3) by (simp add: inorder_plug)
  note mid = search_ok_mid [OF p]
  consider "node_cmp s d a = 0" | "node_cmp s d a < 0" | "0 < node_cmp s d a" by linarith
  then show ?case
  proof cases
    case 1
    then show ?thesis using links mid(1)
      by (subst getexactorprev_loop.simps) (simp add: NIL_def prev_answer_def inorder_plug)
  next
    case 2
    have aft: "\<forall>n\<in>set (after (WentLeft a r # k)). node_cmp s d n < 0" using mid(2) [OF 2] 2 by auto
    show ?thesis
    proof (cases "l = Leaf")
      case True
      then have "getexactorprev_loop s d a = climb_left_loop s a (up k)"
        using 2 links mid(1) by (subst getexactorprev_loop.simps) (simp add: NIL_def)
      also have "\<dots> = Some (first_of (rev (before k)))"
        using Node.prems(1) links(1) by (intro climb_left_ok) (auto simp: rb_tree_focus)
      finally show ?thesis
        using prev_answer_split [OF Node.prems(4) aft] True by (simp add: inorder_plug)
    next
      case False
      then have "root_ptr l \<noteq> 0" using Node.prems(1) by (cases l) (auto simp: rb_tree_focus)
      then have "getexactorprev_loop s d a = getexactorprev_loop s d (root_ptr l)"
        using 2 links mid(1) by (subst getexactorprev_loop.simps) (simp add: NIL_def)
      then show ?thesis
        using Node.IH(1) [of "WentLeft a r # k"] Node.prems aft False by simp
    qed
  next
    case 3
    have bef: "\<forall>n\<in>set (before (WentRight l a # k)). 0 < node_cmp s d n" using mid(3) [OF 3] 3 by auto
    show ?thesis
    proof (cases "r = Leaf")
      case True
      then have "getexactorprev_loop s d a = Some a"
        using 3 links mid(1) by (subst getexactorprev_loop.simps) (simp add: NIL_def)
      moreover have "prev_answer s d (inorder (plug (Node l a r) k)) a"
        using prev_answer_split [OF bef Node.prems(5)] True by (simp add: inorder_plug)
      ultimately show ?thesis by simp
    next
      case False
      then have "root_ptr r \<noteq> 0" using Node.prems(1) by (cases r) (auto simp: rb_tree_focus)
      then have "getexactorprev_loop s d a = getexactorprev_loop s d (root_ptr r)"
        using 3 links mid(1) by (subst getexactorprev_loop.simps) (simp add: NIL_def)
      then show ?thesis
        using Node.IH(2) [of "WentRight l a # k"] Node.prems bef False by simp
    qed
  qed
qed

end
