(* ===== verification/RbApi.thy ===== *)
theory RbApi
  imports RbTable
begin

text \<open>
  The public operations of the red-black tree on a table that holds a sorted sequence of
  nodes: lookups answer from the sequence, \<open>std_rbtree_insert\<close> inserts behind the equal keys,
  \<open>std_rbtree_remove\<close> takes one equal node out, and both keep the table well formed.
\<close>

section \<open>Lookups on a well-formed table\<close>

lemma rb_table_search:
  assumes "rb_table s ns" and "key_order keys (compare_val s)" and "d \<noteq> 0"
  shows "search_ok s d ns"
  using assms by (auto simp: rb_table_def search_ok_def keys_def)

lemma rb_table_tree:
  assumes "rb_table s ns"
  obtains t where "rb_tree s t" "rbt_ok (rbt_color s) t" "cl (rbt_color s) t = RBT_BLACK" "inorder t = ns"
    "rbtt_root s = root_ptr t" "linked (rbt_left s) (rbt_right s) (rbt_parent s) 0 t"
  using assms unfolding rb_table_def rb_tree_def heap_tree_def by blast

lemma rb_table_check: "rb_table s ns \<Longrightarrow> RBT_DEBUG_CHECK s b \<longleftrightarrow> (rbtt_debug s \<longrightarrow> b)"
  by (simp add: rb_table_def RBT_DEBUG_CHECK_def)

lemma rb_table_distinct: "rb_table s ns \<Longrightarrow> distinct ns \<and> 0 \<notin> set ns"
  using linked_nonzero by (fastforce simp: rb_table_def rb_tree_def heap_tree_def)

lemma rb_table_root: "rb_table s ns \<Longrightarrow> rbtt_root s = 0 \<longleftrightarrow> ns = []"
  by (erule rb_table_tree) auto

lemma first_of_hd: "xs \<noteq> [] \<Longrightarrow> first_of xs = hd xs"
  by (cases xs) auto

lemma getfirst_node_ok:
  assumes "rb_table s ns"
  shows "std_rbtree_getfirst_node s = Some (node_or_null (first_of ns))"
proof -
  obtain t where t: "inorder t = ns" "rbtt_root s = root_ptr t"
    "linked (rbt_left s) (rbt_right s) (rbt_parent s) 0 t"
    using assms by (rule rb_table_tree)
  show ?thesis
  proof (cases "t = Leaf")
    case True
    with t show ?thesis using assms
      by (simp add: std_rbtree_getfirst_node_def rb_table_check NIL_def node_or_null_def)
  next
    case False
    then have "root_ptr t \<noteq> 0" using linked_root_zero [OF t(3)] by blast
    moreover have "hd ns = first_of ns" using False t(1) by (intro first_of_hd [symmetric]) auto
    ultimately show ?thesis using t(1,2) leftmost_loop_ok [OF t(3) False] rb_table_check [OF assms]
      by (simp add: std_rbtree_getfirst_node_def NIL_def Let_def)
  qed
qed

lemma getnext_node_ok:
  assumes "rb_table s (xs @ x # ys)"
  shows "std_rbtree_getnext_node s (Some x) = Some (node_or_null (first_of ys))"
proof -
  obtain t where t: "rb_tree s t" "inorder t = xs @ x # ys" using assms by (rule rb_table_tree)
  have "distinct (inorder t)" using t(1) by (simp add: rb_tree_def heap_tree_def)
  then obtain l r k where f: "t = plug (Node l x r) k" and ys: "ys = inorder r @ after k"
    using t(2) focus_at by metis
  have tree: "rb_tree s (plug (Node l x r) k)" using t(1) f by simp
  note links = rb_tree_links [OF tree]
  show ?thesis
  proof (cases "r = Leaf")
    case True
    have "climb_right_loop s x (up k) = Some (first_of (after k))"
      using tree links(1) by (intro climb_right_ok) (auto simp: rb_tree_focus)
    then show ?thesis using True links ys rb_table_check [OF assms]
      by (simp add: std_rbtree_getnext_node_def NIL_def)
  next
    case False
    have lr: "linked (rbt_left s) (rbt_right s) (rbt_parent s) x r" using tree by (simp add: rb_tree_focus)
    have "leftmost_loop s (root_ptr r) = Some (hd (inorder r))" by (rule leftmost_loop_ok [OF lr False])
    moreover have "root_ptr r \<noteq> 0" using lr False by (cases r) auto
    ultimately show ?thesis using False links ys rb_table_check [OF assms]
      by (simp add: std_rbtree_getnext_node_def NIL_def first_of_hd hd_append)
  qed
qed

lemma getexact_node_ok:
  assumes "rb_table s ns" and "key_order keys (compare_val s)" and "d \<noteq> 0"
  shows "\<exists>r. std_rbtree_getexact_node s d = Some r \<and> (case r of
      None \<Rightarrow> \<forall>n\<in>set ns. node_cmp s d n \<noteq> 0 | Some n \<Rightarrow> n \<in> set ns \<and> node_cmp s d n = 0)"
proof -
  obtain t where t: "inorder t = ns" "rbtt_root s = root_ptr t"
    "linked (rbt_left s) (rbt_right s) (rbt_parent s) 0 t"
    using assms(1) by (rule rb_table_tree)
  from getexact_loop_ok [OF t(3)] rb_table_search [OF assms] t(1)
  obtain r where r: "getexact_loop s d (root_ptr t) = Some r"
    "if r = 0 then \<forall>n\<in>set_tree t. node_cmp s d n \<noteq> 0 else r \<in> set_tree t \<and> node_cmp s d r = 0"
    by blast
  have "set_tree t = set ns" using t(1) by auto
  with r show ?thesis using t(2) rb_table_check [OF assms(1)] assms(3)
    by (auto simp: std_rbtree_getexact_node_def node_or_null_def NIL_def)
qed

lemma getexactornext_node_ok:
  assumes "rb_table s ns" and "key_order keys (compare_val s)" and "d \<noteq> 0"
  shows "\<exists>r. std_rbtree_getexactornext_node s d = Some (node_or_null r) \<and> next_answer s d ns r"
proof -
  obtain t where t: "inorder t = ns" "rbtt_root s = root_ptr t" "rb_tree s t"
    using assms(1) by (rule rb_table_tree)
  have c: "RBT_DEBUG_CHECK s (d \<noteq> 0)" using rb_table_check [OF assms(1)] assms(3) by simp
  show ?thesis
  proof (cases "t = Leaf")
    case True
    then have "getexactornext_loop s d (root_ptr t) = Some 0"
      by (subst getexactornext_loop.simps) (simp add: NIL_def)
    then show ?thesis using True t c
      by (auto simp: std_rbtree_getexactornext_node_def next_answer_def)
  next
    case False
    with getexactornext_loop_ok [of s t "[]" d] t rb_table_search [OF assms] c show ?thesis
      by (auto simp: std_rbtree_getexactornext_node_def)
  qed
qed

lemma getexactorprev_node_ok:
  assumes "rb_table s ns" and "key_order keys (compare_val s)" and "d \<noteq> 0"
  shows "\<exists>r. std_rbtree_getexactorprev_node s d = Some (node_or_null r) \<and> prev_answer s d ns r"
proof -
  obtain t where t: "inorder t = ns" "rbtt_root s = root_ptr t" "rb_tree s t"
    using assms(1) by (rule rb_table_tree)
  have c: "RBT_DEBUG_CHECK s (d \<noteq> 0)" using rb_table_check [OF assms(1)] assms(3) by simp
  show ?thesis
  proof (cases "t = Leaf")
    case True
    then have "getexactorprev_loop s d (root_ptr t) = Some 0"
      by (subst getexactorprev_loop.simps) (simp add: NIL_def)
    then show ?thesis using True t c
      by (auto simp: std_rbtree_getexactorprev_node_def prev_answer_def)
  next
    case False
    with getexactorprev_loop_ok [of s t "[]" d] t rb_table_search [OF assms] c show ?thesis
      by (auto simp: std_rbtree_getexactorprev_node_def)
  qed
qed

section \<open>Insertion\<close>

lemma insert_descend_ok:
  assumes "rb_tree s (plug t k)" and "search_ok s (rbt_data s z) (inorder (plug t k))"
    and "\<forall>n\<in>set (before k). 0 \<le> node_cmp s (rbt_data s z) n"
    and "\<forall>n\<in>set (after k). node_cmp s (rbt_data s z) n < 0"
  shows "\<exists>k'. insert_descend_loop s z (root_ptr t) (up k) = Some (up k') \<and> plug Leaf k' = plug t k
      \<and> (\<forall>n\<in>set (before k'). 0 \<le> node_cmp s (rbt_data s z) n)
      \<and> (\<forall>n\<in>set (after k'). node_cmp s (rbt_data s z) n < 0)"
  using assms
proof (induction t arbitrary: k)
  case Leaf
  then show ?case by (subst insert_descend_loop.simps) (auto simp: NIL_def)
next
  case (Node l a r)
  note links = rb_tree_links [OF Node.prems(1)]
  have "search_ok s (rbt_data s z) ((before k @ inorder l) @ a # (inorder r @ after k))"
    using Node.prems(2) by (simp add: inorder_plug)
  note mid = search_ok_mid [OF this]
  show ?case
  proof (cases "node_cmp s (rbt_data s z) a < 0")
    case True
    then have "insert_descend_loop s z a (up k) = insert_descend_loop s z (root_ptr l) (up (WentLeft a r # k))"
      using links mid(1) by (subst insert_descend_loop.simps) (simp add: NIL_def RBT_IS_LESS_def)
    moreover have "\<forall>n\<in>set (after (WentLeft a r # k)). node_cmp s (rbt_data s z) n < 0"
      using mid(2) [OF True] True by auto
    ultimately show ?thesis using Node.IH(1) [of "WentLeft a r # k"] Node.prems by simp
  next
    case False
    then have "insert_descend_loop s z a (up k) = insert_descend_loop s z (root_ptr r) (up (WentRight l a # k))"
      using links mid(1) by (subst insert_descend_loop.simps) (simp add: NIL_def RBT_IS_LESS_def)
    moreover have "\<forall>n\<in>set (before (WentRight l a # k)). 0 \<le> node_cmp s (rbt_data s z) n"
      using mid(4) False by auto
    ultimately show ?thesis using Node.IH(2) [of "WentRight l a # k"] Node.prems by simp
  qed
qed

lemma insert_link_ok:
  assumes tree: "rb_tree s (plug Leaf k)" and z: "z \<noteq> 0" "z \<notin> ctxt_set k"
    and ok: "search_ok s (rbt_data s z) (inorder (plug Leaf k))"
    and bef: "\<forall>n\<in>set (before k). 0 \<le> node_cmp s (rbt_data s z) n"
    and aft: "\<forall>n\<in>set (after k). node_cmp s (rbt_data s z) n < 0"
  shows "\<exists>s'. insert_link s z (up k) = Some s' \<and> rb_tree s' (plug (Node Leaf z Leaf) k) \<and> rb_rest s' = rb_rest s
      \<and> rbt_color s' = rbt_color s"
proof -
  let ?s = "set_left z NIL (set_right z NIL (set_parent z (up k) s))"
  have tree': "klinked (rbt_left s) (rbt_right s) (rbt_parent s) (rbtt_root s) 0 k" "distinct (before k @ after k)"
    using tree by (simp_all add: rb_tree_focus)
  have k: "klinked (rbt_left ?s) (rbt_right ?s) (rbt_parent ?s) (rbtt_root ?s) 0 k"
    using tree'(1) z(2) by (simp add: frame_simps)
  show ?thesis
  proof (cases k rule: up.cases)
    case 1
    then show ?thesis using z
      by (intro exI [of _ "?s\<lparr>rbtt_root := z\<rparr>"]) (simp add: insert_link_def Let_def NIL_def rb_tree_def heap_tree_def)
  next
    case (2 a r k')
    have "search_ok s (rbt_data s z) (before k' @ a # (inorder r @ after k'))" using ok 2 by (simp add: inorder_plug)
    from search_ok_mid(1) [OF this] have less: "RBT_IS_LESS ?s (rbt_data s z) (rbt_data s a) = Some True"
      using aft 2 by (simp add: RBT_IS_LESS_def)
    have "a \<noteq> 0" using k 2 by simp
    then show ?thesis using 2 less k z tree'(2)
      by (intro exI [of _ "set_left a z ?s"])
        (auto simp: insert_link_def Let_def NIL_def rb_tree_focus frame_simps ctxt_set_def)
  next
    case (3 l a k')
    have "search_ok s (rbt_data s z) ((before k' @ inorder l) @ a # after k')" using ok 3 by (simp add: inorder_plug)
    from search_ok_mid(1) [OF this] have less: "RBT_IS_LESS ?s (rbt_data s z) (rbt_data s a) = Some False"
      using bef 3 by (simp add: RBT_IS_LESS_def)
    have "a \<noteq> 0" using k 3 by simp
    then show ?thesis using 3 less k z tree'(2)
      by (intro exI [of _ "set_right a z ?s"])
        (auto simp: insert_link_def Let_def NIL_def rb_tree_focus frame_simps ctxt_set_def)
  qed
qed

lemma rb_rest_compare:
  assumes "rb_rest s' = rb_rest s"
  shows "call_compare s' = call_compare s"
  by (rule call_compare_cong) (rule rb_rest_fields [OF assms])+

lemma insert_node_ok:
  assumes tab: "rb_table s ns" and ko: "key_order keys (compare_val s)"
    and z: "z \<noteq> 0" "z \<notin> set ns" "rbt_data s z \<noteq> 0"
  shows "\<exists>s' ns'. std_rbtree_insert_node s z = Some (s', z) \<and> rb_table s' ns'
      \<and> map (rbt_data s) ns' = insert_after (compare_val s) (rbt_data s z) (map (rbt_data s) ns)
      \<and> set ns' = insert z (set ns)
      \<and> rb_rest s' = rb_rest (s\<lparr>rbtt_numinserts := rbtt_numinserts s + 1, rbtt_numinodes := rbtt_numinodes s + 1\<rparr>)"
proof -
  obtain t where t: "rb_tree s t" "rbt_ok (rbt_color s) t" "cl (rbt_color s) t = RBT_BLACK" "inorder t = ns"
    "rbtt_root s = root_ptr t"
    using tab by (rule rb_table_tree)
  let ?d = "rbt_data s z"
  have ok: "search_ok s ?d ns" using rb_table_search [OF tab ko z(3)] .
  have nil: "rbt_color s 0 = RBT_BLACK" using tab by (simp add: rb_table_def)
  from insert_descend_ok [of s t "[]" z] t ok obtain k where
    k: "insert_descend_loop s z (root_ptr t) 0 = Some (up k)" "plug Leaf k = t"
      "\<forall>n\<in>set (before k). 0 \<le> node_cmp s ?d n" "\<forall>n\<in>set (after k). node_cmp s ?d n < 0"
    by auto
  have ns: "ns = before k @ after k" using t(4) k(2) inorder_plug [of Leaf k] by auto
  then have zk: "z \<notin> ctxt_set k" using z(2) by (auto simp: ctxt_set_def)
  from insert_link_ok [of s k z] t(1,4) k z zk ok obtain s1 where
    l: "insert_link s z (up k) = Some s1" "rb_tree s1 (plug (Node Leaf z Leaf) k)" "rb_rest s1 = rb_rest s"
      "rbt_color s1 = rbt_color s"
    by auto
  have "kok (rbt_color s1) 0 RBT_BLACK k"
    using rbt_ok_plug [of "rbt_color s" Leaf k] t(2,3) k(2) l(4) by simp
  from balanceoninsert_ok [OF l(2) this] nil l(4) obtain s2 t2 where
    b: "std_rbtree_balanceoninsert s1 z = Some s2" "rb_tree s2 t2" "rbt_ok (rbt_color s2) t2"
      "cl (rbt_color s2) t2 = RBT_BLACK" "rbt_color s2 0 = RBT_BLACK" "inorder t2 = before k @ z # after k"
      "rb_rest s2 = rb_rest s"
    using l(3) by auto
  let ?s' = "s2\<lparr>rbtt_numinserts := rbtt_numinserts s2 + 1, rbtt_numinodes := rbtt_numinodes s2 + 1\<rparr>"
  let ?ns = "before k @ z # after k"
  note rest = rb_rest_fields [OF b(7)]
  have cmp: "compare_val ?s' = compare_val s"
    by (rule compare_val_cong) (simp add: rb_rest_compare [OF b(7)])
  have data: "map (rbt_data s) ?ns = insert_after (compare_val s) ?d (map (rbt_data s) ns)"
    using insert_after_split [of "map (rbt_data s) (before k)" "compare_val s" ?d "map (rbt_data s) (after k)"] k(3,4)
    by (simp add: ns)
  have sorted: "key_sorted (compare_val s) (map (rbt_data s) ?ns)"
    unfolding data using tab z(3)
    by (intro key_order.sorted_insert_after [OF ko]) (auto simp: rb_table_def keys_def)
  have "rb_table ?s' ?ns"
    unfolding rb_table_def cmp
    using b tab rest sorted z ns
    by (auto simp: rb_table_def keys_def rb_tree_def intro!: exI [of _ t2])
  moreover have "std_rbtree_insert_node s z = Some (?s', z)"
    using rb_table_check [OF tab] t(5) k(1) l(1) b(1)
    by (simp add: std_rbtree_insert_node_def NIL_def)
  moreover have "rb_rest ?s' = rb_rest (s\<lparr>rbtt_numinserts := rbtt_numinserts s + 1, rbtt_numinodes := rbtt_numinodes s + 1\<rparr>)"
    using b(7) rest by simp
  ultimately show ?thesis using data ns by (intro exI [of _ ?s'] exI [of _ ?ns]) auto
qed

text \<open>The allocation and the data of a new node do not disturb the table.\<close>

lemma rb_table_new_node:
  assumes "rb_table s ns" and "z \<notin> set ns"
  shows "rb_table (set_data z d (s\<lparr>rbtt_nummallocs := n\<rparr>)) ns"
    and "compare_val (set_data z d (s\<lparr>rbtt_nummallocs := n\<rparr>)) = compare_val s"
proof -
  show cmp: "compare_val (set_data z d (s\<lparr>rbtt_nummallocs := n\<rparr>)) = compare_val s"
    by (rule compare_val_cong) simp
  have "rb_tree (set_data z d (s\<lparr>rbtt_nummallocs := n\<rparr>)) t = rb_tree s t" for t by (simp add: rb_tree_def)
  moreover have "map ((rbt_data s)(z := d)) ns = map (rbt_data s) ns" by (rule map_fun_upd [OF assms(2)])
  moreover have "((rbt_data s)(z := d)) ` set ns = rbt_data s ` set ns"
    using assms(2) by (intro image_cong) auto
  ultimately show "rb_table (set_data z d (s\<lparr>rbtt_nummallocs := n\<rparr>)) ns"
    using assms(1) unfolding rb_table_def cmp by (simp del: map_eq_conv map_fun_upd fun_upd_image)
qed

lemma rb_insert_ok:
  assumes tab: "rb_table s ns" and ko: "key_order keys (compare_val s)"
    and z: "z \<noteq> 0" "z \<notin> set ns" and d: "d \<noteq> 0"
  shows "\<exists>s' ns'. std_rbtree_insert s d (Some z) err = Some (s', STD_ERR_OK) \<and> rb_table s' ns'
      \<and> map (rbt_data s') ns' = insert_after (compare_val s) d (map (rbt_data s) ns)
      \<and> set ns' = insert z (set ns) \<and> compare_val s' = compare_val s
      \<and> rbtt_numinserts s' = rbtt_numinserts s + 1 \<and> rbtt_nummallocs s' = rbtt_nummallocs s + 1"
proof -
  let ?s = "set_data z d (s\<lparr>rbtt_nummallocs := rbtt_nummallocs s + 1\<rparr>)"
  note new = rb_table_new_node [OF tab z(2), of "rbtt_nummallocs s + 1" d]
  have ko': "key_order keys (compare_val ?s)" using ko unfolding new(2) .
  have d': "rbt_data ?s z \<noteq> 0" using d by simp
  from insert_node_ok [OF new(1) ko' z d'] obtain s' ns' where
    i: "std_rbtree_insert_node ?s z = Some (s', z)" "rb_table s' ns'"
      "map (rbt_data ?s) ns' = insert_after (compare_val ?s) (rbt_data ?s z) (map (rbt_data ?s) ns)"
      "set ns' = insert z (set ns)"
      "rb_rest s' = rb_rest (?s\<lparr>rbtt_numinserts := rbtt_numinserts ?s + 1, rbtt_numinodes := rbtt_numinodes ?s + 1\<rparr>)"
    by blast
  note rest = rb_rest_fields [OF i(5)]
  have m: "map (rbt_data ?s) ns = map (rbt_data s) ns" using z(2) by auto
  have "map (rbt_data s') ns' = insert_after (compare_val s) d (map (rbt_data s) ns)"
    using i(3) unfolding rest(1) new(2) m by simp
  moreover have "compare_val s' = compare_val s"
    by (rule compare_val_cong) (simp add: rb_rest_compare [OF i(5)])
  moreover have "std_rbtree_insert s d (Some z) err = Some (s', STD_ERR_OK)"
    using rb_table_check [OF tab] d i(1) by (simp add: std_rbtree_insert_def Let_def)
  moreover have "rbtt_numinserts s' = rbtt_numinserts s + 1" "rbtt_nummallocs s' = rbtt_nummallocs s + 1"
    using rest(9,11) by simp_all
  ultimately show ?thesis using i(2,4) by blast
qed

section \<open>Removal\<close>

lemma bh_black_root:
  "distinct (inorder t) \<Longrightarrow> bh (black_root c t) t = bh c t + (if cl c t = RBT_RED then 1 else 0)"
  by (cases t) (auto simp: black_root_def frame_simps)

lemma leftmost_focus:
  "r \<noteq> Leaf \<Longrightarrow> \<exists>y yr k. r = plug (Node Leaf y yr) k \<and> before k = [] \<and> y = hd (inorder r)"
proof (induction r)
  case (Node l a b)
  show ?case
  proof (cases "l = Leaf")
    case True
    then show ?thesis by (intro exI [of _ a] exI [of _ b] exI [of _ "[]"]) simp
  next
    case False
    then obtain y yr k where "l = plug (Node Leaf y yr) k" "before k = []" "y = hd (inorder l)"
      using Node.IH(1) by blast
    then show ?thesis using False
      by (intro exI [of _ y] exI [of _ yr] exI [of _ "k @ [WentLeft a b]"])
        (auto simp: plug_append hd_append before_append)
  qed
qed simp

lemma remove_splice_ok:
  assumes tree: "rb_tree s (plug (Node l y r) k)" and c: "l = Leaf \<and> c = r \<or> r = Leaf \<and> c = l"
  shows "\<exists>s'. remove_splice s y = (s', root_ptr c) \<and> rb_tree s' (plug c k) \<and> rbt_parent s' (root_ptr c) = up k
      \<and> rb_rest s' = rb_rest s \<and> rbt_color s' = rbt_color s"
proof -
  let ?L = "rbt_left s" and ?R = "rbt_right s" and ?P = "rbt_parent s" and ?rt = "rbtt_root s"
  note links = rb_tree_links [OF tree]
  have k: "klinked ?L ?R ?P ?rt y k" and d: "distinct (before k @ after k)" and lin: "linked ?L ?R ?P y c"
    and dc: "distinct (inorder c)" and y: "y \<notin> ctxt_set k" "y \<notin> set_tree c" and ck: "set_tree c \<inter> ctxt_set k = {}"
    using tree c unfolding rb_tree_focus by auto
  have c0: "root_ptr c \<noteq> 0 \<Longrightarrow> root_ptr c \<in> set_tree c" by (cases c) auto
  have k0: "0 \<notin> ctxt_set k" using k by (rule klinked_nonzero)
  have rc: "root_ptr c \<notin> ctxt_set k" "root_ptr c \<noteq> y"
    using c0 ck k0 y links(1) by (cases "root_ptr c = 0"; auto)+
  have x: "(if ?L y \<noteq> NIL then ?L y else ?R y) = root_ptr c"
    using links c tree by (auto simp: NIL_def rb_tree_focus)
  have upc: "up k \<notin> set_tree c"
    using klinked_up_in [of k] ck linked_nonzero [OF lin] by (cases "k = []") auto
  let ?L' = "if up k \<noteq> 0 \<and> ?L (up k) = y then ?L(up k := root_ptr c) else ?L"
  let ?R' = "if up k \<noteq> 0 \<and> ?L (up k) \<noteq> y then ?R(up k := root_ptr c) else ?R"
  let ?s = "s\<lparr>rbt_left := ?L', rbt_right := ?R', rbt_parent := ?P(root_ptr c := up k),
      rbtt_root := if up k = 0 then root_ptr c else ?rt\<rparr>"
  have eq: "remove_splice s y = (?s, root_ptr c)"
    unfolding remove_splice_def x using links(2) rc(2)
    by (cases "up k = 0"; cases "?L (up k) = y") (simp_all add: NIL_def Let_def)
  have "klinked ?L' ?R' (?P(root_ptr c := up k)) (if up k = 0 then root_ptr c else ?rt) (root_ptr c) k"
    using klinked_replace [OF k links(1) y(1) d rc(1)] rc(1) by (simp add: frame_simps)
  moreover have "linked ?L' ?R' (?P(root_ptr c := up k)) (up k) c"
    using linked_reparent_upd [OF lin dc, of "up k"] upc by (auto simp: linked_upd)
  ultimately have "rb_tree ?s (plug c k)"
    unfolding rb_tree_focus using d dc ck by simp
  with eq show ?thesis by (intro exI [of _ ?s]) simp
qed

text \<open>Putting \<open>y\<close>, a node outside the tree, into the place of \<open>z\<close>.\<close>

lemma remove_replace_ok:
  assumes tree: "rb_tree s (plug (Node l z r) k)" and y: "y \<noteq> 0" "y \<notin> set_tree (plug (Node l z r) k)"
  shows "\<exists>s'. remove_replace s z y = s' \<and> rb_tree s' (plug (Node l y r) k) \<and> rb_rest s' = rb_rest s
      \<and> rbt_color s' = (rbt_color s)(y := rbt_color s z)"
proof -
  let ?L = "rbt_left s" and ?R = "rbt_right s" and ?P = "rbt_parent s" and ?rt = "rbtt_root s"
  note links = rb_tree_links [OF tree]
  have k: "klinked ?L ?R ?P ?rt z k" and d: "distinct (before k @ after k)" and lin: "linked ?L ?R ?P z l" "linked ?L ?R ?P z r"
    and dn: "distinct (inorder l)" "distinct (inorder r)" "set_tree l \<inter> set_tree r = {}"
    and zk: "z \<notin> ctxt_set k" "z \<notin> set_tree l" "z \<notin> set_tree r" and ck: "(set_tree l \<union> set_tree r) \<inter> ctxt_set k = {}"
    using tree unfolding rb_tree_focus by auto
  have yk: "y \<noteq> z" "y \<notin> ctxt_set k" "y \<notin> set_tree l" "y \<notin> set_tree r" using y(2) by (auto simp: set_tree_plug)
  have k0: "0 \<notin> ctxt_set k" using k by (rule klinked_nonzero)
  have root: "?rt = z \<longleftrightarrow> up k = 0" using rb_tree_root [OF tree] klinked_up_nonzero [OF k] by simp
  have l0: "root_ptr l \<noteq> 0 \<Longrightarrow> root_ptr l \<in> set_tree l" and r0: "root_ptr r \<noteq> 0 \<Longrightarrow> root_ptr r \<in> set_tree r"
    by (cases l; simp) (cases r; simp)
  have up: "up k \<noteq> y" "up k \<noteq> z" "up k \<notin> set_tree l" "up k \<notin> set_tree r"
    using klinked_up_in [of k] ck zk(1) yk(2) y(1) links(1) linked_nonzero [OF lin(1)] linked_nonzero [OF lin(2)]
    by (cases "k = []"; auto)+
  let ?Ly = "?L(y := root_ptr l)" and ?Ry = "?R(y := root_ptr r)"
  define L' where L': "L' = (if up k \<noteq> 0 \<and> ?L (up k) = z then ?Ly(up k := y) else ?Ly)"
  define R' where R': "R' = (if up k \<noteq> 0 \<and> ?L (up k) \<noteq> z then ?Ry(up k := y) else ?Ry)"
  define Q where Q: "Q = (if root_ptr l \<noteq> 0 then (?P(y := up k))(root_ptr l := y) else ?P(y := up k))"
  define P' where P': "P' = (if root_ptr r \<noteq> 0 then Q(root_ptr r := y) else Q)"
  note upd = L' R' Q P'
  let ?s = "s\<lparr>rbt_left := L', rbt_right := R', rbt_parent := P', rbt_color := (rbt_color s)(y := rbt_color s z),
      rbtt_root := if up k = 0 then y else ?rt\<rparr>"
  have ne: "root_ptr l \<noteq> y" "root_ptr r \<noteq> y" using l0 r0 yk y(1) by (metis)+
  let ?u = "s\<lparr>rbt_left := L', rbt_right := R', rbt_parent := ?P(y := up k),
      rbt_color := (rbt_color s)(y := rbt_color s z), rbtt_root := if up k = 0 then y else ?rt\<rparr>"
  have "remove_relink s z y = ?u"
    using links root up yk(1) unfolding remove_relink_def
    by (cases "up k = 0"; cases "?L (up k) = z") (simp_all add: NIL_def Let_def L' R')
  moreover have "L' y = root_ptr l" "R' y = root_ptr r" using up by (auto simp: L' R')
  then have "remove_adopt ?u y = ?s"
    unfolding remove_adopt_def
    by (cases "root_ptr l = 0"; cases "root_ptr r = 0") (simp_all add: NIL_def Let_def P' Q)
  ultimately have eq: "remove_replace s z y = ?s" by (simp add: remove_replace_def)
  have out: "root_ptr l \<noteq> 0 \<Longrightarrow> root_ptr l \<notin> ctxt_set k" "root_ptr r \<noteq> 0 \<Longrightarrow> root_ptr r \<notin> ctxt_set k"
    using l0 r0 ck by auto
  have "klinked L' R' P' (if up k = 0 then y else ?rt) y k"
    using klinked_replace [OF k links(1) zk(1) d yk(2)]
    by (rule iffD1 [OF klinked_cong, rotated]) (use out yk(2) in \<open>auto simp: upd\<close>)
  moreover have "linked L' R' P' y l"
    using linked_reparent [OF lin(1) dn(1), of y]
    by (rule iffD1 [OF linked_cong, rotated]) (use l0 r0 dn(3) up yk(3) in \<open>auto simp: upd\<close>)
  moreover have "linked L' R' P' y r"
    using linked_reparent [OF lin(2) dn(2), of y]
    by (rule iffD1 [OF linked_cong, rotated]) (use l0 r0 dn(3) up yk(4) in \<open>auto simp: upd\<close>)
  moreover have "P' y = up k" "L' y = root_ptr l" "R' y = root_ptr r" using ne up by (auto simp: upd)
  moreover have "distinct (inorder (Node l y r))" "set_tree (Node l y r) \<inter> ctxt_set k = {}"
    using dn ck yk by auto
  ultimately have "rb_tree ?s (plug (Node l y r) k)"
    using d y(1) by (intro rb_tree_focusI) simp_all
  with eq show ?thesis by (intro exI [of _ ?s]) simp
qed

text \<open>Unlinking a node with at most one child, and rebalancing.\<close>

lemma remove_unlink_ok:
  assumes tree: "rb_tree s (plug (Node l y r) k)" and leaf: "l = Leaf \<or> r = Leaf"
    and ok: "rbt_ok (rbt_color s) (plug (Node l y r) k)" "cl (rbt_color s) (plug (Node l y r) k) = RBT_BLACK"
    and nil: "rbt_color s 0 = RBT_BLACK"
  shows "\<exists>s1 x s2 T. remove_splice s y = (s1, x) \<and> rbt_color s1 y = rbt_color s y
      \<and> (if rbt_color s1 y = RBT_BLACK then std_rbtree_balanceonremove s1 x else Some s1) = Some s2
      \<and> rb_tree s2 T \<and> rbt_ok (rbt_color s2) T \<and> cl (rbt_color s2) T = RBT_BLACK \<and> rbt_color s2 0 = RBT_BLACK
      \<and> inorder T = before k @ inorder l @ inorder r @ after k \<and> rb_rest s2 = rb_rest s"
proof -
  obtain c where c: "l = Leaf \<and> c = r \<or> r = Leaf \<and> c = l" using leaf by auto
  from remove_splice_ok [OF tree c] obtain s1 where
    s1: "remove_splice s y = (s1, root_ptr c)" "rb_tree s1 (plug c k)" "rbt_parent s1 (root_ptr c) = up k"
      "rb_rest s1 = rb_rest s" "rbt_color s1 = rbt_color s"
    by blast
  have in_c: "inorder (plug c k) = before k @ inorder l @ inorder r @ after k"
    using c by (auto simp: inorder_plug)
  have "rbt_ok (rbt_color s) (Node l y r) \<and> kok (rbt_color s) (bh (rbt_color s) (Node l y r)) (rbt_color s y) k"
    using rbt_ok_plug [of "rbt_color s" "Node l y r" k] ok by auto
  then have okc: "rbt_ok (rbt_color s) c" "rbt_color s y = RBT_RED \<Longrightarrow> cl (rbt_color s) c = RBT_BLACK"
    "kok (rbt_color s) (bh (rbt_color s) c + (if rbt_color s y = RBT_BLACK then 1 else 0)) (rbt_color s y) k"
    using c by auto
  have dc: "distinct (inorder c)" using s1(2) by (simp add: rb_tree_focus)
  show ?thesis
  proof (cases "rbt_color s y")
    case RBT_RED
    have "rbt_ok (rbt_color s) (plug c k) \<and> cl (rbt_color s) (plug c k) = RBT_BLACK"
      using rbt_ok_plug [of "rbt_color s" c k] okc RBT_RED kok_black by fastforce
    with RBT_RED s1 in_c nil show ?thesis
      by (intro exI [of _ s1] exI [of _ "root_ptr c"] exI [of _ "plug c k"]) simp
  next
    case RBT_BLACK
    have "rbt_ok (black_root (rbt_color s) c) c"
      using rbt_ok_root_black [OF okc(1) dc] by (simp add: black_root_def)
    moreover have "bh (black_root (rbt_color s) c) c + (if cl (rbt_color s) c = RBT_BLACK then 1 else 0)
        = bh (rbt_color s) c + 1"
      using bh_black_root [OF dc] by (cases "cl (rbt_color s) c") auto
    ultimately have "remove_focus s1 c k"
      using s1 okc(3) RBT_BLACK nil by (simp add: remove_focus_def)
    from balanceonremove_ok [OF this] obtain s2 T where
      "std_rbtree_balanceonremove s1 (root_ptr c) = Some s2" "rb_tree s2 T" "rbt_ok (rbt_color s2) T"
      "cl (rbt_color s2) T = RBT_BLACK" "rbt_color s2 0 = RBT_BLACK" "inorder T = inorder (plug c k)"
      "rb_rest s2 = rb_rest s1"
      by blast
    with RBT_BLACK s1 in_c show ?thesis
      by (intro exI [of _ s1] exI [of _ "root_ptr c"] exI [of _ s2] exI [of _ T]) simp
  qed
qed

text \<open>Clearing the links of a node outside the tree.\<close>

abbreviation unlink :: "ptr \<Rightarrow> rbtree_table \<Rightarrow> rbtree_table" where
  "unlink z s \<equiv> set_left z NIL (set_right z NIL (set_parent z NIL s))"

lemma rb_tree_unlink: "rb_tree s t \<Longrightarrow> z \<notin> set_tree t \<Longrightarrow> rb_tree (unlink z s) t"
  by (simp add: rb_tree_def heap_tree_def frame_simps)

lemma rbt_ok_replace:
  assumes "rbt_ok c (plug (Node l z r) k)" and "cl c (plug (Node l z r) k) = RBT_BLACK"
    and "y \<notin> set_tree (plug (Node l z r) k)"
  shows "rbt_ok (c(y := c z)) (plug (Node l y r) k) \<and> cl (c(y := c z)) (plug (Node l y r) k) = RBT_BLACK"
proof -
  have y: "y \<notin> set_tree l" "y \<notin> set_tree r" "y \<notin> ctxt_set k" using assms(3) by (auto simp: set_tree_plug)
  have "rbt_ok c (Node l z r) \<and> kok c (bh c (Node l z r)) (cl c (Node l z r)) k"
    using assms(1,2) rbt_ok_plug by blast
  then have "rbt_ok (c(y := c z)) (Node l y r) \<and> kok (c(y := c z)) (bh (c(y := c z)) (Node l y r)) (cl (c(y := c z)) (Node l y r)) k"
    using y by (auto simp: frame_simps)
  then show ?thesis using rbt_ok_plug by blast
qed

text \<open>The tree after the removal of the node \<open>z\<close> in focus.\<close>

definition remove_result :: "rbtree_table \<Rightarrow> ptr \<Rightarrow> ptr list \<Rightarrow> rbtree_table \<Rightarrow> bool" where
  "remove_result s z ns s' \<longleftrightarrow> (\<exists>s2 T. std_rbtree_remove_node s z = Some s'
     \<and> s' = s2\<lparr>rbtt_numremoved := rbtt_numremoved s2 + 1, rbtt_numinodes := rbtt_numinodes s2 - 1\<rparr>
     \<and> rb_tree s2 T \<and> rbt_ok (rbt_color s2) T \<and> cl (rbt_color s2) T = RBT_BLACK \<and> rbt_color s2 0 = RBT_BLACK
     \<and> inorder T = ns \<and> rb_rest s2 = rb_rest s)"

lemma remove_one_child:
  assumes tree: "rb_tree s (plug (Node l z r) k)" and leaf: "l = Leaf \<or> r = Leaf"
    and ok: "rbt_ok (rbt_color s) (plug (Node l z r) k)" "cl (rbt_color s) (plug (Node l z r) k) = RBT_BLACK"
    and nil: "rbt_color s 0 = RBT_BLACK" and magic: "rbtt_magic s = RBT_MAGIC"
  shows "\<exists>s'. remove_result s z (before k @ inorder l @ inorder r @ after k) s'"
proof -
  from remove_unlink_ok [OF tree leaf ok nil] obtain s1 x s2 T where
    u: "remove_splice s z = (s1, x)"
      "(if rbt_color s1 z = RBT_BLACK then std_rbtree_balanceonremove s1 x else Some s1) = Some s2"
      "rb_tree s2 T" "rbt_ok (rbt_color s2) T" "cl (rbt_color s2) T = RBT_BLACK" "rbt_color s2 0 = RBT_BLACK"
      "inorder T = before k @ inorder l @ inorder r @ after k" "rb_rest s2 = rb_rest s"
    by blast
  have "z \<notin> set_tree T"
    using rb_tree_distinct [OF tree] set_inorder [of T] unfolding u(7) by (auto simp: ctxt_set_def)
  from rb_tree_unlink [OF u(3) this] have "rb_tree (unlink z s2) T" .
  moreover have "rbt_left s z = NIL \<or> rbt_right s z = NIL"
    using rb_tree_links [OF tree] leaf by (auto simp: NIL_def)
  ultimately show ?thesis
    using u magic unfolding remove_result_def
    by (intro exI [of _ "(unlink z s2)\<lparr>rbtt_numremoved := rbtt_numremoved s2 + 1, rbtt_numinodes := rbtt_numinodes s2 - 1\<rparr>"]
        exI [of _ "unlink z s2"] exI [of _ T])
      (auto simp: std_rbtree_remove_node_def RBT_DEBUG_CHECK_def Let_def)
qed

lemma remove_two_children:
  assumes tree: "rb_tree s (plug (Node l z r) k)" and two: "l \<noteq> Leaf" "r \<noteq> Leaf"
    and ok: "rbt_ok (rbt_color s) (plug (Node l z r) k)" "cl (rbt_color s) (plug (Node l z r) k) = RBT_BLACK"
    and nil: "rbt_color s 0 = RBT_BLACK" and magic: "rbtt_magic s = RBT_MAGIC"
  shows "\<exists>s'. remove_result s z (before k @ inorder l @ inorder r @ after k) s'"
proof -
  from leftmost_focus [OF two(2)] obtain y yr j where
    y: "r = plug (Node Leaf y yr) j" "before j = []" "y = hd (inorder r)" by blast
  let ?k = "j @ WentRight l z # k"
  have foc: "plug (Node l z r) k = plug (Node Leaf y yr) ?k" by (simp add: plug_append y(1))
  have seq: "inorder r = y # inorder yr @ after j" using y(1,2) by (simp add: inorder_plug)
  note links = rb_tree_links [OF tree]
  have "linked (rbt_left s) (rbt_right s) (rbt_parent s) z r" using tree by (simp add: rb_tree_focus)
  note lm = leftmost_loop_ok [OF this two(2)]
  have nz: "root_ptr l \<noteq> 0" "root_ptr r \<noteq> 0"
    using tree two linked_root_zero unfolding rb_tree_focus by (auto simp del: linked_root_zero)
  have y0: "y \<noteq> 0" "y \<noteq> z"
    using rb_tree_links(1) [OF tree [unfolded foc]] rb_tree_distinct [OF tree] seq by auto
  have next_y: "std_rbtree_getnext_node s (Some z) = Some (Some y)"
    using lm nz links magic y(3) y0
    by (simp add: std_rbtree_getnext_node_def RBT_DEBUG_CHECK_def NIL_def node_or_null_def)
  from remove_unlink_ok [OF tree [unfolded foc] _ ok [unfolded foc] nil] obtain s1 x s2 T where
    u: "remove_splice s y = (s1, x)"
      "(if rbt_color s1 y = RBT_BLACK then std_rbtree_balanceonremove s1 x else Some s1) = Some s2"
      "rb_tree s2 T" "rbt_ok (rbt_color s2) T" "cl (rbt_color s2) T = RBT_BLACK" "rbt_color s2 0 = RBT_BLACK"
      "inorder T = before ?k @ inorder yr @ after ?k" "rb_rest s2 = rb_rest s"
    by auto
  have T: "inorder T = (before k @ inorder l) @ z # (inorder yr @ after j @ after k)"
    using u(7) y(2) by (simp add: before_append after_append)
  have "distinct (inorder T)" using u(3) by (simp add: rb_tree_def heap_tree_def)
  with T obtain l' r' k' where f: "T = plug (Node l' z r') k'" "before k @ inorder l = before k' @ inorder l'"
    "inorder yr @ after j @ after k = inorder r' @ after k'"
    by (rule focus_at)
  have "y \<in> set_tree r" using seq set_inorder [of r] by (metis list.set_intros(1))
  then have yT: "y \<notin> set_tree T"
    using rb_tree_distinct [OF tree] set_inorder [of T] seq y0 unfolding T by (auto simp: ctxt_set_def)
  from remove_replace_ok [OF u(3) [unfolded f(1)] y0(1) yT [unfolded f(1)]] obtain s3 where
    r: "remove_replace s2 z y = s3" "rb_tree s3 (plug (Node l' y r') k')" "rb_rest s3 = rb_rest s2"
      "rbt_color s3 = (rbt_color s2)(y := rbt_color s2 z)"
    by blast
  let ?T = "plug (Node l' y r') k'"
  have okT: "rbt_ok (rbt_color s3) ?T \<and> cl (rbt_color s3) ?T = RBT_BLACK"
    unfolding r(4) by (rule rbt_ok_replace) (use u(4,5) yT f(1) in auto)
  have inT: "inorder ?T = before k @ inorder l @ inorder r @ after k"
    using f(2,3) seq by (simp add: inorder_plug)
  have "z \<notin> set_tree ?T"
    using rb_tree_distinct [OF tree] set_inorder [of ?T] unfolding inT by (auto simp: ctxt_set_def)
  from rb_tree_unlink [OF r(2) this] have "rb_tree (unlink z s3) ?T" .
  then show ?thesis
    using u r okT inT magic y0 next_y links nz unfolding remove_result_def
    by (intro exI [of _ "(unlink z s3)\<lparr>rbtt_numremoved := rbtt_numremoved s3 + 1, rbtt_numinodes := rbtt_numinodes s3 - 1\<rparr>"]
        exI [of _ "unlink z s3"] exI [of _ ?T])
      (auto simp: std_rbtree_remove_node_def RBT_DEBUG_CHECK_def Let_def NIL_def)
qed

lemma remove_node_ok:
  assumes tab: "rb_table s ns" and z: "z \<in> set ns"
  shows "\<exists>s'. std_rbtree_remove_node s z = Some s' \<and> rb_table s' (remove1 z ns)
      \<and> rb_rest s' = rb_rest (s\<lparr>rbtt_numremoved := rbtt_numremoved s + 1, rbtt_numinodes := rbtt_numinodes s - 1\<rparr>)"
proof -
  obtain t where t: "rb_tree s t" "rbt_ok (rbt_color s) t" "cl (rbt_color s) t = RBT_BLACK" "inorder t = ns"
    using tab by (rule rb_table_tree)
  have nil: "rbt_color s 0 = RBT_BLACK" and magic: "rbtt_magic s = RBT_MAGIC" using tab by (simp_all add: rb_table_def)
  obtain l r k where f: "t = plug (Node l z r) k" using focus_exists z t(4) by (metis set_inorder)
  let ?ns = "before k @ inorder l @ inorder r @ after k"
  have ns: "ns = before k @ inorder l @ z # inorder r @ after k" using t(4) f by (simp add: inorder_plug)
  have "z \<notin> set (before k @ inorder l)" using rb_table_distinct [OF tab] ns by auto
  then have rem: "remove1 z ns = ?ns" using ns by (simp add: remove1_append)
  have "\<exists>s'. remove_result s z ?ns s'"
  proof (cases "l = Leaf \<or> r = Leaf")
    case True
    from remove_one_child [OF t(1) [unfolded f] True t(2,3) [unfolded f] nil magic] show ?thesis .
  next
    case False
    then have "l \<noteq> Leaf" "r \<noteq> Leaf" by auto
    from remove_two_children [OF t(1) [unfolded f] this t(2,3) [unfolded f] nil magic] show ?thesis .
  qed
  then obtain s' s2 T where r: "std_rbtree_remove_node s z = Some s'"
      "s' = s2\<lparr>rbtt_numremoved := rbtt_numremoved s2 + 1, rbtt_numinodes := rbtt_numinodes s2 - 1\<rparr>"
      "rb_tree s2 T" "rbt_ok (rbt_color s2) T" "cl (rbt_color s2) T = RBT_BLACK" "rbt_color s2 0 = RBT_BLACK"
      "inorder T = ?ns" "rb_rest s2 = rb_rest s"
    unfolding remove_result_def by blast
  note rest = rb_rest_fields [OF r(8)]
  have cmp: "compare_val s' = compare_val s"
    by (rule compare_val_cong) (simp add: r(2) rb_rest_compare [OF r(8)])
  have "rb_tree s' T" using r(2,3) by (simp add: rb_tree_def)
  moreover have "key_sorted (compare_val s) (map (rbt_data s) ns)" using tab by (simp add: rb_table_def)
  then have "key_sorted (compare_val s) (map (rbt_data s) (remove1 z ns))"
    unfolding rem by (auto simp: ns key_sorted_def sorted_wrt_append)
  moreover have "rbt_data s ` set (remove1 z ns) \<subseteq> keys"
    using tab set_remove1_subset [of z ns] unfolding rb_table_def by blast
  moreover have "rbtt_numinodes s - 1 = of_nat (length (remove1 z ns))"
  proof -
    have "rbtt_numinodes s = of_nat (Suc (length (remove1 z ns)))"
      using tab z length_pos_if_in_set [OF z] by (simp add: rb_table_def length_remove1 del: of_nat_Suc)
    then show ?thesis by simp
  qed
  ultimately have "rb_table s' (remove1 z ns)"
    using r(2,4-7) rest magic unfolding rb_table_def cmp rem by auto
  moreover have "rb_rest s' = rb_rest (s\<lparr>rbtt_numremoved := rbtt_numremoved s + 1, rbtt_numinodes := rbtt_numinodes s - 1\<rparr>)"
    using r(2,8) rest by simp
  ultimately show ?thesis using r(1) by blast
qed

lemma rb_remove_ok:
  assumes tab: "rb_table s ns" and ko: "key_order keys (compare_val s)" and d: "d \<noteq> 0"
  shows "\<exists>s' r. std_rbtree_remove s d = Some (s', r) \<and> compare_val s' = compare_val s \<and> rbt_data s' = rbt_data s
      \<and> (if \<forall>n\<in>set ns. node_cmp s d n \<noteq> 0 then s' = s \<and> r = 0
         else \<exists>x\<in>set ns. node_cmp s d x = 0 \<and> r = rbt_data s x \<and> rb_table s' (remove1 x ns)
            \<and> rbtt_numfrees s' = rbtt_numfrees s + 1)"
proof -
  from getexact_node_ok [OF tab ko d] obtain q where
    q: "std_rbtree_getexact_node s d = Some q" "case q of None \<Rightarrow> \<forall>n\<in>set ns. node_cmp s d n \<noteq> 0
      | Some n \<Rightarrow> n \<in> set ns \<and> node_cmp s d n = 0" by blast
  have chk: "RBT_DEBUG_CHECK s (d \<noteq> 0)" using rb_table_check [OF tab] d by simp
  show ?thesis
  proof (cases q)
    case None
    then show ?thesis using q chk by (simp add: std_rbtree_remove_def)
  next
    case (Some x)
    with q have x: "x \<in> set ns" "node_cmp s d x = 0" by auto
    from remove_node_ok [OF tab x(1)] obtain s' where
      r: "std_rbtree_remove_node s x = Some s'" "rb_table s' (remove1 x ns)"
        "rb_rest s' = rb_rest (s\<lparr>rbtt_numremoved := rbtt_numremoved s + 1, rbtt_numinodes := rbtt_numinodes s - 1\<rparr>)"
      by blast
    note rest = rb_rest_fields [OF r(3)]
    let ?s = "s'\<lparr>rbtt_numfrees := rbtt_numfrees s' + 1\<rparr>"
    have cmp: "compare_val ?s = compare_val s'" "compare_val s' = compare_val s"
      by (rule compare_val_cong; simp add: rb_rest_compare [OF r(3)])+
    have "rb_table ?s (remove1 x ns)"
      using r(2) unfolding rb_table_def cmp(1) by (simp add: rb_tree_def)
    then show ?thesis using q Some r rest x chk cmp
      by (intro exI [of _ ?s] exI [of _ "rbt_data s x"]) (auto simp: std_rbtree_remove_def Let_def)
  qed
qed

end
