(* ===== verification/RbWalk.thy ===== *)
theory RbWalk
  imports RbApi
begin

text \<open>
  The tree walks of \<open>src/std_rbtree.c\<close>: the recursive walk \<open>std_rbtree_rwalk\<close> and the
  iterative \<open>std_rbtree_walk\<close> with its count, its callback that can stop the walk and its
  two orders. A callback sees the data it is called with; its answer may depend on the
  calls before, so it is a function of the log of those calls. Callbacks do not change the
  table.
\<close>

section \<open>The recursive walk\<close>

partial_function (option) std_rbtree_rwalk_node :: "rbtree_table \<Rightarrow> ptr \<Rightarrow> ptr list \<Rightarrow> ptr list option" where
  "std_rbtree_rwalk_node rbtt x log =
    (if x \<noteq> NIL then
       Option.bind (std_rbtree_rwalk_node rbtt (rbt_left rbtt x) log)
         (\<lambda>log. std_rbtree_rwalk_node rbtt (rbt_right rbtt x) (log @ [rbt_data rbtt x]))
     else Some log)"

definition std_rbtree_rwalk :: "rbtree_table \<Rightarrow> ptr list option" where
  "std_rbtree_rwalk rbtt =
    (if rbtt_magic rbtt \<noteq> RBT_MAGIC then None else std_rbtree_rwalk_node rbtt (rbtt_root rbtt) [])"

section \<open>The iterative walk\<close>

datatype walk_dir = RBT_WALKDOWN | RBT_WALKUP | RBT_WALKRIGHT

definition RBT_INORDERWALK :: int where "RBT_INORDERWALK = 0"
definition RBT_PREORDERWALK :: int where "RBT_PREORDERWALK = 1"

text \<open>
  \<open>RBTUSERCALLBACK\<close>: one visit is counted; a callback that answers non-zero sets the count
  to 0. \<open>walk_fn\<close> is None for a NULL pointer.
\<close>

definition RBTUSERCALLBACK ::
    "(ptr list \<Rightarrow> ptr \<Rightarrow> bool) option \<Rightarrow> ptr \<Rightarrow> u64 \<times> ptr list \<Rightarrow> u64 \<times> ptr list" where
  "RBTUSERCALLBACK walk_fn x st =
    (case st of (lcnt, log) \<Rightarrow>
       let lcnt = lcnt - 1 in
       (case walk_fn of
          None \<Rightarrow> (lcnt, log)
        | Some f \<Rightarrow> (if f log x then 0 else lcnt, log @ [x])))"

text \<open>The result: the node where the walk stopped, None for the null pointer, and the log.\<close>

partial_function (option) walk_loop ::
    "rbtree_table \<Rightarrow> (ptr list \<Rightarrow> ptr \<Rightarrow> bool) option \<Rightarrow> int \<Rightarrow> ptr \<Rightarrow> walk_dir \<Rightarrow> u64 \<times> ptr list
      \<Rightarrow> (ptr option \<times> ptr list) option" where
  "walk_loop rbtt walk_fn walk x dir st =
    (if fst st \<noteq> 0 \<and> x \<noteq> NIL then
       (case dir of
          RBT_WALKDOWN \<Rightarrow>
            if rbt_left rbtt x \<noteq> NIL then
              walk_loop rbtt walk_fn walk (rbt_left rbtt x) RBT_WALKDOWN
                (if walk = RBT_PREORDERWALK then RBTUSERCALLBACK walk_fn (rbt_data rbtt x) st else st)
            else walk_loop rbtt walk_fn walk x RBT_WALKRIGHT (RBTUSERCALLBACK walk_fn (rbt_data rbtt x) st)
        | RBT_WALKRIGHT \<Rightarrow>
            if rbt_right rbtt x = NIL then
              (let y = x; x = rbt_parent rbtt x in
               if x = NIL then Some (None, snd st)
               else if y = rbt_left rbtt x then
                 walk_loop rbtt walk_fn walk x RBT_WALKRIGHT
                   (if walk = RBT_INORDERWALK then RBTUSERCALLBACK walk_fn (rbt_data rbtt x) st else st)
               else walk_loop rbtt walk_fn walk x RBT_WALKUP st)
            else walk_loop rbtt walk_fn walk (rbt_right rbtt x) RBT_WALKDOWN st
        | RBT_WALKUP \<Rightarrow>
            (let y = x; x = rbt_parent rbtt x in
             if x = NIL then Some (None, snd st)
             else if y = rbt_left rbtt x then
               walk_loop rbtt walk_fn walk x RBT_WALKRIGHT
                 (if walk = RBT_INORDERWALK then RBTUSERCALLBACK walk_fn (rbt_data rbtt x) st else st)
             else walk_loop rbtt walk_fn walk x RBT_WALKUP st))
     else Some (Some x, snd st))"

definition std_rbtree_walk_node ::
    "rbtree_table \<Rightarrow> ptr option \<Rightarrow> (ptr list \<Rightarrow> ptr \<Rightarrow> bool) option \<Rightarrow> int \<Rightarrow> int
      \<Rightarrow> (ptr option \<times> ptr list) option" where
  "std_rbtree_walk_node rbtt x walk_fn cnt flag =
    (if \<not> RBT_DEBUG_CHECK rbtt True then None
     else let walk = flag AND 1;
              lcnt = (if cnt = 0 then 0xffffffff else word_of_int cnt)
          in (case x of
                None \<Rightarrow> walk_loop rbtt walk_fn walk (rbtt_root rbtt) RBT_WALKDOWN (lcnt, [])
              | Some x \<Rightarrow> walk_loop rbtt walk_fn walk x RBT_WALKRIGHT (lcnt, [])))"

definition std_rbtree_walk ::
    "rbtree_table \<Rightarrow> ptr \<Rightarrow> (ptr list \<Rightarrow> ptr \<Rightarrow> bool) option \<Rightarrow> int \<Rightarrow> int \<Rightarrow> (ptr \<times> ptr list) option" where
  "std_rbtree_walk rbtt data walk_fn cnt flag =
    (if \<not> RBT_DEBUG_CHECK rbtt True then None
     else (case (if data \<noteq> 0 then std_rbtree_getexactornext_node rbtt data else Some None) of
       None \<Rightarrow> None
     | Some x \<Rightarrow>
         (case std_rbtree_walk_node rbtt x walk_fn cnt flag of
            None \<Rightarrow> None
          | Some (y, log) \<Rightarrow>
              Some (case y of None \<Rightarrow> 0 | Some y \<Rightarrow> if y = NIL then 0 else rbt_data rbtt y, log))))"

section \<open>What a walk visits\<close>

text \<open>The visits of a sequence of nodes: the count and the callback end it early.\<close>

fun visits :: "(ptr list \<Rightarrow> ptr \<Rightarrow> bool) \<Rightarrow> nat \<Rightarrow> ptr list \<Rightarrow> ptr list \<Rightarrow> ptr list" where
  "visits f 0 log xs = log"
| "visits f n log [] = log"
| "visits f (Suc n) log (x # xs) = (if f log x then log @ [x] else visits f n (log @ [x]) xs)"

lemma visits_all: "length xs \<le> n \<Longrightarrow> visits (\<lambda>_ _. False) n log xs = log @ xs"
  by (induction "\<lambda>(_ :: ptr list) (_ :: ptr). False" n log xs rule: visits.induct) auto

lemma visits_take: "visits (\<lambda>_ _. False) n log xs = log @ take n xs"
  by (induction "\<lambda>(_ :: ptr list) (_ :: ptr). False" n log xs rule: visits.induct) auto

lemma visits_Nil [simp]: "visits f n log [] = log"
  by (cases n) auto

lemma visits_zero_word [simp]: "visits f (unat (0 :: u64)) log xs = log"
  by simp

lemma visits_step:
  assumes "(lcnt :: u64) \<noteq> 0"
  shows "visits f (unat lcnt) log (x # xs) =
    (case RBTUSERCALLBACK (Some f) x (lcnt, log) of (lcnt', log') \<Rightarrow> visits f (unat lcnt') log' xs)"
proof -
  obtain n where "unat lcnt = Suc n" using assms by (metis not0_implies_Suc unat_eq_zero)
  moreover from this have "unat (lcnt - 1) = n" using assms by (simp add: unat_minus_one)
  ultimately show ?thesis by (simp add: RBTUSERCALLBACK_def Let_def)
qed

lemma rwalk_node_ok:
  assumes "linked (rbt_left s) (rbt_right s) P q t"
  shows "std_rbtree_rwalk_node s (root_ptr t) log = Some (log @ map (rbt_data s) (inorder t))"
  using assms
proof (induction t arbitrary: q log)
  case Leaf
  then show ?case by (subst std_rbtree_rwalk_node.simps) (simp add: NIL_def)
next
  case (Node l a r)
  then show ?case by (subst std_rbtree_rwalk_node.simps) (auto simp: NIL_def)
qed

text \<open>
  Where the iterative walk stands: on the way down into the focus, to the right of a visited
  node, or on the way up from a finished subtree. What is left to visit follows from the focus.
\<close>

abbreviation walked :: "rbtree_table \<Rightarrow> (ptr list \<Rightarrow> ptr \<Rightarrow> bool) \<Rightarrow> ptr \<Rightarrow> walk_dir \<Rightarrow> u64 \<times> ptr list \<Rightarrow> ptr list \<Rightarrow> bool" where
  "walked s f x dir st rest \<equiv> \<exists>r. walk_loop s (Some f) RBT_INORDERWALK x dir st
     = Some (r, visits f (unat (fst st)) (snd st) (map (rbt_data s) rest))"

lemma walked_stop: "fst st = 0 \<Longrightarrow> walked s f x dir st rest"
  by (subst walk_loop.simps) simp

lemma walked_visit:
  assumes "fst st \<noteq> 0" and "walked s f x' dir' (RBTUSERCALLBACK (Some f) (rbt_data s a) st) rest"
    and "walk_loop s (Some f) RBT_INORDERWALK x dir st =
      walk_loop s (Some f) RBT_INORDERWALK x' dir' (RBTUSERCALLBACK (Some f) (rbt_data s a) st)"
  shows "walked s f x dir st (a # rest)"
  using assms visits_step [of "fst st" f "snd st" "rbt_data s a" "map (rbt_data s) rest"]
  by (cases st; cases "RBTUSERCALLBACK (Some f) (rbt_data s a) st") simp

text \<open>Going up, given what happens to the right of the nodes met on the way.\<close>

lemma walk_up_ok:
  assumes "rb_tree s (plug t k)" and "t \<noteq> Leaf" and "dir = RBT_WALKUP \<or> dir = RBT_WALKRIGHT \<and> rbt_right s (root_ptr t) = 0"
    and right: "\<And>l a r k' st. rb_tree s (plug (Node l a r) k') \<Longrightarrow> length (inorder r @ after k') < length (after k)
      \<Longrightarrow> walked s f a RBT_WALKRIGHT st (inorder r @ after k')"
  shows "walked s f (root_ptr t) dir st (after k)"
  using assms
proof (induction k arbitrary: t dir st)
  case Nil
  then obtain l a r where t: "t = Node l a r" by (cases t) auto
  note links = rb_tree_links [OF Nil.prems(1) [unfolded t]]
  show ?case
  proof (cases "fst st = 0")
    case False
    then show ?thesis using Nil.prems(3) links t
      by (subst walk_loop.simps) (auto simp: NIL_def Let_def)
  qed (rule walked_stop)
next
  case (Cons h k)
  from Cons.prems(2) obtain l a r where t: "t = Node l a r" by (cases t) auto
  note links = rb_tree_links [OF Cons.prems(1) [unfolded t]]
  show ?case
  proof (cases "fst st = 0")
    case True
    then show ?thesis by (rule walked_stop)
  next
    case go: False
    show ?thesis
    proof (cases h)
      case (WentLeft b u)
      have foc: "rb_tree s (plug (Node t b u) k)" using Cons.prems(1) WentLeft by simp
      note up = rb_tree_links [OF foc]
      have step: "walk_loop s (Some f) RBT_INORDERWALK (root_ptr t) dir st =
        walk_loop s (Some f) RBT_INORDERWALK b RBT_WALKRIGHT (RBTUSERCALLBACK (Some f) (rbt_data s b) st)"
        using Cons.prems(3) go links up WentLeft t
        by (subst walk_loop.simps) (auto simp: NIL_def Let_def)
      have "walked s f b RBT_WALKRIGHT (RBTUSERCALLBACK (Some f) (rbt_data s b) st) (inorder u @ after k)"
        using Cons.prems(4) [OF foc] WentLeft by simp
      from walked_visit [OF go this step] show ?thesis using WentLeft by simp
    next
      case (WentRight u b)
      have foc: "rb_tree s (plug (Node u b t) k)" using Cons.prems(1) WentRight by simp
      note up = rb_tree_links [OF foc]
      have ne: "root_ptr t \<noteq> root_ptr u"
        using rb_tree_distinct [OF foc] links(1) by (cases u) (auto simp: t)
      have step: "walk_loop s (Some f) RBT_INORDERWALK (root_ptr t) dir st =
        walk_loop s (Some f) RBT_INORDERWALK b RBT_WALKUP st"
        using Cons.prems(3) go links up WentRight t ne
        by (subst walk_loop.simps) (auto simp: NIL_def Let_def)
      have "walked s f (root_ptr (Node u b t)) RBT_WALKUP st (after k)"
        by (rule Cons.IH [OF foc]) (use Cons.prems(4) WentRight in auto)
      then show ?thesis using step WentRight by simp
    qed
  qed
qed

text \<open>Going down to the first node, given the same.\<close>

lemma walk_down_ok:
  assumes "rb_tree s (plug t k)" and "t \<noteq> Leaf"
    and right: "\<And>l a r k' st. rb_tree s (plug (Node l a r) k') \<Longrightarrow> length (inorder r @ after k') < length (inorder t @ after k)
      \<Longrightarrow> walked s f a RBT_WALKRIGHT st (inorder r @ after k')"
  shows "walked s f (root_ptr t) RBT_WALKDOWN st (inorder t @ after k)"
  using assms
proof (induction t arbitrary: k)
  case Leaf
  then show ?case by simp
next
  case (Node l a r)
  note links = rb_tree_links [OF Node.prems(1)]
  show ?case
  proof (cases "fst st = 0")
    case True
    then show ?thesis by (rule walked_stop)
  next
    case go: False
    show ?thesis
    proof (cases "l = Leaf")
      case True
      have step: "walk_loop s (Some f) RBT_INORDERWALK (root_ptr (Node l a r)) RBT_WALKDOWN st =
        walk_loop s (Some f) RBT_INORDERWALK a RBT_WALKRIGHT (RBTUSERCALLBACK (Some f) (rbt_data s a) st)"
        using links go True by (subst walk_loop.simps) (simp add: NIL_def)
      have "walked s f a RBT_WALKRIGHT (RBTUSERCALLBACK (Some f) (rbt_data s a) st) (inorder r @ after k)"
        using Node.prems(3) [OF Node.prems(1)] by simp
      from walked_visit [OF go this step] show ?thesis using True by simp
    next
      case False
      have "linked (rbt_left s) (rbt_right s) (rbt_parent s) a l" using Node.prems(1) by (simp add: rb_tree_focus)
      with False have "root_ptr l \<noteq> 0" using linked_root_zero by blast
      then have "walk_loop s (Some f) RBT_INORDERWALK (root_ptr (Node l a r)) RBT_WALKDOWN st =
        walk_loop s (Some f) RBT_INORDERWALK (root_ptr l) RBT_WALKDOWN st"
        using links go by (subst walk_loop.simps) (simp add: NIL_def RBT_INORDERWALK_def RBT_PREORDERWALK_def)
      moreover have "walked s f (root_ptr l) RBT_WALKDOWN st (inorder l @ after (WentLeft a r # k))"
        by (rule Node.IH(1) [of "WentLeft a r # k"]) (use Node.prems False in auto)
      ultimately show ?thesis by simp
    qed
  qed
qed

lemma walk_right_ok:
  assumes "rb_tree s (plug (Node l a r) k)"
  shows "walked s f a RBT_WALKRIGHT st (inorder r @ after k)"
  using assms
proof (induction "length (inorder r @ after k)" arbitrary: l a r k st rule: less_induct)
  case less
  note links = rb_tree_links [OF less.prems]
  show ?case
  proof (cases "r = Leaf")
    case True
    with walk_up_ok [OF less.prems, of RBT_WALKRIGHT f st] links less.hyps show ?thesis by simp
  next
    case False
    show ?thesis
    proof (cases "fst st = 0")
      case True
      then show ?thesis by (rule walked_stop)
    next
      case go: False
      have foc: "rb_tree s (plug r (WentRight l a # k))" using less.prems by simp
      have "linked (rbt_left s) (rbt_right s) (rbt_parent s) a r" using less.prems by (simp add: rb_tree_focus)
      with False have "root_ptr r \<noteq> 0" using linked_root_zero by blast
      then have "walk_loop s (Some f) RBT_INORDERWALK a RBT_WALKRIGHT st =
          walk_loop s (Some f) RBT_INORDERWALK (root_ptr r) RBT_WALKDOWN st"
        using links go by (subst walk_loop.simps) (simp add: NIL_def)
      with walk_down_ok [OF foc False, of f st] less.hyps show ?thesis by simp
    qed
  qed
qed

lemma walk_node_ok:
  assumes "rb_table s ns" and "xs @ ys = ns" and "x = (if xs = [] then None else Some (last xs))"
    and "flag AND 1 = 0"
  shows "\<exists>r. std_rbtree_walk_node s x (Some f) cnt flag =
    Some (r, visits f (unat (if cnt = 0 then 0xffffffff else word_of_int cnt :: u64)) [] (map (rbt_data s) ys))"
proof -
  obtain t where t: "rb_tree s t" "inorder t = ns" "rbtt_root s = root_ptr t" using assms(1) by (rule rb_table_tree)
  have flag: "flag AND 1 = RBT_INORDERWALK" using assms(4) by (simp add: RBT_INORDERWALK_def)
  let ?c = "if cnt = 0 then 0xffffffff else word_of_int cnt :: u64"
  show ?thesis
  proof (cases "xs = []")
    case True
    have "walked s f (root_ptr t) RBT_WALKDOWN (?c, []) ns"
    proof (cases "t = Leaf")
      case True
      then show ?thesis using t(2) by (subst walk_loop.simps) (auto simp: NIL_def)
    next
      case False
      with walk_down_ok [of s t "[]" f "(?c, [])"] walk_right_ok t show ?thesis by simp
    qed
    then show ?thesis using True assms(2,3) t(3) flag rb_table_check [OF assms(1), of True]
      by (simp add: std_rbtree_walk_node_def Let_def)
  next
    case False
    then obtain as a where xs: "xs = as @ [a]" by (cases xs rule: rev_cases) auto
    then have "inorder t = as @ a # ys" using t(2) assms(2) by simp
    moreover have "distinct (inorder t)" using t(1) by (simp add: rb_tree_def heap_tree_def)
    ultimately obtain l r k where "t = plug (Node l a r) k" "ys = inorder r @ after k" using focus_at by metis
    then have "walked s f a RBT_WALKRIGHT (?c, []) ys"
      using walk_right_ok [of s l a r k f "(?c, [])"] t(1) by simp
    then show ?thesis using xs False assms(3) flag rb_table_check [OF assms(1), of True]
      by (simp add: std_rbtree_walk_node_def Let_def)
  qed
qed

end
