(* ===== verification/RbKeys.thy ===== *)
theory RbKeys
  imports RbTable
begin

text \<open>
  The comparison functions the library provides keep the contract \<open>key_order\<close>: the integer
  keys because the comparison goes through a linear order, the byte keys because \<open>memcmp\<close>
  is lexicographic on byte strings of one length.
\<close>

definition ul_key :: "rbtree_table \<Rightarrow> ptr \<Rightarrow> u64" where
  "ul_key s a = word_rcat (rev (read_bytes s (client_at s a) 8))"

definition int_key :: "rbtree_table \<Rightarrow> ptr \<Rightarrow> int" where
  "int_key s a = sint (word_rcat (rev (read_bytes s (client_at s a) 4)) :: u32)"

definition byte_key :: "rbtree_table \<Rightarrow> ptr \<Rightarrow> u8 list" where
  "byte_key s a = read_bytes s (client_at s a) (nat (rbtt_keylength s))"

lemma compare_val_ul: "rbtt_compare s = RBT_ULONG_KEY \<Longrightarrow> a \<in> keys \<Longrightarrow> b \<in> keys \<Longrightarrow>
    compare_val s a b = (if ul_key s a = ul_key s b then 0 else if ul_key s a < ul_key s b then -1 else 1)"
  by (simp add: compare_val_def call_compare_def std_rbtree_compare_ul_def ul_key_def keys_def Let_def)

lemma compare_val_i: "rbtt_compare s = RBT_INT_KEY \<Longrightarrow> a \<in> keys \<Longrightarrow> b \<in> keys \<Longrightarrow>
    compare_val s a b = (if int_key s a = int_key s b then 0 else if int_key s a < int_key s b then -1 else 1)"
  by (simp add: compare_val_def call_compare_def std_rbtree_compare_i_def int_key_def keys_def Let_def)

lemma compare_val_gen: "rbtt_compare s = Gen_cmp \<Longrightarrow> compare_val s a b = memcmp (byte_key s a) (byte_key s b)"
  by (simp add: compare_val_def call_compare_def std_rbtree_gen_cmp_def byte_key_def)

interpretation ulong_keys: key_order keys "compare_val (s\<lparr>rbtt_compare := RBT_ULONG_KEY\<rparr>)" for s
  by (rule key_order_via [where f = "ul_key (s\<lparr>rbtt_compare := RBT_ULONG_KEY\<rparr>)"]) (simp add: compare_val_ul)

interpretation int_keys: key_order keys "compare_val (s\<lparr>rbtt_compare := RBT_INT_KEY\<rparr>)" for s
  by (rule key_order_via [where f = "int_key (s\<lparr>rbtt_compare := RBT_INT_KEY\<rparr>)"]) (simp add: compare_val_i)

interpretation byte_keys: key_order keys "compare_val (s\<lparr>rbtt_compare := Gen_cmp\<rparr>)" for s
proof
  let ?s = "s\<lparr>rbtt_compare := Gen_cmp\<rparr>"
  have len: "length (byte_key ?s a) = nat (rbtt_keylength s)" for a
    by (simp add: byte_key_def read_bytes_def)
  fix a b c
  show "compare_val ?s a b < 0 \<longleftrightarrow> 0 < compare_val ?s b a"
    by (simp add: compare_val_gen bytes.cmp_anti [where n = "nat (rbtt_keylength s)"] len)
  assume "compare_val ?s a b \<le> 0" "compare_val ?s b c \<le> 0"
  then show "compare_val ?s a c \<le> 0"
    using bytes.cmp_trans [of "byte_key ?s a" "nat (rbtt_keylength s)" "byte_key ?s b" "byte_key ?s c"]
    by (simp add: compare_val_gen len)
qed

lemma builtin_key_order:
  assumes "\<forall>f. rbtt_compare s \<noteq> User_cmp f"
  shows "key_order keys (compare_val s)"
proof -
  have eq: "s\<lparr>rbtt_compare := rbtt_compare s\<rparr> = s" by simp
  show ?thesis
    using assms ulong_keys.key_order_axioms [of s] int_keys.key_order_axioms [of s] byte_keys.key_order_axioms [of s]
    by (cases "rbtt_compare s") (metis eq)+
qed

end
