(* ===== verification/RbTheorems.thy ===== *)
theory RbTheorems
  imports RbWalk RbKeys
begin

text \<open>
  The properties of the red-black tree as a client sees it. The hypotheses of each are a
  well-formed table (\<open>rb_table\<close>, established by \<open>std_rbtree_create\<close> and kept by every
  operation) and the contract of the comparison function (\<open>key_order\<close>, kept by the three
  built-in ones).
\<close>

section \<open>A table for the witnesses\<close>

text \<open>The table \<open>std_rbtree_create\<close> returns on memory that holds only zeros.\<close>

definition zero_memory :: rbtree_table where
  "zero_memory = \<lparr>rbt_left = \<lambda>_. 0, rbt_right = \<lambda>_. 0, rbt_parent = \<lambda>_. 0, rbt_color = \<lambda>_. RBT_BLACK,
     rbt_height = \<lambda>_. 0, rbt_data = \<lambda>_. 0, rbtt_magic = 0, rbtt_name = [], rbtt_keyoffset = 0,
     rbtt_keylength = 0, rbtt_root = 0, rbtt_debug = False, rbtt_compare = RBT_ULONG_KEY,
     rbtt_malloc = Libc_fn, rbtt_free = Libc_fn, rbtt_numinodes = 0, rbtt_numinserts = 0,
     rbtt_numremoved = 0, rbtt_nummallocs = 0, rbtt_numfrees = 0, client_mem = \<lambda>_. 0\<rparr>"

definition empty_table :: rbtree_table where
  "empty_table = the (std_rbtree_create (Some zero_memory) ''keys'' 0 8 None None RBT_ULONG_KEY)"

lemma create_rb_table:
  "std_rbtree_create (Some raw) name off len m f cmp = Some s \<Longrightarrow> rb_table s []"
  by (auto simp: std_rbtree_create_def Let_def rb_table_def NIL_def rb_tree_def heap_tree_def key_sorted_def
      intro: exI [of _ Leaf])



text \<open>A table with one node, at address 1, whose data are at address 100.\<close>

definition one_table :: rbtree_table where
  "one_table = empty_table\<lparr>rbtt_root := 1, rbt_data := (\<lambda>_. 0)(1 := 100), rbtt_numinodes := 1, rbtt_numinserts := 1\<rparr>"

lemma one_table_ok: "rb_table one_table [1]"
  unfolding rb_table_def
  by (auto simp: one_table_def empty_table_def std_rbtree_create_def Let_def NIL_def zero_memory_def
      rb_tree_def heap_tree_def key_sorted_def keys_def intro!: exI [of _ "Node Leaf 1 Leaf"])

lemma one_table_order: "key_order keys (compare_val one_table)"
  by (rule builtin_key_order) (simp add: one_table_def empty_table_def std_rbtree_create_def Let_def)

lemma one_table_data [simp]: "rbt_data one_table 1 = 100" "rbt_data one_table (Suc 0) = 100"
  by (simp_all add: one_table_def)

lemma one_table_compare: "compare_val one_table 200 100 = 0"
  by (simp add: compare_val_def call_compare_def std_rbtree_compare_ul_def one_table_def empty_table_def
      std_rbtree_create_def Let_def read_bytes_def bytes_at_def client_at_def zero_memory_def)

section \<open>Properties\<close>

text \<open>
  C1: inserting a datum puts it into the sorted sequence of the table behind every datum that
  is not greater, equal ones included; the red-black rules, the node count and the statistics
  stay right, and the insertion returns.
\<close>

theorem rbtree_insert_sorted:
  assumes "rb_table s ns" and "key_order keys (compare_val s)"
    and "z \<noteq> 0" and "z \<notin> set ns" and "d \<noteq> 0"
  shows "\<exists>s' ns'. std_rbtree_insert s d (Some z) err = Some (s', STD_ERR_OK) \<and> rb_table s' ns'
      \<and> map (rbt_data s') ns' = insert_after (compare_val s) d (map (rbt_data s) ns)
      \<and> set ns' = insert z (set ns) \<and> compare_val s' = compare_val s
      \<and> rbtt_numinserts s' = rbtt_numinserts s + 1 \<and> rbtt_nummallocs s' = rbtt_nummallocs s + 1"
  using assms by (rule rb_insert_ok)

theorem rbtree_insert_sorted_witness:
  "\<exists>s' ns'. std_rbtree_insert one_table 200 (Some 2) 0 = Some (s', STD_ERR_OK) \<and> rb_table s' ns'
      \<and> map (rbt_data s') ns' = [100, 200]"
proof -
  have "insert_after (compare_val one_table) 200 (map (rbt_data one_table) [1]) = [100, 200]"
    by (simp add: one_table_compare)
  moreover have "(2 :: ptr) \<noteq> 0" "(2 :: ptr) \<notin> set [1]" "(200 :: ptr) \<noteq> 0" by simp_all
  note rbtree_insert_sorted [OF one_table_ok one_table_order this, of 0]
  ultimately show ?thesis by metis
qed

text \<open>
  C2: removing a datum returns NULL and changes nothing when no datum of the table compares
  equal; otherwise one node with an equal key leaves the sequence, its data are returned, and
  the table stays a red-black tree with the other nodes in the same order.
\<close>

theorem rbtree_remove_exact:
  assumes "rb_table s ns" and "key_order keys (compare_val s)" and "d \<noteq> 0"
  shows "\<exists>s' r. std_rbtree_remove s d = Some (s', r) \<and> compare_val s' = compare_val s \<and> rbt_data s' = rbt_data s
      \<and> (if \<forall>n\<in>set ns. compare_val s d (rbt_data s n) \<noteq> 0 then s' = s \<and> r = 0
         else \<exists>x\<in>set ns. compare_val s d (rbt_data s x) = 0 \<and> r = rbt_data s x \<and> rb_table s' (remove1 x ns)
            \<and> rbtt_numfrees s' = rbtt_numfrees s + 1)"
  using assms by (rule rb_remove_ok)

theorem rbtree_remove_exact_witness:
  "\<exists>s' r. std_rbtree_remove one_table 100 = Some (s', r) \<and> rbt_data s' = rbt_data one_table"
  using rbtree_remove_exact [OF one_table_ok one_table_order, of 100] by auto









text \<open>The answer of a search for data, as the pointer the C function returns.\<close>

definition answer :: "ptr \<Rightarrow> ptr option" where
  "answer d = (if d = 0 then None else Some d)"

lemma data_answer:
  assumes "rb_table s ns" and "r \<in> set ns \<or> r = 0"
  shows "answer (data_of s (node_or_null r)) = (if r = 0 then None else Some (rbt_data s r))"
  using assms rb_table_distinct [OF assms(1)]
  by (auto simp: answer_def data_of_def node_or_null_def NIL_def rb_table_def keys_def)

lemma find_filter: "find P xs = (case filter P xs of [] \<Rightarrow> None | x # _ \<Rightarrow> Some x)"
  by (induction xs) auto

lemma find_first_of:
  "0 \<notin> set ns \<Longrightarrow> find P (map f ns)
     = (if first_of (filter (P \<circ> f) ns) = 0 then None else Some (f (first_of (filter (P \<circ> f) ns))))"
  by (induction ns) auto

lemma first_of_in: "first_of xs \<in> set xs \<or> first_of xs = 0"
  by (cases xs) auto

lemma next_answer_data:
  assumes tab: "rb_table s ns" and r: "next_answer s d ns r"
  shows "is_exact_or_next (compare_val s) d (map (rbt_data s) ns) (answer (data_of s (node_or_null r)))"
proof -
  have z: "0 \<notin> set ns" using rb_table_distinct [OF tab] by simp
  have "r \<in> set ns \<or> r = 0"
    using r first_of_in [of "filter (\<lambda>n. node_cmp s d n < 0) ns"] by (auto simp: next_answer_def)
  note ans = data_answer [OF tab this]
  show ?thesis
    using r z unfolding ans next_answer_def
    by (auto simp: is_exact_or_next_def is_exact_def find_first_of [OF z] comp_def)
qed

lemma prev_answer_data:
  assumes tab: "rb_table s ns" and r: "prev_answer s d ns r"
  shows "is_exact_or_prev (compare_val s) d (map (rbt_data s) ns) (answer (data_of s (node_or_null r)))"
proof -
  have z: "0 \<notin> set (rev ns)" "0 \<notin> set ns" using rb_table_distinct [OF tab] by simp_all
  have "r \<in> set ns \<or> r = 0"
    using r first_of_in [of "filter (\<lambda>n. 0 < node_cmp s d n) (rev ns)"] by (auto simp: prev_answer_def)
  note ans = data_answer [OF tab this]
  show ?thesis
    using r z unfolding ans prev_answer_def
    by (auto simp: is_exact_or_prev_def is_exact_def rev_map find_first_of [OF z(1)] comp_def)
qed

text \<open>
  C4: the three lookups answer from the sorted sequence: \<open>getexact\<close> an equal datum or NULL;
  \<open>getexactornext\<close> an equal datum, else the first greater one, else NULL; \<open>getexactorprev\<close> an
  equal datum, else the last smaller one, else NULL.
\<close>

theorem rbtree_lookup:
  assumes "rb_table s ns" and "key_order keys (compare_val s)" and "d \<noteq> 0"
  shows "\<exists>a b c. std_rbtree_getexact s d = Some a \<and> is_exact (compare_val s) d (map (rbt_data s) ns) (answer a)
      \<and> std_rbtree_getexactornext s d = Some b
      \<and> is_exact_or_next (compare_val s) d (map (rbt_data s) ns) (answer b)
      \<and> std_rbtree_getexactorprev s d = Some c
      \<and> is_exact_or_prev (compare_val s) d (map (rbt_data s) ns) (answer c)"
proof -
  have chk: "RBT_DEBUG_CHECK s (d \<noteq> 0)" using rb_table_check [OF assms(1)] assms(3) by simp
  from getexact_node_ok [OF assms] obtain r where
    r: "std_rbtree_getexact_node s d = Some r"
      "case r of None \<Rightarrow> \<forall>n\<in>set ns. node_cmp s d n \<noteq> 0 | Some n \<Rightarrow> n \<in> set ns \<and> node_cmp s d n = 0" by blast
  have "is_exact (compare_val s) d (map (rbt_data s) ns) (answer (data_of s r))"
    using r(2) assms(1)
    by (cases r) (auto simp: is_exact_def answer_def data_of_def rb_table_def keys_def)
  moreover from getexactornext_node_ok [OF assms] obtain q where
    "std_rbtree_getexactornext_node s d = Some (node_or_null q)" "next_answer s d ns q" by blast
  moreover from getexactorprev_node_ok [OF assms] obtain p where
    "std_rbtree_getexactorprev_node s d = Some (node_or_null p)" "prev_answer s d ns p" by blast
  ultimately show ?thesis
    using r(1) chk next_answer_data [OF assms(1)] prev_answer_data [OF assms(1)]
    by (simp add: std_rbtree_getexact_def std_rbtree_getexactornext_def std_rbtree_getexactorprev_def)
qed

theorem rbtree_lookup_witness:
  "\<exists>a b c. std_rbtree_getexact one_table 100 = Some a \<and> std_rbtree_getexactornext one_table 100 = Some b
      \<and> std_rbtree_getexactorprev one_table 100 = Some c"
  using rbtree_lookup [OF one_table_ok one_table_order, of 100] by auto

text \<open>an iteration with \<open>getfirst\<close> and \<open>getnext\<close> meets the data of the table one by one and in
  order: the first call returns the first datum, and from the node of the \<open>i\<close>-th datum the next
  call goes to the node of the \<open>i+1\<close>-th, or to NULL behind the last.
\<close>

theorem rbtree_iteration:
  assumes "rb_table s ns"
  shows "std_rbtree_getfirst s = Some (case ns of [] \<Rightarrow> 0 | n # _ \<Rightarrow> rbt_data s n)
    \<and> (\<forall>i < length ns. std_rbtree_getnext_node s (Some (ns ! i)) =
         Some (if i + 1 < length ns then Some (ns ! (i + 1)) else None))"
proof (intro conjI allI impI)
  have z: "0 \<notin> set ns" using rb_table_distinct [OF assms] by simp
  show "std_rbtree_getfirst s = Some (case ns of [] \<Rightarrow> 0 | n # _ \<Rightarrow> rbt_data s n)"
    using getfirst_node_ok [OF assms] rb_table_check [OF assms] z
    by (auto simp: std_rbtree_getfirst_def data_of_def node_or_null_def NIL_def split: list.splits)
  fix i assume i: "i < length ns"
  then have "ns = take i ns @ ns ! i # drop (Suc i) ns" by (simp add: id_take_nth_drop)
  with assms have "std_rbtree_getnext_node s (Some (ns ! i)) = Some (node_or_null (first_of (drop (Suc i) ns)))"
    using getnext_node_ok by metis
  moreover have "first_of (drop (Suc i) ns) = (if i + 1 < length ns then ns ! (i + 1) else 0)"
    by (auto simp: first_of_def split: list.splits)
      (metis nth_via_drop)
  moreover have "Suc i < length ns \<Longrightarrow> ns ! Suc i \<noteq> 0" using z by (metis nth_mem)
  ultimately show "std_rbtree_getnext_node s (Some (ns ! i)) =
      Some (if i + 1 < length ns then Some (ns ! (i + 1)) else None)"
    by (cases "Suc i < length ns") (auto simp: node_or_null_def NIL_def)
qed

theorem rbtree_iteration_witness:
  "std_rbtree_getfirst one_table = Some 100 \<and> std_rbtree_getnext_node one_table (Some 1) = Some None"
  using rbtree_iteration [OF one_table_ok] by simp

text \<open>
  C5: the recursive walk hands every datum of the table to the callback once, in order. The
  iterative inorder walk does the same up to the requested count or the first callback that
  answers non-zero; started at an existing datum it begins \<^emph>\<open>behind\<close> that datum, where the header of the
  library documents the start as inclusive.
\<close>

theorem rbtree_walks:
  assumes "rb_table s (xs @ ys)" and "flag AND 1 = 0"
  shows "std_rbtree_rwalk s = Some (map (rbt_data s) (xs @ ys))
    \<and> (\<exists>r. std_rbtree_walk_node s (if xs = [] then None else Some (last xs)) (Some f) cnt flag =
         Some (r, visits f (unat (if cnt = 0 then 0xffffffff else word_of_int cnt :: u64)) [] (map (rbt_data s) ys)))"
proof
  obtain t where t: "inorder t = xs @ ys" "rbtt_root s = root_ptr t"
    "linked (rbt_left s) (rbt_right s) (rbt_parent s) 0 t"
    using assms(1) by (rule rb_table_tree)
  show "std_rbtree_rwalk s = Some (map (rbt_data s) (xs @ ys))"
    using rwalk_node_ok [OF t(3), of "[]"] t(1,2) assms(1)
    by (simp add: std_rbtree_rwalk_def rb_table_def)
  show "\<exists>r. std_rbtree_walk_node s (if xs = [] then None else Some (last xs)) (Some f) cnt flag =
      Some (r, visits f (unat (if cnt = 0 then 0xffffffff else word_of_int cnt :: u64)) [] (map (rbt_data s) ys))"
    by (rule walk_node_ok [OF assms(1) refl refl assms(2)])
qed

theorem rbtree_walks_witness:
  "std_rbtree_rwalk one_table = Some [100]
    \<and> (\<exists>r. std_rbtree_walk_node one_table None (Some (\<lambda>_ _. False)) 5 0 = Some (r, [100]))"
  using rbtree_walks [of one_table "[]" "[1]" 0 "\<lambda>_ _. False" 5] one_table_ok by (simp add: visits_take)

text \<open>the comparison functions of the library (unsigned long keys, int keys, byte-string keys)
  keep the contract of a comparison function on all data pointers but NULL.
\<close>

theorem builtin_comparisons:
  assumes "\<forall>f. rbtt_compare s \<noteq> User_cmp f"
  shows "key_order keys (compare_val s)"
  using assms by (rule builtin_key_order)

theorem builtin_comparisons_witness: "key_order keys (compare_val zero_memory)"
  by (rule builtin_comparisons) (simp add: zero_memory_def)

text \<open>\<open>std_rbtree_create\<close> on allocated memory returns an empty, well-formed table.\<close>

theorem rbtree_create_empty:
  "\<exists>s. std_rbtree_create (Some raw) name off len m f cmp = Some s \<and> rb_table s [] \<and> rbtt_compare s = cmp
     \<and> rbtt_keylength s = (if cmp = RBT_ULONG_KEY then 8 else if cmp = RBT_INT_KEY then 4 else len)
     \<and> rbtt_keyoffset s = off"
proof -
  obtain s where s: "std_rbtree_create (Some raw) name off len m f cmp = Some s"
    by (simp add: std_rbtree_create_def Let_def)
  then show ?thesis using create_rb_table [OF s]
    by (auto simp: std_rbtree_create_def Let_def)
qed

end
