(* ===== verification/Spec2Isabelle.thy ===== *)
theory Spec2Isabelle
  imports ConfigFile UserPerm SocketTools Directory ShLib SysTools CmdRedir EventServer SocketHandlers SocketService ThreadPool FileIo SocketOp EventUtils EventTree Radical RadicalList RadicalOk RadicalWalk RadicalTheorems RadixOps RadixInv RadixLookup RadixInsert RadixInsertOk RadixRemove RadixTheorems LList Mergesort BitMasks Crc32 StringUtils IpUtils Tlv Prelude ErrorCodes PtrTree RbTree RbOps RbShape RbInsert RbRemove KeyOrder RbTable RbApi RbWalk RbKeys RbTheorems
begin

text \<open>
  Verification library for the SONiC common utilities (\<open>sonic-common-utils\<close>): the C and C++
  routines under \<open>src/src\<close> with their headers under \<open>src/sonic\<close>, file names below being
  relative to \<open>src/\<close>. Each theory translates one part and proves what makes it correct.

  \<^bold>\<open>Conventions.\<close> A pointer is an address (a natural number) and a struct field a function from
  addresses; an array or a buffer is a list, or the part of a byte memory behind its address. Machine
  integers are words where the code relies on their width; sizes and bit lengths are natural numbers.
  A result None of a model function means that the C function does not return a value: a failed
  assertion, an access outside an array, or a loop that does not end. A theorem that says
  \<open>\<exists>y. f x = Some y\<close> therefore includes termination and memory safety. A loop that follows pointers is a
  \<open>partial_function (option)\<close>, so there is no fuel anywhere. What a library outside the repository
  does (an allocator, the resolver, \<open>strtoul\<close>, the comparison or walk callback of a client) is an
  argument.

  \<^bold>\<open>Shared theories.\<close> \<open>Prelude\<close>: integer types, bytes, checked arrays, fact collections. \<open>KeyOrder\<close>:
  the contract of a comparison function (locale \<open>key_order\<close>) and sorted sequences; its interpretations
  are the comparison functions of the sources. \<open>PtrTree\<close>: binary trees in a C heap, contexts and
  rotations, for both trees.

  \<^bold>\<open>Red-black tree\<close> (\<open>src/std_rbtree.c\<close>). \<open>RbTree\<close> and \<open>RbOps\<close> are the model: \<open>rbtree_table\<close> is
  \<open>_rbtree_table\<close> with the node fields and the client memory. \<open>RbShape\<close>, \<open>RbInsert\<close> and \<open>RbRemove\<close>
  prove the red-black invariant through the rotations and the two rebalancing loops; \<open>RbTable\<close> and
  \<open>RbApi\<close> refine a table to its sorted sequence of nodes (\<open>rb_table\<close>), \<open>RbWalk\<close> the walks, \<open>RbKeys\<close>
  the built-in comparisons; \<open>RbTheorems\<close> holds the properties.

  \<^bold>\<open>Linked list and merge sort\<close> (\<open>src/std_llist.c\<close>, \<open>src/std_mergesort.c\<close>). \<open>LList\<close>: \<open>dll\<close> refines
  the links to a sequence, every operation is the list operation. \<open>Mergesort\<close>: the sort returns, is
  stable and equals insertion sort.

  \<^bold>\<open>Radix tree\<close> (\<open>src/std_radix.c\<close>). \<open>RadixTree\<close> and \<open>RadixOps\<close> are the model. \<open>RadixInv\<close> states the
  invariant \<open>rdx_table\<close> and the abstract contents, \<open>routes\<close>: a set of bit strings with their heads.
  \<open>RadixLookup\<close>, \<open>RadixInsert\<close>, \<open>RadixInsertOk\<close> and \<open>RadixRemove\<close> prove lookups, insertion and removal
  over it; \<open>RadixTheorems\<close> holds the properties. Bit lengths are natural numbers: \<open>dbit\<close> is an
  \<open>unsigned short\<close> in the code and would wrap only for keys above 65528 bits, the documented bound is
  256.

  \<^bold>\<open>Change list of a radix tree\<close> (\<open>src/std_radical.c\<close>). \<open>Radical\<close> is the model, on the same table.
  \<open>RadicalList\<close> states the interface of a list of nodes (locale \<open>node_list\<close>) and interprets it on the
  change list by the linked-list theorems; \<open>RadicalOk\<close> proves the invariant \<open>radical_ok\<close> for every
  operation and that the tree is left alone, \<open>RadicalWalk\<close> the walk, which returns because the number of
  visits is counted down; \<open>RadicalTheorems\<close> holds the properties.

  \<^bold>\<open>Small routines.\<close> \<open>ErrorCodes\<close> (\<open>sonic/std_error_codes.h\<close>), \<open>BitMasks\<close> (\<open>src/std_bit_masks.c\<close>,
  \<open>sonic/std_bit_ops.h\<close>), \<open>Crc32\<close> (\<open>src/std_crc32.c\<close>), \<open>StringUtils\<close> (\<open>src/std_string_utils.cpp\<close>),
  \<open>IpUtils\<close> (\<open>src/std_ip_utils.c\<close>), \<open>Tlv\<close> (\<open>sonic/std_tlv.h\<close>): model and properties in one theory each.

  \<^bold>\<open>Transfers of bytes\<close> (\<open>src/std_file_utils.c\<close>, \<open>src/std_socket_tools.cpp\<close>, \<open>src/std_select.c\<close>).
  \<open>FileIo\<close> and \<open>SocketOp\<close> model the loops that repeat a partial or interrupted system call. The kernel
  is an argument, a function from its state and the request to its answer; what a regular file or a
  stream promises is stated in the locales \<open>byte_source\<close>, \<open>reliable_source\<close> and \<open>byte_sink\<close>, and the
  loops are proved to return the whole transfer under them.

  \<^bold>\<open>Threads and sockets\<close> (\<open>src/std_thread_pool.cpp\<close>, \<open>src/std_socket_service.cpp\<close>). Both are step relations
  over explicit states: the code of a thread is cut where other threads can come between, and an
  invariant is proved by induction over the reachable states. \<open>ThreadPool\<close>: no job is lost or started
  twice, no wake-up is lost, what a shutdown does. \<open>SocketService\<close>: every client is watched, in one job,
  or to be closed, as long as nobody closes a descriptor from outside. \<open>SocketHandlers\<close>: the contract of
  the handlers (locale \<open>connection_handlers\<close>) and the protocol the service keeps under it.

  \<^bold>\<open>Events\<close> (\<open>src/std_event_utils.cpp\<close>, \<open>src/std_event_service.cpp\<close>). \<open>EventUtils\<close>: the frame of a
  message, its sending and its receipt are inverse. \<open>EventTree\<close>: the tree of registrations of the event
  service, refined to the set of pairs of a key and a client; publishing reaches each client that
  registered a prefix of the key once. \<open>EventServer\<close>: the handlers and the client side; it interprets
  \<open>connection_handlers\<close> on the event service and joins the layers: a registration made by a client is
  recorded, a published message arrives at the registered clients.

  \<^bold>\<open>Files, users and processes.\<close> \<open>ConfigFile\<close> (\<open>src/std_config_file.cpp\<close>): the map of maps, the reader
  of lines (the buffer holds 1023 characters, which bounds a line) and the writer; what is written is
  read back. \<open>UserPerm\<close> (\<open>src/std_user_perm.cpp\<close>): the permission strings that are accepted and the mode
  they make. \<open>Directory\<close> (\<open>src/std_directory.cpp\<close>): the walk calls its callback once for each entry of a
  finite tree. \<open>ShLib\<close> (\<open>src/std_shlib.c\<close>): loading is all or nothing, over the reference counts of the
  loader (locale \<open>dynamic_loader\<close>). \<open>SocketTools\<close> (\<open>src/std_socket_tools.cpp\<close>): making and connecting
  sockets, which leaks no descriptor (locale \<open>descriptor_table\<close>). \<open>CmdRedir\<close> (\<open>src/std_cmd_redir.c\<close>): the
  threads that relay a terminal, over the socket tools. \<open>SysTools\<close>: time, the parameters of a thread,
  MAC addresses, the table lookup and the place of sysfs (\<open>src/std_time_tools.c\<close>,
  \<open>src/std_thread_tools.c\<close>, \<open>src/std_mac_utils.c\<close>, \<open>src/std_int_mapping_util.c\<close>, \<open>src/std_system.c\<close>).
  The laws of the kernel and of the loader are the \<open>assumes\<close> of the locales; the interpretations show that
  they can be met.

  \<^bold>\<open>Not modelled.\<close> The printing of the trees, which only writes to the terminal; the locks and conditions
  of \<open>src/std_mutex_lock.c\<close> and the headers, whose behaviour is that of the pthread library (\<open>ThreadPool\<close>
  and \<open>SocketService\<close> state what they use of it); the configuration nodes of \<open>src/std_config_node.c\<close>,
  which are calls into libxml2; the unit tests.
\<close>

end
